(* ===== verification/Prelude.thy ===== *)
theory Prelude
  imports Main "HOL-Library.Word"
begin

text \<open>
  What every component of the development shares: the machine types of
  \<^verbatim>\<open>kernel/types.h\<close>, the constants of \<^verbatim>\<open>kernel/param.h\<close>, the outcome of a kernel routine
  and the sequencing of routines, a total-correctness weakest precondition with its
  rules, and the generic facts on words that the address arithmetic of the kernel rests on.
\<close>

unbundle bit_operations_syntax

section \<open>Machine types (kernel/types.h) and parameters (kernel/param.h)\<close>

type_synonym uint8 = "8 word"
type_synonym uint16 = "16 word"
type_synonym uint32 = "32 word"
type_synonym uint64 = "64 word"

text \<open>A C \<^verbatim>\<open>int\<close> is a 32-bit word read through \<^const>\<open>sint\<close>; a \<^verbatim>\<open>uint\<close> is one read through \<^const>\<open>unat\<close>.\<close>

type_synonym cint = "32 word"
type_synonym bytes = "uint8 list"

definition NPROC :: nat where "NPROC = 64"
definition NCPU :: nat where "NCPU = 8"
definition NOFILE :: nat where "NOFILE = 16"
definition NFILE :: nat where "NFILE = 100"
definition NINODE :: nat where "NINODE = 50"
definition NDEV :: nat where "NDEV = 10"
definition ROOTDEV :: uint32 where "ROOTDEV = 1"
definition MAXARG :: nat where "MAXARG = 32"
definition MAXOPBLOCKS :: nat where "MAXOPBLOCKS = 10"
definition LOGSIZE :: nat where "LOGSIZE = MAXOPBLOCKS * 3"
definition NBUF :: nat where "NBUF = MAXOPBLOCKS * 3"
definition FSSIZE :: nat where "FSSIZE = 2000"
definition MAXPATH :: nat where "MAXPATH = 128"

named_theorems params "the values of the parameters of kernel/param.h"

declare NPROC_def [params] NCPU_def [params] NOFILE_def [params] NFILE_def [params]
  NINODE_def [params] NDEV_def [params] ROOTDEV_def [params] MAXARG_def [params]
  MAXOPBLOCKS_def [params] LOGSIZE_def [params] NBUF_def [params] FSSIZE_def [params]
  MAXPATH_def [params]

section \<open>Outcomes of kernel routines\<close>

text \<open>
  A routine runs on a state and either returns a value, calls \<^verbatim>\<open>panic\<close>, does something the
  hardware or the C language gives no meaning to (a store through a null pointer, an access
  outside an array), or puts the calling process to sleep, in which case the state at the
  moment of the switch is kept: the process resumes later, from the loop that called
  \<^verbatim>\<open>sleep\<close>.
\<close>

datatype ('s, 'a) outcome =
    Ok 'a 's
  | Panic string
  | Fault string
  | Sleep 's

type_synonym ('s, 'a) kmon = "'s \<Rightarrow> ('s, 'a) outcome"

abbreviation ret :: "'a \<Rightarrow> ('s, 'a) kmon" where
  "ret \<equiv> Ok"

definition bnd :: "('s, 'a) kmon \<Rightarrow> ('a \<Rightarrow> ('s, 'b) kmon) \<Rightarrow> ('s, 'b) kmon" where
  "bnd m f = (\<lambda>s. case m s of
       Ok a s' \<Rightarrow> f a s'
     | Panic e \<Rightarrow> Panic e
     | Fault e \<Rightarrow> Fault e
     | Sleep s' \<Rightarrow> Sleep s')"

definition thn :: "('s, unit) kmon \<Rightarrow> ('s, 'b) kmon \<Rightarrow> ('s, 'b) kmon" where
  "thn m k = bnd m (\<lambda>_. k)"

definition gets :: "('s \<Rightarrow> 'a) \<Rightarrow> ('s, 'a) kmon" where
  "gets f = (\<lambda>s. Ok (f s) s)"

definition modify :: "('s \<Rightarrow> 's) \<Rightarrow> ('s, unit) kmon" where
  "modify f = (\<lambda>s. Ok () (f s))"

definition panic :: "string \<Rightarrow> ('s, 'a) kmon" where
  "panic e = (\<lambda>s. Panic e)"

definition fault :: "string \<Rightarrow> ('s, 'a) kmon" where
  "fault e = (\<lambda>s. Fault e)"

definition assert_else :: "bool \<Rightarrow> string \<Rightarrow> ('s, unit) kmon" where
  "assert_else b e = (if b then ret () else panic e)"

definition whenM :: "bool \<Rightarrow> ('s, unit) kmon \<Rightarrow> ('s, unit) kmon" where
  "whenM b m = (if b then m else ret ())"

text \<open>A \<^verbatim>\<open>for\<close> loop over consecutive indices whose body does not leave the loop early.\<close>

fun for_each :: "'i list \<Rightarrow> ('i \<Rightarrow> ('s, unit) kmon) \<Rightarrow> ('s, unit) kmon" where
  "for_each [] f = ret ()"
| "for_each (i # is) f = thn (f i) (for_each is f)"

lemmas monad_defs = bnd_def thn_def gets_def modify_def panic_def fault_def
  assert_else_def whenM_def

text \<open>The monad laws, and the evaluation of one step on a given state.\<close>

lemma bnd_ret [simp]: "bnd (ret a) f = f a"
  by (simp add: monad_defs)

lemma bnd_assoc: "bnd (bnd m f) g = bnd m (\<lambda>a. bnd (f a) g)"
  by (rule ext) (simp add: bnd_def split: outcome.splits)

lemma bnd_return [simp]: "bnd m ret = m"
  by (rule ext) (simp add: monad_defs split: outcome.splits)

lemma bnd_Ok: "m s = Ok a s' \<Longrightarrow> bnd m f s = f a s'"
  by (simp add: bnd_def)

lemma thn_Ok: "m s = Ok u s' \<Longrightarrow> thn m k s = k s'"
  by (simp add: thn_def bnd_def)

lemma bnd_OkE:
  assumes "bnd m f s = Ok b t"
  obtains a s' where "m s = Ok a s'" and "f a s' = Ok b t"
  using assms by (auto simp: bnd_def split: outcome.splits)

lemma thn_OkE:
  assumes "thn m k s = Ok b t"
  obtains s' where "m s = Ok () s'" and "k s' = Ok b t"
  using assms unfolding thn_def by (auto elim: bnd_OkE)

lemma run_simps [simp]:
  "gets f s = Ok (f s) s"
  "modify g s = Ok () (g s)"
  "panic e s = Panic e"
  "fault e s = Fault e"
  by (simp_all add: monad_defs)

lemma bnd_run [simp]:
  "bnd (gets f) k s = k (f s) s"
  "bnd (modify g) k' s = k' () (g s)"
  "bnd (panic e) k s = Panic e"
  "bnd (fault e) k s = Fault e"
  by (simp_all add: monad_defs)

lemma thn_run [simp]:
  "thn (ret u) k = k"
  "thn (modify g) k s = k (g s)"
  "thn (panic e) k s = Panic e"
  "thn (fault e) k s = Fault e"
  by (simp_all add: monad_defs)

lemma assert_else_run [simp]:
  "b \<Longrightarrow> assert_else b e = ret ()"
  "\<not> b \<Longrightarrow> assert_else b e = panic e"
  by (simp_all add: assert_else_def)

lemma whenM_run [simp]:
  "b \<Longrightarrow> whenM b m = m"
  "\<not> b \<Longrightarrow> whenM b m = ret ()"
  by (simp_all add: whenM_def)

section \<open>Weakest preconditions\<close>

text \<open>
  \<open>wp m Q s\<close>: from \<open>s\<close> the routine returns, without panicking, faulting or sleeping, and the
  value and the state it returns satisfy \<open>Q\<close>. Routines with a contract have one rule
  of the form \<open>pre s \<Longrightarrow> wp m Q s\<close>, used through \<open>wp_mono\<close>.
\<close>

definition wp :: "('s, 'a) kmon \<Rightarrow> ('a \<Rightarrow> 's \<Rightarrow> bool) \<Rightarrow> 's \<Rightarrow> bool" where
  "wp m Q s \<longleftrightarrow> (\<exists>a s'. m s = Ok a s' \<and> Q a s')"

lemma wp_simps [simp]:
  "wp (ret a) Q s \<longleftrightarrow> Q a s"
  "wp (gets f) Q s \<longleftrightarrow> Q (f s) s"
  "wp (modify g) Q' s \<longleftrightarrow> Q' () (g s)"
  "\<not> wp (panic e) Q s"
  "\<not> wp (fault e) Q s"
  by (simp_all add: wp_def monad_defs)

lemma wp_bnd [simp]: "wp (bnd m f) Q s \<longleftrightarrow> wp m (\<lambda>a. wp (f a) Q) s"
  by (auto simp: wp_def bnd_def split: outcome.splits)

lemma wp_thn [simp]: "wp (thn m k) Q s \<longleftrightarrow> wp m (\<lambda>_. wp k Q) s"
  by (simp add: thn_def)

lemma wp_assert_else [simp]: "wp (assert_else b e) Q s \<longleftrightarrow> b \<and> Q () s"
  by (simp add: assert_else_def)

lemma wp_whenM [simp]: "wp (whenM b m) Q s \<longleftrightarrow> (if b then wp m Q s else Q () s)"
  by (simp add: whenM_def)

lemma wp_mono: "wp m P s \<Longrightarrow> (\<And>a s'. P a s' \<Longrightarrow> Q a s') \<Longrightarrow> wp m Q s"
  by (auto simp: wp_def)

lemma wp_conj: "wp m P s \<Longrightarrow> wp m Q s \<Longrightarrow> wp m (\<lambda>a t. P a t \<and> Q a t) s"
  by (auto simp: wp_def)

lemma wp_run: "m s = Ok a s' \<Longrightarrow> wp m Q s \<longleftrightarrow> Q a s'"
  by (simp add: wp_def)

lemma wpE:
  assumes "wp m Q s"
  obtains a s' where "m s = Ok a s'" and "Q a s'"
  using assms by (auto simp: wp_def)

text \<open>A loop over a range: each round takes the invariant one step further.\<close>

lemma for_each_upt:
  assumes "\<And>i t. k \<le> i \<Longrightarrow> i < n \<Longrightarrow> P i t \<Longrightarrow> \<exists>u. f i t = Ok () u \<and> P (Suc i) u" and "P k s" and "k \<le> n"
  shows "\<exists>t. for_each [k..<n] f s = Ok () t \<and> P n t"
  using assms
proof (induction "n - k" arbitrary: k s)
  case (Suc d)
  then have k: "k < n" by simp
  then obtain u where u: "f k s = Ok () u" "P (Suc k) u" using Suc.prems(1,2) by blast
  have "\<exists>t. for_each [Suc k..<n] f u = Ok () t \<and> P n t" using Suc.hyps(2) k u(2) by (intro Suc.hyps(1) Suc.prems(1)) auto
  then show ?case using u(1) k by (simp add: upt_conv_Cons thn_Ok)
qed simp

text \<open>The rule for \<^const>\<open>for_each\<close>: an invariant indexed by what is left of the list.\<close>

lemma wp_for_each:
  assumes "I is s"
    and "\<And>i is s. I (i # is) s \<Longrightarrow> wp (f i) (\<lambda>_. I is) s"
    and "\<And>s. I [] s \<Longrightarrow> Q () s"
  shows "wp (for_each is f) Q s"
  using assms(1)
proof (induction "is" arbitrary: s)
  case Nil
  then show ?case by (simp add: assms(3))
next
  case (Cons i "is")
  then show ?case by (auto intro: wp_mono [OF assms(2)])
qed

section \<open>Frames\<close>

text \<open>\<open>keeps f m\<close>: when \<open>m\<close> returns, the part \<open>f\<close> of the state is what it was.\<close>

definition keeps :: "('s \<Rightarrow> 'b) \<Rightarrow> ('s, 'a) kmon \<Rightarrow> bool" where
  "keeps f m \<longleftrightarrow> (\<forall>s a t. m s = Ok a t \<longrightarrow> f t = f s)"

named_theorems keeps_intros "frame rules, one for each way of composing routines and for each routine"

lemma keepsD: "keeps f m \<Longrightarrow> m s = Ok a t \<Longrightarrow> f t = f s"
  by (simp add: keeps_def)

lemma keeps_ret [keeps_intros]: "keeps f (ret a)"
  by (simp add: keeps_def)

lemma keeps_stop [keeps_intros]: "keeps f (panic e)" "keeps f (fault e)" "keeps f Sleep"
  by (simp_all add: keeps_def)

lemma keeps_gets [keeps_intros]: "keeps f (gets g)"
  by (simp add: keeps_def)

lemma keeps_modify: "(\<And>s. f (g s) = f s) \<Longrightarrow> keeps f (modify g)"
  by (auto simp: keeps_def)

lemma keeps_bnd [keeps_intros]: "keeps f m \<Longrightarrow> (\<And>a. keeps f (k a)) \<Longrightarrow> keeps f (bnd m k)"
  unfolding keeps_def by (metis bnd_OkE)

lemma keeps_thn [keeps_intros]: "keeps f m \<Longrightarrow> keeps f k \<Longrightarrow> keeps f (thn m k)"
  unfolding thn_def by (rule keeps_bnd)

lemma keeps_if [keeps_intros]: "(b \<Longrightarrow> keeps f m) \<Longrightarrow> (\<not> b \<Longrightarrow> keeps f k) \<Longrightarrow> keeps f (if b then m else k)"
  by simp

lemma keeps_assert_else [keeps_intros]: "keeps f (assert_else b e)"
  by (simp add: assert_else_def keeps_intros)

lemma keeps_whenM [keeps_intros]: "keeps f m \<Longrightarrow> keeps f (whenM b m)"
  by (simp add: whenM_def keeps_intros)

lemma keeps_for_each [keeps_intros]: "(\<And>i. keeps f (g i)) \<Longrightarrow> keeps f (for_each is g)"
  by (induction "is") (auto intro: keeps_intros)

lemma keeps_case_option [keeps_intros]:
  "keeps f m \<Longrightarrow> (\<And>x. keeps f (k x)) \<Longrightarrow> keeps f (case y of None \<Rightarrow> m | Some x \<Rightarrow> k x)"
  by (cases y) auto

lemma keeps_case_prod [keeps_intros]: "(\<And>x y. keeps f (k x y)) \<Longrightarrow> keeps f (case z of (x, y) \<Rightarrow> k x y)"
  by (cases z) auto

lemma keeps_Let [keeps_intros]: "(\<And>x. keeps f (k x)) \<Longrightarrow> keeps f (let x = y in k x)"
  by simp

section \<open>Words\<close>

named_theorems align_simps "facts on rounding and alignment"

lemma and_not_mask_eq: "a AND NOT (mask n) = push_bit n (drop_bit n (a::'a::len word))"
  by (rule bit_eqI) (auto simp: bit_simps)

lemma unat_push_drop:
  assumes "n < LENGTH('a)"
  shows "unat (push_bit n (drop_bit n (a::'a::len word))) = unat a div 2 ^ n * 2 ^ n"
proof -
  have "unat a div 2 ^ n * 2 ^ n < 2 ^ LENGTH('a)"
    by (meson div_times_less_eq_dividend le_less_trans unsigned_less)
  then show ?thesis
    by (simp only: unsigned_push_bit_eq unsigned_drop_bit_eq)
       (simp add: push_bit_eq_mult drop_bit_eq_div take_bit_eq_mod)
qed

lemma unat_two_power: "n < LENGTH('a) \<Longrightarrow> unat (2 ^ n :: 'a::len word) = 2 ^ n"
proof -
  assume n: "n < LENGTH('a)"
  have "unat (push_bit n (1 :: 'a word)) = take_bit LENGTH('a) (push_bit n 1)"
    by (simp only: unsigned_push_bit_eq unsigned_1)
  then show ?thesis using n by (simp add: push_bit_eq_mult take_bit_eq_mod)
qed

lemma aligned_range_iff:
  fixes x a :: "'a::len word"
  assumes "unat a mod 2 ^ n = 0" and n: "n < LENGTH('a)"
  shows "x - a < 2 ^ n \<longleftrightarrow> unat x div 2 ^ n = unat a div 2 ^ n"
proof -
  let ?N = "2 ^ n :: nat" and ?M = "2 ^ (LENGTH('a) - n) :: nat"
  have NM: "(2::nat) ^ LENGTH('a) = ?N * ?M" using n by (simp flip: power_add)
  obtain q where a: "unat a = ?N * q" using assms(1) by fastforce
  have N: "unat (2 ^ n :: 'a word) = ?N"
    using n by (rule unat_two_power)
  have lt: "x - a < 2 ^ n \<longleftrightarrow> unat (x - a) < ?N" unfolding word_less_nat_alt N ..
  show ?thesis
  proof (cases "unat a \<le> unat x")
    case True
    then have "unat (x - a) = unat x - ?N * q" using a by (simp add: unat_sub_if')
    moreover have "unat x - ?N * q < ?N \<longleftrightarrow> unat x div ?N = q"
    proof
      assume "unat x - ?N * q < ?N"
      then show "unat x div ?N = q" using True a by (intro div_nat_eqI) auto
    next
      assume "unat x div ?N = q"
      then have "unat x = ?N * q + unat x mod ?N" using mult_div_mod_eq[of ?N "unat x"] by simp
      then have "unat x - ?N * q = unat x mod ?N" by linarith
      then show "unat x - ?N * q < ?N" by simp
    qed
    ultimately show ?thesis by (simp add: lt a)
  next
    case False
    have "?N * q < ?N * ?M" using unsigned_less[of a] a NM by metis
    then have "q < ?M" by simp
    then have "?N * Suc q \<le> ?N * ?M" by (intro mult_le_mono) auto
    then have "?N \<le> 2 ^ LENGTH('a) + unat x - unat a" using a NM by simp
    then have "\<not> unat (x - a) < ?N" using False by (simp add: unat_sub_if')
    moreover have "unat x div ?N < q" using False a by (simp add: div_less_iff_less_mult mult.commute)
    ultimately show ?thesis by (simp add: lt a)
  qed
qed

lemma unat_add_small:
  "unat (x :: 'a::len word) + unat y < 2 ^ LENGTH('a) \<Longrightarrow> unat (x + y) = unat x + unat y"
  by (simp add: unat_word_ariths)

lemma unat_of_nat_small: "n < 2 ^ LENGTH('a) \<Longrightarrow> unat (of_nat n :: 'a::len word) = n"
  by (simp add: unat_of_nat take_bit_nat_eq_self)

lemma unat_lt_32: "unat (x :: uint32) < 2 ^ 32"
  by (rule order.strict_trans2 [OF unsigned_less]) simp

lemma sint_of_int_small: "0 \<le> i \<Longrightarrow> i < 2 ^ 31 \<Longrightarrow> sint (of_int i :: cint) = i"
  by (simp add: sint_sbintrunc' signed_take_bit_int_eq_self)

lemma sint_unat: "unat x < 2 ^ 31 \<Longrightarrow> sint (x :: cint) = int (unat x)"
proof -
  assume "unat x < 2 ^ 31"
  then have "int (unat x) < 2 ^ 31" by (metis of_nat_less_iff of_nat_numeral of_nat_power)
  then show ?thesis using sint_of_int_small [of "int (unat x)"] by simp
qed

lemma unat_minus_one_64: "unat (- 1 :: uint64) = 2 ^ 64 - 1"
  by (simp add: unsigned_minus_1_eq_mask mask_eq_exp_minus_1)

lemma unat_ucast_up:
  "LENGTH('a) \<le> LENGTH('b) \<Longrightarrow> unat (ucast (x :: 'a::len word) :: 'b::len word) = unat x"
  by (simp only: unsigned_ucast_eq)
    (meson le_less_trans linorder_not_less take_bit_nat_eq_self_iff unsigned_less
      less_le_trans one_le_numeral power_increasing)

section \<open>Functions and lists\<close>

lemma remove1_hd [simp]: "remove1 x (x # xs) = xs"
  by simp

end
