(* ===== verification/Machine.thy ===== *)
theory Machine
  imports Prelude
begin

text \<open>
  The machine under the kernel: physical memory as a map from addresses to bytes with
  little-endian 64-bit loads and stores, the page and page-table macros of
  \<^verbatim>\<open>kernel/riscv.h\<close>, the address map of \<^verbatim>\<open>kernel/memlayout.h\<close>, and the spinlocks the running
  kernel thread holds. The record \<open>machine\<close> is the bottom of the kernel state; every later
  component extends it, so the routines here work on any extension.
\<close>

section \<open>Page and page-table macros (kernel/riscv.h)\<close>

type_synonym pte_t = uint64
type_synonym pagetable_t = uint64

definition PGSIZE :: uint64 where "PGSIZE = 4096"
definition PGSHIFT :: nat where "PGSHIFT = 12"

definition PGROUNDUP :: "uint64 \<Rightarrow> uint64" where
  "PGROUNDUP sz = (sz + PGSIZE - 1) AND NOT (PGSIZE - 1)"

definition PGROUNDDOWN :: "uint64 \<Rightarrow> uint64" where
  "PGROUNDDOWN a = a AND NOT (PGSIZE - 1)"

definition PTE_V :: uint64 where "PTE_V = push_bit 0 1"
definition PTE_R :: uint64 where "PTE_R = push_bit 1 1"
definition PTE_W :: uint64 where "PTE_W = push_bit 2 1"
definition PTE_X :: uint64 where "PTE_X = push_bit 3 1"
definition PTE_U :: uint64 where "PTE_U = push_bit 4 1"
definition PTE_RSW :: uint64 where "PTE_RSW = push_bit 8 1"

definition PA2PTE :: "uint64 \<Rightarrow> pte_t" where
  "PA2PTE pa = push_bit 10 (drop_bit 12 pa)"

definition PTE2PA :: "pte_t \<Rightarrow> uint64" where
  "PTE2PA pte = push_bit 12 (drop_bit 10 pte)"

definition PTE_FLAGS :: "pte_t \<Rightarrow> uint64" where
  "PTE_FLAGS pte = pte AND 0x3FF"

definition PXMASK :: uint64 where "PXMASK = 0x1FF"

definition PXSHIFT :: "nat \<Rightarrow> nat" where
  "PXSHIFT level = PGSHIFT + 9 * level"

definition PX :: "nat \<Rightarrow> uint64 \<Rightarrow> uint64" where
  "PX level va = drop_bit (PXSHIFT level) va AND PXMASK"

definition MAXVA :: uint64 where
  "MAXVA = push_bit (9 + 9 + 9 + 12 - 1) 1"

definition SATP_SV39 :: uint64 where "SATP_SV39 = push_bit 60 8"

definition MAKE_SATP :: "pagetable_t \<Rightarrow> uint64" where
  "MAKE_SATP pt = SATP_SV39 OR drop_bit 12 pt"

section \<open>Physical memory layout (kernel/memlayout.h)\<close>

definition UART0 :: uint64 where "UART0 = 0x10000000"
definition VIRTIO0 :: uint64 where "VIRTIO0 = 0x10001000"
definition PLIC :: uint64 where "PLIC = 0x0c000000"
definition KERNBASE :: uint64 where "KERNBASE = 0x80000000"
definition PHYSTOP :: uint64 where "PHYSTOP = KERNBASE + 128 * 1024 * 1024"
definition TRAMPOLINE :: uint64 where "TRAMPOLINE = MAXVA - PGSIZE"

definition KSTACK :: "nat \<Rightarrow> uint64" where
  "KSTACK p = TRAMPOLINE - (of_nat p + 1) * 2 * PGSIZE"

definition TRAPFRAME :: uint64 where "TRAPFRAME = TRAMPOLINE - PGSIZE"

section \<open>Memory\<close>

type_synonym memory = "uint64 \<Rightarrow> uint8"

definition ld64 :: "memory \<Rightarrow> uint64 \<Rightarrow> uint64" where
  "ld64 m a = foldr (\<lambda>i acc. push_bit (8 * i) (ucast (m (a + of_nat i))) OR acc) [0..<8] 0"

definition st64 :: "memory \<Rightarrow> uint64 \<Rightarrow> uint64 \<Rightarrow> memory" where
  "st64 m a v = (\<lambda>x. if x - a < 8 then ucast (drop_bit (8 * unat (x - a)) v) else m x)"

definition fill :: "memory \<Rightarrow> uint64 \<Rightarrow> uint8 \<Rightarrow> nat \<Rightarrow> memory" where
  "fill m a c n = (\<lambda>x. if unat (x - a) < n then c else m x)"

definition st_bytes :: "memory \<Rightarrow> uint64 \<Rightarrow> bytes \<Rightarrow> memory" where
  "st_bytes m a xs = (\<lambda>x. if unat (x - a) < length xs then xs ! unat (x - a) else m x)"

definition ld_bytes :: "memory \<Rightarrow> uint64 \<Rightarrow> nat \<Rightarrow> bytes" where
  "ld_bytes m a n = map (\<lambda>i. m (a + of_nat i)) [0..<n]"

section \<open>Locks held by the running thread\<close>

text \<open>
  One constructor for each spinlock of the kernel. Inside a routine only the locks of the
  running kernel thread matter: acquiring one it already holds and releasing one it does not
  hold are the two panics of \<^verbatim>\<open>kernel/spinlock.c\<close>. The lock word, the CPUs that spin on it and
  the interrupt nesting are modelled in theory \<open>Spinlock\<close>.
\<close>

datatype lock =
    LKmem | LRef | LPid | LWait | LProc nat | LTicks
  | LBcache | LBuf nat | LLog | LItable | LInode nat | LFtable
  | LPipe uint64 | LCons | LUart | LPr | LDisk

record machine =
  mem :: memory
  held :: "lock list"

definition acquire :: "lock \<Rightarrow> ('x machine_scheme, unit) kmon" where
  "acquire l = (\<lambda>s. if l \<in> set (held s) then Panic ''acquire''
                    else Ok () (s\<lparr>held := l # held s\<rparr>))"

definition release :: "lock \<Rightarrow> ('x machine_scheme, unit) kmon" where
  "release l = (\<lambda>s. if l \<in> set (held s) then Ok () (s\<lparr>held := remove1 l (held s)\<rparr>)
                    else Panic ''release'')"

text \<open>\<^verbatim>\<open>initlock\<close> in the same view: nobody holds the lock afterwards.\<close>

definition init_lock :: "lock \<Rightarrow> ('x machine_scheme, unit) kmon" where
  "init_lock l = modify (\<lambda>s. s\<lparr>held := removeAll l (held s)\<rparr>)"

lemma init_lock_free: "l \<notin> set (held s) \<Longrightarrow> init_lock l s = Ok () s"
  by (simp add: init_lock_def removeAll_id)

definition set_mem :: "(memory \<Rightarrow> memory) \<Rightarrow> ('x machine_scheme, unit) kmon" where
  "set_mem f = modify (\<lambda>s. s\<lparr>mem := f (mem s)\<rparr>)"

definition store64 :: "uint64 \<Rightarrow> uint64 \<Rightarrow> ('x machine_scheme, unit) kmon" where
  "store64 a v = set_mem (\<lambda>m. st64 m a v)"

definition load64 :: "uint64 \<Rightarrow> ('x machine_scheme, uint64) kmon" where
  "load64 a = gets (\<lambda>s. ld64 (mem s) a)"

section \<open>Facts about locks\<close>

lemma wp_acquire [simp]:
  "wp (acquire l) Q s \<longleftrightarrow> l \<notin> set (held s) \<and> Q () (s\<lparr>held := l # held s\<rparr>)"
  by (simp add: wp_def acquire_def)

lemma wp_release [simp]:
  "wp (release l) Q s \<longleftrightarrow> l \<in> set (held s) \<and> Q () (s\<lparr>held := remove1 l (held s)\<rparr>)"
  by (simp add: wp_def release_def)

lemma wp_memory [simp]:
  "wp (set_mem f) Q s \<longleftrightarrow> Q () (s\<lparr>mem := f (mem s)\<rparr>)"
  "wp (store64 a v) Q s \<longleftrightarrow> Q () (s\<lparr>mem := st64 (mem s) a v\<rparr>)"
  "wp (load64 a) Q' s \<longleftrightarrow> Q' (ld64 (mem s) a) s"
  by (simp_all add: set_mem_def store64_def load64_def)

section \<open>Alignment\<close>

definition pg_aligned :: "uint64 \<Rightarrow> bool" where
  "pg_aligned a \<longleftrightarrow> a mod 4096 = 0"

lemma pgmask: "PGSIZE - 1 = mask 12"
  by (simp add: PGSIZE_def mask_eq_exp_minus_1)

lemma unat_PGROUNDDOWN [align_simps]: "unat (PGROUNDDOWN a) = unat a div 4096 * 4096"
  using unat_push_drop [of 12 a] by (simp add: PGROUNDDOWN_def pgmask and_not_mask_eq)

lemma pg_aligned_unat: "pg_aligned a \<longleftrightarrow> unat a mod 4096 = 0"
  by (simp add: pg_aligned_def word_unat_eq_iff unat_mod)

lemma pg_alignedE:
  assumes "pg_aligned a"
  obtains k where "unat a = 4096 * k"
proof -
  from assms have "4096 dvd unat a" by (simp add: pg_aligned_unat mod_0_imp_dvd)
  then show ?thesis using that by (rule dvdE)
qed

lemma pg_aligned_PGROUNDDOWN [simp]: "pg_aligned (PGROUNDDOWN a)"
  by (simp add: pg_aligned_unat align_simps)

lemma PGROUNDDOWN_aligned [simp]: "pg_aligned a \<Longrightarrow> PGROUNDDOWN a = a"
  by (auto simp: pg_aligned_unat word_unat_eq_iff align_simps)

lemma PGROUNDDOWN_eq_iff: "PGROUNDDOWN a = PGROUNDDOWN b \<longleftrightarrow> unat a div 4096 = unat b div 4096"
  by (simp add: word_unat_eq_iff align_simps)

lemma in_page_iff: "pg_aligned pa \<Longrightarrow> unat (x - pa) < 4096 \<longleftrightarrow> PGROUNDDOWN x = pa"
  using aligned_range_iff [of pa 12 x] PGROUNDDOWN_eq_iff [of x pa]
  by (simp add: pg_aligned_unat [symmetric] word_less_nat_alt)

lemma PGROUNDDOWN_add [simp]:
  assumes "pg_aligned pa" and "unat off < 4096"
  shows "PGROUNDDOWN (pa + off) = pa"
  using in_page_iff [OF assms(1), of "pa + off"] assms(2) by simp

section \<open>Loads, stores and pages\<close>

definition w_aligned :: "uint64 \<Rightarrow> bool" where "w_aligned a \<longleftrightarrow> a mod 8 = 0"

lemma w_aligned_unat: "w_aligned a \<longleftrightarrow> unat a mod 8 = 0"
  by (simp add: w_aligned_def word_unat_eq_iff unat_mod)

lemma in_word_iff: "w_aligned a \<Longrightarrow> x - a < 8 \<longleftrightarrow> unat x div 8 = unat a div 8"
  using aligned_range_iff [of a 3 x] by (simp add: w_aligned_unat)

lemma upt8: "[0..<8] = [0,1,2,3,4,5,6,7::nat]" by (simp add: upt_rec)

lemma ld64_same_bytes: "(\<And>i. i < 8 \<Longrightarrow> m (a + of_nat i) = m' (a' + of_nat i)) \<Longrightarrow> ld64 m a = ld64 m' a'"
  unfolding ld64_def by (rule foldr_cong) auto

lemma ld64_st64_same: "ld64 (st64 m a v) a = v"
proof (rule bit_eqI)
  fix n
  assume "possible_bit TYPE(64 word) n"
  then have n: "n < 64" by simp
  have b: "st64 m a v (a + of_nat i) = ucast (drop_bit (8 * i) v)" if "i < 8" for i
    using that by (simp add: st64_def word_less_nat_alt unat_of_nat_small)
  have "bit (ld64 (st64 m a v) a) n = (\<exists>i<8. 8 * i \<le> n \<and> n < 8 * i + 8 \<and> bit v n)"
  proof -
    have "ld64 (st64 m a v) a = foldr (\<lambda>i acc. push_bit (8 * i) (ucast (ucast (drop_bit (8 * i) v) :: uint8)) OR acc) [0..<8] 0"
      unfolding ld64_def by (rule foldr_cong) (auto simp: b)
    moreover have "bit (foldr (\<lambda>i acc. push_bit (8 * i) (ucast (ucast (drop_bit (8 * i) v) :: uint8)) OR acc) is (0 :: uint64)) n
        = (\<exists>i\<in>set is. 8 * i \<le> n \<and> n < 8 * i + 8 \<and> bit v n)" for "is"
      using n by (induction "is") (auto simp: bit_simps)
    ultimately show ?thesis by auto
  qed
  also have "\<dots> = bit v n"
  proof
    assume "bit v n"
    then show "\<exists>i<8. 8 * i \<le> n \<and> n < 8 * i + 8 \<and> bit v n" using n by (intro exI[of _ "n div 8"]) auto
  qed auto
  finally show "bit (ld64 (st64 m a v) a) n = bit v n" .
qed

lemma w_aligned_add_div: "w_aligned a \<Longrightarrow> i < 8 \<Longrightarrow> unat (a + of_nat i) div 8 = unat a div 8"
  by (subst in_word_iff [symmetric]) (simp_all add: word_less_nat_alt unat_of_nat_small)

lemma w_aligned_div_eq: "w_aligned a \<Longrightarrow> w_aligned b \<Longrightarrow> unat a div 8 = unat b div 8 \<longleftrightarrow> a = b"
  by (auto simp: w_aligned_unat word_unat_eq_iff)

lemma ld64_st64:
  assumes "w_aligned a" "w_aligned b"
  shows "ld64 (st64 m a v) b = (if b = a then v else ld64 m b)"
proof (cases "b = a")
  case True
  then show ?thesis by (simp add: ld64_st64_same)
next
  case False
  have "st64 m a v (b + of_nat i) = m (b + of_nat i)" if "i < 8" for i
    using that False assms by (simp add: st64_def in_word_iff w_aligned_add_div w_aligned_div_eq)
  then show ?thesis using False by (auto intro: ld64_same_bytes)
qed

lemma w_aligned_page: "w_aligned a \<Longrightarrow> i < 8 \<Longrightarrow> PGROUNDDOWN (a + of_nat i) = PGROUNDDOWN a"
proof -
  assume a: "w_aligned a" "i < 8"
  then have "unat (a + of_nat i) div 8 div 512 = unat a div 8 div 512" by (simp only: w_aligned_add_div)
  then show ?thesis by (simp add: PGROUNDDOWN_eq_iff div_mult2_eq [symmetric])
qed

lemma ld64_page_cong:
  assumes "w_aligned a" "\<And>x. PGROUNDDOWN x = PGROUNDDOWN a \<Longrightarrow> m x = m' x"
  shows "ld64 m a = ld64 m' a"
  using assms by (intro ld64_same_bytes) (simp add: w_aligned_page)

lemma st64_page: "w_aligned a \<Longrightarrow> PGROUNDDOWN x \<noteq> PGROUNDDOWN a \<Longrightarrow> st64 m a v x = m x"
proof -
  assume a: "w_aligned a" "PGROUNDDOWN x \<noteq> PGROUNDDOWN a"
  have "unat x div 8 \<noteq> unat a div 8"
  proof
    assume "unat x div 8 = unat a div 8"
    then have "unat x div 8 div 512 = unat a div 8 div 512" by simp
    then have "unat x div 4096 = unat a div 4096" by (simp add: div_mult2_eq [symmetric])
    then show False using a by (simp add: PGROUNDDOWN_eq_iff)
  qed
  then show ?thesis using a by (simp add: st64_def in_word_iff)
qed

lemma fill_page:
  "pg_aligned pa \<Longrightarrow> fill m pa c 4096 x = (if PGROUNDDOWN x = pa then c else m x)"
  by (simp add: fill_def in_page_iff)

lemma ld64_zero: "(\<And>i. i < 8 \<Longrightarrow> m (a + of_nat i) = 0) \<Longrightarrow> ld64 m a = 0"
  using ld64_same_bytes [of m a "\<lambda>_. 0" a] by (simp add: ld64_def upt8)

lemma ld64_fill_zero:
  "pg_aligned pa \<Longrightarrow> w_aligned a \<Longrightarrow>
    ld64 (fill m pa 0 4096) a = (if PGROUNDDOWN a = pa then 0 else ld64 m a)"
  by (auto simp: fill_page w_aligned_page intro!: ld64_zero ld64_page_cong)

lemma w_aligned_slot:
  assumes "pg_aligned pt"
  shows "w_aligned (pt + 8 * i)"
proof -
  obtain k where "unat pt = 4096 * k" using assms by (rule pg_alignedE)
  then have "unat (pt + 8 * i) = (8 * (512 * k + unat i)) mod 2 ^ 64"
    by (simp add: unat_word_ariths mod_add_right_eq)
  also have "\<dots> mod 8 = 0" by (simp add: mod_mod_cancel)
  finally show ?thesis by (simp add: w_aligned_unat)
qed

end
