(* ===== verification/Spinlock.thy ===== *)
theory Spinlock
  imports Machine
begin

text \<open>
  \<^verbatim>\<open>kernel/spinlock.c\<close> on a machine with several harts: the lock word and owner of every lock, the
  \<^verbatim>\<open>push_off\<close> nesting and the interrupt flag of every hart. The routines are given as functions on
  this state; the harts interleave at the granularity of their accesses to the lock, in the
  step relation \<open>smp_step\<close>. Results: a lock has one owner at a time, interrupts are off on a
  hart that owns a lock, and the view of a single thread used by the rest of the development
  (\<^const>\<open>Machine.acquire\<close> and \<^const>\<open>Machine.release\<close>) agrees with these routines.
\<close>

section \<open>State\<close>

text \<open>The nesting depth \<open>noff\<close> is an integer: a hart nests \<^verbatim>\<open>push_off\<close> once for every lock it holds, far below the range of \<^verbatim>\<open>int\<close>.\<close>

record cpu =
  noff :: int
  intena :: bool
  sie :: bool

record spinlock =
  locked :: bool
  lcpu :: "nat option"

record smp =
  cpus :: "nat \<Rightarrow> cpu"
  locks :: "lock \<Rightarrow> spinlock"

section \<open>Routines, run by hart h\<close>

definition set_cpu :: "nat \<Rightarrow> (cpu \<Rightarrow> cpu) \<Rightarrow> smp \<Rightarrow> smp" where
  "set_cpu h f s = s\<lparr>cpus := (cpus s)(h := f (cpus s h))\<rparr>"

definition set_lock :: "lock \<Rightarrow> (spinlock \<Rightarrow> spinlock) \<Rightarrow> smp \<Rightarrow> smp" where
  "set_lock l f s = s\<lparr>locks := (locks s)(l := f (locks s l))\<rparr>"

definition initlock :: "lock \<Rightarrow> smp \<Rightarrow> smp" where
  "initlock l = set_lock l (\<lambda>k. k\<lparr>locked := False, lcpu := None\<rparr>)"

definition holding :: "nat \<Rightarrow> lock \<Rightarrow> smp \<Rightarrow> bool" where
  "holding h l s \<longleftrightarrow> locked (locks s l) \<and> lcpu (locks s l) = Some h"

definition push_off :: "nat \<Rightarrow> smp \<Rightarrow> smp" where
  "push_off h s =
     (let old = sie (cpus s h);
          s = set_cpu h (\<lambda>c. c\<lparr>sie := False\<rparr>) s;
          s = (if noff (cpus s h) = 0 then set_cpu h (\<lambda>c. c\<lparr>intena := old\<rparr>) s else s)
      in set_cpu h (\<lambda>c. c\<lparr>noff := noff c + 1\<rparr>) s)"

definition pop_off :: "nat \<Rightarrow> (smp, unit) kmon" where
  "pop_off h = (\<lambda>s.
     if sie (cpus s h) then Panic ''pop_off - interruptible''
     else if noff (cpus s h) < 1 then Panic ''pop_off''
     else
       let s = set_cpu h (\<lambda>c. c\<lparr>noff := noff c - 1\<rparr>) s
       in if noff (cpus s h) = 0 \<and> intena (cpus s h)
          then Ok () (set_cpu h (\<lambda>c. c\<lparr>sie := True\<rparr>) s)
          else Ok () s)"

text \<open>The three parts of \<^verbatim>\<open>acquire\<close>: up to the loop, one atomic swap, and what follows the loop.\<close>

definition acquire_enter :: "nat \<Rightarrow> lock \<Rightarrow> (smp, unit) kmon" where
  "acquire_enter h l = (\<lambda>s. let s = push_off h s in
     if holding h l s then Panic ''acquire'' else Ok () s)"

definition test_and_set :: "lock \<Rightarrow> smp \<Rightarrow> bool \<times> smp" where
  "test_and_set l s = (locked (locks s l), set_lock l (\<lambda>k. k\<lparr>locked := True\<rparr>) s)"

definition acquire_done :: "nat \<Rightarrow> lock \<Rightarrow> smp \<Rightarrow> smp" where
  "acquire_done h l = set_lock l (\<lambda>k. k\<lparr>lcpu := Some h\<rparr>)"

text \<open>\<^verbatim>\<open>acquire\<close> with at most \<open>n\<close> swaps; \<open>Fault\<close> stands for a hart that is still spinning.\<close>

fun acquire_spin :: "nat \<Rightarrow> nat \<Rightarrow> lock \<Rightarrow> (smp, unit) kmon" where
  "acquire_spin 0 h l = fault ''spinning''"
| "acquire_spin (Suc n) h l = (\<lambda>s. case test_and_set l s of (old, s) \<Rightarrow>
     if old then acquire_spin n h l s else Ok () (acquire_done h l s))"

definition acquire_smp :: "nat \<Rightarrow> nat \<Rightarrow> lock \<Rightarrow> (smp, unit) kmon" where
  "acquire_smp n h l = thn (acquire_enter h l) (acquire_spin n h l)"

definition release_enter :: "nat \<Rightarrow> lock \<Rightarrow> (smp, unit) kmon" where
  "release_enter h l = (\<lambda>s. if \<not> holding h l s then Panic ''release''
     else Ok () (set_lock l (\<lambda>k. k\<lparr>lcpu := None\<rparr>) s))"

definition lock_release :: "lock \<Rightarrow> smp \<Rightarrow> smp" where
  "lock_release l = set_lock l (\<lambda>k. k\<lparr>locked := False\<rparr>)"

definition release_smp :: "nat \<Rightarrow> lock \<Rightarrow> (smp, unit) kmon" where
  "release_smp h l = thn (release_enter h l) (thn (modify (lock_release l)) (pop_off h))"

lemmas smp_defs = set_cpu_def set_lock_def initlock_def holding_def push_off_def pop_off_def
  acquire_enter_def test_and_set_def acquire_done_def release_enter_def lock_release_def Let_def

section \<open>Nesting of push_off and pop_off\<close>

text \<open>A balanced pair gives back the state, whatever the interrupt flag was on entry.\<close>

lemma push_pop_off:
  assumes "0 \<le> noff (cpus s h)" and "sie (cpus s h) \<longrightarrow> noff (cpus s h) = 0"
  shows "\<exists>t. pop_off h (push_off h s) = Ok () t \<and> locks t = locks s
      \<and> sie (cpus t h) = sie (cpus s h) \<and> noff (cpus t h) = noff (cpus s h)"
  using assms by (auto simp: smp_defs)

section \<open>Interleaving\<close>

text \<open>
  Where each hart is: outside these routines, spinning, past the swap, past the clearing of
  the owner, or about to call \<^verbatim>\<open>pop_off\<close>.
\<close>

datatype pc = Out | Spin lock | Won lock | Giving lock | Popping

inductive smp_step :: "smp \<times> (nat \<Rightarrow> pc) \<Rightarrow> smp \<times> (nat \<Rightarrow> pc) \<Rightarrow> bool" where
  enter: "pcs h = Out \<Longrightarrow> acquire_enter h l s = Ok () s' \<Longrightarrow>
    smp_step (s, pcs) (s', pcs(h := Spin l))"
| swap: "pcs h = Spin l \<Longrightarrow> test_and_set l s = (old, s') \<Longrightarrow>
    smp_step (s, pcs) (s', if old then pcs else pcs(h := Won l))"
| won: "pcs h = Won l \<Longrightarrow> smp_step (s, pcs) (acquire_done h l s, pcs(h := Out))"
| give: "pcs h = Out \<Longrightarrow> release_enter h l s = Ok () s' \<Longrightarrow>
    smp_step (s, pcs) (s', pcs(h := Giving l))"
| unlock: "pcs h = Giving l \<Longrightarrow> smp_step (s, pcs) (lock_release l s, pcs(h := Popping))"
| pop: "pcs h = Popping \<Longrightarrow> pop_off h s = Ok () s' \<Longrightarrow> smp_step (s, pcs) (s', pcs(h := Out))"

definition smp_init :: "smp \<Rightarrow> bool" where
  "smp_init s \<longleftrightarrow> (\<forall>l. \<not> locked (locks s l) \<and> lcpu (locks s l) = None)
     \<and> (\<forall>h. noff (cpus s h) = 0)"

inductive smp_reachable :: "smp \<times> (nat \<Rightarrow> pc) \<Rightarrow> bool" where
  start: "smp_init s \<Longrightarrow> smp_reachable (s, \<lambda>_. Out)"
| step: "smp_reachable c \<Longrightarrow> smp_step c c' \<Longrightarrow> smp_reachable c'"

text \<open>A hart owns a lock from the swap that took it to the store that frees it.\<close>

definition owns :: "smp \<times> (nat \<Rightarrow> pc) \<Rightarrow> nat \<Rightarrow> lock \<Rightarrow> bool" where
  "owns c h l \<longleftrightarrow> lcpu (locks (fst c) l) = Some h \<or> snd c h = Won l \<or> snd c h = Giving l"

text \<open>The inductive invariant: a lock word is set iff some hart owns the lock, owners are unique, and
  a hart between the swap and the owner store is not the recorded owner.\<close>

definition lock_inv :: "smp \<times> (nat \<Rightarrow> pc) \<Rightarrow> bool" where
  "lock_inv c \<longleftrightarrow> (\<forall>l. locked (locks (fst c) l) \<longleftrightarrow> (\<exists>h. owns c h l))
     \<and> (\<forall>l h h'. owns c h l \<and> owns c h' l \<longrightarrow> h = h')
     \<and> (\<forall>h l. snd c h = Won l \<or> snd c h = Giving l \<longrightarrow> lcpu (locks (fst c) l) = None)"

lemma locks_cpu_only [simp]: "locks (push_off h s) = locks s" "locks (set_cpu h f s) = locks s"
  by (simp_all add: smp_defs)

lemma pop_off_locks: "pop_off h s = Ok () s' \<Longrightarrow> locks s' = locks s"
  by (auto simp: smp_defs split: if_splits)

text \<open>How each step changes the ownership relation.\<close>

lemma owns_same:
  assumes "locks s' = locks s" and "p \<in> {Out, Popping} \<union> range Spin" and "pcs h \<in> {Out, Popping} \<union> range Spin"
  shows "owns (s', pcs(h := p)) = owns (s, pcs)"
  using assms by (auto simp: owns_def fun_eq_iff)

lemma owns_swap:
  assumes "pcs h = Spin l" and "test_and_set l s = (False, s')"
  shows "owns (s', pcs(h := Won l)) k m \<longleftrightarrow> owns (s, pcs) k m \<or> k = h \<and> m = l"
  using assms by (auto simp: owns_def test_and_set_def set_lock_def split: if_splits)

lemma owns_won:
  assumes "pcs h = Won l" and "lcpu (locks s l) = None"
  shows "owns (acquire_done h l s, pcs(h := Out)) = owns (s, pcs)"
  using assms by (auto simp: owns_def fun_eq_iff acquire_done_def set_lock_def)

lemma owns_give:
  assumes "pcs h = Out" and "release_enter h l s = Ok () s'"
  shows "owns (s', pcs(h := Giving l)) = owns (s, pcs)"
  using assms
  by (auto simp: owns_def fun_eq_iff release_enter_def holding_def set_lock_def split: if_splits)

lemma owns_unlock:
  assumes "pcs h = Giving l" and "lcpu (locks s l) = None"
  shows "owns (lock_release l s, pcs(h := Popping)) k m \<longleftrightarrow> owns (s, pcs) k m \<and> \<not> (k = h \<and> m = l)"
  using assms by (auto simp: owns_def lock_release_def set_lock_def)

lemma lock_invD:
  assumes "lock_inv c"
  shows "locked (locks (fst c) l) \<longleftrightarrow> (\<exists>h. owns c h l)" "owns c h l \<Longrightarrow> owns c h' l \<Longrightarrow> h = h'"
    "snd c h = Won l \<Longrightarrow> lcpu (locks (fst c) l) = None"
    "snd c h = Giving l \<Longrightarrow> lcpu (locks (fst c) l) = None"
  using assms by (auto simp: lock_inv_def)

lemma acquire_enter_locks: "acquire_enter h l s = Ok () s' \<Longrightarrow> locks s' = locks s"
  by (auto simp: acquire_enter_def Let_def split: if_splits)

lemma lock_inv_swap:
  assumes inv: "lock_inv (s, pcs)" and h: "pcs h = Spin l" and tas: "test_and_set l s = (False, s')"
  shows "lock_inv (s', pcs(h := Won l))"
proof -
  have lk: "locks s' = (locks s)(l := locks s l\<lparr>locked := True\<rparr>)" and "\<not> locked (locks s l)"
    using tas by (auto simp: test_and_set_def set_lock_def)
  then have free: "\<not> owns (s, pcs) k l" for k using lock_invD(1) [OF inv, of l] by auto
  then have "lcpu (locks s l) = None" by (cases "lcpu (locks s l)") (auto simp: owns_def)
  then show ?thesis
    unfolding lock_inv_def owns_swap [of pcs, OF h tas]
    using lock_invD [OF inv] free by (auto simp: lk)
qed

lemma lock_inv_step:
  assumes "smp_step c c'" and "lock_inv c"
  shows "lock_inv c'"
  using assms
proof (induction rule: smp_step.induct)
  case (enter pcs h l s s')
  then show ?case
    using owns_same [of s' s "Spin l" pcs h] acquire_enter_locks by (auto simp: lock_inv_def)
next
  case (swap pcs h l s old s')
  then show ?case
    by (cases old) (auto simp: lock_inv_swap, auto simp: test_and_set_def set_lock_def fun_upd_idem)
next
  case (won pcs h l s)
  have lk: "locks (acquire_done h l s) = (locks s)(l := locks s l\<lparr>lcpu := Some h\<rparr>)"
    by (simp add: acquire_done_def set_lock_def)
  have "snd (s, pcs) k = Won l \<or> snd (s, pcs) k = Giving l \<Longrightarrow> k = h" for k
    using won lock_invD(2) [OF won.prems, of k l h] by (auto simp: owns_def)
  then show ?case
    using won lock_invD [OF won.prems] owns_won [of pcs h l s] by (auto simp: lock_inv_def lk)
next
  case (give pcs h l s s')
  have lk: "locks s' = (locks s)(l := locks s l\<lparr>lcpu := None\<rparr>)"
    using give by (auto simp: release_enter_def set_lock_def split: if_splits)
  then show ?case
    using give.prems owns_give [of pcs, OF give.hyps] by (auto simp: lock_inv_def lk)
next
  case (unlock pcs h l s)
  have lk: "locks (lock_release l s) = (locks s)(l := locks s l\<lparr>locked := False\<rparr>)"
    by (simp add: lock_release_def set_lock_def)
  have "owns (s, pcs) k l \<Longrightarrow> k = h" for k
    using unlock lock_invD(2) [OF unlock.prems, of k l h] by (auto simp: owns_def)
  then show ?case
    using unlock lock_invD [OF unlock.prems] owns_unlock [of pcs h l s]
    by (auto simp: lock_inv_def lk)
next
  case (pop pcs h s s')
  then show ?case
    using owns_same [of s' s Out pcs h] pop_off_locks by (auto simp: lock_inv_def)
qed

lemma lock_inv_reachable: "smp_reachable c \<Longrightarrow> lock_inv c"
proof (induction rule: smp_reachable.induct)
  case (start s)
  then show ?case by (simp add: lock_inv_def owns_def smp_init_def)
qed (rule lock_inv_step)

text \<open>
  How deep each hart is nested: one level for every lock it owns, one more while it spins and
  while it has freed a lock but not called \<^verbatim>\<open>pop_off\<close> yet.
\<close>

definition in_flight :: "pc \<Rightarrow> int" where
  "in_flight p = (case p of Spin _ \<Rightarrow> 1 | Popping \<Rightarrow> 1 | _ \<Rightarrow> 0)"

definition noff_inv :: "smp \<times> (nat \<Rightarrow> pc) \<Rightarrow> bool" where
  "noff_inv c \<longleftrightarrow> (\<forall>h. finite {l. owns c h l}
     \<and> noff (cpus (fst c) h) = int (card {l. owns c h l}) + in_flight (snd c h)
     \<and> (noff (cpus (fst c) h) > 0 \<longrightarrow> \<not> sie (cpus (fst c) h)))"

lemma cpus_set_lock [simp]: "cpus (set_lock l f s) = cpus s"
  by (simp add: set_lock_def)

lemma cpus_lock_release [simp]: "cpus (lock_release l s) = cpus s"
  by (simp add: lock_release_def)

lemma noff_invI:
  assumes "noff_inv c" and "\<And>h'. h' \<noteq> h \<Longrightarrow> cpus (fst c') h' = cpus (fst c) h' \<and> snd c' h' = snd c h'
      \<and> (\<forall>l. owns c' h' l \<longleftrightarrow> owns c h' l)"
    and "finite {l. owns c' h l}"
    and "noff (cpus (fst c') h) = int (card {l. owns c' h l}) + in_flight (snd c' h)"
    and "noff (cpus (fst c') h) > 0 \<Longrightarrow> \<not> sie (cpus (fst c') h)"
  shows "noff_inv c'"
  unfolding noff_inv_def
proof
  fix k
  show "finite {l. owns c' k l} \<and> noff (cpus (fst c') k) = int (card {l. owns c' k l}) + in_flight (snd c' k)
     \<and> (noff (cpus (fst c') k) > 0 \<longrightarrow> \<not> sie (cpus (fst c') k))"
    using assms by (cases "k = h") (simp_all add: noff_inv_def)
qed

lemma noff_push_off: "noff (cpus (push_off h s) h) = noff (cpus s h) + 1 \<and> \<not> sie (cpus (push_off h s) h)"
  by (simp add: push_off_def set_cpu_def Let_def)

lemma push_off_other: "k \<noteq> h \<Longrightarrow> cpus (push_off h s) k = cpus s k"
  by (simp add: push_off_def set_cpu_def Let_def)

lemma pop_off_cpus:
  assumes "pop_off h s = Ok () s'"
  shows "noff (cpus s' h) = noff (cpus s h) - 1" "noff (cpus s' h) > 0 \<Longrightarrow> \<not> sie (cpus s' h)"
    "k \<noteq> h \<Longrightarrow> cpus s' k = cpus s k"
  using assms by (auto simp: pop_off_def set_cpu_def Let_def split: if_splits)

lemma noff_invD:
  assumes "noff_inv c"
  shows "finite {l. owns c h l}"
    "noff (cpus (fst c) h) = int (card {l. owns c h l}) + in_flight (snd c h)"
    "noff (cpus (fst c) h) > 0 \<Longrightarrow> \<not> sie (cpus (fst c) h)"
  using assms by (auto simp: noff_inv_def)

lemma noff_inv_step:
  assumes "smp_step c c'" and "lock_inv c" and "noff_inv c"
  shows "noff_inv c'"
  using assms
proof (induction rule: smp_step.induct)
  case (enter pcs h l s s')
  have s': "s' = push_off h s" using enter by (auto simp: acquire_enter_def Let_def split: if_splits)
  have "owns (s', pcs(h := Spin l)) = owns (s, pcs)"
    using enter.hyps acquire_enter_locks by (intro owns_same) auto
  then show ?case
    using enter.hyps noff_invD [OF enter.prems(2), of h] noff_push_off [of h s] push_off_other [of _ h s]
    by (intro noff_invI [OF enter.prems(2), of h]) (simp_all add: s' in_flight_def)
next
  case (swap pcs h l s old s')
  have cpus: "cpus s' = cpus s" using swap by (auto simp: test_and_set_def)
  show ?case
  proof (cases old)
    case True
    with swap have "locks s' = locks s" by (auto simp: test_and_set_def set_lock_def fun_upd_idem)
    with cpus have "s' = s" by simp
    with swap True show ?thesis by simp
  next
    case False
    with swap have tas: "test_and_set l s = (False, s')" by simp
    then have "\<not> owns (s, pcs) k l" for k
      using lock_invD(1) [OF swap.prems(1), of l] by (auto simp: test_and_set_def)
    moreover have "{m. owns (s', pcs(h := Won l)) h m} = insert l {m. owns (s, pcs) h m}"
      using owns_swap [of pcs, OF swap.hyps(1) tas] by auto
    ultimately show ?thesis
      using False swap.hyps noff_invD [OF swap.prems(2), of h] owns_swap [of pcs, OF swap.hyps(1) tas]
      by (simp, intro noff_invI [OF swap.prems(2), of h]) (auto simp: in_flight_def cpus)
  qed
next
  case (won pcs h l s)
  have "owns (acquire_done h l s, pcs(h := Out)) = owns (s, pcs)"
    using won lock_invD(3) [OF won.prems(1), of h l] by (intro owns_won) auto
  then show ?case
    using won.hyps noff_invD [OF won.prems(2), of h]
    by (intro noff_invI [OF won.prems(2), of h]) (simp_all add: in_flight_def acquire_done_def)
next
  case (give pcs h l s s')
  have "cpus s' = cpus s" using give by (auto simp: release_enter_def split: if_splits)
  then show ?case
    using give.hyps noff_invD [OF give.prems(2), of h] owns_give [of pcs, OF give.hyps]
    by (intro noff_invI [OF give.prems(2), of h]) (simp_all add: in_flight_def)
next
  case (unlock pcs h l s)
  note own = owns_unlock [of pcs h l s, OF unlock.hyps lock_invD(4) [OF unlock.prems(1), of h l, simplified, OF unlock.hyps]]
  have "owns (s, pcs) h l" using unlock by (simp add: owns_def)
  moreover have "{m. owns (lock_release l s, pcs(h := Popping)) h m} = {m. owns (s, pcs) h m} - {l}"
    using own by auto
  ultimately have "int (card {m. owns (s, pcs) h m})
      = int (card {m. owns (lock_release l s, pcs(h := Popping)) h m}) + 1"
    using noff_invD(1) [OF unlock.prems(2), of h] card_Suc_Diff1 [of "{m. owns (s, pcs) h m}" l] by auto
  then show ?case
    using unlock.hyps noff_invD [OF unlock.prems(2), of h] own
    by (intro noff_invI [OF unlock.prems(2), of h]) (auto simp: in_flight_def)
next
  case (pop pcs h s s')
  have "owns (s', pcs(h := Out)) = owns (s, pcs)"
    using pop.hyps pop_off_locks by (intro owns_same) auto
  then show ?case
    using pop.hyps noff_invD [OF pop.prems(2), of h] pop_off_cpus [OF pop.hyps(2)]
    by (intro noff_invI [OF pop.prems(2), of h]) (simp_all add: in_flight_def)
qed

lemma noff_inv_reachable: "smp_reachable c \<Longrightarrow> noff_inv c"
proof (induction rule: smp_reachable.induct)
  case (start s)
  then show ?case by (simp add: noff_inv_def owns_def smp_init_def in_flight_def)
qed (blast intro: noff_inv_step lock_inv_reachable)

section \<open>The view of one thread\<close>

text \<open>
  \<open>view h s m\<close>: the locks that hart \<open>h\<close> holds in the multi-hart state are the ones recorded for
  the running thread of the single-thread state \<open>m\<close>. \<^verbatim>\<open>acquire\<close> and \<^verbatim>\<open>release\<close> keep the two in
  step, panics included, as long as the lock is not taken by another hart.
\<close>

definition view :: "nat \<Rightarrow> smp \<Rightarrow> 'x machine_scheme \<Rightarrow> bool" where
  "view h s m \<longleftrightarrow> (\<forall>l. holding h l s \<longleftrightarrow> l \<in> set (held m)) \<and> distinct (held m)
     \<and> (\<forall>l. lcpu (locks s l) \<noteq> None \<longrightarrow> locked (locks s l))
     \<and> noff (cpus s h) = int (length (held m)) \<and> (held m \<noteq> [] \<longrightarrow> \<not> sie (cpus s h))"

definition same_outcome :: "(smp \<Rightarrow> 'm \<Rightarrow> bool) \<Rightarrow> (smp, 'a) outcome \<Rightarrow> ('m, 'a) outcome \<Rightarrow> bool" where
  "same_outcome R x y \<longleftrightarrow> (case (x, y) of
       (Ok a s, Ok b m) \<Rightarrow> a = b \<and> R s m
     | (Panic e, Panic e') \<Rightarrow> e = e'
     | _ \<Rightarrow> False)"

lemma holding_push_off [simp]: "holding h l (push_off k s) \<longleftrightarrow> holding h l s"
  by (simp add: holding_def)

lemma acquire_simulates:
  assumes v: "view h s m" and other: "locked (locks s l) \<Longrightarrow> lcpu (locks s l) = Some h"
  shows "same_outcome (view h) (acquire_smp (Suc n) h l s) (Machine.acquire l m)"
proof (cases "l \<in> set (held m)")
  case True
  with v have "holding h l s" by (simp add: view_def)
  with True show ?thesis
    by (simp add: same_outcome_def acquire_smp_def acquire_enter_def thn_def bnd_def acquire_def)
next
  case False
  with v other have free: "\<not> holding h l s" "\<not> locked (locks s l)" by (auto simp: view_def holding_def)
  have "acquire_smp (Suc n) h l s = Ok () (acquire_done h l (set_lock l (\<lambda>k. k\<lparr>locked := True\<rparr>) (push_off h s)))"
    using free by (simp add: acquire_smp_def acquire_enter_def thn_def bnd_def test_and_set_def)
  moreover have "view h (acquire_done h l (set_lock l (\<lambda>k. k\<lparr>locked := True\<rparr>) (push_off h s))) (m\<lparr>held := l # held m\<rparr>)"
    using v False noff_push_off [of h s]
    by (auto simp: view_def holding_def acquire_done_def set_lock_def)
  ultimately show ?thesis using False by (simp add: same_outcome_def acquire_def)
qed

lemma release_simulates:
  assumes v: "view h s m"
  shows "same_outcome (view h) (release_smp h l s) (Machine.release l m)"
proof (cases "l \<in> set (held m)")
  case True
  with v have hold: "holding h l s" "noff (cpus s h) \<ge> 1" "\<not> sie (cpus s h)"
    by (auto simp: view_def intro!: Suc_leI simp flip: length_greater_0_conv)
  let ?s = "lock_release l (set_lock l (\<lambda>k. k\<lparr>lcpu := None\<rparr>) s)"
  have "\<exists>t. pop_off h ?s = Ok () t"
    using hold by (simp add: pop_off_def Let_def)
  then obtain t where t: "pop_off h ?s = Ok () t" ..
  have "length (held m) = Suc (length (remove1 l (held m)))"
    using True length_pos_if_in_set [OF True] by (simp add: length_remove1)
  then have "view h t (m\<lparr>held := remove1 l (held m)\<rparr>)"
    using v True pop_off_cpus [OF t] pop_off_locks [OF t]
    by (auto simp: view_def holding_def lock_release_def set_lock_def)
  then show ?thesis
    using True hold t
    by (simp add: same_outcome_def release_smp_def release_enter_def thn_def bnd_def release_def)
next
  case False
  with v have "\<not> holding h l s" by (simp add: view_def)
  with False show ?thesis
    by (simp add: same_outcome_def release_smp_def release_enter_def thn_def bnd_def release_def)
qed

section \<open>Properties\<close>

definition smp_zero :: smp where
  "smp_zero = \<lparr>cpus = (\<lambda>_. \<lparr>noff = 0, intena = False, sie = True\<rparr>),
     locks = (\<lambda>_. \<lparr>locked = False, lcpu = None\<rparr>)\<rparr>"

lemma smp_zero_init: "smp_init smp_zero"
  by (simp add: smp_init_def smp_zero_def)

text \<open>A run in which hart 0 takes the lock of the page allocator.\<close>

definition smp_one :: smp where
  "smp_one = acquire_done 0 LKmem (set_lock LKmem (\<lambda>k. k\<lparr>locked := True\<rparr>) (push_off 0 smp_zero))"

lemma smp_one_reachable: "smp_reachable (smp_one, \<lambda>_. Out)"
proof -
  let ?s = "push_off 0 smp_zero"
  let ?t = "set_lock LKmem (\<lambda>k. k\<lparr>locked := True\<rparr>) ?s"
  have "smp_step (smp_zero, \<lambda>_. Out) (?s, (\<lambda>_. Out)(0 := Spin LKmem))"
    by (rule smp_step.enter) (simp_all add: acquire_enter_def holding_def smp_zero_def)
  then have 1: "smp_reachable (?s, (\<lambda>_. Out)(0 := Spin LKmem))"
    using smp_reachable.start [OF smp_zero_init] by (blast intro: smp_reachable.step)
  have "test_and_set LKmem ?s = (False, ?t)" by (simp add: test_and_set_def smp_zero_def)
  then have "smp_step (?s, (\<lambda>_. Out)(0 := Spin LKmem)) (?t, (\<lambda>_. Out)(0 := Won LKmem))"
    using smp_step.swap [of "(\<lambda>_. Out)(0 := Spin LKmem)" 0 LKmem ?s False ?t] by simp
  with 1 have "smp_reachable (?t, (\<lambda>_. Out)(0 := Won LKmem))" by (blast intro: smp_reachable.step)
  moreover have "smp_step (?t, (\<lambda>_. Out)(0 := Won LKmem)) (smp_one, \<lambda>_. Out)"
    using smp_step.won [of "(\<lambda>_. Out)(0 := Won LKmem)" 0 LKmem ?t] by (simp add: smp_one_def fun_upd_idem)
  ultimately show ?thesis by (blast intro: smp_reachable.step)
qed

text \<open>
  C5. Mutual exclusion: however the harts interleave their steps through \<^verbatim>\<open>acquire\<close> and \<^verbatim>\<open>release\<close>, two
  different harts never own the same spinlock, and whenever a hart owns one its interrupts
  are off and its \<^verbatim>\<open>push_off\<close> depth is positive.
\<close>

theorem spinlock_mutual_exclusion:
  assumes "smp_reachable (s, pcs)" and "owns (s, pcs) h l"
  shows "(\<forall>h'. owns (s, pcs) h' l \<longrightarrow> h' = h) \<and> locked (locks s l)
      \<and> noff (cpus s h) > 0 \<and> \<not> sie (cpus s h)"
proof -
  note inv = lock_inv_reachable [OF assms(1)] and nest = noff_inv_reachable [OF assms(1)]
  have "card {l. owns (s, pcs) h l} > 0"
    using assms(2) noff_invD(1) [OF nest, of h] by (auto simp: card_gt_0_iff)
  then have "noff (cpus s h) > 0"
    using noff_invD(2) [OF nest, of h] by (simp add: in_flight_def split: pc.splits)
  then show ?thesis
    using lock_invD(1,2) [OF inv] assms(2) noff_invD(3) [OF nest, of h] by auto
qed

theorem spinlock_mutual_exclusion_witness:
  "\<not> owns (smp_one, \<lambda>_. Out) 1 LKmem \<and> locked (locks smp_one LKmem)
      \<and> noff (cpus smp_one 0) > 0 \<and> \<not> sie (cpus smp_one 0)"
proof -
  have "owns (smp_one, \<lambda>_. Out) 0 LKmem" by (simp add: owns_def smp_one_def acquire_done_def set_lock_def)
  from spinlock_mutual_exclusion [OF smp_one_reachable this] show ?thesis by auto
qed

text \<open>
  C31. The single-thread view of locks is a faithful abstraction of \<^verbatim>\<open>spinlock.c\<close>: on a hart whose held
  locks are the recorded ones, and with the lock not taken by another hart, \<^verbatim>\<open>acquire\<close> and
  \<^verbatim>\<open>release\<close> return or panic exactly as the single-thread operations do and keep the
  correspondence, the \<^verbatim>\<open>push_off\<close> depth included.
\<close>

theorem lock_view_refinement:
  assumes "view h s m" and "locked (locks s l) \<Longrightarrow> lcpu (locks s l) = Some h"
  shows "same_outcome (view h) (acquire_smp (Suc n) h l s) (Machine.acquire l m)
       \<and> same_outcome (view h) (release_smp h l s) (Machine.release l m)"
  using assms acquire_simulates release_simulates by blast

theorem lock_view_refinement_witness:
  "same_outcome (view 0) (acquire_smp 1 0 LPid smp_zero) (Machine.acquire LPid \<lparr>mem = (\<lambda>_. 0), held = []\<rparr>)
   \<and> same_outcome (view 0) (release_smp 0 LPid smp_zero) (Machine.release LPid \<lparr>mem = (\<lambda>_. 0), held = []\<rparr>)"
  using lock_view_refinement [of 0 smp_zero "\<lparr>mem = (\<lambda>_. 0), held = []\<rparr>" LPid 0]
  by (simp add: view_def smp_zero_def holding_def)

end
