(* ===== verification/KString.thy ===== *)
theory KString
  imports Machine
begin

text \<open>
  \<^verbatim>\<open>kernel/string.c\<close>. The routines that touch pages (\<^verbatim>\<open>memset\<close>, \<^verbatim>\<open>memmove\<close>) work on physical
  memory and keep the byte loops of the source; the theorems relate them to one simultaneous
  update of the range. The routines on C strings work on buffers (byte lists): \<^const>\<open>None\<close>
  stands for a read past the end of the buffer.
\<close>

section \<open>memset and memmove\<close>

fun memset_loop :: "memory \<Rightarrow> uint64 \<Rightarrow> uint8 \<Rightarrow> nat \<Rightarrow> memory" where
  "memset_loop m d c 0 = m"
| "memset_loop m d c (Suc n) = memset_loop (m(d := c)) (d + 1) c n"

definition memset :: "uint64 \<Rightarrow> cint \<Rightarrow> uint32 \<Rightarrow> ('x machine_scheme, unit) kmon" where
  "memset dst c n = set_mem (\<lambda>m. memset_loop m dst (ucast c) (unat n))"

fun copy_fwd :: "memory \<Rightarrow> uint64 \<Rightarrow> uint64 \<Rightarrow> nat \<Rightarrow> memory" where
  "copy_fwd m d s 0 = m"
| "copy_fwd m d s (Suc n) = copy_fwd (m(d := m s)) (d + 1) (s + 1) n"

fun copy_bwd :: "memory \<Rightarrow> uint64 \<Rightarrow> uint64 \<Rightarrow> nat \<Rightarrow> memory" where
  "copy_bwd m d s 0 = m"
| "copy_bwd m d s (Suc n) = copy_bwd (m(d - 1 := m (s - 1))) (d - 1) (s - 1) n"

definition memmove_mem :: "memory \<Rightarrow> uint64 \<Rightarrow> uint64 \<Rightarrow> uint32 \<Rightarrow> memory" where
  "memmove_mem m dst src n =
     (if n = 0 then m
      else if src < dst \<and> src + ucast n > dst
      then copy_bwd m (dst + ucast n) (src + ucast n) (unat n)
      else copy_fwd m dst src (unat n))"

definition memmove :: "uint64 \<Rightarrow> uint64 \<Rightarrow> uint32 \<Rightarrow> ('x machine_scheme, unit) kmon" where
  "memmove dst src n = set_mem (\<lambda>m. memmove_mem m dst src n)"

definition memcpy :: "uint64 \<Rightarrow> uint64 \<Rightarrow> uint32 \<Rightarrow> ('x machine_scheme, unit) kmon" where
  "memcpy dst src n = memmove dst src n"

section \<open>Comparing and copying C strings\<close>

fun memcmp :: "bytes \<Rightarrow> bytes \<Rightarrow> nat \<Rightarrow> int option" where
  "memcmp v1 v2 0 = Some 0"
| "memcmp (a # v1) (b # v2) (Suc n) = (if a \<noteq> b then Some (uint a - uint b) else memcmp v1 v2 n)"
| "memcmp v1 v2 (Suc n) = None"

fun strncmp :: "bytes \<Rightarrow> bytes \<Rightarrow> nat \<Rightarrow> int option" where
  "strncmp p q 0 = Some 0"
| "strncmp (a # p) (b # q) (Suc n) =
     (if a \<noteq> 0 \<and> a = b then strncmp p q n else Some (uint a - uint b))"
| "strncmp p q (Suc n) = None"

text \<open>The \<open>n\<close> bytes that \<^verbatim>\<open>strncpy(s, t, n)\<close> stores at \<open>s\<close>.\<close>

fun strncpy :: "bytes \<Rightarrow> nat \<Rightarrow> bytes option" where
  "strncpy t 0 = Some []"
| "strncpy (a # t) (Suc n) =
     (if a \<noteq> 0 then map_option (Cons a) (strncpy t n) else Some (0 # replicate n 0))"
| "strncpy [] (Suc n) = None"

text \<open>
  The bytes that \<^verbatim>\<open>safestrcpy(s, t, n)\<close> stores at \<open>s\<close>, after the first \<^verbatim>\<open>--n\<close>. When the NUL of
  \<open>t\<close> has been copied, the final \<^verbatim>\<open>*s = 0\<close> stores one more.
\<close>

fun safestrcpy_stores :: "bytes \<Rightarrow> nat \<Rightarrow> bytes option" where
  "safestrcpy_stores t 0 = Some [0]"
| "safestrcpy_stores (a # t) (Suc n) =
     (if a \<noteq> 0 then map_option (Cons a) (safestrcpy_stores t n) else Some [0, 0])"
| "safestrcpy_stores [] (Suc n) = None"

definition safestrcpy :: "bytes \<Rightarrow> bytes \<Rightarrow> int \<Rightarrow> bytes option" where
  "safestrcpy s t n =
     (if n \<le> 0 then Some s
      else map_option (\<lambda>w. w @ drop (length w) s) (safestrcpy_stores t (nat (n - 1))))"

fun strlen :: "bytes \<Rightarrow> nat option" where
  "strlen [] = None"
| "strlen (a # s) = (if a = 0 then Some 0 else map_option Suc (strlen s))"

section \<open>memset and memmove update the whole range\<close>

lemma unat_sub_one: "x \<noteq> d \<Longrightarrow> unat (x - d :: uint64) = Suc (unat (x - (d + 1)))"
  using unat_minus_one [of "x - d"] by (simp add: diff_diff_eq unat_gt_0 flip: Suc_diff_1)

lemma memset_loop_fill: "n \<le> 2 ^ 64 \<Longrightarrow> memset_loop m d c n = fill m d c n"
proof (induction n arbitrary: m d)
  case 0
  then show ?case by (simp add: fill_def)
next
  case (Suc n)
  have "unat (d - (d + 1)) = 2 ^ 64 - 1"
    by (simp add: unat_minus_one_64)
  with Suc show ?case by (auto simp: fill_def fun_eq_iff unat_sub_one)
qed

lemma wp_memset [simp]:
  "wp (memset dst c n) Q s \<longleftrightarrow> Q () (s\<lparr>mem := fill (mem s) dst (ucast c) (unat n)\<rparr>)"
proof -
  have "unat n < 2 ^ LENGTH(32)" by (rule unsigned_less)
  then have "unat n \<le> 2 ^ 64" by simp
  then show ?thesis by (simp add: memset_def memset_loop_fill)
qed

lemma length_ld_bytes [simp]: "length (ld_bytes m a n) = n"
  by (simp add: ld_bytes_def)

lemma nth_ld_bytes [simp]: "i < n \<Longrightarrow> ld_bytes m a n ! i = m (a + of_nat i)"
  by (simp add: ld_bytes_def)

lemma st_ld_bytes:
  "st_bytes m d (ld_bytes m' s n) x = (if unat (x - d) < n then m' (s + (x - d)) else m x)"
  by (simp add: st_bytes_def)

lemma copy_fwd_bytes:
  assumes "\<And>i j. i < j \<Longrightarrow> j < n \<Longrightarrow> d + of_nat i \<noteq> s + of_nat j" and "n \<le> 2 ^ 64"
  shows "copy_fwd m d s n = st_bytes m d (ld_bytes m s n)"
  using assms
proof (induction n arbitrary: m d s)
  case 0
  then show ?case by (simp add: st_bytes_def)
next
  case (Suc n)
  let ?m = "m(d := m s)"
  have apart: "d + 1 + of_nat i \<noteq> s + 1 + of_nat j" if "i < j" "j < n" for i j
    using Suc.prems(1) [of "Suc i" "Suc j"] that by (simp add: algebra_simps)
  have unread: "?m (s + 1 + of_nat j) = m (s + 1 + of_nat j)" if "j < n" for j
    using Suc.prems(1) [of 0 "Suc j"] that by (simp add: algebra_simps)
  have "copy_fwd m d s (Suc n) = st_bytes ?m (d + 1) (ld_bytes ?m (s + 1) n)"
    using Suc.IH [OF apart] Suc.prems(2) by simp
  also have "\<dots> = st_bytes m d (ld_bytes m s (Suc n))"
  proof
    fix x
    have last: "unat (d - (d + 1)) = 2 ^ 64 - 1"
      by (simp add: unat_minus_one_64)
    show "st_bytes ?m (d + 1) (ld_bytes ?m (s + 1) n) x = st_bytes m d (ld_bytes m s (Suc n)) x"
    proof (cases "x = d")
      case True
      with Suc.prems(2) show ?thesis by (simp add: st_ld_bytes last)
    next
      case False
      with unread [of "unat (x - (d + 1))"] show ?thesis
        by (simp add: st_ld_bytes unat_sub_one)
    qed
  qed
  finally show ?case .
qed

lemma copy_bwd_bytes:
  assumes "\<And>i j. i < j \<Longrightarrow> j < n \<Longrightarrow> d + of_nat j \<noteq> s + of_nat i" and "n \<le> 2 ^ 64"
  shows "copy_bwd m (d + of_nat n) (s + of_nat n) n = st_bytes m d (ld_bytes m s n)"
  using assms
proof (induction n arbitrary: m)
  case 0
  then show ?case by (simp add: st_bytes_def)
next
  case (Suc n)
  let ?d = "d + of_nat n" and ?s = "s + of_nat n"
  let ?m = "m(?d := m ?s)"
  have unread: "?m (s + of_nat i) = m (s + of_nat i)" if "i < n" for i
    using Suc.prems(1) [of i n] that by simp
  have "copy_bwd m (d + of_nat (Suc n)) (s + of_nat (Suc n)) (Suc n) = copy_bwd ?m ?d ?s n"
    by (simp add: algebra_simps)
  also have "\<dots> = st_bytes ?m d (ld_bytes ?m s n)"
    using Suc.prems by (intro Suc.IH) auto
  also have "\<dots> = st_bytes m d (ld_bytes m s (Suc n))"
  proof
    fix x
    have n: "unat (of_nat n :: uint64) = n"
      using Suc.prems(2) by (intro unat_of_nat_small) simp
    have "x = ?d \<longleftrightarrow> unat (x - d) = n"
    proof
      assume "unat (x - d) = n"
      then have "of_nat n = x - d" by (metis unat_eq_nat_uint word_of_int_uint of_nat_nat uint_ge_0 of_int_of_nat_eq)
      then show "x = ?d" by simp
    qed (simp add: n)
    then show "st_bytes ?m d (ld_bytes ?m s n) x = st_bytes m d (ld_bytes m s (Suc n)) x"
      using n unread [of "unat (x - d)"] by (auto simp: st_ld_bytes less_Suc_eq)
  qed
  finally show ?case .
qed

text \<open>
  Whatever the overlap of the two ranges, \<^verbatim>\<open>memmove\<close> leaves in the destination the bytes the
  source held before the call, provided neither range wraps around the address space.
\<close>

lemma memmove_mem_bytes:
  assumes "unat src + unat n < 2 ^ 64" and "unat dst + unat n < 2 ^ 64"
  shows "memmove_mem m dst src n = st_bytes m dst (ld_bytes m src (unat n))"
proof -
  have un: "unat (ucast n :: uint64) = unat n" by (rule unat_ucast_up) simp
  have le: "unat n \<le> 2 ^ 64" using assms(1) by simp
  have off: "unat (a + of_nat i) = unat a + i" if "i < unat n" "unat a + unat n < 2 ^ 64" for i and a :: uint64
    using that by (subst unat_add_small) (simp_all add: unat_of_nat_small)
  have sn: "unat (src + ucast n) = unat src + unat n"
    using assms(1) by (subst unat_add_small) (simp_all add: un)
  consider "n = 0" | "n \<noteq> 0" "src < dst" "src + ucast n > dst"
    | "n \<noteq> 0" "\<not> (src < dst \<and> src + ucast n > dst)" by blast
  then show ?thesis
  proof cases
    case 1
    then show ?thesis by (simp add: memmove_mem_def st_bytes_def)
  next
    case 2
    have "dst + of_nat j \<noteq> src + of_nat i" if "i < j" "j < unat n" for i j
      using 2 that off [of j dst] off [of i src] assms
      by (metis (no_types, opaque_lifting) add_less_mono dual_order.strict_trans nat_neq_iff word_less_nat_alt)
    then have "copy_bwd m (dst + of_nat (unat n)) (src + of_nat (unat n)) (unat n)
        = st_bytes m dst (ld_bytes m src (unat n))"
      using le by (rule copy_bwd_bytes)
    with 2 show ?thesis by (simp add: memmove_mem_def)
  next
    case 3
    have "dst + of_nat i \<noteq> src + of_nat j" if "i < j" "j < unat n" for i j
    proof
      assume "dst + of_nat i = src + of_nat j"
      then have "unat dst + i = unat src + j"
        using off [of i dst] off [of j src] that assms by simp
      with 3 that sn show False by (auto simp: word_less_nat_alt)
    qed
    then have "copy_fwd m dst src (unat n) = st_bytes m dst (ld_bytes m src (unat n))"
      using le by (rule copy_fwd_bytes)
    with 3 show ?thesis by (auto simp: memmove_mem_def)
  qed
qed

lemma wp_memmove:
  assumes "unat src + unat n < 2 ^ 64" and "unat dst + unat n < 2 ^ 64"
  shows "wp (memmove dst src n) Q s
    \<longleftrightarrow> Q () (s\<lparr>mem := st_bytes (mem s) dst (ld_bytes (mem s) src (unat n))\<rparr>)"
  using assms by (simp add: memmove_def memmove_mem_bytes)

section \<open>C strings\<close>

text \<open>The part of a buffer before its first NUL.\<close>

definition cstr :: "bytes \<Rightarrow> bytes" where
  "cstr p = takeWhile (\<lambda>c. c \<noteq> 0) p"

lemma cstr_simps [simp]: "cstr [] = []" "cstr (a # p) = (if a = 0 then [] else a # cstr p)"
  by (simp_all add: cstr_def)

lemma strlen_cstr: "0 \<in> set s \<Longrightarrow> strlen s = Some (length (cstr s))"
  by (induction s) auto

lemma strncmp_eq_0_iff:
  "n \<le> length p \<Longrightarrow> n \<le> length q \<Longrightarrow>
    strncmp p q n = Some 0 \<longleftrightarrow> cstr (take n p) = cstr (take n q)"
  by (induction p q n rule: strncmp.induct) (auto simp: word_uint_eq_iff)

lemma strncmp_defined: "n \<le> length p \<Longrightarrow> n \<le> length q \<Longrightarrow> strncmp p q n \<noteq> None"
  by (induction p q n rule: strncmp.induct) auto

lemma memcmp_eq_0_iff:
  "n \<le> length p \<Longrightarrow> n \<le> length q \<Longrightarrow> memcmp p q n = Some 0 \<longleftrightarrow> take n p = take n q"
  by (induction p q n rule: memcmp.induct) (auto simp: word_uint_eq_iff)

lemma strncpy_pads:
  "0 \<in> set t \<or> n \<le> length t \<Longrightarrow>
    strncpy t n = Some (take n (cstr t) @ replicate (n - length (cstr t)) 0)"
  by (induction t n rule: strncpy.induct) auto

lemma length_strncpy: "strncpy t n = Some w \<Longrightarrow> length w = n"
  by (induction t n arbitrary: w rule: strncpy.induct) (auto split: if_splits)

lemma cstr_strncpy: "strncpy t n = Some w \<Longrightarrow> cstr w = take n (cstr t)"
  by (induction t n arbitrary: w rule: strncpy.induct) (auto split: if_splits)

lemma safestrcpy_stores_spec:
  "0 \<in> set t \<or> n \<le> length t \<Longrightarrow>
    \<exists>w. safestrcpy_stores t n = Some w \<and> length w \<le> Suc n \<and> 0 \<in> set w
      \<and> cstr w = take n (cstr t)"
  by (induction t n rule: safestrcpy_stores.induct) fastforce+

end
