(* ===== verification/Kalloc.thy ===== *)
theory Kalloc
  imports KString
begin

text \<open>
  \<^verbatim>\<open>kernel/kalloc.c\<close>: the physical page allocator with the reference counts that copy-on-write
  fork adds. Free pages form a list threaded through their own first word; the list is read
  back from memory by \<open>is_list\<close>. \<^verbatim>\<open>end\<close>, the first address after the kernel, is set by the
  linker script and is the constant field \<open>kend\<close> of the state.
\<close>

record kmem = machine +
  freelist :: uint64
  refcnt :: "uint64 \<Rightarrow> cint"
  kend :: uint64

section \<open>Operations\<close>

definition kfree :: "uint64 \<Rightarrow> ('x kmem_scheme, unit) kmon" where
  "kfree pa =
     bnd (gets kend) (\<lambda>kend.
     thn (assert_else (\<not> (pa mod 4096 \<noteq> 0 \<or> pa < kend \<or> pa \<ge> 0x80000000 + 128 * 1024 * 1024)) ''kfree'')
     (thn (acquire LRef)
     (thn (modify (\<lambda>s. s\<lparr>refcnt := (refcnt s)(pa div 4096 := refcnt s (pa div 4096) - 1)\<rparr>))
     (bnd (gets (\<lambda>s. refcnt s (pa div 4096))) (\<lambda>temp.
     thn (release LRef)
     (if sint temp > 0 then ret ()
      else
        thn (memset pa 1 4096)
        (thn (acquire LKmem)
        (thn (bnd (gets freelist) (store64 pa))
        (thn (modify (\<lambda>s. s\<lparr>freelist := pa\<rparr>))
        (release LKmem))))))))))"

definition kalloc :: "('x kmem_scheme, uint64) kmon" where
  "kalloc =
     thn (acquire LKmem)
     (bnd (gets freelist) (\<lambda>r.
     thn (whenM (r \<noteq> 0)
           (bnd (load64 r) (\<lambda>nxt.
            modify (\<lambda>s. s\<lparr>freelist := nxt, refcnt := (refcnt s)(r div 4096 := 1)\<rparr>))))
     (thn (release LKmem)
     (thn (whenM (r \<noteq> 0) (memset r 5 4096))
     (ret r)))))"

text \<open>
  The addresses that the loop of \<^verbatim>\<open>freerange\<close> visits. The test \<open>p < p + PGSIZE\<close> stops where the
  pointer would wrap around, which C leaves undefined.
\<close>

function pages_from :: "uint64 \<Rightarrow> uint64 \<Rightarrow> uint64 list" where
  "pages_from p pa_end =
     (if p < p + PGSIZE \<and> p + PGSIZE \<le> pa_end then p # pages_from (p + PGSIZE) pa_end else [])"
  by pat_completeness auto
termination
  by (relation "measure (\<lambda>(p, e). unat e - unat p)")
    (auto simp: word_less_nat_alt word_le_nat_alt)

definition freerange :: "uint64 \<Rightarrow> uint64 \<Rightarrow> ('x kmem_scheme, unit) kmon" where
  "freerange pa_start pa_end = for_each (pages_from (PGROUNDUP pa_start) pa_end) kfree"

definition kinit :: "('x kmem_scheme, unit) kmon" where
  "kinit = thn (init_lock LKmem) (bnd (gets kend) (\<lambda>kend. freerange kend PHYSTOP))"

declare pages_from.simps [simp del]

section \<open>The allocator's invariant\<close>

fun is_list :: "memory \<Rightarrow> uint64 \<Rightarrow> uint64 list \<Rightarrow> bool" where
  "is_list m p [] \<longleftrightarrow> p = 0"
| "is_list m p (x # xs) \<longleftrightarrow> p = x \<and> x \<noteq> 0 \<and> is_list m (ld64 m x) xs"

definition valid_pa :: "uint64 \<Rightarrow> uint64 \<Rightarrow> bool" where
  "valid_pa e p \<longleftrightarrow> pg_aligned p \<and> e \<le> p \<and> p < PHYSTOP"

definition kend_ok :: "uint64 \<Rightarrow> bool" where
  "kend_ok e \<longleftrightarrow> KERNBASE < e \<and> e < PHYSTOP"

text \<open>\<open>ps\<close> lists the free pages: the free list holds them in this order, each once, and they are
  exactly the pages whose reference count is not positive.\<close>

definition kmem_inv :: "uint64 list \<Rightarrow> 'x kmem_scheme \<Rightarrow> bool" where
  "kmem_inv ps s \<longleftrightarrow> is_list (mem s) (freelist s) ps \<and> distinct ps
     \<and> (\<forall>p\<in>set ps. valid_pa (kend s) p) \<and> kend_ok (kend s)
     \<and> (\<forall>p. valid_pa (kend s) p \<longrightarrow> (p \<in> set ps \<longleftrightarrow> sint (refcnt s (p div 4096)) \<le> 0))"

abbreviation kmem_unlocked :: "'x kmem_scheme \<Rightarrow> bool" where
  "kmem_unlocked s \<equiv> LKmem \<notin> set (held s) \<and> LRef \<notin> set (held s)"

section \<open>What each operation does to the state\<close>

definition rc :: "'x kmem_scheme \<Rightarrow> uint64 \<Rightarrow> int" where
  "rc s p = sint (refcnt s (p div 4096))"

definition drop_ref :: "uint64 \<Rightarrow> 'x kmem_scheme \<Rightarrow> 'x kmem_scheme" where
  "drop_ref pa s = s\<lparr>refcnt := (refcnt s)(pa div 4096 := refcnt s (pa div 4096) - 1)\<rparr>"

definition push_free :: "uint64 \<Rightarrow> 'x kmem_scheme \<Rightarrow> 'x kmem_scheme" where
  "push_free pa s = s\<lparr>mem := st64 (fill (mem s) pa 1 4096) pa (freelist s), freelist := pa\<rparr>"

definition pop_free :: "'x kmem_scheme \<Rightarrow> 'x kmem_scheme" where
  "pop_free s = s\<lparr>freelist := ld64 (mem s) (freelist s),
      refcnt := (refcnt s)(freelist s div 4096 := 1), mem := fill (mem s) (freelist s) 5 4096\<rparr>"

lemma valid_pa_iff:
  "valid_pa e pa \<longleftrightarrow> \<not> (pa mod 4096 \<noteq> 0 \<or> pa < e \<or> pa \<ge> 0x80000000 + 128 * 1024 * 1024)"
  unfolding valid_pa_def pg_aligned_def PHYSTOP_def KERNBASE_def not_less [symmetric] by blast

lemma kfree_invalid: "\<not> valid_pa (kend s) pa \<Longrightarrow> kfree pa s = Panic ''kfree''"
  unfolding kfree_def by (simp only: bnd_run flip: valid_pa_iff) simp

lemma memset_run: "memset d c n s = Ok () (s\<lparr>mem := fill (mem s) d (ucast c) (unat n)\<rparr>)"
  using wp_memset [of d c n "\<lambda>a t. a = () \<and> t = s\<lparr>mem := fill (mem s) d (ucast c) (unat n)\<rparr>" s]
  by (auto simp: wp_def)

lemma lock_run:
  "l \<notin> set (held s) \<Longrightarrow> acquire l s = Ok () (s\<lparr>held := l # held s\<rparr>)"
  "l \<in> set (held s) \<Longrightarrow> release l s = Ok () (s\<lparr>held := remove1 l (held s)\<rparr>)"
  by (simp_all add: acquire_def release_def)

lemma kfree_run:
  assumes "valid_pa (kend s) pa" and "kmem_unlocked s"
  shows "kfree pa s = Ok () (if sint (refcnt s (pa div 4096) - 1) > 0 then drop_ref pa s
                             else push_free pa (drop_ref pa s))"
  using assms(2) unfolding kfree_def
  by (simp only: bnd_run assms(1) assert_else_run flip: valid_pa_iff)
    (simp add: bnd_def thn_def lock_run memset_run store64_def set_mem_def drop_ref_def push_free_def)

lemma kalloc_run:
  assumes "LKmem \<notin> set (held s)"
  shows "kalloc s = Ok (freelist s) (if freelist s = 0 then s else pop_free s)"
  using assms unfolding kalloc_def
  by (simp add: bnd_def thn_def lock_run memset_run load64_def pop_free_def whenM_def)

section \<open>Preservation of the invariant\<close>

lemma pg_div_inj: "pg_aligned p \<Longrightarrow> pg_aligned q \<Longrightarrow> p div 4096 = q div 4096 \<longleftrightarrow> p = q"
  by (auto simp: pg_aligned_unat word_unat_eq_iff unat_div)

lemma w_aligned_if_pg: "pg_aligned p \<Longrightarrow> w_aligned p"
  using w_aligned_slot [of p 0] by simp

lemma sint_minus_one: "sint (x :: cint) \<ge> 1 \<Longrightarrow> sint (x - 1) = sint x - 1"
proof -
  assume "sint x \<ge> 1"
  moreover have "sint x < 2 ^ 31" using sint_range_size [of x] by (simp add: word_size)
  ultimately show ?thesis
    by (simp add: sint_word_ariths signed_take_bit_int_eq_self)
qed

lemma sint_plus_one: "sint (x :: cint) < 2 ^ 31 - 1 \<Longrightarrow> sint (x + 1) = sint x + 1"
proof -
  assume "sint x < 2 ^ 31 - 1"
  moreover have "- (2 ^ 31) \<le> sint x" using sint_range_size [of x] by (simp add: word_size)
  ultimately show ?thesis by (simp add: sint_word_ariths signed_take_bit_int_eq_self)
qed

lemma is_list_cong:
  assumes "\<And>p x. p \<in> set ps \<Longrightarrow> PGROUNDDOWN x = p \<Longrightarrow> m' x = m x" and "\<forall>p\<in>set ps. pg_aligned p"
  shows "is_list m' h ps \<longleftrightarrow> is_list m h ps"
  using assms
proof (induction ps arbitrary: h)
  case (Cons p ps)
  have "ld64 m' p = ld64 m p"
    using Cons.prems by (intro ld64_page_cong) (auto simp: w_aligned_if_pg)
  moreover have "is_list m' (ld64 m p) ps \<longleftrightarrow> is_list m (ld64 m p) ps"
    using Cons.prems by (intro Cons.IH) auto
  ultimately show ?case by simp
qed simp

lemma is_list_Cons_hd: "is_list m p ps \<Longrightarrow> p = 0 \<longleftrightarrow> ps = []"
  by (cases ps) auto

lemma valid_pa_aligned: "valid_pa e p \<Longrightarrow> pg_aligned p"
  by (simp add: valid_pa_def)

lemma valid_pa_nonzero: "kend_ok e \<Longrightarrow> valid_pa e p \<Longrightarrow> p \<noteq> 0"
  by (auto simp: valid_pa_def kend_ok_def)

lemma kmem_invD:
  assumes "kmem_inv ps s"
  shows "is_list (mem s) (freelist s) ps" "distinct ps" "p \<in> set ps \<Longrightarrow> valid_pa (kend s) p"
    "kend_ok (kend s)" "valid_pa (kend s) p \<Longrightarrow> p \<in> set ps \<longleftrightarrow> rc s p \<le> 0"
  using assms by (auto simp: kmem_inv_def rc_def)

lemma kmem_inv_aligned: "kmem_inv ps s \<Longrightarrow> \<forall>p\<in>set ps. pg_aligned p"
  using kmem_invD(3) valid_pa_aligned by blast

lemma freelist_hd: "kmem_inv ps s \<Longrightarrow> freelist s = (case ps of [] \<Rightarrow> 0 | p # _ \<Rightarrow> p)"
  using kmem_invD(1) [of ps s] by (cases ps) auto

lemma pop_free_inv:
  assumes inv: "kmem_inv (p # ps) s"
  shows "kmem_inv ps (pop_free s)"
proof -
  have p: "freelist s = p" "valid_pa (kend s) p"
    using inv kmem_invD(1,3) [OF inv] by auto
  have "is_list (fill (mem s) p 5 4096) (ld64 (mem s) p) ps \<longleftrightarrow> is_list (mem s) (ld64 (mem s) p) ps"
    using inv p(2) kmem_inv_aligned [OF inv] kmem_invD(2) [OF inv]
    by (intro is_list_cong) (auto simp: fill_page valid_pa_aligned)
  then have l: "is_list (mem (pop_free s)) (freelist (pop_free s)) ps"
    using kmem_invD(1) [OF inv] p by (simp add: pop_free_def)
  have r: "q \<in> set ps \<longleftrightarrow> sint (refcnt (pop_free s) (q div 4096)) \<le> 0" if "valid_pa (kend s) q" for q
    using that inv p kmem_invD(2) [OF inv] kmem_invD(5) [OF inv that]
    by (auto simp: pop_free_def rc_def pg_div_inj valid_pa_aligned)
  have "kend (pop_free s) = kend s" by (simp add: pop_free_def)
  with l r inv show ?thesis by (auto simp: kmem_inv_def)
qed

lemma push_free_list:
  assumes l: "is_list (mem s) (freelist s) ps" and al: "\<forall>q\<in>set ps. pg_aligned q" "pg_aligned p"
    and p: "p \<noteq> 0" "p \<notin> set ps"
  shows "is_list (mem (push_free p s)) (freelist (push_free p s)) (p # ps)"
proof -
  let ?t = "push_free p s"
  have mem: "mem ?t = st64 (fill (mem s) p 1 4096) p (freelist s)"
    by (simp add: push_free_def)
  have wp: "w_aligned p" using al(2) by (rule w_aligned_if_pg)
  have other: "mem ?t x = mem s x" if "PGROUNDDOWN x \<noteq> p" for x
    using that al wp by (simp add: mem st64_page fill_page)
  have "is_list (mem ?t) (freelist s) ps \<longleftrightarrow> is_list (mem s) (freelist s) ps"
    using p(2) al by (intro is_list_cong) (auto intro: other)
  then show ?thesis
    using l wp p(1) by (simp add: mem ld64_st64) (simp add: push_free_def)
qed

lemma push_free_inv:
  assumes inv: "kmem_inv ps s" and p: "valid_pa (kend s) p" and one: "rc s p = 1"
  shows "kmem_inv (p # ps) (push_free p (drop_ref p s))"
proof -
  let ?t = "push_free p (drop_ref p s)"
  have notin: "p \<notin> set ps" using kmem_invD(5) [OF inv p] one by simp
  have al: "pg_aligned p" using p by (rule valid_pa_aligned)
  have l: "is_list (mem ?t) (freelist ?t) (p # ps)"
    using push_free_list [of "drop_ref p s" ps p] kmem_invD(1) [OF inv] kmem_inv_aligned [OF inv] al
      valid_pa_nonzero [OF kmem_invD(4) [OF inv] p] notin
    by (simp add: drop_ref_def)
  have cnt: "refcnt ?t = (refcnt s)(p div 4096 := refcnt s (p div 4096) - 1)"
    by (simp add: push_free_def drop_ref_def)
  have z: "sint (refcnt s (p div 4096) - 1) = 0" using one by (simp add: rc_def sint_minus_one)
  have r: "q \<in> set (p # ps) \<longleftrightarrow> sint (refcnt ?t (q div 4096)) \<le> 0" if "valid_pa (kend s) q" for q
    using that p kmem_invD(5) [OF inv that] z by (auto simp: cnt rc_def pg_div_inj valid_pa_aligned)
  have "kend ?t = kend s" by (simp add: push_free_def drop_ref_def)
  with l r inv p notin show ?thesis by (simp add: kmem_inv_def)
qed

lemma drop_ref_inv:
  assumes inv: "kmem_inv ps s" and p: "valid_pa (kend s) p" and more: "rc s p > 1"
  shows "kmem_inv ps (drop_ref p s)" and "rc (drop_ref p s) p = rc s p - 1"
proof -
  show rc: "rc (drop_ref p s) p = rc s p - 1"
    using more by (simp add: rc_def drop_ref_def sint_minus_one)
  have "q \<in> set ps \<longleftrightarrow> rc (drop_ref p s) q \<le> 0" if "valid_pa (kend s) q" for q
  proof (cases "q = p")
    case True
    then show ?thesis using rc more kmem_invD(5) [OF inv p] by simp
  next
    case False
    then have "rc (drop_ref p s) q = rc s q"
      using that p by (simp add: rc_def drop_ref_def pg_div_inj valid_pa_aligned)
    then show ?thesis using kmem_invD(5) [OF inv that] by simp
  qed
  then show "kmem_inv ps (drop_ref p s)"
    using inv by (simp add: kmem_inv_def rc_def drop_ref_def)
qed

section \<open>The allocator as an interface\<close>

text \<open>
  What the rest of the kernel relies on: \<open>inv ps s\<close> says that \<open>ps\<close> are the free pages. A client
  can take a free page, gets the null pointer only when there is none, and gives a page
  back when it drops the last reference.
\<close>

locale page_allocator =
  fixes inv :: "uint64 list \<Rightarrow> 's \<Rightarrow> bool"
    and alloc :: "('s, uint64) kmon"
    and free :: "uint64 \<Rightarrow> ('s, unit) kmon"
    and refs :: "'s \<Rightarrow> uint64 \<Rightarrow> int"
    and valid :: "'s \<Rightarrow> uint64 \<Rightarrow> bool"
  assumes alloc_page: "inv (p # ps) s \<Longrightarrow>
      wp alloc (\<lambda>r t. r = p \<and> r \<noteq> 0 \<and> valid t p \<and> inv ps t \<and> refs t p = 1) s"
    and alloc_null: "inv [] s \<Longrightarrow> alloc s = Ok 0 s"
    and free_last: "inv ps s \<Longrightarrow> valid s p \<Longrightarrow> refs s p = 1 \<Longrightarrow> wp (free p) (\<lambda>_. inv (p # ps)) s"
    and free_shared: "inv ps s \<Longrightarrow> valid s p \<Longrightarrow> refs s p > 1 \<Longrightarrow>
      wp (free p) (\<lambda>_ t. inv ps t \<and> refs t p = refs s p - 1) s"
    and inv_distinct: "inv ps s \<Longrightarrow> distinct ps"
begin

lemma alloc_total:
  "inv ps s \<Longrightarrow> wp alloc (\<lambda>r t. if ps = [] then r = 0 \<and> t = s
     else r = hd ps \<and> r \<noteq> 0 \<and> inv (tl ps) t \<and> refs t r = 1) s"
  by (cases ps) (auto simp: wp_run [OF alloc_null] intro!: wp_mono [OF alloc_page])

lemma alloc_twice_distinct:
  assumes "inv ps s" and "2 \<le> length ps"
  shows "wp (bnd alloc (\<lambda>p. bnd alloc (\<lambda>q. ret (p, q)))) (\<lambda>(p, q) t. p \<noteq> q \<and> p \<noteq> 0 \<and> q \<noteq> 0) s"
proof -
  obtain p q qs where ps: "ps = p # q # qs"
    using assms(2) by (cases ps; cases "tl ps") auto
  have "p \<noteq> q" using inv_distinct assms(1) ps by force
  moreover have "wp alloc (\<lambda>r t. r = p \<and> r \<noteq> 0 \<and> inv (q # qs) t) s"
    using alloc_page assms(1) ps by (auto intro: wp_mono)
  ultimately show ?thesis
    by (auto elim!: wp_mono intro!: wp_mono [OF alloc_page])
qed

lemma alloc_free_roundtrip:
  assumes "inv ps s" and "ps \<noteq> []"
  shows "wp (bnd alloc free) (\<lambda>_. inv ps) s"
  using assms by (cases ps) (auto intro!: wp_mono [OF alloc_page] wp_mono [OF free_last])

end

definition kmem_ok :: "uint64 list \<Rightarrow> 'x kmem_scheme \<Rightarrow> bool" where
  "kmem_ok ps s \<longleftrightarrow> kmem_inv ps s \<and> kmem_unlocked s"

definition kmem_valid :: "'x kmem_scheme \<Rightarrow> uint64 \<Rightarrow> bool" where
  "kmem_valid s p \<longleftrightarrow> valid_pa (kend s) p"

lemma held_simps [simp]:
  "held (pop_free s) = held s" "held (push_free p s) = held s" "held (drop_ref p s) = held s"
  by (simp_all add: pop_free_def push_free_def drop_ref_def)

lemma kend_simps [simp]:
  "kend (pop_free s) = kend s" "kend (push_free p s) = kend s" "kend (drop_ref p s) = kend s"
  by (simp_all add: pop_free_def push_free_def drop_ref_def)

interpretation km: page_allocator kmem_ok kalloc kfree rc kmem_valid
proof
  fix p ps and s :: "'x kmem_scheme"
  assume *: "kmem_ok (p # ps) s"
  then have inv: "kmem_inv (p # ps) s" by (simp add: kmem_ok_def)
  have "freelist s = p" "p \<noteq> 0" "valid_pa (kend s) p"
    using kmem_invD [OF inv] freelist_hd [OF inv] valid_pa_nonzero by auto
  with * pop_free_inv [OF inv] show
    "wp kalloc (\<lambda>r t. r = p \<and> r \<noteq> 0 \<and> kmem_valid t p \<and> kmem_ok ps t \<and> rc t p = 1) s"
    by (simp add: wp_def kalloc_run kmem_ok_def kmem_valid_def) (simp add: rc_def pop_free_def)
next
  fix s :: "'x kmem_scheme"
  assume "kmem_ok [] s"
  then show "kalloc s = Ok 0 s" using freelist_hd [of "[]" s] by (simp add: kmem_ok_def kalloc_run)
next
  fix p ps and s :: "'x kmem_scheme"
  assume *: "kmem_ok ps s" "kmem_valid s p" "rc s p = 1"
  then show "wp (kfree p) (\<lambda>_. kmem_ok (p # ps)) s"
    using push_free_inv [of ps s p]
    by (simp add: wp_def kmem_ok_def kmem_valid_def kfree_run sint_minus_one rc_def)
next
  fix p ps and s :: "'x kmem_scheme"
  assume *: "kmem_ok ps s" "kmem_valid s p" "rc s p > 1"
  then show "wp (kfree p) (\<lambda>_ t. kmem_ok ps t \<and> rc t p = rc s p - 1) s"
    using drop_ref_inv [of ps s p]
    by (simp add: wp_def kmem_ok_def kmem_valid_def kfree_run sint_minus_one rc_def)
next
  fix ps and s :: "'x kmem_scheme"
  assume "kmem_ok ps s"
  then show "distinct ps" using kmem_invD(2) [of ps s] by (simp add: kmem_ok_def)
qed

section \<open>Initialisation\<close>

lemma unat_PGROUNDUP:
  "unat a + 4095 < 2 ^ 64 \<Longrightarrow> unat (PGROUNDUP a) = (unat a + 4095) div 4096 * 4096"
proof -
  assume "unat a + 4095 < 2 ^ 64"
  then have "unat (a + 4095) = unat a + 4095" by (subst unat_add_small) simp_all
  moreover have "PGROUNDUP a = PGROUNDDOWN (a + 4095)"
    by (simp add: PGROUNDUP_def PGROUNDDOWN_def PGSIZE_def add.commute)
  ultimately show ?thesis by (simp add: align_simps)
qed

lemma unat_step: "p < p + PGSIZE \<Longrightarrow> unat (p + PGSIZE) = unat p + 4096"
  by (auto simp: PGSIZE_def word_less_nat_alt unat_plus_if' split: if_splits)

lemma set_pages_from:
  "pg_aligned p \<Longrightarrow>
    q \<in> set (pages_from p e) \<longleftrightarrow> pg_aligned q \<and> p \<le> q \<and> unat q + 4096 \<le> unat e"
proof (induction p e rule: pages_from.induct)
  case (1 p e)
  show ?case
  proof (cases "p < p + PGSIZE \<and> p + PGSIZE \<le> e")
    case True
    note u = unat_step [OF conjunct1 [OF True]]
    have al: "pg_aligned (p + PGSIZE)" using "1.prems" u by (simp add: pg_aligned_unat)
    have "pg_aligned q \<Longrightarrow> p \<le> q \<longleftrightarrow> q = p \<or> p + PGSIZE \<le> q"
      using "1.prems" u by (auto simp: pg_aligned_unat word_le_nat_alt word_unat_eq_iff elim!: dvdE)
    then show ?thesis
      using True "1.IH" [OF True al] "1.prems" u
      by (auto simp: pages_from.simps [of p e] word_le_nat_alt)
  next
    case False
    then have "pages_from p e = []" by (simp add: pages_from.simps)
    moreover have "\<not> (p \<le> q \<and> unat q + 4096 \<le> unat e)"
    proof
      assume *: "p \<le> q \<and> unat q + 4096 \<le> unat e"
      have "unat e < 2 ^ LENGTH(64)" by (rule unsigned_less)
      then have "unat (p + PGSIZE) = unat p + 4096"
        using * by (subst unat_add_small) (auto simp: PGSIZE_def word_le_nat_alt)
      then show False using False * by (auto simp: word_le_nat_alt word_less_nat_alt)
    qed
    ultimately show ?thesis by simp
  qed
qed

lemma distinct_pages_from: "pg_aligned p \<Longrightarrow> distinct (pages_from p e)"
proof (induction p e rule: pages_from.induct)
  case (1 p e)
  show ?case
  proof (cases "p < p + PGSIZE \<and> p + PGSIZE \<le> e")
    case True
    then have al: "pg_aligned (p + PGSIZE)"
      using "1.prems" unat_step [of p] by (simp add: pg_aligned_unat)
    have "p \<notin> set (pages_from (p + PGSIZE) e)"
      using True set_pages_from [OF al, of p e] by (simp add: not_le)
    moreover have "pages_from p e = p # pages_from (p + PGSIZE) e"
      using True by (simp add: pages_from.simps [of p e])
    ultimately show ?thesis using "1.IH" [OF True al] by simp
  next
    case False
    then have "pages_from p e = []" by (simp only: pages_from.simps [of p e] if_False)
    then show ?thesis by simp
  qed
qed

lemma boot_pages:
  assumes "kend_ok e"
  shows "q \<in> set (pages_from (PGROUNDUP e) PHYSTOP) \<longleftrightarrow> valid_pa e q"
    and "distinct (pages_from (PGROUNDUP e) PHYSTOP)"
proof -
  have P: "unat PHYSTOP = 0x88000000" by (simp add: PHYSTOP_def KERNBASE_def)
  have e: "unat e < 0x88000000" using assms P by (simp add: kend_ok_def word_less_nat_alt)
  then have up: "unat (PGROUNDUP e) = (unat e + 4095) div 4096 * 4096"
    by (intro unat_PGROUNDUP) simp
  then have al: "pg_aligned (PGROUNDUP e)" by (simp add: pg_aligned_unat)
  then show "distinct (pages_from (PGROUNDUP e) PHYSTOP)" by (rule distinct_pages_from)
  have "PGROUNDUP e \<le> q \<and> unat q + 4096 \<le> unat PHYSTOP \<longleftrightarrow> e \<le> q \<and> q < PHYSTOP" if q: "pg_aligned q" for q
  proof -
    obtain k where k: "unat q = 4096 * k" using q by (rule pg_alignedE)
    have "(unat e + 4095) div 4096 \<le> k \<longleftrightarrow> (unat e + 4095) div 4096 < Suc k" by (rule less_Suc_eq_le [symmetric])
    also have "\<dots> \<longleftrightarrow> unat e \<le> 4096 * k" by (subst div_less_iff_less_mult) auto
    finally have "(unat e + 4095) div 4096 \<le> k \<longleftrightarrow> unat e \<le> 4096 * k" .
    then show ?thesis unfolding word_le_nat_alt word_less_nat_alt up P k by auto
  qed
  then show "q \<in> set (pages_from (PGROUNDUP e) PHYSTOP) \<longleftrightarrow> valid_pa e q"
    using set_pages_from [OF al] by (auto simp: valid_pa_def)
qed

text \<open>
  At boot the free list is empty and every count is zero. The invariant of the loop of
  \<^verbatim>\<open>freerange\<close>: the pages visited are on the list, the others still have count zero.
\<close>

definition boot_inv :: "uint64 list \<Rightarrow> uint64 list \<Rightarrow> 'x kmem_scheme \<Rightarrow> bool" where
  "boot_inv fd ps s \<longleftrightarrow> is_list (mem s) (freelist s) fd \<and> distinct (fd @ ps)
     \<and> (\<forall>p. valid_pa (kend s) p \<longleftrightarrow> p \<in> set fd \<union> set ps) \<and> kend_ok (kend s) \<and> kmem_unlocked s
     \<and> (\<forall>p\<in>set ps. refcnt s (p div 4096) = 0) \<and> (\<forall>p\<in>set fd. refcnt s (p div 4096) = - 1)"

lemma boot_inv_step:
  assumes inv: "boot_inv fd (p # ps) s"
  shows "wp (kfree p) (\<lambda>_ t. boot_inv (p # fd) ps t \<and> kend t = kend s \<and> held t = held s) s"
proof -
  have val: "valid_pa (kend s) p" and vals: "\<And>q. q \<in> set fd \<union> set ps \<Longrightarrow> valid_pa (kend s) q"
    using inv by (auto simp: boot_inv_def)
  have al: "pg_aligned p" "\<forall>q\<in>set fd. pg_aligned q"
    using val vals valid_pa_aligned by blast+
  have nz: "p \<noteq> 0" "p \<notin> set fd"
    using inv val valid_pa_nonzero by (auto simp: boot_inv_def)
  let ?t = "push_free p (drop_ref p s)"
  have l: "is_list (mem ?t) (freelist ?t) (p # fd)"
    using inv al nz by (intro push_free_list) (auto simp: boot_inv_def drop_ref_def)
  have cnt: "refcnt ?t q = (if q = p div 4096 then refcnt s q - 1 else refcnt s q)" for q
    by (simp add: push_free_def drop_ref_def)
  have zero: "refcnt s (p div 4096) = 0" using inv by (simp add: boot_inv_def)
  have ne: "q div 4096 = p div 4096 \<longleftrightarrow> q = p" if "q \<in> set fd \<union> set ps" for q
    using that vals val valid_pa_aligned pg_div_inj by blast
  have "boot_inv (p # fd) ps ?t"
    using inv l zero unfolding boot_inv_def by (auto simp: cnt ne)
  then show ?thesis
    using inv zero val by (simp add: wp_def kfree_run boot_inv_def)
qed

lemma kinit_establishes_inv:
  assumes "kend_ok (kend s)" and "kmem_unlocked s" and "freelist s = 0" and "\<forall>i. refcnt s i = 0"
  shows "wp kinit (\<lambda>_ t. kend t = kend s \<and> held t = held s
      \<and> (\<exists>ps. kmem_ok ps t \<and> (\<forall>p. p \<in> set ps \<longleftrightarrow> valid_pa (kend t) p))) s"
proof -
  let ?pages = "pages_from (PGROUNDUP (kend s)) PHYSTOP"
  have init: "boot_inv [] ?pages s"
    using assms boot_pages by (auto simp: boot_inv_def)
  have fin: "\<exists>ps. kmem_ok ps t \<and> (\<forall>p. p \<in> set ps \<longleftrightarrow> valid_pa (kend t) p)"
    if "boot_inv fd [] t" for fd and t :: "'a kmem_scheme"
    using that by (intro exI [of _ fd]) (auto simp: boot_inv_def kmem_ok_def kmem_inv_def)
  have "wp (for_each ?pages kfree) (\<lambda>_ t. kend t = kend s \<and> held t = held s
      \<and> (\<exists>ps. kmem_ok ps t \<and> (\<forall>p. p \<in> set ps \<longleftrightarrow> valid_pa (kend t) p))) s"
    using init
    by (intro wp_for_each [where I = "\<lambda>ps t. (\<exists>fd. boot_inv fd ps t) \<and> kend t = kend s \<and> held t = held s"])
      (fastforce intro!: wp_mono [OF boot_inv_step] dest: fin)+
  then show ?thesis using assms(2) by (simp add: kinit_def freerange_def wp_run [OF init_lock_free])
qed

section \<open>Properties\<close>

definition boot_state :: kmem where
  "boot_state = \<lparr>mem = (\<lambda>_. 0), held = [], freelist = 0, refcnt = (\<lambda>_. 0), kend = 0x80022000\<rparr>"

text \<open>
  C15. \<^verbatim>\<open>kinit\<close> builds a correct allocator out of all of RAM: started with an empty free list and zero
  counts, it returns, and then the free list is a well-formed acyclic list that holds every
  page between \<^verbatim>\<open>end\<close> and \<^verbatim>\<open>PHYSTOP\<close> exactly once, each with no reference.
\<close>

theorem kinit_frees_all_ram:
  fixes s :: "'x kmem_scheme"
  assumes "kend_ok (kend s)" and "kmem_unlocked s" and "freelist s = 0" and "\<forall>i. refcnt s i = 0"
  shows "\<exists>t ps. kinit s = Ok () t \<and> kmem_inv ps t \<and> held t = held s
           \<and> set ps = {p. valid_pa (kend s) p}"
proof -
  have "wp kinit (\<lambda>_ t. kend t = kend s \<and> held t = held s
      \<and> (\<exists>ps. kmem_ok ps t \<and> (\<forall>p. p \<in> set ps \<longleftrightarrow> valid_pa (kend t) p))) s"
    using assms by (rule kinit_establishes_inv)
  then show ?thesis by (fastforce elim!: wpE simp: kmem_ok_def)
qed

theorem kinit_frees_all_ram_witness:
  "\<exists>t ps. kinit boot_state = Ok () t \<and> kmem_inv ps t \<and> held t = []
     \<and> set ps = {p. valid_pa 0x80022000 p}"
  using kinit_frees_all_ram [of boot_state]
  by (simp add: boot_state_def kend_ok_def KERNBASE_def PHYSTOP_def)

end
