(* ===== verification/ProcData.thy ===== *)
theory ProcData
  imports Kalloc
begin

text \<open>
  The data of \<^verbatim>\<open>kernel/proc.h\<close>: process states, the process structure, the trapframe layout, and
  the kernel globals the process code keeps (\<^verbatim>\<open>proc[]\<close>, \<^verbatim>\<open>initproc\<close>, \<^verbatim>\<open>nextpid\<close>, \<^verbatim>\<open>ticks\<close>, the process
  running on this CPU). Pointers to processes, files and inodes are indices into their tables;
  the symbols the linker defines are constant fields.
\<close>

datatype procstate = UNUSED | USED | SLEEPING | RUNNABLE | RUNNING | ZOMBIE

text \<open>What a process can sleep on: the address of a kernel object, \<open>NoChan\<close> for the null pointer.\<close>

datatype chan =
    NoChan | ChProc nat | ChTicks | ChPipeRead uint64 | ChPipeWrite uint64
  | ChBuf nat | ChInode nat | ChLog | ChCons | ChUart | ChDisk nat | ChFree

datatype tfreg =
    KernelSatp | KernelSp | KernelTrap | Epc | KernelHartid
  | TfRa | TfSp | TfGp | TfTp | TfT0 | TfT1 | TfT2 | TfS0 | TfS1
  | TfA0 | TfA1 | TfA2 | TfA3 | TfA4 | TfA5 | TfA6 | TfA7
  | TfS2 | TfS3 | TfS4 | TfS5 | TfS6 | TfS7 | TfS8 | TfS9 | TfS10 | TfS11
  | TfT3 | TfT4 | TfT5 | TfT6

fun tf_off :: "tfreg \<Rightarrow> uint64" where
  "tf_off KernelSatp = 0" | "tf_off KernelSp = 8" | "tf_off KernelTrap = 16" | "tf_off Epc = 24"
| "tf_off KernelHartid = 32" | "tf_off TfRa = 40" | "tf_off TfSp = 48" | "tf_off TfGp = 56"
| "tf_off TfTp = 64" | "tf_off TfT0 = 72" | "tf_off TfT1 = 80" | "tf_off TfT2 = 88"
| "tf_off TfS0 = 96" | "tf_off TfS1 = 104" | "tf_off TfA0 = 112" | "tf_off TfA1 = 120"
| "tf_off TfA2 = 128" | "tf_off TfA3 = 136" | "tf_off TfA4 = 144" | "tf_off TfA5 = 152"
| "tf_off TfA6 = 160" | "tf_off TfA7 = 168" | "tf_off TfS2 = 176" | "tf_off TfS3 = 184"
| "tf_off TfS4 = 192" | "tf_off TfS5 = 200" | "tf_off TfS6 = 208" | "tf_off TfS7 = 216"
| "tf_off TfS8 = 224" | "tf_off TfS9 = 232" | "tf_off TfS10 = 240" | "tf_off TfS11 = 248"
| "tf_off TfT3 = 256" | "tf_off TfT4 = 264" | "tf_off TfT5 = 272" | "tf_off TfT6 = 280"

definition sizeof_trapframe :: uint32 where "sizeof_trapframe = 288"

record kcontext =
  cx_ra :: uint64
  cx_sp :: uint64
  cx_s :: "uint64 list"

record proc =
  p_state :: procstate
  p_chan :: chan
  p_killed :: cint
  p_xstate :: cint
  p_pid :: cint
  p_parent :: "nat option"
  p_kstack :: uint64
  p_sz :: uint64
  p_pagetable :: pagetable_t
  p_trapframe :: uint64
  p_context :: kcontext
  p_ofile :: "nat \<Rightarrow> nat option"
  p_cwd :: "nat option"
  p_name :: bytes
  p_rtime :: uint32
  p_ctime :: uint32
  p_etime :: uint32
  p_sp :: cint
  p_dp :: cint
  p_rbi :: cint
  p_runtime :: cint
  p_stime :: cint
  p_wtime :: cint
  p_priority :: cint
  p_no_scheduled :: cint
  p_start_time :: cint

record kern = kmem +
  procs :: "nat \<Rightarrow> proc"
  cur :: "nat option"
  initproc :: "nat option"
  nextpid :: cint
  ticks :: uint32
  kernel_pagetable :: pagetable_t
  sym_etext :: uint64
  sym_trampoline :: uint64
  sym_forkret :: uint64

definition upd_proc :: "nat \<Rightarrow> (proc \<Rightarrow> proc) \<Rightarrow> ('x kern_scheme, unit) kmon" where
  "upd_proc p f = modify (\<lambda>s. s\<lparr>procs := (procs s)(p := f (procs s p))\<rparr>)"

definition get_proc :: "nat \<Rightarrow> (proc \<Rightarrow> 'a) \<Rightarrow> ('x kern_scheme, 'a) kmon" where
  "get_proc p f = gets (\<lambda>s. f (procs s p))"

text \<open>\<^verbatim>\<open>myproc()\<close> where the result is dereferenced at once: a null pointer is a fault.\<close>

definition myproc :: "('x kern_scheme, nat) kmon" where
  "myproc = bnd (gets cur) (\<lambda>c. case c of None \<Rightarrow> fault ''null process'' | Some p \<Rightarrow> ret p)"

lemma wp_procs [simp]:
  "wp (upd_proc p f) Q s \<longleftrightarrow> Q () (s\<lparr>procs := (procs s)(p := f (procs s p))\<rparr>)"
  "wp (get_proc p g) Q' s \<longleftrightarrow> Q' (g (procs s p)) s"
  by (simp_all add: upd_proc_def get_proc_def)

lemma wp_myproc [simp]: "wp myproc Q s \<longleftrightarrow> (\<exists>p. cur s = Some p \<and> Q p s)"
  by (simp add: myproc_def split: option.splits)

lemma proc_run [simp]:
  "upd_proc p f s = Ok () (s\<lparr>procs := (procs s)(p := f (procs s p))\<rparr>)"
  "get_proc p g s = Ok (g (procs s p)) s"
  by (simp_all add: upd_proc_def get_proc_def)

lemma myproc_run: "cur s = Some p \<Longrightarrow> myproc s = Ok p s"
  by (simp add: myproc_def)

end
