(* ===== verification/Vm.thy ===== *)
theory Vm
  imports ProcData
begin

text \<open>
  \<^verbatim>\<open>kernel/vm.c\<close>: the Sv39 page tables, kept in physical memory as the hardware reads them, and
  the routines that build, copy (copy-on-write) and free address spaces and move data
  between the kernel and user memory. A page table is the address of its root page; a PTE is
  the 64-bit word at its address. Buffers of the kernel are byte lists.
\<close>

section \<open>Walking and mapping\<close>

definition pte_addr :: "pagetable_t \<Rightarrow> nat \<Rightarrow> uint64 \<Rightarrow> uint64" where
  "pte_addr pt level va = pt + 8 * PX level va"

fun walk_level :: "pagetable_t \<Rightarrow> uint64 \<Rightarrow> bool \<Rightarrow> nat \<Rightarrow> ('x kmem_scheme, uint64) kmon" where
  "walk_level pt va alloc 0 = ret (pte_addr pt 0 va)"
| "walk_level pt va alloc (Suc l) =
     bnd (load64 (pte_addr pt (Suc l) va)) (\<lambda>pte.
     if pte AND PTE_V \<noteq> 0 then walk_level (PTE2PA pte) va alloc l
     else if \<not> alloc then ret 0
     else bnd kalloc (\<lambda>pg.
       if pg = 0 then ret 0
       else thn (memset pg 0 4096)
           (thn (store64 (pte_addr pt (Suc l) va) (PA2PTE pg OR PTE_V))
           (walk_level pg va alloc l))))"

definition walk :: "pagetable_t \<Rightarrow> uint64 \<Rightarrow> bool \<Rightarrow> ('x kmem_scheme, uint64) kmon" where
  "walk pt va alloc = thn (assert_else (\<not> va \<ge> MAXVA) ''walk'') (walk_level pt va alloc 2)"

definition walkaddr :: "pagetable_t \<Rightarrow> uint64 \<Rightarrow> ('x kmem_scheme, uint64) kmon" where
  "walkaddr pt va =
     (if va \<ge> MAXVA then ret 0
      else bnd (walk pt va False) (\<lambda>a.
        if a = 0 then ret 0
        else bnd (load64 a) (\<lambda>pte.
          if pte AND PTE_V = 0 then ret 0
          else if pte AND PTE_U = 0 then ret 0
          else ret (PTE2PA pte))))"

text \<open>
  The loop of \<^verbatim>\<open>mappages\<close> ends at \<open>lst\<close>, with an error of \<open>walk\<close>, or in the panic of \<open>walk\<close> at
  the top of the address space; the test on \<open>MAXVA\<close> here is the one \<open>walk\<close> makes first.
\<close>

function mappages_loop :: "pagetable_t \<Rightarrow> uint64 \<Rightarrow> uint64 \<Rightarrow> uint64 \<Rightarrow> cint \<Rightarrow> ('x kmem_scheme, int) kmon" where
  "mappages_loop pt a lst pa perm =
     (if a \<ge> MAXVA then panic ''walk''
      else bnd (walk pt a True) (\<lambda>pte.
        if pte = 0 then ret (-1)
        else bnd (load64 pte) (\<lambda>v.
          if v AND PTE_V \<noteq> 0 then panic ''mappages: remap''
          else thn (store64 pte (PA2PTE pa OR scast perm OR PTE_V))
            (if a = lst then ret 0
             else mappages_loop pt (a + PGSIZE) lst (pa + PGSIZE) perm))))"
  by pat_completeness auto
termination
  by (relation "measure (\<lambda>(pt, a, lst, pa, perm). unat MAXVA - unat a)")
    (auto simp: MAXVA_def PGSIZE_def word_le_nat_alt unat_word_ariths)

declare mappages_loop.simps [simp del]

definition mappages :: "pagetable_t \<Rightarrow> uint64 \<Rightarrow> uint64 \<Rightarrow> uint64 \<Rightarrow> cint \<Rightarrow> ('x kmem_scheme, int) kmon" where
  "mappages pt va sz pa perm =
     thn (assert_else (sz \<noteq> 0) ''mappages: size'')
     (mappages_loop pt (PGROUNDDOWN va) (PGROUNDDOWN (va + sz - 1)) pa perm)"

definition kvmmap :: "pagetable_t \<Rightarrow> uint64 \<Rightarrow> uint64 \<Rightarrow> uint64 \<Rightarrow> cint \<Rightarrow> ('x kmem_scheme, unit) kmon" where
  "kvmmap kpt va pa sz perm =
     bnd (mappages kpt va sz pa perm) (\<lambda>r. if r \<noteq> 0 then panic ''kvmmap'' else ret ())"

section \<open>The kernel's page table\<close>

text \<open>\<^verbatim>\<open>proc_mapstacks\<close> of \<^verbatim>\<open>proc.c\<close>, which \<^verbatim>\<open>kvmmake\<close> calls.\<close>

definition proc_mapstacks :: "pagetable_t \<Rightarrow> ('x kmem_scheme, unit) kmon" where
  "proc_mapstacks kpgtbl = for_each [0..<NPROC] (\<lambda>p.
     bnd kalloc (\<lambda>pa.
     thn (assert_else (\<not> pa = 0) ''kalloc'')
     (kvmmap kpgtbl (KSTACK p) pa PGSIZE (ucast (PTE_R OR PTE_W)))))"

text \<open>The result of \<^verbatim>\<open>kalloc\<close> is not tested: without memory the \<^verbatim>\<open>memset\<close> writes through a null pointer.\<close>

definition kvmmake :: "('x kern_scheme, pagetable_t) kmon" where
  "kvmmake =
     bnd (gets sym_etext) (\<lambda>etext.
     bnd (gets sym_trampoline) (\<lambda>trampoline.
     bnd kalloc (\<lambda>kpgtbl.
     if kpgtbl = 0 then fault ''null pointer''
     else thn (memset kpgtbl 0 4096)
       (thn (kvmmap kpgtbl UART0 UART0 PGSIZE (ucast (PTE_R OR PTE_W)))
       (thn (kvmmap kpgtbl VIRTIO0 VIRTIO0 PGSIZE (ucast (PTE_R OR PTE_W)))
       (thn (kvmmap kpgtbl PLIC PLIC 0x400000 (ucast (PTE_R OR PTE_W)))
       (thn (kvmmap kpgtbl KERNBASE KERNBASE (etext - KERNBASE) (ucast (PTE_R OR PTE_X)))
       (thn (kvmmap kpgtbl etext etext (PHYSTOP - etext) (ucast (PTE_R OR PTE_W)))
       (thn (kvmmap kpgtbl TRAMPOLINE trampoline PGSIZE (ucast (PTE_R OR PTE_X)))
       (thn (proc_mapstacks kpgtbl)
       (ret kpgtbl)))))))))))"

definition kvminit :: "('x kern_scheme, unit) kmon" where
  "kvminit = bnd kvmmake (\<lambda>pt. modify (\<lambda>s. s\<lparr>kernel_pagetable := pt\<rparr>))"

section \<open>Unmapping\<close>

text \<open>One iteration of the loop of \<^verbatim>\<open>uvmunmap\<close>.\<close>

definition unmap_page :: "pagetable_t \<Rightarrow> uint64 \<Rightarrow> bool \<Rightarrow> ('x kmem_scheme, unit) kmon" where
  "unmap_page pt a do_free =
     bnd (walk pt a False) (\<lambda>pte.
     if pte = 0 then panic ''uvmunmap: walk''
     else bnd (load64 pte) (\<lambda>v.
       if v AND PTE_V = 0 then panic ''uvmunmap: not mapped''
       else if PTE_FLAGS v = PTE_V then panic ''uvmunmap: not a leaf''
       else thn (whenM do_free (kfree (PTE2PA v))) (store64 pte 0)))"

function uvmunmap_loop :: "pagetable_t \<Rightarrow> uint64 \<Rightarrow> uint64 \<Rightarrow> bool \<Rightarrow> ('x kmem_scheme, unit) kmon" where
  "uvmunmap_loop pt a lim do_free =
     (if a < lim then
        if a \<ge> MAXVA then panic ''walk''
        else thn (unmap_page pt a do_free) (uvmunmap_loop pt (a + PGSIZE) lim do_free)
      else ret ())"
  by pat_completeness auto
termination
  by (relation "measure (\<lambda>(pt, a, lim, f). unat MAXVA - unat a)")
    (auto simp: MAXVA_def PGSIZE_def word_le_nat_alt unat_word_ariths)

declare uvmunmap_loop.simps [simp del]

definition uvmunmap :: "pagetable_t \<Rightarrow> uint64 \<Rightarrow> uint64 \<Rightarrow> bool \<Rightarrow> ('x kmem_scheme, unit) kmon" where
  "uvmunmap pt va npages do_free =
     thn (assert_else (\<not> va mod PGSIZE \<noteq> 0) ''uvmunmap: not aligned'')
     (uvmunmap_loop pt va (va + npages * PGSIZE) do_free)"

section \<open>Address spaces\<close>

definition uvmcreate :: "('x kmem_scheme, pagetable_t) kmon" where
  "uvmcreate = bnd kalloc (\<lambda>pt. if pt = 0 then ret 0 else thn (memset pt 0 4096) (ret pt))"

text \<open>A store through the null pointer that an unchecked \<^verbatim>\<open>kalloc\<close> may return.\<close>

definition not_null :: "uint64 \<Rightarrow> ('x kmem_scheme, unit) kmon" where
  "not_null p = (if p = 0 then fault ''null pointer'' else ret ())"

definition uvmfirst :: "pagetable_t \<Rightarrow> bytes \<Rightarrow> ('x kmem_scheme, unit) kmon" where
  "uvmfirst pt src =
     thn (assert_else (\<not> length src \<ge> 4096) ''uvmfirst: more than a page'')
     (bnd kalloc (\<lambda>pg.
     thn (not_null pg)
     (thn (memset pg 0 4096)
     (bnd (mappages pt 0 PGSIZE pg (ucast (PTE_W OR PTE_R OR PTE_X OR PTE_U))) (\<lambda>_.
     set_mem (\<lambda>m. st_bytes m pg src))))))"

definition uvmdealloc :: "pagetable_t \<Rightarrow> uint64 \<Rightarrow> uint64 \<Rightarrow> ('x kmem_scheme, uint64) kmon" where
  "uvmdealloc pt oldsz newsz =
     (if newsz \<ge> oldsz then ret oldsz
      else if PGROUNDUP newsz < PGROUNDUP oldsz
      then thn (uvmunmap pt (PGROUNDUP newsz)
                  (scast (ucast ((PGROUNDUP oldsz - PGROUNDUP newsz) div PGSIZE) :: cint)) True)
               (ret newsz)
      else ret newsz)"

text \<open>
  The loop of \<^verbatim>\<open>uvmalloc\<close>; \<open>oldsz\<close> is already rounded up. Its last test is never reached with
  \<open>a \<ge> MAXVA\<close>, because \<open>mappages\<close> has panicked there.
\<close>

function uvmalloc_loop :: "pagetable_t \<Rightarrow> uint64 \<Rightarrow> uint64 \<Rightarrow> uint64 \<Rightarrow> cint \<Rightarrow> ('x kmem_scheme, uint64) kmon" where
  "uvmalloc_loop pt a oldsz newsz xperm =
     (if a < newsz then
        bnd kalloc (\<lambda>pg.
        if pg = 0 then bnd (uvmdealloc pt a oldsz) (\<lambda>_. ret 0)
        else thn (memset pg 0 4096)
          (bnd (mappages pt a PGSIZE pg (ucast (PTE_R OR PTE_U OR scast xperm))) (\<lambda>r.
           if r \<noteq> 0 then thn (kfree pg) (bnd (uvmdealloc pt a oldsz) (\<lambda>_. ret 0))
           else if a \<ge> MAXVA then panic ''walk''
           else uvmalloc_loop pt (a + PGSIZE) oldsz newsz xperm)))
      else ret newsz)"
  by pat_completeness auto
termination
  by (relation "measure (\<lambda>(pt, a, oldsz, newsz, x). unat MAXVA - unat a)")
    (auto simp: MAXVA_def PGSIZE_def word_le_nat_alt unat_word_ariths)

declare uvmalloc_loop.simps [simp del]

definition uvmalloc :: "pagetable_t \<Rightarrow> uint64 \<Rightarrow> uint64 \<Rightarrow> cint \<Rightarrow> ('x kmem_scheme, uint64) kmon" where
  "uvmalloc pt oldsz newsz xperm =
     (if newsz < oldsz then ret oldsz
      else uvmalloc_loop pt (PGROUNDUP oldsz) (PGROUNDUP oldsz) newsz xperm)"

text \<open>\<^verbatim>\<open>freewalk\<close>; the argument counts the levels below, which the recursion of the source leaves implicit:
  a page table is at most three levels deep, a fourth one is a fault.\<close>

fun freewalk :: "nat \<Rightarrow> pagetable_t \<Rightarrow> ('x kmem_scheme, unit) kmon" where
  "freewalk 0 pt = fault ''freewalk: too deep''"
| "freewalk (Suc n) pt =
     thn (for_each [0..<512] (\<lambda>i.
       bnd (load64 (pt + 8 * of_nat i)) (\<lambda>pte.
       if pte AND PTE_V \<noteq> 0 \<and> pte AND (PTE_R OR PTE_W OR PTE_X) = 0
       then thn (freewalk n (PTE2PA pte)) (store64 (pt + 8 * of_nat i) 0)
       else if pte AND PTE_V \<noteq> 0 then panic ''freewalk: leaf''
       else ret ())))
     (kfree pt)"

definition uvmfree :: "pagetable_t \<Rightarrow> uint64 \<Rightarrow> ('x kmem_scheme, unit) kmon" where
  "uvmfree pt sz =
     thn (whenM (sz > 0) (uvmunmap pt 0 (PGROUNDUP sz div PGSIZE) True)) (freewalk 3 pt)"

definition uvmclear :: "pagetable_t \<Rightarrow> uint64 \<Rightarrow> ('x kmem_scheme, unit) kmon" where
  "uvmclear pt va =
     bnd (walk pt va False) (\<lambda>pte.
     if pte = 0 then panic ''uvmclear''
     else bnd (load64 pte) (\<lambda>v. store64 pte (v AND NOT PTE_U)))"

section \<open>Copy-on-write\<close>

text \<open>\<^verbatim>\<open>reference_count[pa/PGSIZE] += 1\<close>; the array has one entry per page below \<^verbatim>\<open>PHYSTOP\<close>.\<close>

definition incref :: "uint64 \<Rightarrow> ('x kmem_scheme, unit) kmon" where
  "incref pa =
     thn (acquire LRef)
     (thn (if pa div PGSIZE < PHYSTOP div PGSIZE
           then modify (\<lambda>s. s\<lparr>refcnt := (refcnt s)(pa div PGSIZE := refcnt s (pa div PGSIZE) + 1)\<rparr>)
           else fault ''reference_count: index'')
     (release LRef))"

text \<open>What \<^verbatim>\<open>uvmcopy\<close> leaves in the parent's PTE.\<close>

definition cow_pte :: "pte_t \<Rightarrow> pte_t" where
  "cow_pte v = (if v AND PTE_W \<noteq> 0 then (v AND NOT (push_bit 2 1)) OR push_bit 8 1 else v)"

text \<open>One iteration of the loop of \<^verbatim>\<open>uvmcopy\<close>, up to the result of \<^verbatim>\<open>mappages\<close>.\<close>

definition uvmcopy_body :: "pagetable_t \<Rightarrow> pagetable_t \<Rightarrow> uint64 \<Rightarrow> ('x kmem_scheme, int) kmon" where
  "uvmcopy_body old new i =
     bnd (walk old i False) (\<lambda>pte.
     if pte = 0 then panic ''uvmcopy: pte should exist''
     else bnd (load64 pte) (\<lambda>v.
       if v AND PTE_V = 0 then panic ''uvmcopy: page not present''
       else let v = cow_pte v; pa = push_bit 12 (drop_bit 10 v); flags = v AND 0x3FF in
         thn (store64 pte v) (thn (incref pa) (mappages new i 4096 pa (ucast flags)))))"

function uvmcopy_loop :: "pagetable_t \<Rightarrow> pagetable_t \<Rightarrow> uint64 \<Rightarrow> uint64 \<Rightarrow> ('x kmem_scheme, int) kmon" where
  "uvmcopy_loop old new i sz =
     (if i < sz then
        if i \<ge> MAXVA then panic ''walk''
        else bnd (uvmcopy_body old new i) (\<lambda>r.
          if r \<noteq> 0 then thn (uvmunmap new 0 (i div PGSIZE) True) (ret (-1))
          else uvmcopy_loop old new (i + PGSIZE) sz)
      else ret 0)"
  by pat_completeness auto
termination
  by (relation "measure (\<lambda>(old, new, i, sz). unat MAXVA - unat i)")
    (auto simp: MAXVA_def PGSIZE_def word_le_nat_alt unat_word_ariths)

declare uvmcopy_loop.simps [simp del]

definition uvmcopy :: "pagetable_t \<Rightarrow> pagetable_t \<Rightarrow> uint64 \<Rightarrow> ('x kmem_scheme, int) kmon" where
  "uvmcopy old new sz = uvmcopy_loop old new 0 sz"

section \<open>Moving data between kernel and user memory\<close>

definition kill_cur :: "nat \<Rightarrow> ('x kern_scheme, unit) kmon" where
  "kill_cur p = upd_proc p (\<lambda>q. q\<lparr>p_killed := 1\<rparr>)"

text \<open>The part of an iteration of \<^verbatim>\<open>copyout\<close> that gives the process its own copy of a shared page; the
  result is the physical page the data goes to.\<close>

definition copyout_cow :: "pagetable_t \<Rightarrow> nat \<Rightarrow> uint64 \<Rightarrow> uint64 \<Rightarrow> ('x kern_scheme, uint64) kmon" where
  "copyout_cow pt p va0 pa0 =
     bnd (walk pt va0 False) (\<lambda>pte.
     bnd (load64 pte) (\<lambda>v.
     thn (whenM (v = 0) (kill_cur p))
     (bnd (get_proc p p_sz) (\<lambda>sz.
     if va0 < sz \<and> v AND PTE_V \<noteq> 0 \<and> v AND PTE_RSW \<noteq> 0 then
       bnd kalloc (\<lambda>pg.
       if pg = 0 then thn (kill_cur p) (ret pa0)
       else thn (memmove pg pa0 4096)
           (bnd (load64 pte) (\<lambda>v.
            let flags = v AND 0x3FF in
            thn (uvmunmap pt va0 1 True)
            (thn (store64 pte ((push_bit 10 (drop_bit 12 pg) OR flags OR push_bit 2 1)))
            (thn (bnd (load64 pte) (\<lambda>v. store64 pte (v AND NOT (push_bit 8 1))))
            (ret pg))))))
     else ret pa0))))"

lemma page_offset_lt: "unat (a - PGROUNDDOWN a) < 4096"
  by (simp add: in_page_iff)

function copyout :: "pagetable_t \<Rightarrow> uint64 \<Rightarrow> bytes \<Rightarrow> ('x kern_scheme, int) kmon" where
  "copyout pt dstva src =
     (if length src > 0 then
        let va0 = PGROUNDDOWN dstva; n = min (4096 - unat (dstva - va0)) (length src) in
        bnd (walkaddr pt va0) (\<lambda>pa0.
        if pa0 = 0 then ret (-1)
        else bnd myproc (\<lambda>p.
          bnd (copyout_cow pt p va0 pa0) (\<lambda>pa0.
          thn (set_mem (\<lambda>m. st_bytes m (pa0 + (dstva - va0)) (take n src)))
          (copyout pt (va0 + PGSIZE) (drop n src)))))
      else ret 0)"
  by pat_completeness auto
termination
  by (relation "measure (\<lambda>(pt, a, src). length src)") (auto simp: page_offset_lt)

declare copyout.simps [simp del]

text \<open>The part of the next \<open>len\<close> bytes that lies in the page of \<open>va\<close>: the local \<^verbatim>\<open>n\<close> of \<^verbatim>\<open>copyin\<close> and \<^verbatim>\<open>copyinstr\<close>.\<close>

definition page_part :: "uint64 \<Rightarrow> uint64 \<Rightarrow> uint64" where
  "page_part va len = (let n = PGSIZE - (va - PGROUNDDOWN va) in if n > len then len else n)"

lemma unat_page_part: "unat (page_part va len) = min (4096 - unat (va - PGROUNDDOWN va)) (unat len)"
proof -
  have "va - PGROUNDDOWN va \<le> PGSIZE" using page_offset_lt [of va] by (simp add: PGSIZE_def word_le_nat_alt)
  then have "unat (PGSIZE - (va - PGROUNDDOWN va)) = 4096 - unat (va - PGROUNDDOWN va)" by (simp add: unat_sub PGSIZE_def)
  then show ?thesis by (simp add: page_part_def Let_def word_less_nat_alt min_def not_less)
qed

lemma unat_page_rest: "unat (len - page_part va len) = unat len - unat (page_part va len)"
  by (rule unat_sub) (simp add: word_le_nat_alt unat_page_part)

lemma page_part_less: "0 < len \<Longrightarrow> unat (len - page_part va len) < unat len"
  using page_offset_lt [of va] by (simp add: unat_page_rest unat_page_part word_less_nat_alt)

text \<open>The result of \<^verbatim>\<open>copyin\<close> and the bytes it has stored, which on an error are those before the page
  that is not mapped.\<close>

function copyin :: "pagetable_t \<Rightarrow> uint64 \<Rightarrow> uint64 \<Rightarrow> ('x kmem_scheme, int \<times> bytes) kmon" where
  "copyin pt srcva len =
     (if len > 0 then
        let va0 = PGROUNDDOWN srcva; n = page_part srcva len in
        bnd (walkaddr pt va0) (\<lambda>pa0.
        if pa0 = 0 then ret (-1, [])
        else bnd (gets (\<lambda>s. ld_bytes (mem s) (pa0 + (srcva - va0)) (unat n))) (\<lambda>bs.
          bnd (copyin pt (va0 + PGSIZE) (len - n)) (\<lambda>(r, rest). ret (r, bs @ rest))))
      else ret (0, []))"
  by pat_completeness auto
termination
  by (relation "measure (\<lambda>(pt, a, len). unat len)") (auto simp: page_part_less)

declare copyin.simps [simp del]

text \<open>The inner loop of \<^verbatim>\<open>copyinstr\<close>: at most \<open>n\<close> bytes from \<open>p\<close>, up to and including a NUL.\<close>

fun copy_to_nul :: "memory \<Rightarrow> uint64 \<Rightarrow> nat \<Rightarrow> bool \<times> bytes" where
  "copy_to_nul m p 0 = (False, [])"
| "copy_to_nul m p (Suc n) =
     (if m p = 0 then (True, [0])
      else case copy_to_nul m (p + 1) n of (got, bs) \<Rightarrow> (got, m p # bs))"

function copyinstr :: "pagetable_t \<Rightarrow> uint64 \<Rightarrow> uint64 \<Rightarrow> ('x kmem_scheme, int \<times> bytes) kmon" where
  "copyinstr pt srcva mx =
     (if mx > 0 then
        let va0 = PGROUNDDOWN srcva; n = page_part srcva mx in
        bnd (walkaddr pt va0) (\<lambda>pa0.
        if pa0 = 0 then ret (-1, [])
        else bnd (gets (\<lambda>s. copy_to_nul (mem s) (pa0 + (srcva - va0)) (unat n))) (\<lambda>(got_null, bs).
          if got_null then ret (0, bs)
          else bnd (copyinstr pt (va0 + PGSIZE) (mx - n)) (\<lambda>(r, rest). ret (r, bs @ rest))))
      else ret (-1, []))"
  by pat_completeness auto
termination
  by (relation "measure (\<lambda>(pt, a, mx). unat mx)") (auto simp: page_part_less)

declare copyinstr.simps [simp del]

end
