(* ===== verification/Proc.thy ===== *)
theory Proc
  imports Vm "HOL-Library.Signed_Division"
begin

text \<open>
  \<^verbatim>\<open>kernel/proc.c\<close>, the part below the file system: the process table, process identifiers, allocation
  and release of processes, sleeping and waking, killing, the accounting of time, and the two
  schedulers (\<^verbatim>\<open>PBS\<close> and \<^verbatim>\<open>RR\<close>). \<^verbatim>\<open>fork\<close>, \<^verbatim>\<open>exit\<close>, \<^verbatim>\<open>wait\<close> and \<^verbatim>\<open>waitx\<close> use files and are in theory \<open>ProcLife\<close>.

  A switch to the scheduler ends a routine with the outcome \<open>Sleep s\<close>; \<open>s\<close> is the state in which the
  scheduler takes over, with the lock of the process held. What the source does when the
  process runs again is a definition of its own, with the suffix \<open>_resume\<close>.
\<close>

section \<open>The process table\<close>

abbreviation all_procs :: "nat list" where
  "all_procs \<equiv> [0..<NPROC]"

text \<open>The loops over the table take the lock of each process around their body.\<close>

definition with_lock :: "nat \<Rightarrow> ('x kern_scheme, unit) kmon \<Rightarrow> ('x kern_scheme, unit) kmon" where
  "with_lock p m = thn (acquire (LProc p)) (thn m (release (LProc p)))"

text \<open>\<^verbatim>\<open>procinit\<close>; the locks start free.\<close>

definition procinit :: "('x kern_scheme, unit) kmon" where
  "procinit = for_each all_procs (\<lambda>p. upd_proc p (\<lambda>q. q\<lparr>p_state := UNUSED, p_kstack := KSTACK p\<rparr>))"

definition allocpid :: "('x kern_scheme, cint) kmon" where
  "allocpid =
     thn (acquire LPid)
     (bnd (gets nextpid) (\<lambda>pid.
     thn (modify (\<lambda>s. s\<lparr>nextpid := nextpid s + 1\<rparr>))
     (thn (release LPid)
     (ret pid))))"

definition proc_pagetable :: "nat \<Rightarrow> ('x kern_scheme, pagetable_t) kmon" where
  "proc_pagetable p =
     bnd uvmcreate (\<lambda>pagetable.
     if pagetable = 0 then ret 0
     else bnd (gets sym_trampoline) (\<lambda>trampoline.
       bnd (mappages pagetable TRAMPOLINE PGSIZE trampoline (ucast (PTE_R OR PTE_X))) (\<lambda>r.
       if r < 0 then thn (uvmfree pagetable 0) (ret 0)
       else bnd (get_proc p p_trapframe) (\<lambda>tf.
         bnd (mappages pagetable TRAPFRAME PGSIZE tf (ucast (PTE_R OR PTE_W))) (\<lambda>r.
         if r < 0 then
           thn (uvmunmap pagetable TRAMPOLINE 1 False) (thn (uvmfree pagetable 0) (ret 0))
         else ret pagetable)))))"

definition proc_freepagetable :: "pagetable_t \<Rightarrow> uint64 \<Rightarrow> ('x kern_scheme, unit) kmon" where
  "proc_freepagetable pagetable sz =
     thn (uvmunmap pagetable TRAMPOLINE 1 False)
     (thn (uvmunmap pagetable TRAPFRAME 1 False)
     (uvmfree pagetable sz))"

definition freeproc :: "nat \<Rightarrow> ('x kern_scheme, unit) kmon" where
  "freeproc p =
     bnd (get_proc p p_trapframe) (\<lambda>tf.
     thn (whenM (tf \<noteq> 0) (kfree tf))
     (thn (upd_proc p (\<lambda>q. q\<lparr>p_trapframe := 0\<rparr>))
     (bnd (get_proc p p_pagetable) (\<lambda>pt.
     bnd (get_proc p p_sz) (\<lambda>sz.
     thn (whenM (pt \<noteq> 0) (proc_freepagetable pt sz))
     (upd_proc p (\<lambda>q. q\<lparr>p_pagetable := 0, p_sz := 0, p_pid := 0, p_parent := None,
        p_name := (p_name q)[0 := 0], p_chan := NoChan, p_killed := 0, p_xstate := 0,
        p_state := UNUSED\<rparr>)))))))"

text \<open>The search of \<^verbatim>\<open>allocproc\<close>: it returns with the lock of the process it found held.\<close>

fun find_unused :: "nat list \<Rightarrow> ('x kern_scheme, nat option) kmon" where
  "find_unused [] = ret None"
| "find_unused (p # ps) =
     thn (acquire (LProc p))
     (bnd (get_proc p p_state) (\<lambda>st.
     if st = UNUSED then ret (Some p)
     else thn (release (LProc p)) (find_unused ps)))"

text \<open>What \<^verbatim>\<open>allocproc\<close> does with the entry it found, after the first assignments.\<close>

definition allocproc_fail :: "nat \<Rightarrow> ('x kern_scheme, nat option) kmon" where
  "allocproc_fail p = thn (freeproc p) (thn (release (LProc p)) (ret None))"

definition allocproc_setup :: "nat \<Rightarrow> uint32 \<Rightarrow> ('x kern_scheme, nat option) kmon" where
  "allocproc_setup p tk =
     bnd kalloc (\<lambda>tf.
     thn (upd_proc p (\<lambda>q. q\<lparr>p_trapframe := tf\<rparr>))
     (if tf = 0 then allocproc_fail p
      else bnd (proc_pagetable p) (\<lambda>pt.
        thn (upd_proc p (\<lambda>q. q\<lparr>p_pagetable := pt\<rparr>))
        (if pt = 0 then allocproc_fail p
         else bnd (gets sym_forkret) (\<lambda>fr.
           thn (upd_proc p (\<lambda>q. q\<lparr>p_context := \<lparr>cx_ra = fr, cx_sp = p_kstack q + PGSIZE, cx_s = replicate 12 0\<rparr>,
                  p_rtime := 0, p_etime := 0, p_ctime := tk\<rparr>))
           (ret (Some p)))))))"

definition allocproc :: "('x kern_scheme, nat option) kmon" where
  "allocproc =
     bnd (find_unused all_procs) (\<lambda>found.
     case found of None \<Rightarrow> ret None
     | Some p \<Rightarrow>
       bnd allocpid (\<lambda>pid.
       bnd (gets ticks) (\<lambda>tk.
       thn (upd_proc p (\<lambda>q. q\<lparr>p_pid := pid, p_state := USED, p_rbi := 25, p_sp := 50, p_dp := 75,
              p_runtime := 0, p_stime := 0, p_wtime := 0, p_no_scheduled := 0, p_start_time := tk\<rparr>))
       (allocproc_setup p tk))))"

definition growproc :: "cint \<Rightarrow> ('x kern_scheme, int) kmon" where
  "growproc n =
     bnd myproc (\<lambda>p.
     bnd (get_proc p p_sz) (\<lambda>sz.
     bnd (get_proc p p_pagetable) (\<lambda>pt.
     if sint n > 0 then
       bnd (uvmalloc pt sz (sz + scast n) (ucast PTE_W)) (\<lambda>sz.
       if sz = 0 then ret (-1) else thn (upd_proc p (\<lambda>q. q\<lparr>p_sz := sz\<rparr>)) (ret 0))
     else if sint n < 0 then
       bnd (uvmdealloc pt sz (sz + scast n)) (\<lambda>sz.
       thn (upd_proc p (\<lambda>q. q\<lparr>p_sz := sz\<rparr>)) (ret 0))
     else thn (upd_proc p (\<lambda>q. q\<lparr>p_sz := sz\<rparr>)) (ret 0))))"

section \<open>Switching, sleeping and waking\<close>

text \<open>
  \<^verbatim>\<open>sched\<close>: the checks, then the switch. The number of locks held is the \<^verbatim>\<open>push_off\<close> depth, and a thread
  that holds a lock has interrupts off (both shown in theory \<open>Spinlock\<close>).
\<close>

definition sched :: "('x kern_scheme, 'a) kmon" where
  "sched =
     bnd myproc (\<lambda>p.
     bnd (gets held) (\<lambda>h.
     if LProc p \<notin> set h then panic ''sched p->lock''
     else if length h \<noteq> 1 then panic ''sched locks''
     else bnd (get_proc p p_state) (\<lambda>st.
       if st = RUNNING then panic ''sched running'' else Sleep)))"

definition yield :: "('x kern_scheme, 'a) kmon" where
  "yield =
     bnd myproc (\<lambda>p.
     thn (acquire (LProc p))
     (thn (upd_proc p (\<lambda>q. q\<lparr>p_state := RUNNABLE\<rparr>))
     sched))"

definition yield_resume :: "nat \<Rightarrow> ('x kern_scheme, unit) kmon" where
  "yield_resume p = release (LProc p)"

definition sleep :: "chan \<Rightarrow> lock \<Rightarrow> ('x kern_scheme, 'a) kmon" where
  "sleep ch lk =
     bnd myproc (\<lambda>p.
     thn (acquire (LProc p))
     (thn (release lk)
     (thn (upd_proc p (\<lambda>q. q\<lparr>p_chan := ch\<rparr>))
     (thn (upd_proc p (\<lambda>q. q\<lparr>p_state := SLEEPING\<rparr>))
     sched))))"

definition sleep_resume :: "nat \<Rightarrow> lock \<Rightarrow> ('x kern_scheme, unit) kmon" where
  "sleep_resume p lk =
     thn (upd_proc p (\<lambda>q. q\<lparr>p_chan := NoChan\<rparr>))
     (thn (release (LProc p))
     (acquire lk))"

definition wakeup :: "chan \<Rightarrow> ('x kern_scheme, unit) kmon" where
  "wakeup ch = for_each all_procs (\<lambda>p.
     bnd (gets cur) (\<lambda>c.
     whenM (Some p \<noteq> c)
       (with_lock p (upd_proc p (\<lambda>q.
          if p_state q = SLEEPING \<and> p_chan q = ch then q\<lparr>p_state := RUNNABLE\<rparr> else q)))))"

fun kill_loop :: "cint \<Rightarrow> nat list \<Rightarrow> ('x kern_scheme, int) kmon" where
  "kill_loop pid [] = ret (-1)"
| "kill_loop pid (p # ps) =
     thn (acquire (LProc p))
     (bnd (get_proc p p_pid) (\<lambda>pp.
     if pp = pid then
       thn (upd_proc p (\<lambda>q. q\<lparr>p_killed := 1\<rparr>))
       (thn (upd_proc p (\<lambda>q. if p_state q = SLEEPING then q\<lparr>p_state := RUNNABLE\<rparr> else q))
       (thn (release (LProc p)) (ret 0)))
     else thn (release (LProc p)) (kill_loop pid ps)))"

definition kill :: "cint \<Rightarrow> ('x kern_scheme, int) kmon" where
  "kill pid = kill_loop pid all_procs"

definition setkilled :: "nat \<Rightarrow> ('x kern_scheme, unit) kmon" where
  "setkilled p = with_lock p (upd_proc p (\<lambda>q. q\<lparr>p_killed := 1\<rparr>))"

definition killed :: "nat \<Rightarrow> ('x kern_scheme, cint) kmon" where
  "killed p =
     thn (acquire (LProc p))
     (bnd (get_proc p p_killed) (\<lambda>k.
     thn (release (LProc p)) (ret k)))"

text \<open>
  \<^verbatim>\<open>either_copyout\<close> and \<^verbatim>\<open>either_copyin\<close>. A user address is \<open>Some va\<close>; a kernel buffer is \<open>None\<close> as a
  destination (the bytes delivered to it are the second result) and a byte list as a source.
\<close>

definition either_copyout :: "uint64 option \<Rightarrow> bytes \<Rightarrow> ('x kern_scheme, int \<times> bytes) kmon" where
  "either_copyout dst src =
     bnd myproc (\<lambda>p.
     case dst of
       Some va \<Rightarrow> bnd (get_proc p p_pagetable) (\<lambda>pt. bnd (copyout pt va src) (\<lambda>r. ret (r, [])))
     | None \<Rightarrow> ret (0, src))"

datatype copy_src = UserSrc uint64 | KernSrc bytes

definition either_copyin :: "copy_src \<Rightarrow> uint64 \<Rightarrow> ('x kern_scheme, int \<times> bytes) kmon" where
  "either_copyin src len =
     bnd myproc (\<lambda>p.
     case src of
       UserSrc va \<Rightarrow> bnd (get_proc p p_pagetable) (\<lambda>pt. copyin pt va len)
     | KernSrc bs \<Rightarrow> if length bs < unat len then fault ''kernel buffer'' else ret (0, take (unat len) bs))"

definition update_time :: "('x kern_scheme, unit) kmon" where
  "update_time = for_each all_procs (\<lambda>p. with_lock p (upd_proc p (\<lambda>q.
     if p_state q = RUNNING then q\<lparr>p_rtime := p_rtime q + 1, p_runtime := p_runtime q + 1\<rparr>
     else if p_state q = SLEEPING then q\<lparr>p_stime := p_stime q + 1\<rparr>
     else if p_state q = RUNNABLE then q\<lparr>p_wtime := p_wtime q + 1\<rparr>
     else q)))"

section \<open>The schedulers\<close>

text \<open>
  One round of the endless loop of \<^verbatim>\<open>scheduler\<close>, up to the switch to a process: the result is the
  process switched to. The arithmetic on \<^verbatim>\<open>int\<close> wraps around; the division of the source
  truncates, and its divisor is zero when the three times add up to \<open>-1\<close>.
\<close>

definition rbi_num :: "proc \<Rightarrow> cint" where
  "rbi_num q = (3 * p_runtime q - p_stime q - p_wtime q) * 50"

definition rbi_den :: "proc \<Rightarrow> cint" where
  "rbi_den q = p_runtime q + p_stime q + p_wtime q + 1"

definition rbi_of :: "proc \<Rightarrow> cint" where
  "rbi_of q = (let c = sint (rbi_num q) sdiv sint (rbi_den q) in if c > 0 then of_int c else 0)"

definition dp_of :: "proc \<Rightarrow> cint" where
  "dp_of q = (if sint (p_sp q + rbi_of q) < 100 then p_sp q + rbi_of q else 100)"

text \<open>The first loop: new \<open>rbi\<close> and \<open>dp\<close> of the runnable processes, and the largest \<open>dp\<close>.\<close>

fun pbs_scan :: "nat list \<Rightarrow> cint \<Rightarrow> ('x kern_scheme, cint) kmon" where
  "pbs_scan [] mx = ret mx"
| "pbs_scan (p # ps) mx =
     thn (acquire (LProc p))
     (bnd (get_proc p (\<lambda>q. q)) (\<lambda>q.
     if p_state q = RUNNABLE then
       if rbi_den q = 0 then fault ''division by zero''
       else thn (upd_proc p (\<lambda>q. q\<lparr>p_rbi := rbi_of q, p_dp := dp_of q\<rparr>))
         (thn (release (LProc p))
         (pbs_scan ps (if sint (dp_of q) > sint mx then dp_of q else mx)))
     else thn (release (LProc p)) (pbs_scan ps mx)))"

text \<open>The loops that collect the processes of a list that are runnable and pass a test.\<close>

fun collect :: "(proc \<Rightarrow> bool) \<Rightarrow> nat list \<Rightarrow> ('x kern_scheme, nat list) kmon" where
  "collect P [] = ret []"
| "collect P (p # ps) =
     thn (acquire (LProc p))
     (bnd (get_proc p (\<lambda>q. p_state q = RUNNABLE \<and> P q)) (\<lambda>b.
     thn (release (LProc p))
     (bnd (collect P ps) (\<lambda>r. ret (if b then p # r else r)))))"

text \<open>
  The loops that look for the smallest key: the source keeps the key and the index of the best
  process so far. \<open>no_scheduled\<close> is compared as \<^verbatim>\<open>int\<close>; \<open>ctime\<close> is a \<^verbatim>\<open>uint\<close>, so the comparison with
  \<open>start_time\<close> is unsigned.
\<close>

fun best :: "(proc \<Rightarrow> cint \<Rightarrow> bool) \<Rightarrow> (proc \<Rightarrow> cint) \<Rightarrow> nat list \<Rightarrow> cint \<Rightarrow> nat \<Rightarrow> ('x kern_scheme, cint \<times> nat) kmon" where
  "best lt key [] k i = ret (k, i)"
| "best lt key (p # ps) k i =
     thn (acquire (LProc p))
     (bnd (get_proc p (\<lambda>q. q)) (\<lambda>q.
     thn (release (LProc p))
     (if p_state q = RUNNABLE \<and> lt q k then best lt key ps (key q) p
      else best lt key ps k i)))"

definition fewer_runs :: "proc \<Rightarrow> cint \<Rightarrow> bool" where
  "fewer_runs q k \<longleftrightarrow> sint (p_no_scheduled q) < sint k"

definition older :: "proc \<Rightarrow> cint \<Rightarrow> bool" where
  "older q k \<longleftrightarrow> p_ctime q < k"

text \<open>The part that all the branches share: the process, if it is still runnable, is switched to.\<close>

definition dispatch :: "nat \<Rightarrow> ('x kern_scheme, nat option) kmon" where
  "dispatch p =
     thn (acquire (LProc p))
     (bnd (get_proc p p_state) (\<lambda>st.
     if st = RUNNABLE then
       thn (upd_proc p (\<lambda>q. q\<lparr>p_no_scheduled := p_no_scheduled q + 1, p_stime := 0, p_runtime := 0,
              p_state := RUNNING\<rparr>))
       (thn (modify (\<lambda>s. s\<lparr>cur := Some p\<rparr>))
       (ret (Some p)))
     else thn (release (LProc p)) (ret None)))"

text \<open>The loop of the branch for \<open>count = 0\<close>, up to its first switch.\<close>

fun dispatch_first :: "cint \<Rightarrow> nat list \<Rightarrow> ('x kern_scheme, nat option) kmon" where
  "dispatch_first mx [] = ret None"
| "dispatch_first mx (p # ps) =
     thn (acquire (LProc p))
     (bnd (get_proc p (\<lambda>q. p_state q = RUNNABLE \<and> p_dp q = mx)) (\<lambda>b.
     if b then
       thn (upd_proc p (\<lambda>q. q\<lparr>p_no_scheduled := p_no_scheduled q + 1, p_stime := 0, p_runtime := 0,
              p_state := RUNNING\<rparr>))
       (thn (modify (\<lambda>s. s\<lparr>cur := Some p\<rparr>))
       (ret (Some p)))
     else thn (release (LProc p)) (dispatch_first mx ps)))"

definition scheduler_pbs :: "('x kern_scheme, nat option) kmon" where
  "scheduler_pbs =
     bnd (pbs_scan all_procs 0) (\<lambda>mx.
     bnd (collect (\<lambda>q. p_dp q = mx) all_procs) (\<lambda>arr.
     case arr of
       [] \<Rightarrow> dispatch_first mx all_procs
     | p0 # _ \<Rightarrow>
       bnd (get_proc p0 p_no_scheduled) (\<lambda>k0.
       bnd (best fewer_runs p_no_scheduled arr k0 p0) (\<lambda>(no_sched, ind).
       bnd (collect (\<lambda>q. p_no_scheduled q = no_sched) arr) (\<lambda>arr2.
       case arr2 of
         [] \<Rightarrow> ret None
       | [_] \<Rightarrow> dispatch ind
       | q0 # _ \<Rightarrow>
         bnd (get_proc q0 p_start_time) (\<lambda>m0.
         bnd (best older p_ctime arr2 m0 q0) (\<lambda>(min_start, ind2).
         dispatch ind2)))))))"

text \<open>What the source does when the process switches back, and one round of the \<^verbatim>\<open>RR\<close> scheduler from process
  \<open>p\<close> on, up to its next switch.\<close>

definition scheduler_resume :: "nat \<Rightarrow> ('x kern_scheme, unit) kmon" where
  "scheduler_resume p = thn (modify (\<lambda>s. s\<lparr>cur := None\<rparr>)) (release (LProc p))"

fun scheduler_rr :: "nat list \<Rightarrow> ('x kern_scheme, nat option) kmon" where
  "scheduler_rr [] = ret None"
| "scheduler_rr (p # ps) =
     thn (acquire (LProc p))
     (bnd (get_proc p p_state) (\<lambda>st.
     if st = RUNNABLE then
       thn (upd_proc p (\<lambda>q. q\<lparr>p_state := RUNNING\<rparr>))
       (thn (modify (\<lambda>s. s\<lparr>cur := Some p\<rparr>))
       (ret (Some p)))
     else thn (release (LProc p)) (scheduler_rr ps)))"

end
