(* ===== verification/VmFrame.thy ===== *)
theory VmFrame
  imports Vm
begin

text \<open>
  The routines of \<^verbatim>\<open>kalloc.c\<close> and \<^verbatim>\<open>vm.c\<close> work on memory, the free list and the reference counts only:
  when they return, the locks held and everything above the allocator in the kernel state
  are what they were.
\<close>

definition above_kmem :: "'x kmem_scheme \<Rightarrow> lock list \<times> uint64 \<times> 'x" where
  "above_kmem s = (held s, kend s, kmem.more s)"

lemma above_kmem_upd [simp]:
  "above_kmem (s\<lparr>mem := m\<rparr>) = above_kmem s" "above_kmem (s\<lparr>freelist := l\<rparr>) = above_kmem s"
  "above_kmem (s\<lparr>refcnt := r\<rparr>) = above_kmem s"
  by (cases s; simp add: above_kmem_def)+

lemma keeps_memory [keeps_intros]:
  "keeps above_kmem (set_mem f)" "keeps above_kmem (store64 a v)" "keeps above_kmem (load64 a)"
  "keeps above_kmem (memset d c n)" "keeps above_kmem (memmove d a n)"
  by (auto simp: set_mem_def store64_def load64_def memset_def memmove_def intro!: keeps_modify keeps_gets)

lemma held_machine_upd: "above_kmem (s\<lparr>held := h\<rparr>) = (h, snd (above_kmem s))"
  by (cases s) (simp add: above_kmem_def)

lemmas run_defs = thn_def bnd_def acquire_def release_def gets_def modify_def assert_else_def whenM_def memset_run
  store64_def load64_def set_mem_def

lemma keeps_alloc [keeps_intros]:
  "keeps above_kmem kalloc" "keeps above_kmem (kfree pa)" "keeps above_kmem (incref pa)"
proof -
  show "keeps above_kmem kalloc"
    unfolding keeps_def kalloc_def by (auto simp: run_defs held_machine_upd split: if_splits)
  show "keeps above_kmem (kfree pa)"
    unfolding keeps_def kfree_def by (auto simp: run_defs held_machine_upd panic_def split: if_splits)
  show "keeps above_kmem (incref pa)"
    unfolding keeps_def incref_def by (auto simp: run_defs held_machine_upd fault_def split: if_splits)
qed

lemma keeps_walk_level [keeps_intros]: "keeps above_kmem (walk_level pt va alloc l)"
  by (induction l arbitrary: pt) (auto intro!: keeps_intros)

lemma keeps_walk [keeps_intros]: "keeps above_kmem (walk pt va alloc)"
  unfolding walk_def by (intro keeps_intros)

lemma keeps_mappages_loop [keeps_intros]: "keeps above_kmem (mappages_loop pt a lst pa perm)"
  by (induction pt a lst pa perm rule: mappages_loop.induct)
    (subst mappages_loop.simps, auto intro!: keeps_intros)

lemma keeps_mappages [keeps_intros]: "keeps above_kmem (mappages pt va sz pa perm)"
  unfolding mappages_def by (intro keeps_intros)

lemma keeps_uvmunmap_loop [keeps_intros]: "keeps above_kmem (uvmunmap_loop pt a lim f)"
  by (induction pt a lim f rule: uvmunmap_loop.induct)
    (subst uvmunmap_loop.simps, auto simp: unmap_page_def intro!: keeps_intros)

lemma keeps_uvmunmap [keeps_intros]: "keeps above_kmem (uvmunmap pt va n f)"
  unfolding uvmunmap_def by (intro keeps_intros)

lemma keeps_uvmdealloc [keeps_intros]: "keeps above_kmem (uvmdealloc pt oldsz newsz)"
  unfolding uvmdealloc_def by (intro keeps_intros)

lemma keeps_uvmalloc_loop [keeps_intros]: "keeps above_kmem (uvmalloc_loop pt a oldsz newsz x)"
  by (induction pt a oldsz newsz x rule: uvmalloc_loop.induct)
    (subst uvmalloc_loop.simps, auto intro!: keeps_intros)

lemma keeps_freewalk [keeps_intros]: "keeps above_kmem (freewalk n pt)"
  by (induction n arbitrary: pt) (auto intro!: keeps_intros)

lemma keeps_uvmcopy_loop [keeps_intros]: "keeps above_kmem (uvmcopy_loop old new i sz)"
  by (induction old new i sz rule: uvmcopy_loop.induct)
    (subst uvmcopy_loop.simps, auto simp: uvmcopy_body_def Let_def intro!: keeps_intros)

lemma keeps_vm [keeps_intros]:
  "keeps above_kmem (walkaddr pt va)" "keeps above_kmem uvmcreate" "keeps above_kmem (uvmalloc pt oldsz newsz x)"
  "keeps above_kmem (uvmfree pt sz)" "keeps above_kmem (uvmclear pt va)" "keeps above_kmem (uvmcopy old new sz)"
  unfolding walkaddr_def uvmcreate_def uvmalloc_def uvmfree_def uvmclear_def uvmcopy_def
  by (intro keeps_intros)+

end
