(* ===== verification/ProcInv.thy ===== *)
theory ProcInv
  imports Proc VmFrame
begin

text \<open>
  What the routines of theory \<open>Proc\<close> do: the loops over the process table as one update of the table,
  the bounds of the dynamic priority, and the choice that a round of the \<^verbatim>\<open>PBS\<close> scheduler makes.
\<close>

section \<open>The loops over the process table\<close>

text \<open>No lock of a process is held, except perhaps those of \<open>X\<close>.\<close>

definition procs_unlocked :: "nat set \<Rightarrow> 'x machine_scheme \<Rightarrow> bool" where
  "procs_unlocked X s \<longleftrightarrow> (\<forall>p. p \<notin> X \<longrightarrow> LProc p \<notin> set (held s))"

lemma procs_unlockedD [dest]: "procs_unlocked X s \<Longrightarrow> p \<notin> X \<Longrightarrow> LProc p \<notin> set (held s)"
  by (simp add: procs_unlocked_def)

lemma procs_unlocked_upd [simp]: "procs_unlocked X (s\<lparr>procs := f\<rparr>) = procs_unlocked X s"
  by (simp add: procs_unlocked_def)

lemma lock_proc_run:
  assumes "LProc p \<notin> set (held s)"
  shows "thn (acquire (LProc p)) (bnd (get_proc p f) k) s = k (f (procs s p)) (s\<lparr>held := LProc p # held s\<rparr>)"
    and "thn (acquire (LProc p)) m s = m (s\<lparr>held := LProc p # held s\<rparr>)"
  using assms by (simp_all add: thn_def bnd_def acquire_def)

lemma release_proc_run:
  "thn (release (LProc p)) m (s\<lparr>held := LProc p # h\<rparr>) = m (s\<lparr>held := h\<rparr>)"
  by (simp add: thn_def bnd_def release_def)

lemma held_upd [simp]: "s\<lparr>held := held s\<rparr> = s"
  by simp

lemma with_lock_run:
  "LProc p \<notin> set (held s) \<Longrightarrow>
    with_lock p (upd_proc p f) s = Ok () (s\<lparr>procs := (procs s)(p := f (procs s p))\<rparr>)"
  by (simp add: with_lock_def thn_def bnd_def acquire_def release_def)

lemma for_procs_run:
  assumes "distinct ps" and "\<forall>p\<in>set ps. g p \<longrightarrow> LProc p \<notin> set (held s)"
  shows "for_each ps (\<lambda>p. whenM (g p) (with_lock p (upd_proc p (f p)))) s
     = Ok () (s\<lparr>procs := (\<lambda>p. if p \<in> set ps \<and> g p then f p (procs s p) else procs s p)\<rparr>)"
  using assms
proof (induction ps arbitrary: s)
  case Nil
  then show ?case by simp
next
  case (Cons p ps)
  let ?t = "if g p then s\<lparr>procs := (procs s)(p := f p (procs s p))\<rparr> else s"
  have "whenM (g p) (with_lock p (upd_proc p (f p))) s = Ok () ?t"
    using Cons.prems by (simp add: with_lock_run)
  then have "for_each (p # ps) (\<lambda>p. whenM (g p) (with_lock p (upd_proc p (f p)))) s
     = for_each ps (\<lambda>p. whenM (g p) (with_lock p (upd_proc p (f p)))) ?t"
    by (simp add: thn_Ok)
  also have "\<dots> = Ok () (?t\<lparr>procs := (\<lambda>p. if p \<in> set ps \<and> g p then f p (procs ?t p) else procs ?t p)\<rparr>)"
    using Cons.prems by (intro Cons.IH) auto
  also have "?t\<lparr>procs := (\<lambda>p. if p \<in> set ps \<and> g p then f p (procs ?t p) else procs ?t p)\<rparr>
      = s\<lparr>procs := (\<lambda>q. if q \<in> set (p # ps) \<and> g q then f q (procs s q) else procs s q)\<rparr>"
    using Cons.prems(1) by (cases "g p") (auto intro!: arg_cong [where f = "\<lambda>x. s\<lparr>procs := x\<rparr>"])
  finally show ?case .
qed

lemma update_time_run:
  assumes "procs_unlocked {} s"
  shows "update_time s = Ok () (s\<lparr>procs := (\<lambda>p. let q = procs s p in if p < NPROC then
     if p_state q = RUNNING then q\<lparr>p_rtime := p_rtime q + 1, p_runtime := p_runtime q + 1\<rparr>
     else if p_state q = SLEEPING then q\<lparr>p_stime := p_stime q + 1\<rparr>
     else if p_state q = RUNNABLE then q\<lparr>p_wtime := p_wtime q + 1\<rparr>
     else q else q)\<rparr>)"
  using for_procs_run [where ps = all_procs and g = "\<lambda>_. True" and s = s] assms
  by (simp add: update_time_def procs_unlocked_def Let_def)

lemma for_each_cong: "(\<And>i s. i \<in> set is \<Longrightarrow> P s \<Longrightarrow> f i s = g i s) \<Longrightarrow>
    (\<And>i s s'. i \<in> set is \<Longrightarrow> P s \<Longrightarrow> g i s = Ok () s' \<Longrightarrow> P s') \<Longrightarrow> P s \<Longrightarrow> for_each is f s = for_each is g s"
proof (induction "is" arbitrary: s)
  case (Cons i "is")
  have IH: "for_each is f s' = for_each is g s'" if "P s'" for s'
    using that Cons.prems(1,2) by (intro Cons.IH) (simp_all, blast)
  have "f i s = g i s" using Cons.prems by simp
  moreover have "P s'" if "g i s = Ok () s'" for s' using Cons.prems(2) [of i s s'] Cons.prems(3) that by simp
  ultimately show ?case by (simp add: thn_def bnd_def IH split: outcome.split)
qed simp

lemma wakeup_run:
  assumes "procs_unlocked (set_option (cur s)) s"
  shows "wakeup ch s = Ok () (s\<lparr>procs := (\<lambda>p. if p < NPROC \<and> Some p \<noteq> cur s
      \<and> p_state (procs s p) = SLEEPING \<and> p_chan (procs s p) = ch
    then (procs s p)\<lparr>p_state := RUNNABLE\<rparr> else procs s p)\<rparr>)"
proof -
  let ?f = "\<lambda>p q. if p_state q = SLEEPING \<and> p_chan q = ch then q\<lparr>p_state := RUNNABLE\<rparr> else q"
  have "wakeup ch s = for_each all_procs (\<lambda>p. whenM (Some p \<noteq> cur s) (with_lock p (upd_proc p (?f p)))) s"
    unfolding wakeup_def
    by (rule for_each_cong [where P = "\<lambda>t. cur t = cur s \<and> held t = held s"])
      (use assms in \<open>auto simp: whenM_def with_lock_run procs_unlocked_def split: if_splits\<close>)
  also have "\<dots> = Ok () (s\<lparr>procs := (\<lambda>p. if p \<in> set all_procs \<and> Some p \<noteq> cur s then ?f p (procs s p) else procs s p)\<rparr>)"
    using assms by (intro for_procs_run) (auto simp: procs_unlocked_def)
  finally show ?thesis by (simp add: if_distrib fun_eq_iff conj_assoc cong: if_cong)
qed

text \<open>The process table after a \<^verbatim>\<open>wakeup\<close>.\<close>

definition woken :: "chan \<Rightarrow> nat option \<Rightarrow> (nat \<Rightarrow> proc) \<Rightarrow> nat \<Rightarrow> proc" where
  "woken ch c f = (\<lambda>p. if p < NPROC \<and> Some p \<noteq> c \<and> p_state (f p) = SLEEPING \<and> p_chan (f p) = ch
     then (f p)\<lparr>p_state := RUNNABLE\<rparr> else f p)"

lemma wakeup_woken:
  "procs_unlocked (set_option (cur s)) s \<Longrightarrow> wakeup ch s = Ok () (s\<lparr>procs := woken ch (cur s) (procs s)\<rparr>)"
  by (simp add: wakeup_run woken_def)

lemma woken_keeps [simp]:
  "p_pid (woken ch c f p) = p_pid (f p)" "p_killed (woken ch c f p) = p_killed (f p)"
  "p_pagetable (woken ch c f p) = p_pagetable (f p)"
  by (simp_all add: woken_def)

section \<open>Dynamic priority\<close>

text \<open>Times of less than ten million ticks (over eleven days at ten ticks a second), so that nothing wraps around.\<close>

definition times_ok :: "proc \<Rightarrow> bool" where
  "times_ok q \<longleftrightarrow> 0 \<le> sint (p_runtime q) \<and> sint (p_runtime q) \<le> 10 ^ 7 \<and> 0 \<le> sint (p_stime q)
     \<and> sint (p_stime q) \<le> 10 ^ 7 \<and> 0 \<le> sint (p_wtime q) \<and> sint (p_wtime q) \<le> 10 ^ 7"

lemma sint_small: "- (2 ^ 31) \<le> i \<Longrightarrow> i < 2 ^ 31 \<Longrightarrow> sint (of_int i :: cint) = i"
  by (simp add: sint_sbintrunc' signed_take_bit_int_eq_self)

lemma of_int_sint_cint [simp]: "(of_int (sint (x :: cint)) :: cint) = x"
  by simp

lemma rbi_terms:
  assumes "times_ok q"
  shows "sint (rbi_num q) = (3 * sint (p_runtime q) - sint (p_stime q) - sint (p_wtime q)) * 50"
    and "sint (rbi_den q) = sint (p_runtime q) + sint (p_stime q) + sint (p_wtime q) + 1"
proof -
  let ?r = "sint (p_runtime q)" and ?s = "sint (p_stime q)" and ?w = "sint (p_wtime q)"
  have "rbi_num q = of_int ((3 * ?r - ?s - ?w) * 50)" by (simp add: rbi_num_def)
  then show "sint (rbi_num q) = (3 * ?r - ?s - ?w) * 50"
    using assms by (simp only: , intro sint_small) (auto simp: times_ok_def)
  have "rbi_den q = of_int (?r + ?s + ?w + 1)" by (simp add: rbi_den_def)
  then show "sint (rbi_den q) = ?r + ?s + ?w + 1"
    using assms by (simp only: , intro sint_small) (auto simp: times_ok_def)
qed

lemma rbi_bounds:
  assumes "times_ok q"
  shows "0 \<le> sint (rbi_of q)" and "sint (rbi_of q) \<le> 150" and "rbi_den q \<noteq> 0"
proof -
  let ?n = "sint (rbi_num q)" and ?d = "sint (rbi_den q)"
  have d: "?d > 0" and nd: "?n \<le> 150 * ?d" using assms by (auto simp: rbi_terms times_ok_def)
  then show "rbi_den q \<noteq> 0" by auto
  have "?n sdiv ?d \<le> 150" if "?n \<ge> 0"
  proof -
    have "?n sdiv ?d = ?n div ?d" using that d by (auto simp: signed_divide_int_def sgn_if)
    also have "\<dots> \<le> 150 * ?d div ?d" using nd d by (intro zdiv_mono1) auto
    finally show ?thesis using d by simp
  qed
  moreover have "?n sdiv ?d \<le> 0" if "?n < 0"
    using that d by (simp add: signed_divide_int_def sgn_if pos_imp_zdiv_nonneg_iff)
  ultimately have c: "?n sdiv ?d \<le> 150" by linarith
  then have "sint (rbi_of q) = max 0 (?n sdiv ?d)"
    unfolding rbi_of_def Let_def by (auto simp: max_def intro!: sint_small)
  then show "0 \<le> sint (rbi_of q)" "sint (rbi_of q) \<le> 150" using c by auto
qed

lemma dp_value:
  assumes "times_ok q" and "0 \<le> sint (p_sp q)" and "sint (p_sp q) \<le> 100"
  shows "sint (dp_of q) = min 100 (sint (p_sp q) + sint (rbi_of q))"
proof -
  have "sint (of_int (sint (p_sp q) + sint (rbi_of q)) :: cint) = sint (p_sp q) + sint (rbi_of q)"
    using assms rbi_bounds [OF assms(1)] by (intro sint_small) auto
  then have "sint (p_sp q + rbi_of q) = sint (p_sp q) + sint (rbi_of q)" by simp
  then show ?thesis by (simp add: dp_of_def min_def)
qed


section \<open>What one round of the scheduler does\<close>

abbreviation runnable :: "'x kern_scheme \<Rightarrow> nat \<Rightarrow> bool" where
  "runnable s p \<equiv> p_state (procs s p) = RUNNABLE"

definition scanned :: "nat set \<Rightarrow> (nat \<Rightarrow> proc) \<Rightarrow> nat \<Rightarrow> proc" where
  "scanned P f = (\<lambda>p. if p \<in> P \<and> p_state (f p) = RUNNABLE
     then (f p)\<lparr>p_rbi := rbi_of (f p), p_dp := dp_of (f p)\<rparr> else f p)"

lemma scanned_simps [simp]:
  "p_state (scanned P f p) = p_state (f p)" "p_no_scheduled (scanned P f p) = p_no_scheduled (f p)"
  by (simp_all add: scanned_def)

definition max_dp :: "(nat \<Rightarrow> proc) \<Rightarrow> nat list \<Rightarrow> cint \<Rightarrow> cint" where
  "max_dp f ps mx = foldl (\<lambda>m p. if p_state (f p) = RUNNABLE \<and> sint (dp_of (f p)) > sint m then dp_of (f p) else m) mx ps"

lemma scanned_Cons:
  assumes "p \<notin> set ps" and "p_state (f p) = RUNNABLE"
  shows "scanned (set ps) (f(p := (f p)\<lparr>p_rbi := rbi_of (f p), p_dp := dp_of (f p)\<rparr>)) = scanned (set (p # ps)) f"
proof
  fix x
  show "scanned (set ps) (f(p := (f p)\<lparr>p_rbi := rbi_of (f p), p_dp := dp_of (f p)\<rparr>)) x = scanned (set (p # ps)) f x"
    using assms by (cases "x = p") (simp_all add: scanned_def)
qed

lemma pbs_scan_run:
  assumes "distinct ps" and "procs_unlocked {} s" and "\<forall>p\<in>set ps. runnable s p \<longrightarrow> rbi_den (procs s p) \<noteq> 0"
  shows "pbs_scan ps mx s = Ok (max_dp (procs s) ps mx) (s\<lparr>procs := scanned (set ps) (procs s)\<rparr>)"
  using assms
proof (induction ps arbitrary: s mx)
  case Nil
  then show ?case by (simp add: max_dp_def scanned_def)
next
  case (Cons p ps)
  have free: "LProc p \<notin> set (held s)" using Cons.prems(2) by auto
  show ?case
  proof (cases "runnable s p")
    case True
    let ?q = "procs s p"
    let ?t = "s\<lparr>procs := (procs s)(p := ?q\<lparr>p_rbi := rbi_of ?q, p_dp := dp_of ?q\<rparr>)\<rparr>"
    let ?mx = "if sint (dp_of ?q) > sint mx then dp_of ?q else mx"
    have "pbs_scan (p # ps) mx s = pbs_scan ps ?mx ?t"
      using Cons.prems(3) free True by (simp add: thn_def bnd_def acquire_def release_def)
    also have "\<dots> = Ok (max_dp (procs ?t) ps ?mx) (?t\<lparr>procs := scanned (set ps) (procs ?t)\<rparr>)"
      using Cons.prems by (intro Cons.IH) simp_all
    also have "max_dp (procs ?t) ps ?mx = max_dp (procs s) ps ?mx"
      using Cons.prems(1) unfolding max_dp_def by (intro foldl_cong) auto
    also have "?t\<lparr>procs := scanned (set ps) (procs ?t)\<rparr> = s\<lparr>procs := scanned (set (p # ps)) (procs s)\<rparr>"
      using scanned_Cons [of p ps "procs s"] Cons.prems(1) True by simp
    also have "max_dp (procs s) ps ?mx = max_dp (procs s) (p # ps) mx" using True by (simp add: max_dp_def)
    finally show ?thesis .
  next
    case False
    then have "pbs_scan (p # ps) mx s = pbs_scan ps mx s"
      using free by (simp add: lock_proc_run(1) release_proc_run)
    moreover have "scanned (set (p # ps)) (procs s) = scanned (set ps) (procs s)"
      using False by (auto simp: scanned_def)
    moreover have "max_dp (procs s) (p # ps) mx = max_dp (procs s) ps mx" using False by (simp add: max_dp_def)
    moreover have "pbs_scan ps mx s = Ok (max_dp (procs s) ps mx) (s\<lparr>procs := scanned (set ps) (procs s)\<rparr>)"
      using Cons.prems by (intro Cons.IH) simp_all
    ultimately show ?thesis by simp
  qed
qed

lemma max_dp_spec:
  "(\<forall>p\<in>set ps. p_state (f p) = RUNNABLE \<longrightarrow> sint (dp_of (f p)) \<le> sint (max_dp f ps mx)) \<and> sint mx \<le> sint (max_dp f ps mx)
   \<and> (max_dp f ps mx = mx \<or> (\<exists>p\<in>set ps. p_state (f p) = RUNNABLE \<and> dp_of (f p) = max_dp f ps mx))"
proof (induction ps arbitrary: mx)
  case (Cons p ps)
  let ?m = "if p_state (f p) = RUNNABLE \<and> sint (dp_of (f p)) > sint mx then dp_of (f p) else mx"
  have "max_dp f (p # ps) mx = max_dp f ps ?m" by (simp add: max_dp_def)
  then show ?case using Cons.IH [of ?m] by (auto split: if_splits)
qed (simp add: max_dp_def)

lemma collect_run:
  "procs_unlocked {} s \<Longrightarrow> collect P ps s = Ok (filter (\<lambda>p. runnable s p \<and> P (procs s p)) ps) s"
proof (induction ps)
  case (Cons p ps)
  then have "LProc p \<notin> set (held s)" by auto
  with Cons show ?case by (simp add: lock_proc_run(1) release_proc_run bnd_Ok)
qed simp

text \<open>The result of a search for the smallest key, whatever the order.\<close>

fun best_of :: "(proc \<Rightarrow> cint \<Rightarrow> bool) \<Rightarrow> (proc \<Rightarrow> cint) \<Rightarrow> (nat \<Rightarrow> proc) \<Rightarrow> nat list \<Rightarrow> cint \<Rightarrow> nat \<Rightarrow> cint \<times> nat" where
  "best_of lt key f [] k i = (k, i)"
| "best_of lt key f (p # ps) k i =
     (if p_state (f p) = RUNNABLE \<and> lt (f p) k then best_of lt key f ps (key (f p)) p else best_of lt key f ps k i)"

lemma best_run: "procs_unlocked {} s \<Longrightarrow> best lt key ps k i s = Ok (best_of lt key (procs s) ps k i) s"
proof (induction ps arbitrary: k i)
  case (Cons p ps)
  then have "LProc p \<notin> set (held s)" by auto
  with Cons show ?case by (simp add: lock_proc_run(1) release_proc_run)
qed simp

lemma best_of_in: "snd (best_of lt key f ps k i) \<in> insert i (set ps)"
  by (induction lt key f ps k i rule: best_of.induct) auto

lemma best_of_least:
  assumes "\<forall>p\<in>set ps. p_state (f p) = RUNNABLE" and "k = p_no_scheduled (f i)"
    and "best_of fewer_runs p_no_scheduled f ps k i = (k', i')"
  shows "k' = p_no_scheduled (f i') \<and> sint k' \<le> sint k \<and> (\<forall>p\<in>set ps. sint k' \<le> sint (p_no_scheduled (f p)))"
  using assms
proof (induction ps arbitrary: k i)
  case (Cons p ps)
  show ?case
  proof (cases "fewer_runs (f p) k")
    case True
    then have "best_of fewer_runs p_no_scheduled f ps (p_no_scheduled (f p)) p = (k', i')" using Cons.prems by simp
    from Cons.IH [OF _ refl this] Cons.prems(1) True show ?thesis by (auto simp: fewer_runs_def)
  next
    case False
    then have "best_of fewer_runs p_no_scheduled f ps k i = (k', i')" using Cons.prems by simp
    from Cons.IH [OF _ Cons.prems(2) this] Cons.prems(1) False show ?thesis by (auto simp: fewer_runs_def)
  qed
qed simp

definition dispatched :: "nat \<Rightarrow> 'x kern_scheme \<Rightarrow> 'x kern_scheme" where
  "dispatched p s = s\<lparr>held := LProc p # held s, cur := Some p,
     procs := (procs s)(p := (procs s p)\<lparr>p_no_scheduled := p_no_scheduled (procs s p) + 1, p_stime := 0,
       p_runtime := 0, p_state := RUNNING\<rparr>)\<rparr>"

lemma dispatch_run:
  "procs_unlocked {} s \<Longrightarrow> runnable s p \<Longrightarrow> dispatch p s = Ok (Some p) (dispatched p s)"
  by (simp add: dispatch_def procs_unlocked_def thn_def bnd_def acquire_def dispatched_def)

lemma dispatch_first_none:
  "procs_unlocked {} s \<Longrightarrow> \<forall>p\<in>set ps. \<not> runnable s p \<Longrightarrow> dispatch_first mx ps s = Ok None s"
proof (induction ps)
  case (Cons p ps)
  then have "LProc p \<notin> set (held s)" by auto
  with Cons show ?case by (simp add: lock_proc_run(1) release_proc_run)
qed simp

text \<open>The candidates of the round: the runnable processes with the largest \<open>dp\<close>, and among them
  those that have run least often.\<close>

text \<open>The largest dynamic priority value of the scan is that of a runnable process.\<close>

lemma max_dp_runnable:
  assumes ok: "\<forall>p<NPROC. runnable s p \<longrightarrow> 0 \<le> sint (dp_of (procs s p))" and some: "p0 < NPROC" "runnable s p0"
  defines "mx \<equiv> max_dp (procs s) all_procs 0"
  shows "p < NPROC \<Longrightarrow> runnable s p \<Longrightarrow> sint (dp_of (procs s p)) \<le> sint mx" "\<exists>p<NPROC. runnable s p \<and> dp_of (procs s p) = mx"
proof -
  have set_all: "set all_procs = {..<NPROC}" by auto
  have ms: "sint (dp_of (procs s p)) \<le> sint mx" if "p < NPROC" "runnable s p" for p
    using max_dp_spec [of all_procs "procs s" 0] that unfolding mx_def set_all by auto
  then show "p < NPROC \<Longrightarrow> runnable s p \<Longrightarrow> sint (dp_of (procs s p)) \<le> sint mx" .
  have mr: "mx = 0 \<or> (\<exists>p<NPROC. runnable s p \<and> dp_of (procs s p) = mx)"
    using max_dp_spec [of all_procs "procs s" 0] unfolding mx_def set_all by auto
  show "\<exists>p<NPROC. runnable s p \<and> dp_of (procs s p) = mx"
  proof (cases "mx = 0")
    case True
    then have "sint (dp_of (procs s p0)) = 0" using ms [OF some] ok some by fastforce
    then have "dp_of (procs s p0) = mx" using True by (metis signed_eq_0_iff)
    then show ?thesis using some by blast
  qed (use mr in blast)
qed

text \<open>After the scan and the two rounds of selection, the process that runs is one of those selected last.\<close>

lemma scheduler_pbs_dispatch:
  assumes unl: "procs_unlocked {} t" and scan: "pbs_scan all_procs 0 s = Ok mx t"
    and col: "collect (\<lambda>q. p_dp q = mx) all_procs t = Ok (a # as) t"
    and bst: "best fewer_runs p_no_scheduled (a # as) (p_no_scheduled (procs t a)) a t = Ok (k, i) t"
    and col2: "collect (\<lambda>q. p_no_scheduled q = k) (a # as) t = Ok arr2 t" and i: "i \<in> set arr2"
  shows "\<exists>j\<in>set arr2. scheduler_pbs s = dispatch j t"
proof (cases arr2 rule: remdups_adj.cases)
  case 1
  then show ?thesis using i by simp
next
  case (2 x)
  then have "scheduler_pbs s = dispatch i t"
    using scan col bst col2 by (simp add: scheduler_pbs_def bnd_Ok del: best.simps collect.simps)
  then show ?thesis using i by blast
next
  case (3 x y zs)
  let ?b = "best_of older p_ctime (procs t) arr2 (p_start_time (procs t x)) x"
  have "best older p_ctime arr2 (p_start_time (procs t x)) x t = Ok ?b t" using best_run [OF unl] by simp
  then have "scheduler_pbs s = dispatch (snd ?b) t"
    using scan col bst col2 3 by (simp add: scheduler_pbs_def bnd_Ok split_beta del: best.simps collect.simps)
  moreover have "snd ?b \<in> set arr2" using best_of_in [of older p_ctime "procs t" arr2 "p_start_time (procs t x)" x] 3 by auto
  ultimately show ?thesis by blast
qed

lemma scheduler_pbs_choice:
  assumes unl: "procs_unlocked {} s"
    and ok: "\<forall>p<NPROC. runnable s p \<longrightarrow> rbi_den (procs s p) \<noteq> 0 \<and> 0 \<le> sint (dp_of (procs s p))"
    and some: "p0 < NPROC" "runnable s p0"
  shows "\<exists>p. scheduler_pbs s = Ok (Some p) (dispatched p (s\<lparr>procs := scanned {..<NPROC} (procs s)\<rparr>))
     \<and> p < NPROC \<and> runnable s p
     \<and> (\<forall>q<NPROC. runnable s q \<longrightarrow> sint (dp_of (procs s q)) \<le> sint (dp_of (procs s p)))
     \<and> (\<forall>q<NPROC. runnable s q \<and> dp_of (procs s q) = dp_of (procs s p) \<longrightarrow>
          sint (p_no_scheduled (procs s p)) \<le> sint (p_no_scheduled (procs s q)))"
proof -
  define f where "f = scanned {..<NPROC} (procs s)"
  define t where "t = s\<lparr>procs := f\<rparr>"
  define mx where "mx = max_dp (procs s) all_procs 0"
  have scan: "pbs_scan all_procs 0 s = Ok mx t"
    using pbs_scan_run [of all_procs s 0] unl ok by (simp add: mx_def t_def f_def atLeast0LessThan)
  have pt: "procs t = f" by (simp add: t_def)
  have unlt: "procs_unlocked {} t" using unl by (simp add: t_def)
  have mx: "\<And>p. p < NPROC \<Longrightarrow> runnable s p \<Longrightarrow> sint (dp_of (procs s p)) \<le> sint mx" "\<exists>p<NPROC. runnable s p \<and> dp_of (procs s p) = mx"
    using max_dp_runnable [of s p0] ok some by (auto simp: mx_def)
  have ft: "p_dp (f p) = dp_of (procs s p)" if "p < NPROC" "runnable s p" for p
    using that by (simp add: f_def scanned_def)
  have rt: "p_state (f p) = p_state (procs s p)" "p_no_scheduled (f p) = p_no_scheduled (procs s p)" for p
    by (simp_all add: f_def)
  define arr where "arr = filter (\<lambda>p. p_state (f p) = RUNNABLE \<and> p_dp (f p) = mx) all_procs"
  have arr_iff: "p \<in> set arr \<longleftrightarrow> p < NPROC \<and> runnable s p \<and> dp_of (procs s p) = mx" for p
    by (auto simp: arr_def rt ft)
  have "\<exists>p. p \<in> set arr" using mx(2) arr_iff by blast
  then obtain a as where arr: "arr = a # as" by (cases arr) auto
  have col: "collect (\<lambda>q. p_dp q = mx) all_procs t = Ok arr t"
    using collect_run [OF unlt] by (simp add: arr_def t_def)
  obtain k i where ki: "best_of fewer_runs p_no_scheduled f arr (p_no_scheduled (f a)) a = (k, i)" by fastforce
  have least: "k = p_no_scheduled (f i)" "\<And>p. p \<in> set arr \<Longrightarrow> sint k \<le> sint (p_no_scheduled (f p))"
    using best_of_least [OF _ refl ki] arr_iff rt by auto
  have i: "i \<in> set arr" using best_of_in [of fewer_runs p_no_scheduled f arr "p_no_scheduled (f a)" a] ki arr by auto
  have bst: "best fewer_runs p_no_scheduled arr (p_no_scheduled (f a)) a t = Ok (k, i) t"
    using best_run [OF unlt] ki by (simp add: t_def)
  define arr2 where "arr2 = filter (\<lambda>p. p_state (f p) = RUNNABLE \<and> p_no_scheduled (f p) = k) arr"
  have col2: "collect (\<lambda>q. p_no_scheduled q = k) arr t = Ok arr2 t"
    using collect_run [OF unlt] by (simp add: arr2_def t_def)
  have i2: "i \<in> set arr2" using i least(1) arr_iff rt by (simp add: arr2_def)
  have fin: "p < NPROC \<and> runnable s p
     \<and> (\<forall>q<NPROC. runnable s q \<longrightarrow> sint (dp_of (procs s q)) \<le> sint (dp_of (procs s p)))
     \<and> (\<forall>q<NPROC. runnable s q \<and> dp_of (procs s q) = dp_of (procs s p) \<longrightarrow>
          sint (p_no_scheduled (procs s p)) \<le> sint (p_no_scheduled (procs s q)))
     \<and> dispatch p t = Ok (Some p) (dispatched p t)" if "p \<in> set arr2" for p
  proof -
    have p: "p \<in> set arr" "p_no_scheduled (f p) = k" using that by (auto simp: arr2_def)
    then have "dispatch p t = Ok (Some p) (dispatched p t)"
      using arr_iff rt unlt by (intro dispatch_run) (auto simp: t_def)
    with p show ?thesis using mx(1) least(2) arr_iff rt by auto
  qed
  obtain j where j: "scheduler_pbs s = dispatch j t" "j \<in> set arr2"
    using scheduler_pbs_dispatch [OF unlt scan col [unfolded arr] _ col2 [unfolded arr] i2] bst unfolding arr pt by blast
  show ?thesis using fin [OF j(2)] j(1) unfolding t_def f_def by auto
qed

section \<open>Allocation of processes\<close>

lemma above_kern:
  assumes "above_kmem t = above_kmem (s :: 'x kern_scheme)"
  shows "procs t = procs s" "nextpid t = nextpid s" "held t = held s" "cur t = cur s" "ticks t = ticks s"
    "initproc t = initproc s"
  using assms by (cases s; cases t; simp add: above_kmem_def)+

lemma above_kern_upd: "above_kmem t = above_kmem (s :: 'x kern_scheme) \<Longrightarrow>
    above_kmem (t\<lparr>procs := f\<rparr>) = above_kmem (s\<lparr>procs := f\<rparr>)"
  by (cases s; cases t) (simp add: above_kmem_def)

text \<open>The part of the kernel state that the process code keeps: locks, process table, next pid.\<close>

definition ptable :: "'x kern_scheme \<Rightarrow> lock list \<times> (nat \<Rightarrow> proc) \<times> cint" where
  "ptable s = (held s, procs s, nextpid s)"

lemma keeps_ptable: "keeps above_kmem m \<Longrightarrow> keeps (ptable :: 'x kern_scheme \<Rightarrow> _) m"
  unfolding keeps_def ptable_def using above_kern by metis

lemma keeps_ptableD: "keeps above_kmem m \<Longrightarrow> m s = Ok a t \<Longrightarrow> ptable t = ptable (s :: 'x kern_scheme)"
  by (rule keepsD [OF keeps_ptable])

lemma keeps_ptable_get [keeps_intros]: "keeps f (get_proc p g)"
  by (simp add: keeps_def)

definition cleared :: "proc \<Rightarrow> proc" where
  "cleared q = q\<lparr>p_trapframe := 0, p_pagetable := 0, p_sz := 0, p_pid := 0, p_parent := None,
     p_name := (p_name q)[0 := 0], p_chan := NoChan, p_killed := 0, p_xstate := 0, p_state := UNUSED\<rparr>"

lemma freeproc_ptable:
  assumes "freeproc p s = Ok () t"
  shows "held t = held s" "nextpid t = nextpid s" "procs t = (procs s)(p := cleared (procs s p))"
proof -
  obtain s1 where s1: "whenM (p_trapframe (procs s p) \<noteq> 0) (kfree (p_trapframe (procs s p))) s = Ok () s1"
    using assms by (auto simp: freeproc_def thn_def elim!: bnd_OkE)
  have "keeps above_kmem (whenM b (kfree a))" for b a by (intro keeps_intros)
  then have k1: "ptable s1 = ptable s" using s1 by (rule keeps_ptableD)
  let ?s2 = "s1\<lparr>procs := (procs s1)(p := (procs s1 p)\<lparr>p_trapframe := 0\<rparr>)\<rparr>"
  let ?m = "whenM (p_pagetable (procs ?s2 p) \<noteq> 0) (proc_freepagetable (p_pagetable (procs ?s2 p)) (p_sz (procs ?s2 p)))"
  obtain s3 where s3: "?m ?s2 = Ok () s3"
    and t: "t = s3\<lparr>procs := (procs s3)(p := (procs s3 p)\<lparr>p_pagetable := 0, p_sz := 0, p_pid := 0, p_parent := None,
        p_name := (p_name (procs s3 p))[0 := 0], p_chan := NoChan, p_killed := 0, p_xstate := 0,
        p_state := UNUSED\<rparr>)\<rparr>"
    using assms s1 by (auto simp: freeproc_def thn_def bnd_Ok elim!: bnd_OkE)
  have "keeps above_kmem (whenM b (proc_freepagetable a c))" for b a c
    by (auto simp: proc_freepagetable_def intro!: keeps_intros)
  then have "ptable s3 = ptable ?s2" using s3 by (rule keeps_ptableD)
  with k1 show "held t = held s" "nextpid t = nextpid s" "procs t = (procs s)(p := cleared (procs s p))"
    unfolding t by (auto simp: ptable_def cleared_def)
qed

lemma find_unused_spec:
  "find_unused ps s = Ok r t \<Longrightarrow> t = s\<lparr>held := (case r of None \<Rightarrow> held s | Some p \<Rightarrow> LProc p # held s)\<rparr>
     \<and> (case r of None \<Rightarrow> \<forall>p\<in>set ps. p_state (procs s p) \<noteq> UNUSED
        | Some p \<Rightarrow> p \<in> set ps \<and> p_state (procs s p) = UNUSED \<and> LProc p \<notin> set (held s))"
proof (induction ps arbitrary: s)
  case (Cons p ps)
  then show ?case
  proof (cases "p_state (procs s p) = UNUSED")
    case True
    then show ?thesis using Cons.prems by (auto simp: thn_def bnd_def acquire_def split: if_splits)
  next
    case False
    then have *: "LProc p \<notin> set (held s)" "find_unused ps s = Ok r t"
      using Cons.prems by (auto simp: thn_def bnd_def acquire_def release_def split: if_splits)
    from Cons.IH [OF *(2)] False show ?thesis by (auto split: option.splits)
  qed
qed auto

lemma allocpid_run:
  "LPid \<notin> set (held s) \<Longrightarrow> allocpid s = Ok (nextpid s) (s\<lparr>nextpid := nextpid s + 1\<rparr>)"
  by (simp add: allocpid_def thn_def bnd_def acquire_def release_def)

lemma allocpid_locked: "LPid \<in> set (held s) \<Longrightarrow> allocpid s = Panic ''acquire''"
  by (simp add: allocpid_def thn_def bnd_def acquire_def)

lemma keeps_proc_pagetable: "keeps above_kmem (proc_pagetable p)"
  unfolding proc_pagetable_def by (intro keeps_intros)

lemma allocproc_fail_spec:
  assumes "allocproc_fail p s = Ok r t" and "held s = LProc p # h"
  shows "r = None \<and> held t = h \<and> nextpid t = nextpid s \<and> procs t = (procs s)(p := cleared (procs s p))"
proof -
  obtain u where u: "freeproc p s = Ok () u" "thn (release (LProc p)) (ret None) u = Ok r t"
    using assms(1) unfolding allocproc_fail_def by (rule thn_OkE)
  note fp = freeproc_ptable [OF u(1)]
  have "t = u\<lparr>held := h\<rparr>" "r = None" using u(2) fp(1) assms(2) by (auto simp: thn_def bnd_def release_def)
  then show ?thesis using fp by simp
qed

lemma allocproc_setup_spec:
  assumes run: "allocproc_setup p tk s = Ok r t" and h: "held s = LProc p # h"
  shows "nextpid t = nextpid s \<and> (\<forall>q. q \<noteq> p \<longrightarrow> procs t q = procs s q)
     \<and> (case r of None \<Rightarrow> held t = h \<and> p_state (procs t p) = UNUSED
        | Some p' \<Rightarrow> p' = p \<and> held t = held s \<and> p_state (procs t p) = p_state (procs s p)
            \<and> p_pid (procs t p) = p_pid (procs s p) \<and> p_sz (procs t p) = p_sz (procs s p)
            \<and> p_trapframe (procs t p) \<noteq> 0 \<and> p_pagetable (procs t p) \<noteq> 0)"
proof -
  obtain tf s2 where s2: "kalloc s = Ok tf s2" using run by (auto simp: allocproc_setup_def elim!: bnd_OkE)
  note k2 = above_kern [OF keepsD [OF keeps_alloc(1) s2]]
  define s3 where "s3 = s2\<lparr>procs := (procs s2)(p := (procs s2 p)\<lparr>p_trapframe := tf\<rparr>)\<rparr>"
  show ?thesis
  proof (cases "tf = 0")
    case True
    then have "allocproc_fail p s3 = Ok r t"
      using run s2 by (simp add: allocproc_setup_def bnd_Ok thn_def s3_def)
    from allocproc_fail_spec [OF this, of h] k2 h show ?thesis by (auto simp: s3_def cleared_def)
  next
    case tf: False
    obtain pt s4 where s4: "proc_pagetable p s3 = Ok pt s4"
      using run s2 tf by (auto simp: allocproc_setup_def bnd_Ok thn_def s3_def elim!: bnd_OkE)
    note k4 = above_kern [OF keepsD [OF keeps_proc_pagetable s4]]
    define s5 where "s5 = s4\<lparr>procs := (procs s4)(p := (procs s4 p)\<lparr>p_pagetable := pt\<rparr>)\<rparr>"
    show ?thesis
    proof (cases "pt = 0")
      case True
      then have "allocproc_fail p s5 = Ok r t"
        using run s2 s4 tf by (simp add: allocproc_setup_def bnd_Ok thn_def s3_def s5_def)
      from allocproc_fail_spec [OF this, of h] k2 k4 h show ?thesis by (auto simp: s5_def s3_def cleared_def)
    next
      case False
      then show ?thesis using run s2 s4 tf k2 k4
        by (auto simp: allocproc_setup_def bnd_Ok thn_def s3_def)
    qed
  qed
qed

text \<open>When \<^verbatim>\<open>allocproc\<close> returns a process, it was unused, holds the next pid, and is locked; else the
  table is what it was, except for fields of unused entries.\<close>

lemma allocproc_spec:
  assumes run: "allocproc s = Ok r t"
  shows "case r of
      Some p \<Rightarrow> p < NPROC \<and> p_state (procs s p) = UNUSED \<and> LProc p \<notin> set (held s) \<and> held t = LProc p # held s
        \<and> nextpid t = nextpid s + 1 \<and> p_state (procs t p) = USED \<and> p_pid (procs t p) = nextpid s
        \<and> p_trapframe (procs t p) \<noteq> 0 \<and> p_pagetable (procs t p) \<noteq> 0 \<and> p_sz (procs t p) = p_sz (procs s p)
        \<and> (\<forall>q. q \<noteq> p \<longrightarrow> procs t q = procs s q)
    | None \<Rightarrow> held t = held s \<and> (nextpid t = nextpid s \<or> nextpid t = nextpid s + 1)
        \<and> (\<forall>q. p_state (procs t q) = p_state (procs s q) \<and> (p_state (procs s q) \<noteq> UNUSED \<longrightarrow> procs t q = procs s q))"
proof -
  obtain found s0 where fu: "find_unused all_procs s = Ok found s0"
    using run by (auto simp: allocproc_def elim!: bnd_OkE)
  show ?thesis
  proof (cases found)
    case None
    then have "r = None" "t = s" using run fu find_unused_spec [OF fu] by (auto simp: allocproc_def bnd_Ok)
    then show ?thesis by simp
  next
    case (Some p)
    have p: "p < NPROC" "p_state (procs s p) = UNUSED" "LProc p \<notin> set (held s)" "s0 = s\<lparr>held := LProc p # held s\<rparr>"
      using find_unused_spec [OF fu] Some by auto
    have np: "LPid \<notin> set (held s0)"
      using run fu Some allocpid_locked [of s0] by (auto simp: allocproc_def bnd_Ok bnd_def)
    let ?q = "(procs s p)\<lparr>p_pid := nextpid s, p_state := USED, p_rbi := 25, p_sp := 50, p_dp := 75,
       p_runtime := 0, p_stime := 0, p_wtime := 0, p_no_scheduled := 0, p_start_time := ticks s\<rparr>"
    define s1 where "s1 = s0\<lparr>nextpid := nextpid s + 1, procs := (procs s)(p := ?q)\<rparr>"
    have run1: "allocproc_setup p (ticks s) s1 = Ok r t"
      using run fu Some p(4) allocpid_run [OF np] by (simp add: allocproc_def bnd_Ok thn_def s1_def)
    have "held s1 = LProc p # held s" by (simp add: s1_def p(4))
    from allocproc_setup_spec [OF run1 this] p show ?thesis
      by (cases r) (auto simp: s1_def, metis)
  qed
qed


text \<open>Process identifiers: those in use are positive, below \<open>nextpid\<close> and pairwise different.\<close>

definition pid_inv :: "'x kern_scheme \<Rightarrow> bool" where
  "pid_inv s \<longleftrightarrow> 0 < sint (nextpid s)
     \<and> (\<forall>p<NPROC. p_state (procs s p) \<noteq> UNUSED \<longrightarrow> 0 < sint (p_pid (procs s p)) \<and> sint (p_pid (procs s p)) < sint (nextpid s))
     \<and> (\<forall>p<NPROC. \<forall>q<NPROC. p_state (procs s p) \<noteq> UNUSED \<longrightarrow> p_state (procs s q) \<noteq> UNUSED \<longrightarrow>
          p_pid (procs s p) = p_pid (procs s q) \<longrightarrow> p = q)"

lemma pid_inv_mono:
  assumes inv: "pid_inv s" and le: "sint (nextpid s) \<le> sint (nextpid t)"
    and same: "\<And>q. p_state (procs t q) \<noteq> UNUSED \<Longrightarrow> procs t q = procs s q \<and> p_state (procs s q) \<noteq> UNUSED"
  shows "pid_inv t"
  unfolding pid_inv_def
proof (intro conjI allI impI)
  show "0 < sint (nextpid t)" using inv le by (simp add: pid_inv_def)
  fix q assume q: "q < NPROC" "p_state (procs t q) \<noteq> UNUSED"
  show "0 < sint (p_pid (procs t q))" "sint (p_pid (procs t q)) < sint (nextpid t)"
    using q same [OF q(2)] inv le by (auto simp: pid_inv_def)
  fix q' assume "q' < NPROC" "p_state (procs t q') \<noteq> UNUSED" "p_pid (procs t q) = p_pid (procs t q')"
  then show "q = q'" using q same [of q] same [of q'] inv by (simp add: pid_inv_def)
qed

lemma kill_loop_run:
  "procs_unlocked {} s \<Longrightarrow> kill_loop pid ps s = (case find (\<lambda>p. p_pid (procs s p) = pid) ps of
      None \<Rightarrow> Ok (-1) s
    | Some p \<Rightarrow> Ok 0 (s\<lparr>procs := (procs s)(p := (procs s p)\<lparr>p_killed := 1,
        p_state := if p_state (procs s p) = SLEEPING then RUNNABLE else p_state (procs s p)\<rparr>)\<rparr>))"
proof (induction ps)
  case (Cons p ps)
  then have "LProc p \<notin> set (held s)" by auto
  with Cons show ?case
    by (cases "p_pid (procs s p) = pid") (auto simp: thn_def bnd_def acquire_def release_def)
qed simp

section \<open>Properties\<close>

text \<open>A process table for examples: process 1 runs, 2 and 3 are runnable (3 has run once before), 4 sleeps on the
  clock, the others are unused.\<close>

definition wit_proc :: proc where
  "wit_proc = \<lparr>p_state = UNUSED, p_chan = NoChan, p_killed = 0, p_xstate = 0, p_pid = 0, p_parent = None,
     p_kstack = 0, p_sz = 0, p_pagetable = 0, p_trapframe = 0,
     p_context = \<lparr>cx_ra = 0, cx_sp = 0, cx_s = []\<rparr>, p_ofile = (\<lambda>_. None), p_cwd = None, p_name = [],
     p_rtime = 0, p_ctime = 0, p_etime = 0, p_sp = 50, p_dp = 75, p_rbi = 25, p_runtime = 0, p_stime = 0,
     p_wtime = 0, p_priority = 0, p_no_scheduled = 0, p_start_time = 0\<rparr>"

definition wit_procs :: "nat \<Rightarrow> proc" where
  "wit_procs = (\<lambda>_. wit_proc)
     (1 := wit_proc\<lparr>p_state := RUNNING, p_pid := 1\<rparr>,
      2 := wit_proc\<lparr>p_state := RUNNABLE, p_pid := 2, p_runtime := 2\<rparr>,
      3 := wit_proc\<lparr>p_state := RUNNABLE, p_pid := 3, p_runtime := 2, p_no_scheduled := 1\<rparr>,
      4 := wit_proc\<lparr>p_state := SLEEPING, p_chan := ChTicks, p_pid := 4\<rparr>)"

definition wit_kern :: kern where
  "wit_kern = \<lparr>mem = (\<lambda>_. 0), held = [], freelist = 0, refcnt = (\<lambda>_. 1), kend = 0x87FF8000,
     procs = wit_procs, cur = Some 1, initproc = None, nextpid = 5, ticks = 100, kernel_pagetable = 0,
     sym_etext = 0x80008000, sym_trampoline = 0x80007000, sym_forkret = 0x80001000\<rparr>"

lemma wit_kern_simps [simp]:
  "procs wit_kern = wit_procs" "held wit_kern = []" "nextpid wit_kern = 5" "cur wit_kern = Some 1"
  "freelist wit_kern = 0" "ticks wit_kern = 100"
  by (simp_all add: wit_kern_def)

lemma wit_unlocked [simp]: "procs_unlocked X wit_kern"
  by (simp add: procs_unlocked_def)

text \<open>
  C4. The \<^verbatim>\<open>PBS\<close> scheduler, in a table where some process is runnable, static priorities are in \<open>0..100\<close> and
  times are below ten million ticks: a round always switches to a process, which was runnable,
  has the largest dynamic priority value of the runnable processes, and among those with that
  value has been scheduled the fewest times. It is then running with its lock held, its count
  is one larger and its run and sleep times are reset; the state of every other process is
  unchanged.
\<close>

theorem scheduler_pbs_picks:
  assumes unl: "procs_unlocked {} s"
    and ok: "\<forall>p<NPROC. runnable s p \<longrightarrow> times_ok (procs s p) \<and> 0 \<le> sint (p_sp (procs s p)) \<and> sint (p_sp (procs s p)) \<le> 100"
    and some: "p0 < NPROC" "runnable s p0"
  shows "\<exists>p t. scheduler_pbs s = Ok (Some p) t \<and> p < NPROC \<and> runnable s p
     \<and> (\<forall>q<NPROC. runnable s q \<longrightarrow> sint (dp_of (procs s q)) \<le> sint (dp_of (procs s p)))
     \<and> (\<forall>q<NPROC. runnable s q \<and> dp_of (procs s q) = dp_of (procs s p) \<longrightarrow>
          sint (p_no_scheduled (procs s p)) \<le> sint (p_no_scheduled (procs s q)))
     \<and> p_state (procs t p) = RUNNING \<and> cur t = Some p \<and> held t = LProc p # held s
     \<and> p_no_scheduled (procs t p) = p_no_scheduled (procs s p) + 1
     \<and> p_runtime (procs t p) = 0 \<and> p_stime (procs t p) = 0 \<and> p_dp (procs t p) = dp_of (procs s p)
     \<and> (\<forall>q. q \<noteq> p \<longrightarrow> p_state (procs t q) = p_state (procs s q))"
proof -
  have "rbi_den (procs s p) \<noteq> 0 \<and> 0 \<le> sint (dp_of (procs s p))" if "p < NPROC" "runnable s p" for p
    using ok that rbi_bounds [of "procs s p"] dp_value [of "procs s p"] by auto
  then have "\<exists>p. scheduler_pbs s = Ok (Some p) (dispatched p (s\<lparr>procs := scanned {..<NPROC} (procs s)\<rparr>))
     \<and> p < NPROC \<and> runnable s p
     \<and> (\<forall>q<NPROC. runnable s q \<longrightarrow> sint (dp_of (procs s q)) \<le> sint (dp_of (procs s p)))
     \<and> (\<forall>q<NPROC. runnable s q \<and> dp_of (procs s q) = dp_of (procs s p) \<longrightarrow>
          sint (p_no_scheduled (procs s p)) \<le> sint (p_no_scheduled (procs s q)))"
    using unl some by (intro scheduler_pbs_choice) auto
  then show ?thesis
    by (elim exE) (intro exI conjI, auto simp: dispatched_def scanned_def)
qed

theorem scheduler_pbs_picks_witness:
  "\<exists>p t. scheduler_pbs wit_kern = Ok (Some p) t \<and> cur t = Some p \<and> p_state (procs t p) = RUNNING"
  using scheduler_pbs_picks [of wit_kern 2]
  by (fastforce simp: wit_procs_def wit_proc_def times_ok_def params)

text \<open>
  The dynamic priority that a round computes lies between the static priority and 100; the recent
  behaviour index never exceeds 150.
\<close>

theorem dp_of_range:
  assumes "times_ok q" and "0 \<le> sint (p_sp q)" and "sint (p_sp q) \<le> 100"
  shows "sint (p_sp q) \<le> sint (dp_of q) \<and> sint (dp_of q) \<le> 100 \<and> 0 \<le> sint (rbi_of q) \<and> sint (rbi_of q) \<le> 150"
  using dp_value [OF assms] rbi_bounds [OF assms(1)] assms(2,3) by simp

theorem dp_of_range_witness: "sint (dp_of wit_proc) \<le> 100 \<and> 50 \<le> sint (dp_of wit_proc)"
  using dp_of_range [of wit_proc] by (simp add: wit_proc_def times_ok_def)

text \<open>
  \<^verbatim>\<open>wakeup\<close> makes runnable exactly the other processes that sleep on the channel, and changes
  nothing else.
\<close>

theorem wakeup_exact:
  assumes "procs_unlocked (set_option (cur s)) s"
  shows "\<exists>t. wakeup ch s = Ok () t \<and> held t = held s \<and> nextpid t = nextpid s
     \<and> (\<forall>p. procs t p = (if p < NPROC \<and> Some p \<noteq> cur s \<and> p_state (procs s p) = SLEEPING \<and> p_chan (procs s p) = ch
          then (procs s p)\<lparr>p_state := RUNNABLE\<rparr> else procs s p))"
  using wakeup_run [OF assms] by simp

theorem wakeup_exact_witness:
  "\<exists>t. wakeup ChTicks wit_kern = Ok () t \<and> p_state (procs t 4) = RUNNABLE \<and> p_state (procs t 1) = RUNNING"
  using wakeup_exact [of wit_kern ChTicks] by (auto simp: wit_procs_def params)

text \<open>
  \<^verbatim>\<open>kill\<close> returns 0 iff some process has the pid. Then the first such process is marked as killed, is
  made runnable if it was asleep, and nothing else changes; with no such process it returns \<open>-1\<close>
  and changes nothing.
\<close>

theorem kill_marks_one:
  assumes "procs_unlocked {} s"
  shows "(\<exists>p<NPROC. p_pid (procs s p) = pid \<and> (\<forall>q<p. p_pid (procs s q) \<noteq> pid)
       \<and> kill pid s = Ok 0 (s\<lparr>procs := (procs s)(p := (procs s p)\<lparr>p_killed := 1,
           p_state := if p_state (procs s p) = SLEEPING then RUNNABLE else p_state (procs s p)\<rparr>)\<rparr>))
     \<or> (\<forall>p<NPROC. p_pid (procs s p) \<noteq> pid) \<and> kill pid s = Ok (-1) s"
proof (cases "find (\<lambda>p. p_pid (procs s p) = pid) all_procs")
  case None
  then have "kill pid s = Ok (-1) s" using kill_loop_run [OF assms, of pid all_procs] by (simp add: kill_def)
  moreover have "\<forall>p<NPROC. p_pid (procs s p) \<noteq> pid" using None by (simp add: find_None_iff)
  ultimately show ?thesis by blast
next
  case (Some p)
  then obtain i where "i < NPROC" "p = i" "p_pid (procs s p) = pid" "\<forall>j<i. p_pid (procs s j) \<noteq> pid"
    by (auto simp: find_Some_iff)
  then show ?thesis using kill_loop_run [OF assms, of pid all_procs] Some by (auto simp: kill_def)
qed

theorem kill_marks_one_witness:
  "\<exists>t. kill 4 wit_kern = Ok 0 t \<and> p_killed (procs t 4) = 1 \<and> p_state (procs t 4) = RUNNABLE"
  using kill_marks_one [of wit_kern 4] by (auto simp: wit_procs_def wit_proc_def params split: if_splits)

text \<open>
  C32. Process identifiers stay unique: when \<^verbatim>\<open>allocproc\<close> returns, with a process or without, the
  identifiers in use are still positive, below \<open>nextpid\<close> and pairwise different.
\<close>

theorem allocproc_pids_unique:
  assumes inv: "pid_inv s" and lt: "sint (nextpid s) < 2 ^ 31 - 1" and run: "allocproc s = Ok r t"
  shows "pid_inv t \<and> (\<forall>p. r = Some p \<longrightarrow> p_state (procs t p) = USED \<and> p_pid (procs t p) = nextpid s
           \<and> (\<forall>q<NPROC. q \<noteq> p \<and> p_state (procs t q) \<noteq> UNUSED \<longrightarrow> p_pid (procs t q) \<noteq> p_pid (procs t p)))"
proof -
  note sp = allocproc_spec [OF run]
  have np: "sint (nextpid s + 1) = sint (nextpid s) + 1" using lt by (rule sint_plus_one)
  show ?thesis
  proof (cases r)
    case None
    then have same: "procs t q = procs s q \<and> p_state (procs s q) \<noteq> UNUSED" if "p_state (procs t q) \<noteq> UNUSED" for q
      using sp that by simp
    have "sint (nextpid s) \<le> sint (nextpid t)" using sp None np by auto
    then have "pid_inv t" by (rule pid_inv_mono [OF inv _ same])
    with None show ?thesis by simp
  next
    case (Some p)
    have old: "0 < sint (p_pid (procs s q)) \<and> sint (p_pid (procs s q)) < sint (nextpid s)" if "q < NPROC" "p_state (procs s q) \<noteq> UNUSED" for q
      using inv that by (simp add: pid_inv_def)
    then have ne: "p_pid (procs s q) \<noteq> nextpid s" if "q < NPROC" "p_state (procs s q) \<noteq> UNUSED" for q
      using that by fastforce
    have p: "p_pid (procs t p) = nextpid s" "nextpid t = nextpid s + 1" using sp Some by simp_all
    have same: "procs t q = procs s q" if "q \<noteq> p" for q using sp Some that by simp
    have "pid_inv t"
      unfolding pid_inv_def
    proof (intro conjI allI impI)
      have pos: "0 < sint (nextpid s)" using inv by (simp add: pid_inv_def)
      then show "0 < sint (nextpid t)" using np p(2) by simp
      fix q assume q: "q < NPROC" "p_state (procs t q) \<noteq> UNUSED"
      show "0 < sint (p_pid (procs t q))" using q old [of q] pos p(1) same [of q] by (cases "q = p") simp_all
      show "sint (p_pid (procs t q)) < sint (nextpid t)"
        using q old [of q] np p same [of q] by (cases "q = p") simp_all
      fix q' assume q': "q' < NPROC" "p_state (procs t q') \<noteq> UNUSED" "p_pid (procs t q) = p_pid (procs t q')"
      have inj: "\<forall>p<NPROC. \<forall>q<NPROC. p_state (procs s p) \<noteq> UNUSED \<longrightarrow> p_state (procs s q) \<noteq> UNUSED \<longrightarrow>
          p_pid (procs s p) = p_pid (procs s q) \<longrightarrow> p = q" using inv by (simp add: pid_inv_def)
      show "q = q'"
        using q q' p(1) ne [of q] ne [of q'] same [of q] same [of q'] inj by (cases "q = p"; cases "q' = p") metis+
    qed
    moreover have "p_state (procs t p) = USED" using sp Some by simp
    moreover have "p_pid (procs t q) \<noteq> p_pid (procs t p)" if "q < NPROC" "q \<noteq> p" "p_state (procs t q) \<noteq> UNUSED" for q
      using that p(1) ne [of q] same [of q] by simp
    ultimately show ?thesis using Some p(1) by simp
  qed
qed

theorem allocproc_pids_unique_witness:
  "\<exists>r t. allocproc wit_kern = Ok r t \<and> pid_inv t"
proof -
  have inv: "pid_inv wit_kern"
    by (auto simp: pid_inv_def wit_procs_def wit_proc_def split: if_splits)
  have k: "kalloc s = Ok 0 s" if "freelist s = 0" "LKmem \<notin> set (held s)" for s :: kern
    using kalloc_run [OF that(2)] that(1) by simp
  have all: "all_procs = 0 # [1..<NPROC]" by (simp add: params upt_conv_Cons)
  have "\<exists>r t. allocproc wit_kern = Ok r t"
    unfolding allocproc_def all
    by (simp add: thn_def bnd_def acquire_def release_def allocpid_def allocproc_setup_def allocproc_fail_def freeproc_def
        wit_procs_def wit_proc_def k)
  then show ?thesis using allocproc_pids_unique [OF inv] by auto
qed

text \<open>
  A clock tick charges each process by its state: one tick of running time to a running process
  (both counters), of sleeping time to a sleeping one, of waiting time to a runnable one, and
  nothing to any other; no process changes its state.
\<close>

theorem update_time_charges:
  assumes "procs_unlocked {} s"
  shows "\<exists>t. update_time s = Ok () t \<and> (\<forall>p<NPROC. let q = procs s p; q' = procs t p in
       p_state q' = p_state q
     \<and> p_rtime q' = p_rtime q + (if p_state q = RUNNING then 1 else 0)
     \<and> p_runtime q' = p_runtime q + (if p_state q = RUNNING then 1 else 0)
     \<and> p_stime q' = p_stime q + (if p_state q = SLEEPING then 1 else 0)
     \<and> p_wtime q' = p_wtime q + (if p_state q = RUNNABLE then 1 else 0))"
  using update_time_run [OF assms] by (simp add: Let_def)

theorem update_time_charges_witness:
  "\<exists>t. update_time wit_kern = Ok () t \<and> p_wtime (procs t 2) = 1 \<and> p_runtime (procs t 1) = 1"
  using update_time_charges [of wit_kern] by (fastforce simp: wit_procs_def wit_proc_def params Let_def)

end
