(* ===== verification/Console.thy ===== *)
theory Console
  imports Proc
begin

text \<open>
  \<^verbatim>\<open>kernel/uart.c\<close>, \<^verbatim>\<open>kernel/console.c\<close>, \<^verbatim>\<open>kernel/printf.c\<close> and \<^verbatim>\<open>procdump\<close> of \<^verbatim>\<open>kernel/proc.c\<close>. The UART is
  the device it drives: the bytes it has sent, the room left in its transmit register
  (\<^verbatim>\<open>LSR_TX_IDLE\<close> is set iff there is room) and the input bytes waiting (\<^verbatim>\<open>LSR_RX_READY\<close> is set iff
  there are any). The two ring buffers are functions from the slot to the byte.
\<close>

section \<open>State\<close>

definition UART_TX_BUF_SIZE :: nat where "UART_TX_BUF_SIZE = 32"
definition INPUT_BUF_SIZE :: nat where "INPUT_BUF_SIZE = 128"
definition BACKSPACE :: nat where "BACKSPACE = 0x100"

record consS = kern +
  uart_out :: bytes
  thr_room :: nat
  rx_fifo :: bytes
  uart_tx_buf :: "nat \<Rightarrow> uint8"
  uart_tx_w :: uint64
  uart_tx_r :: uint64
  panicked :: bool
  pr_locking :: bool
  cons_buf :: "nat \<Rightarrow> uint8"
  cons_r :: uint32
  cons_w :: uint32
  cons_e :: uint32

text \<open>Character constants of the source.\<close>

definition chr :: "char \<Rightarrow> uint8" where "chr c = of_char c"

definition cbytes :: "string \<Rightarrow> bytes" where "cbytes s = map chr s"

definition ctl :: "char \<Rightarrow> uint8" where "ctl c = chr c - chr (CHR ''@'')"

section \<open>The UART driver\<close>

definition write_THR :: "uint8 \<Rightarrow> ('x consS_scheme, unit) kmon" where
  "write_THR c = modify (\<lambda>s. s\<lparr>uart_out := uart_out s @ [c], thr_room := thr_room s - 1\<rparr>)"

text \<open>The loop of \<^verbatim>\<open>uartstart\<close>, at most once for each byte the device has room for; without room it
  returns, like with an empty buffer.\<close>

fun uartstart_loop :: "nat \<Rightarrow> ('x consS_scheme, unit) kmon" where
  "uartstart_loop 0 = ret ()"
| "uartstart_loop (Suc room) =
     bnd (gets (\<lambda>s. uart_tx_w s = uart_tx_r s)) (\<lambda>empty.
     if empty then ret ()
     else
       bnd (gets (\<lambda>s. uart_tx_buf s (unat (uart_tx_r s) mod UART_TX_BUF_SIZE))) (\<lambda>c.
       thn (modify (\<lambda>s. s\<lparr>uart_tx_r := uart_tx_r s + 1\<rparr>))
       (thn (wakeup ChUart)
       (thn (write_THR c)
       (uartstart_loop room)))))"

definition uartstart :: "('x consS_scheme, unit) kmon" where
  "uartstart = bnd (gets thr_room) uartstart_loop"

definition uartputc :: "uint8 \<Rightarrow> ('x consS_scheme, unit) kmon" where
  "uartputc c =
     thn (acquire LUart)
     (bnd (gets panicked) (\<lambda>p.
     if p then fault ''spinning: panicked''
     else bnd (gets (\<lambda>s. uart_tx_w s = uart_tx_r s + of_nat UART_TX_BUF_SIZE)) (\<lambda>full.
       if full then sleep ChUart LUart
       else thn (modify (\<lambda>s. s\<lparr>uart_tx_buf := (uart_tx_buf s)(unat (uart_tx_w s) mod UART_TX_BUF_SIZE := c)\<rparr>))
         (thn (modify (\<lambda>s. s\<lparr>uart_tx_w := uart_tx_w s + 1\<rparr>))
         (thn uartstart
         (release LUart))))))"

text \<open>\<^verbatim>\<open>uartputc_sync\<close> waits until the device can take the byte.\<close>

definition uartputc_sync :: "uint8 \<Rightarrow> ('x consS_scheme, unit) kmon" where
  "uartputc_sync c =
     bnd (gets panicked) (\<lambda>p. if p then fault ''spinning: panicked'' else write_THR c)"

definition uartgetc :: "('x consS_scheme, uint8 option) kmon" where
  "uartgetc =
     bnd (gets rx_fifo) (\<lambda>f. case f of
       [] \<Rightarrow> ret None
     | c # f' \<Rightarrow> thn (modify (\<lambda>s. s\<lparr>rx_fifo := f'\<rparr>)) (ret (Some c)))"

section \<open>Output to the console\<close>

definition consputc :: "nat \<Rightarrow> ('x consS_scheme, unit) kmon" where
  "consputc c =
     (if c = BACKSPACE then
        thn (uartputc_sync 8) (thn (uartputc_sync (chr (CHR '' ''))) (uartputc_sync 8))
      else uartputc_sync (of_nat c))"

definition put_bytes :: "bytes \<Rightarrow> ('x consS_scheme, unit) kmon" where
  "put_bytes bs = for_each bs (\<lambda>c. consputc (unat c))"

definition hexdigits :: bytes where "hexdigits = cbytes ''0123456789abcdef''"

text \<open>The digits that \<^verbatim>\<open>printint\<close> puts into its buffer, least significant first.\<close>

function int_digits :: "nat \<Rightarrow> nat \<Rightarrow> bytes" where
  "int_digits x base =
     hexdigits ! (x mod base) # (if x div base = 0 \<or> base \<le> 1 then [] else int_digits (x div base) base)"
  by pat_completeness auto
termination
  by (relation "measure fst") (auto intro!: div_less_dividend simp: div_eq_0_iff)

declare int_digits.simps [simp del]

text \<open>The negation of the smallest \<^verbatim>\<open>int\<close>, which C leaves undefined, is the wrap-around of the RISC-V instruction.\<close>

definition printint_buf :: "cint \<Rightarrow> nat \<Rightarrow> bool \<Rightarrow> bytes" where
  "printint_buf xx base sign =
     (let neg = sign \<and> sint xx < 0; x = (if neg then - xx else xx) in
      int_digits (unat x) base @ (if neg then [chr (CHR ''-'')] else []))"

definition printint :: "cint \<Rightarrow> nat \<Rightarrow> bool \<Rightarrow> ('x consS_scheme, unit) kmon" where
  "printint xx base sign =
     (let buf = printint_buf xx base sign in
      if length buf > 16 then fault ''printint: buffer'' else put_bytes (rev buf))"

fun ptr_digits :: "nat \<Rightarrow> uint64 \<Rightarrow> bytes" where
  "ptr_digits 0 x = []"
| "ptr_digits (Suc n) x = hexdigits ! unat (drop_bit 60 x) # ptr_digits n (push_bit 4 x)"

definition printptr :: "uint64 \<Rightarrow> ('x consS_scheme, unit) kmon" where
  "printptr x = put_bytes (cbytes ''0x'' @ ptr_digits 16 x)"

text \<open>The arguments of \<^verbatim>\<open>printf\<close>; one of the wrong type has no meaning in C.\<close>

datatype varg = VInt cint | VPtr uint64 | VStr "bytes option"

fun printf_arg :: "uint8 \<Rightarrow> varg list \<Rightarrow> ('x consS_scheme, varg list) kmon" where
  "printf_arg c args =
     (if c = chr (CHR ''d'') then
        case args of VInt i # r \<Rightarrow> thn (printint i 10 True) (ret r) | _ \<Rightarrow> fault ''va_arg''
      else if c = chr (CHR ''x'') then
        case args of VInt i # r \<Rightarrow> thn (printint i 16 True) (ret r) | _ \<Rightarrow> fault ''va_arg''
      else if c = chr (CHR ''p'') then
        case args of VPtr p # r \<Rightarrow> thn (printptr p) (ret r) | _ \<Rightarrow> fault ''va_arg''
      else if c = chr (CHR ''s'') then
        case args of
          VStr (Some s) # r \<Rightarrow> thn (put_bytes (cstr s)) (ret r)
        | VStr None # r \<Rightarrow> thn (put_bytes (cbytes ''(null)'')) (ret r)
        | _ \<Rightarrow> fault ''va_arg''
      else if c = chr (CHR ''%'') then thn (put_bytes [c]) (ret args)
      else thn (put_bytes [chr (CHR ''%''), c]) (ret args))"

declare printf_arg.simps [simp del]

fun printf_loop :: "bytes \<Rightarrow> varg list \<Rightarrow> ('x consS_scheme, unit) kmon" where
  "printf_loop [] args = ret ()"
| "printf_loop [c] args =
     (if c = 0 \<or> c = chr (CHR ''%'') then ret () else put_bytes [c])"
| "printf_loop (c # d # fmt) args =
     (if c = 0 then ret ()
      else if c \<noteq> chr (CHR ''%'') then thn (put_bytes [c]) (printf_loop (d # fmt) args)
      else if d = 0 then ret ()
      else bnd (printf_arg d args) (printf_loop fmt))"

definition printf :: "bytes \<Rightarrow> varg list \<Rightarrow> ('x consS_scheme, unit) kmon" where
  "printf fmt args =
     bnd (gets pr_locking) (\<lambda>locking.
     thn (whenM locking (acquire LPr))
     (thn (printf_loop fmt args)
     (whenM locking (release LPr))))"

definition printfinit :: "('x consS_scheme, unit) kmon" where
  "printfinit = modify (\<lambda>s. s\<lparr>pr_locking := True\<rparr>)"

text \<open>What \<^verbatim>\<open>panic\<close> prints and leaves in the state before it spins for ever.\<close>

definition panic_print :: "bytes \<Rightarrow> ('x consS_scheme, unit) kmon" where
  "panic_print s =
     thn (modify (\<lambda>s. s\<lparr>pr_locking := False\<rparr>))
     (thn (printf (cbytes ''panic: '') [])
     (thn (printf s [])
     (thn (printf [10] [])
     (modify (\<lambda>s. s\<lparr>panicked := True\<rparr>)))))"

fun state_name :: "procstate \<Rightarrow> string" where
  "state_name UNUSED = ''unused''"
| "state_name USED = ''used''"
| "state_name SLEEPING = ''sleep ''"
| "state_name RUNNABLE = ''runble''"
| "state_name RUNNING = ''run   ''"
| "state_name ZOMBIE = ''zombie''"

definition procdump :: "('x consS_scheme, unit) kmon" where
  "procdump =
     thn (printf [10] [])
     (for_each all_procs (\<lambda>p.
       bnd (get_proc p (\<lambda>q. q)) (\<lambda>q.
       if p_state q = UNUSED then ret ()
       else thn (printf (cbytes ''%d %s %s'')
               [VInt (p_pid q), VStr (Some (cbytes (state_name (p_state q)))), VStr (Some (p_name q))])
         (printf [10] []))))"

section \<open>Console input\<close>

definition cons_prev :: "'x consS_scheme \<Rightarrow> uint8" where
  "cons_prev s = cons_buf s (unat (cons_e s - 1) mod INPUT_BUF_SIZE)"

text \<open>The loop for \<^verbatim>\<open>^U\<close>; it erases at most the characters between the write and the edit index.\<close>

fun kill_line :: "nat \<Rightarrow> ('x consS_scheme, unit) kmon" where
  "kill_line 0 = ret ()"
| "kill_line (Suc n) =
     bnd (gets (\<lambda>s. cons_e s \<noteq> cons_w s \<and> cons_prev s \<noteq> 10)) (\<lambda>b.
     if b then
       thn (modify (\<lambda>s. s\<lparr>cons_e := cons_e s - 1\<rparr>)) (thn (consputc BACKSPACE) (kill_line n))
     else ret ())"

definition consoleintr :: "uint8 \<Rightarrow> ('x consS_scheme, unit) kmon" where
  "consoleintr c =
     thn (acquire LCons)
     (thn
       (if c = ctl (CHR ''P'') then procdump
        else if c = ctl (CHR ''U'') then bnd (gets (\<lambda>s. unat (cons_e s - cons_w s))) kill_line
        else if c = ctl (CHR ''H'') \<or> c = 0x7f then
          bnd (gets (\<lambda>s. cons_e s \<noteq> cons_w s)) (\<lambda>b.
          whenM b (thn (modify (\<lambda>s. s\<lparr>cons_e := cons_e s - 1\<rparr>)) (consputc BACKSPACE)))
        else
          bnd (gets (\<lambda>s. c \<noteq> 0 \<and> unat (cons_e s - cons_r s) < INPUT_BUF_SIZE)) (\<lambda>b.
          whenM b
            (let c = (if c = 13 then 10 else c) in
             thn (consputc (unat c))
             (thn (modify (\<lambda>s. s\<lparr>cons_buf := (cons_buf s)(unat (cons_e s) mod INPUT_BUF_SIZE := c),
                       cons_e := cons_e s + 1\<rparr>))
             (bnd (gets (\<lambda>s. c = 10 \<or> c = ctl (CHR ''D'') \<or> unat (cons_e s - cons_r s) = INPUT_BUF_SIZE)) (\<lambda>line.
              whenM line (thn (modify (\<lambda>s. s\<lparr>cons_w := cons_e s\<rparr>)) (wakeup ChCons))))))))
     (release LCons))"

text \<open>\<^verbatim>\<open>uartintr\<close>: one character at a time while input is waiting; the argument bounds the characters.\<close>

fun uartintr_loop :: "nat \<Rightarrow> ('x consS_scheme, unit) kmon" where
  "uartintr_loop 0 = ret ()"
| "uartintr_loop (Suc n) =
     bnd uartgetc (\<lambda>r. case r of None \<Rightarrow> ret () | Some c \<Rightarrow> thn (consoleintr c) (uartintr_loop n))"

definition uartintr :: "('x consS_scheme, unit) kmon" where
  "uartintr =
     thn (bnd (gets (\<lambda>s. length (rx_fifo s))) uartintr_loop)
     (thn (acquire LUart) (thn uartstart (release LUart)))"

section \<open>Reads and writes of user programs\<close>

fun src_off :: "copy_src \<Rightarrow> nat \<Rightarrow> copy_src" where
  "src_off (UserSrc va) i = UserSrc (va + of_nat i)"
| "src_off (KernSrc bs) i = KernSrc (drop i bs)"

fun consolewrite_loop :: "copy_src \<Rightarrow> nat \<Rightarrow> nat \<Rightarrow> ('x consS_scheme, nat) kmon" where
  "consolewrite_loop src i 0 = ret i"
| "consolewrite_loop src i (Suc n) =
     bnd (either_copyin (src_off src i) 1) (\<lambda>(r, bs).
     if r = -1 then ret i
     else thn (uartputc (hd bs)) (consolewrite_loop src (Suc i) n))"

definition consolewrite :: "copy_src \<Rightarrow> cint \<Rightarrow> ('x consS_scheme, int) kmon" where
  "consolewrite src n = bnd (consolewrite_loop src 0 (nat (sint n))) (\<lambda>i. ret (int i))"

text \<open>
  The outer loop of \<^verbatim>\<open>consoleread\<close> with \<open>n\<close> bytes still wanted: \<^const>\<open>None\<close> when the process has been killed,
  else how many are still wanted at the end, and the bytes delivered to a kernel buffer.
\<close>

definition dst_next :: "uint64 option \<Rightarrow> uint64 option" where
  "dst_next d = map_option (\<lambda>a. a + 1) d"

fun consoleread_loop :: "nat \<Rightarrow> uint64 option \<Rightarrow> nat \<Rightarrow> ('x consS_scheme, nat option \<times> bytes) kmon" where
  "consoleread_loop target dst 0 = ret (Some 0, [])"
| "consoleread_loop target dst (Suc n) =
     bnd (gets (\<lambda>s. cons_r s = cons_w s)) (\<lambda>empty.
     if empty then
       bnd myproc (\<lambda>p.
       bnd (killed p) (\<lambda>k.
       if k \<noteq> 0 then thn (release LCons) (ret (None, [])) else sleep ChCons LCons))
     else
       bnd (gets (\<lambda>s. cons_buf s (unat (cons_r s) mod INPUT_BUF_SIZE))) (\<lambda>c.
       thn (modify (\<lambda>s. s\<lparr>cons_r := cons_r s + 1\<rparr>))
       (if c = ctl (CHR ''D'') then
          thn (whenM (Suc n < target) (modify (\<lambda>s. s\<lparr>cons_r := cons_r s - 1\<rparr>))) (ret (Some (Suc n), []))
        else bnd (either_copyout dst [c]) (\<lambda>(r, bs).
          if r = -1 then ret (Some (Suc n), [])
          else if c = 10 then ret (Some n, bs)
          else bnd (consoleread_loop target (dst_next dst) n) (\<lambda>(m, rest). ret (m, bs @ rest))))))"

definition consoleread :: "uint64 option \<Rightarrow> cint \<Rightarrow> ('x consS_scheme, int \<times> bytes) kmon" where
  "consoleread dst n =
     thn (acquire LCons)
     (bnd (consoleread_loop (nat (sint n)) dst (nat (sint n))) (\<lambda>(m, bs). case m of
        None \<Rightarrow> ret (-1, bs)
      | Some m \<Rightarrow> thn (release LCons) (ret (int (nat (sint n)) - int m, bs))))"

end
