(* ===== verification/Sleeplock.thy ===== *)
theory Sleeplock
  imports Console
begin

text \<open>
  \<^verbatim>\<open>kernel/sleeplock.c\<close>. The sleep locks are embedded in buffers and inodes; the state has one table of
  them, indexed by the structure they belong to. Each has a spinlock that protects it and is
  its own sleep channel.
\<close>

datatype slid = SBuf nat | SInode nat

record sleeplock =
  sl_locked :: bool
  sl_pid :: cint

record sleepS = consS +
  slocks :: "slid \<Rightarrow> sleeplock"

fun sl_spin :: "slid \<Rightarrow> lock" where
  "sl_spin (SBuf i) = LBuf i"
| "sl_spin (SInode i) = LInode i"

fun sl_chan :: "slid \<Rightarrow> chan" where
  "sl_chan (SBuf i) = ChBuf i"
| "sl_chan (SInode i) = ChInode i"

definition set_slock :: "slid \<Rightarrow> sleeplock \<Rightarrow> ('x sleepS_scheme, unit) kmon" where
  "set_slock l k = modify (\<lambda>s. s\<lparr>slocks := (slocks s)(l := k)\<rparr>)"

definition initsleeplock :: "slid \<Rightarrow> ('x sleepS_scheme, unit) kmon" where
  "initsleeplock l = set_slock l \<lparr>sl_locked = False, sl_pid = 0\<rparr>"

text \<open>The loop of \<^verbatim>\<open>acquiresleep\<close> with the spinlock held; a process that slept in it enters it again.\<close>

definition acquiresleep_loop :: "slid \<Rightarrow> ('x sleepS_scheme, unit) kmon" where
  "acquiresleep_loop l =
     bnd (gets (\<lambda>s. sl_locked (slocks s l))) (\<lambda>b.
     if b then sleep (sl_chan l) (sl_spin l)
     else bnd myproc (\<lambda>p.
       bnd (get_proc p p_pid) (\<lambda>pid.
       thn (set_slock l \<lparr>sl_locked = True, sl_pid = pid\<rparr>)
       (release (sl_spin l)))))"

definition acquiresleep :: "slid \<Rightarrow> ('x sleepS_scheme, unit) kmon" where
  "acquiresleep l = thn (acquire (sl_spin l)) (acquiresleep_loop l)"

definition releasesleep :: "slid \<Rightarrow> ('x sleepS_scheme, unit) kmon" where
  "releasesleep l =
     thn (acquire (sl_spin l))
     (thn (set_slock l \<lparr>sl_locked = False, sl_pid = 0\<rparr>)
     (thn (wakeup (sl_chan l))
     (release (sl_spin l))))"

definition holdingsleep :: "slid \<Rightarrow> ('x sleepS_scheme, bool) kmon" where
  "holdingsleep l =
     thn (acquire (sl_spin l))
     (bnd myproc (\<lambda>p.
     bnd (get_proc p p_pid) (\<lambda>pid.
     bnd (gets (\<lambda>s. sl_locked (slocks s l) \<and> sl_pid (slocks s l) = pid)) (\<lambda>r.
     thn (release (sl_spin l)) (ret r)))))"

end
