(* ===== verification/Bio.thy ===== *)
theory Bio
  imports Sleeplock
begin

text \<open>
  \<^verbatim>\<open>kernel/bio.c\<close>: the buffer cache. Buffers are numbered \<open>0..<NBUF\<close>; the doubly linked list through
  them is the list \<open>lru\<close> of their numbers, most recently used first. The disk is a function from
  block numbers to blocks; \<open>disk_rw\<close> is a completed request to it, and \<open>dwrites\<close> records the writes
  in the order they reach the disk.
\<close>

section \<open>State\<close>

definition BSIZE :: nat where "BSIZE = 1024"

record buf =
  b_valid :: bool
  b_dev :: uint32
  b_blockno :: uint32
  b_refcnt :: uint32
  b_data :: bytes

record bioS = sleepS +
  bufs :: "nat \<Rightarrow> buf"
  lru :: "nat list"
  disk :: "uint32 \<Rightarrow> bytes"
  dwrites :: "(uint32 \<times> bytes) list"

definition upd_buf :: "nat \<Rightarrow> (buf \<Rightarrow> buf) \<Rightarrow> ('x bioS_scheme, unit) kmon" where
  "upd_buf i f = modify (\<lambda>s. s\<lparr>bufs := (bufs s)(i := f (bufs s i))\<rparr>)"

definition get_buf :: "nat \<Rightarrow> (buf \<Rightarrow> 'a) \<Rightarrow> ('x bioS_scheme, 'a) kmon" where
  "get_buf i f = gets (\<lambda>s. f (bufs s i))"

section \<open>Operations\<close>

text \<open>The loop of \<^verbatim>\<open>binit\<close> puts each buffer at the head of the list.\<close>

definition binit :: "('x bioS_scheme, unit) kmon" where
  "binit =
     thn (modify (\<lambda>s. s\<lparr>lru := []\<rparr>))
     (for_each [0..<NBUF] (\<lambda>i.
       thn (initsleeplock (SBuf i)) (modify (\<lambda>s. s\<lparr>lru := i # lru s\<rparr>))))"

definition bget :: "uint32 \<Rightarrow> uint32 \<Rightarrow> ('x bioS_scheme, nat) kmon" where
  "bget dev blockno =
     thn (acquire LBcache)
     (bnd (gets (\<lambda>s. find (\<lambda>i. b_dev (bufs s i) = dev \<and> b_blockno (bufs s i) = blockno) (lru s))) (\<lambda>cached.
     case cached of
       Some i \<Rightarrow>
         thn (upd_buf i (\<lambda>b. b\<lparr>b_refcnt := b_refcnt b + 1\<rparr>))
         (thn (release LBcache) (thn (acquiresleep (SBuf i)) (ret i)))
     | None \<Rightarrow>
         bnd (gets (\<lambda>s. find (\<lambda>i. b_refcnt (bufs s i) = 0) (rev (lru s)))) (\<lambda>free.
         case free of
           Some i \<Rightarrow>
             thn (upd_buf i (\<lambda>b. b\<lparr>b_dev := dev, b_blockno := blockno, b_valid := False, b_refcnt := 1\<rparr>))
             (thn (release LBcache) (thn (acquiresleep (SBuf i)) (ret i)))
         | None \<Rightarrow> panic ''bget: no buffers'')))"

text \<open>A request that the disk has completed: \<^verbatim>\<open>virtio_disk_rw\<close> returns then. The disk ignores \<open>dev\<close>.\<close>

definition disk_rw :: "nat \<Rightarrow> bool \<Rightarrow> ('x bioS_scheme, unit) kmon" where
  "disk_rw i write =
     (if write then
        bnd (get_buf i (\<lambda>b. (b_blockno b, b_data b))) (\<lambda>(n, d).
        modify (\<lambda>s. s\<lparr>disk := (disk s)(n := d), dwrites := dwrites s @ [(n, d)]\<rparr>))
      else
        bnd (get_buf i b_blockno) (\<lambda>n.
        bnd (gets (\<lambda>s. disk s n)) (\<lambda>d.
        upd_buf i (\<lambda>b. b\<lparr>b_data := d\<rparr>))))"

definition bread :: "uint32 \<Rightarrow> uint32 \<Rightarrow> ('x bioS_scheme, nat) kmon" where
  "bread dev blockno =
     bnd (bget dev blockno) (\<lambda>i.
     bnd (get_buf i b_valid) (\<lambda>v.
     thn (whenM (\<not> v) (thn (disk_rw i False) (upd_buf i (\<lambda>b. b\<lparr>b_valid := True\<rparr>))))
     (ret i)))"

definition bwrite :: "nat \<Rightarrow> ('x bioS_scheme, unit) kmon" where
  "bwrite i =
     bnd (holdingsleep (SBuf i)) (\<lambda>h.
     thn (assert_else h ''bwrite'') (disk_rw i True))"

definition brelse :: "nat \<Rightarrow> ('x bioS_scheme, unit) kmon" where
  "brelse i =
     bnd (holdingsleep (SBuf i)) (\<lambda>h.
     thn (assert_else h ''brelse'')
     (thn (releasesleep (SBuf i))
     (thn (acquire LBcache)
     (thn (upd_buf i (\<lambda>b. b\<lparr>b_refcnt := b_refcnt b - 1\<rparr>))
     (bnd (get_buf i b_refcnt) (\<lambda>r.
     thn (whenM (r = 0) (modify (\<lambda>s. s\<lparr>lru := i # remove1 i (lru s)\<rparr>)))
     (release LBcache)))))))"

definition bpin :: "nat \<Rightarrow> ('x bioS_scheme, unit) kmon" where
  "bpin i =
     thn (acquire LBcache)
     (thn (upd_buf i (\<lambda>b. b\<lparr>b_refcnt := b_refcnt b + 1\<rparr>))
     (release LBcache))"

definition bunpin :: "nat \<Rightarrow> ('x bioS_scheme, unit) kmon" where
  "bunpin i =
     thn (acquire LBcache)
     (thn (upd_buf i (\<lambda>b. b\<lparr>b_refcnt := b_refcnt b - 1\<rparr>))
     (release LBcache))"

text \<open>Writing the data of a buffer, which the callers do in place.\<close>

definition set_data :: "nat \<Rightarrow> (bytes \<Rightarrow> bytes) \<Rightarrow> ('x bioS_scheme, unit) kmon" where
  "set_data i f = upd_buf i (\<lambda>b. b\<lparr>b_data := f (b_data b)\<rparr>)"

section \<open>Little-endian fields of blocks\<close>

definition get16 :: "bytes \<Rightarrow> nat \<Rightarrow> uint16" where
  "get16 d o' = ucast (d ! o') OR push_bit 8 (ucast (d ! (o' + 1)))"

definition get32 :: "bytes \<Rightarrow> nat \<Rightarrow> uint32" where
  "get32 d o' = ucast (d ! o') OR push_bit 8 (ucast (d ! (o' + 1)))
     OR push_bit 16 (ucast (d ! (o' + 2))) OR push_bit 24 (ucast (d ! (o' + 3)))"

definition put16 :: "bytes \<Rightarrow> nat \<Rightarrow> uint16 \<Rightarrow> bytes" where
  "put16 d o' v = d[o' := ucast v, o' + 1 := ucast (drop_bit 8 v)]"

definition put32 :: "bytes \<Rightarrow> nat \<Rightarrow> uint32 \<Rightarrow> bytes" where
  "put32 d o' v = d[o' := ucast v, o' + 1 := ucast (drop_bit 8 v),
     o' + 2 := ucast (drop_bit 16 v), o' + 3 := ucast (drop_bit 24 v)]"

end
