(* ===== verification/Log.thy ===== *)
theory Log
  imports Bio
begin

text \<open>
  \<^verbatim>\<open>kernel/log.c\<close>: the redo log. The in-memory log is the record \<open>log\<close>; the header block holds its count
  and block numbers as little-endian integers.
\<close>

section \<open>State\<close>

record logrec =
  l_start :: cint
  l_size :: cint
  l_outstanding :: cint
  l_committing :: bool
  l_dev :: cint
  lh_n :: cint
  lh_block :: "cint list"

record logS = bioS +
  lg :: logrec

definition upd_log :: "(logrec \<Rightarrow> logrec) \<Rightarrow> ('x logS_scheme, unit) kmon" where
  "upd_log f = modify (\<lambda>s. s\<lparr>lg := f (lg s)\<rparr>)"

definition get_log :: "(logrec \<Rightarrow> 'a) \<Rightarrow> ('x logS_scheme, 'a) kmon" where
  "get_log f = gets (\<lambda>s. f (lg s))"

text \<open>\<^verbatim>\<open>log.lh.block[i]\<close>; the array has \<open>LOGSIZE\<close> entries.\<close>

definition lh_get :: "nat \<Rightarrow> ('x logS_scheme, cint) kmon" where
  "lh_get i = (if i < LOGSIZE then get_log (\<lambda>l. lh_block l ! i) else fault ''log.lh.block: index'')"

definition lh_set :: "nat \<Rightarrow> cint \<Rightarrow> ('x logS_scheme, unit) kmon" where
  "lh_set i v = (if i < LOGSIZE then upd_log (\<lambda>l. l\<lparr>lh_block := (lh_block l)[i := v]\<rparr>)
                 else fault ''log.lh.block: index'')"

section \<open>Installing, reading and writing the log\<close>

definition install_one :: "bool \<Rightarrow> nat \<Rightarrow> ('x logS_scheme, unit) kmon" where
  "install_one recovering tail =
     bnd (get_log l_dev) (\<lambda>dev.
     bnd (get_log l_start) (\<lambda>start.
     bnd (bread dev (start + of_nat tail + 1)) (\<lambda>lbuf.
     bnd (lh_get tail) (\<lambda>bno.
     bnd (bread dev bno) (\<lambda>dbuf.
     bnd (get_buf lbuf b_data) (\<lambda>d.
     thn (set_data dbuf (\<lambda>_. d))
     (thn (bwrite dbuf)
     (thn (whenM (\<not> recovering) (bunpin dbuf))
     (thn (brelse lbuf) (brelse dbuf))))))))))"

definition install_trans :: "bool \<Rightarrow> ('x logS_scheme, unit) kmon" where
  "install_trans recovering =
     bnd (get_log lh_n) (\<lambda>n. for_each [0..<nat (sint n)] (install_one recovering))"

definition read_head :: "('x logS_scheme, unit) kmon" where
  "read_head =
     bnd (get_log l_dev) (\<lambda>dev.
     bnd (get_log l_start) (\<lambda>start.
     bnd (bread dev start) (\<lambda>b.
     bnd (get_buf b b_data) (\<lambda>d.
     thn (upd_log (\<lambda>l. l\<lparr>lh_n := get32 d 0\<rparr>))
     (thn (for_each [0..<nat (sint (get32 d 0))] (\<lambda>i. lh_set i (get32 d (4 + 4 * i))))
     (brelse b))))))"

definition write_head :: "('x logS_scheme, unit) kmon" where
  "write_head =
     bnd (get_log l_dev) (\<lambda>dev.
     bnd (get_log l_start) (\<lambda>start.
     bnd (bread dev start) (\<lambda>b.
     bnd (get_log lh_n) (\<lambda>n.
     thn (set_data b (\<lambda>d. put32 d 0 n))
     (thn (for_each [0..<nat (sint n)] (\<lambda>i.
        bnd (lh_get i) (\<lambda>v. set_data b (\<lambda>d. put32 d (4 + 4 * i) v))))
     (thn (bwrite b)
     (brelse b)))))))"

definition recover_from_log :: "('x logS_scheme, unit) kmon" where
  "recover_from_log =
     thn read_head
     (thn (install_trans True)
     (thn (upd_log (\<lambda>l. l\<lparr>lh_n := 0\<rparr>))
     write_head))"

text \<open>\<^verbatim>\<open>initlog\<close>; its test on the size of the header is false for the sizes of the source.\<close>

definition initlog :: "cint \<Rightarrow> uint32 \<Rightarrow> uint32 \<Rightarrow> ('x logS_scheme, unit) kmon" where
  "initlog dev logstart nlog =
     thn (assert_else (\<not> 4 + 4 * LOGSIZE \<ge> BSIZE) ''initlog: too big logheader'')
     (thn (upd_log (\<lambda>l. l\<lparr>l_start := logstart, l_size := nlog, l_dev := dev\<rparr>))
     recover_from_log)"

section \<open>Transactions\<close>

text \<open>The loop of \<^verbatim>\<open>begin_op\<close> with the lock held.\<close>

definition begin_op_loop :: "('x logS_scheme, unit) kmon" where
  "begin_op_loop =
     bnd (get_log l_committing) (\<lambda>c.
     if c then sleep ChLog LLog
     else bnd (get_log (\<lambda>l. sint (lh_n l + (l_outstanding l + 1) * of_nat MAXOPBLOCKS) > int LOGSIZE)) (\<lambda>full.
       if full then sleep ChLog LLog
       else thn (upd_log (\<lambda>l. l\<lparr>l_outstanding := l_outstanding l + 1\<rparr>)) (release LLog)))"

definition begin_op :: "('x logS_scheme, unit) kmon" where
  "begin_op = thn (acquire LLog) begin_op_loop"

definition write_log_one :: "nat \<Rightarrow> ('x logS_scheme, unit) kmon" where
  "write_log_one tail =
     bnd (get_log l_dev) (\<lambda>dev.
     bnd (get_log l_start) (\<lambda>start.
     bnd (bread dev (start + of_nat tail + 1)) (\<lambda>tob.
     bnd (lh_get tail) (\<lambda>bno.
     bnd (bread dev bno) (\<lambda>fromb.
     bnd (get_buf fromb b_data) (\<lambda>d.
     thn (set_data tob (\<lambda>_. d))
     (thn (bwrite tob)
     (thn (brelse fromb) (brelse tob)))))))))"

definition write_log :: "('x logS_scheme, unit) kmon" where
  "write_log = bnd (get_log lh_n) (\<lambda>n. for_each [0..<nat (sint n)] write_log_one)"

definition commit :: "('x logS_scheme, unit) kmon" where
  "commit =
     bnd (get_log lh_n) (\<lambda>n.
     whenM (sint n > 0)
       (thn write_log
       (thn write_head
       (thn (install_trans False)
       (thn (upd_log (\<lambda>l. l\<lparr>lh_n := 0\<rparr>))
       write_head)))))"

definition end_op :: "('x logS_scheme, unit) kmon" where
  "end_op =
     thn (acquire LLog)
     (thn (upd_log (\<lambda>l. l\<lparr>l_outstanding := l_outstanding l - 1\<rparr>))
     (bnd (get_log l_committing) (\<lambda>c.
     thn (assert_else (\<not> c) ''log.committing'')
     (bnd (get_log (\<lambda>l. l_outstanding l = 0)) (\<lambda>do_commit.
     thn (if do_commit then upd_log (\<lambda>l. l\<lparr>l_committing := True\<rparr>) else wakeup ChLog)
     (thn (release LLog)
     (whenM do_commit
       (thn commit
       (thn (acquire LLog)
       (thn (upd_log (\<lambda>l. l\<lparr>l_committing := False\<rparr>))
       (thn (wakeup ChLog)
       (release LLog))))))))))))"

text \<open>The search of \<^verbatim>\<open>log_write\<close>: the position of the block in the log, or \<open>n\<close>.\<close>

fun absorb_index :: "cint \<Rightarrow> cint list \<Rightarrow> nat \<Rightarrow> nat \<Rightarrow> nat" where
  "absorb_index bno bs i 0 = i"
| "absorb_index bno bs i (Suc k) = (if bs ! i = bno then i else absorb_index bno bs (Suc i) k)"

definition log_write :: "nat \<Rightarrow> ('x logS_scheme, unit) kmon" where
  "log_write b =
     thn (acquire LLog)
     (bnd (get_log (\<lambda>l. l)) (\<lambda>l.
     thn (assert_else (\<not> (sint (lh_n l) \<ge> int LOGSIZE \<or> sint (lh_n l) \<ge> sint (l_size l - 1))) ''too big a transaction'')
     (thn (assert_else (\<not> sint (l_outstanding l) < 1) ''log_write outside of trans'')
     (bnd (get_buf b b_blockno) (\<lambda>bno.
     let n = nat (sint (lh_n l)); i = absorb_index bno (lh_block l) 0 n in
     thn (lh_set i bno)
     (thn (whenM (i = n) (thn (bpin b) (upd_log (\<lambda>l. l\<lparr>lh_n := lh_n l + 1\<rparr>))))
     (release LLog)))))))"

end
