(* ===== verification/Fs.thy ===== *)
theory Fs
  imports Log
begin

text \<open>
  \<^verbatim>\<open>kernel/fs.c\<close> and \<^verbatim>\<open>kernel/fs.h\<close>: block allocator, inodes, inode contents, directories and path names. Inodes in
  memory are entries \<open>0..<NINODE\<close> of \<open>itable\<close>; a pointer to one is its index, the null pointer is
  \<^const>\<open>None\<close> where the source can have one. On-disk structures are the bytes of their blocks.
\<close>

section \<open>Layout (fs.h)\<close>

definition ROOTINO :: uint32 where "ROOTINO = 1"
definition FSMAGIC :: uint32 where "FSMAGIC = 0x10203040"
definition NDIRECT :: nat where "NDIRECT = 12"
definition NINDIRECT :: nat where "NINDIRECT = BSIZE div 4"
definition MAXFILE :: nat where "MAXFILE = NDIRECT + NINDIRECT"
definition IPB :: nat where "IPB = BSIZE div 64"
definition BPB :: nat where "BPB = BSIZE * 8"
definition DIRSIZ :: nat where "DIRSIZ = 14"
definition T_DIR :: uint16 where "T_DIR = 1"
definition T_FILE :: uint16 where "T_FILE = 2"
definition T_DEVICE :: uint16 where "T_DEVICE = 3"

declare BSIZE_def [params] ROOTINO_def [params] FSMAGIC_def [params] NDIRECT_def [params] NINDIRECT_def [params]
  MAXFILE_def [params] IPB_def [params] BPB_def [params] DIRSIZ_def [params] T_DIR_def [params]
  T_FILE_def [params] T_DEVICE_def [params]

record superblock =
  sb_magic :: uint32
  sb_size :: uint32
  sb_nblocks :: uint32
  sb_ninodes :: uint32
  sb_nlog :: uint32
  sb_logstart :: uint32
  sb_inodestart :: uint32
  sb_bmapstart :: uint32

record dinode =
  d_type :: uint16
  d_major :: uint16
  d_minor :: uint16
  d_nlink :: uint16
  d_size :: uint32
  d_addrs :: "uint32 list"

record inode =
  i_dev :: uint32
  i_inum :: uint32
  i_ref :: cint
  i_valid :: bool
  i_d :: dinode

record fsS = logS +
  fsb :: superblock
  itable :: "nat \<Rightarrow> inode"

definition IBLOCK :: "uint32 \<Rightarrow> superblock \<Rightarrow> uint32" where
  "IBLOCK i k = i div of_nat IPB + sb_inodestart k"

definition BBLOCK :: "uint32 \<Rightarrow> superblock \<Rightarrow> uint32" where
  "BBLOCK b k = b div of_nat BPB + sb_bmapstart k"

text \<open>The bytes of the structures: \<^verbatim>\<open>struct superblock\<close>, \<^verbatim>\<open>struct dinode\<close> (64 bytes) and \<^verbatim>\<open>struct dirent\<close> (16 bytes).\<close>

definition get_sb :: "bytes \<Rightarrow> superblock" where
  "get_sb d = \<lparr>sb_magic = get32 d 0, sb_size = get32 d 4, sb_nblocks = get32 d 8, sb_ninodes = get32 d 12,
     sb_nlog = get32 d 16, sb_logstart = get32 d 20, sb_inodestart = get32 d 24, sb_bmapstart = get32 d 28\<rparr>"

definition get_dinode :: "bytes \<Rightarrow> nat \<Rightarrow> dinode" where
  "get_dinode d j = (let b = 64 * j in
     \<lparr>d_type = get16 d b, d_major = get16 d (b + 2), d_minor = get16 d (b + 4), d_nlink = get16 d (b + 6),
      d_size = get32 d (b + 8), d_addrs = map (\<lambda>i. get32 d (b + 12 + 4 * i)) [0..<NDIRECT + 1]\<rparr>)"

definition put_words :: "bytes \<Rightarrow> nat \<Rightarrow> uint32 list \<Rightarrow> bytes" where
  "put_words d b vs = foldl (\<lambda>d (i, v). put32 d (b + 4 * i) v) d (enumerate 0 vs)"

definition put_dinode :: "bytes \<Rightarrow> nat \<Rightarrow> dinode \<Rightarrow> bytes" where
  "put_dinode d j i = (let b = 64 * j in
     put_words (put32 (put16 (put16 (put16 (put16 d b (d_type i)) (b + 2) (d_major i)) (b + 4) (d_minor i))
       (b + 6) (d_nlink i)) (b + 8) (d_size i)) (b + 12) (d_addrs i))"

definition de_inum :: "bytes \<Rightarrow> uint16" where "de_inum de = get16 de 0"

definition de_name :: "bytes \<Rightarrow> bytes" where "de_name de = take DIRSIZ (drop 2 de)"

definition mk_dirent :: "uint16 \<Rightarrow> bytes \<Rightarrow> bytes" where
  "mk_dirent inum name = ucast inum # ucast (drop_bit 8 inum) # name"

definition upd_inode :: "nat \<Rightarrow> (inode \<Rightarrow> inode) \<Rightarrow> ('x fsS_scheme, unit) kmon" where
  "upd_inode ip f = modify (\<lambda>s. s\<lparr>itable := (itable s)(ip := f (itable s ip))\<rparr>)"

definition get_inode :: "nat \<Rightarrow> (inode \<Rightarrow> 'a) \<Rightarrow> ('x fsS_scheme, 'a) kmon" where
  "get_inode ip f = gets (\<lambda>s. f (itable s ip))"

definition upd_di :: "nat \<Rightarrow> (dinode \<Rightarrow> dinode) \<Rightarrow> ('x fsS_scheme, unit) kmon" where
  "upd_di ip f = upd_inode ip (\<lambda>i. i\<lparr>i_d := f (i_d i)\<rparr>)"

definition get_di :: "nat \<Rightarrow> (dinode \<Rightarrow> 'a) \<Rightarrow> ('x fsS_scheme, 'a) kmon" where
  "get_di ip f = get_inode ip (\<lambda>i. f (i_d i))"

section \<open>The superblock\<close>

definition readsb :: "uint32 \<Rightarrow> ('x fsS_scheme, unit) kmon" where
  "readsb dev =
     bnd (bread dev 1) (\<lambda>bp.
     bnd (get_buf bp b_data) (\<lambda>d.
     thn (modify (\<lambda>s. s\<lparr>fsb := get_sb d\<rparr>))
     (brelse bp)))"

definition fsinit :: "uint32 \<Rightarrow> ('x fsS_scheme, unit) kmon" where
  "fsinit dev =
     thn (readsb dev)
     (bnd (gets fsb) (\<lambda>k.
     thn (assert_else (\<not> sb_magic k \<noteq> FSMAGIC) ''invalid file system'')
     (initlog dev (sb_logstart k) (sb_nlog k))))"

section \<open>Blocks\<close>

definition bzero :: "uint32 \<Rightarrow> uint32 \<Rightarrow> ('x fsS_scheme, unit) kmon" where
  "bzero dev bno =
     bnd (bread dev bno) (\<lambda>bp.
     thn (set_data bp (\<lambda>_. replicate BSIZE 0))
     (thn (log_write bp)
     (brelse bp)))"

definition bit_mask :: "nat \<Rightarrow> uint8" where "bit_mask bi = push_bit (bi mod 8) 1"

text \<open>The inner loop of \<^verbatim>\<open>balloc\<close>: the first clear bit among \<open>n\<close> bits from \<open>bi\<close> on.\<close>

fun free_bit :: "bytes \<Rightarrow> nat \<Rightarrow> nat \<Rightarrow> nat option" where
  "free_bit d bi 0 = None"
| "free_bit d bi (Suc n) =
     (if d ! (bi div 8) AND bit_mask bi = 0 then Some bi else free_bit d (Suc bi) n)"

text \<open>
  The outer loop, for the bitmap block that holds the bit of block \<open>b\<close>. The loop variable is an \<^verbatim>\<open>int\<close>: it
  overflows when the file system has more than \<open>2 ^ 31\<close> blocks.
\<close>

function balloc_loop :: "uint32 \<Rightarrow> superblock \<Rightarrow> nat \<Rightarrow> ('x fsS_scheme, uint32) kmon" where
  "balloc_loop dev k b =
     (if b < unat (sb_size k) then
        if b \<ge> 2 ^ 31 then fault ''signed overflow''
        else bnd (bread dev (BBLOCK (of_nat b) k)) (\<lambda>bp.
          bnd (get_buf bp b_data) (\<lambda>d.
          case free_bit d 0 (min BPB (unat (sb_size k) - b)) of
            Some bi \<Rightarrow>
              thn (set_data bp (\<lambda>d. d[bi div 8 := d ! (bi div 8) OR bit_mask bi]))
              (thn (log_write bp)
              (thn (brelse bp)
              (thn (bzero dev (of_nat (b + bi)))
              (ret (of_nat (b + bi))))))
          | None \<Rightarrow> thn (brelse bp) (balloc_loop dev k (b + BPB))))
      else thn (printf (cbytes ''balloc: out of blocks'' @ [10]) []) (ret 0))"
  by pat_completeness auto
termination
  by (relation "measure (\<lambda>(dev, k, b). unat (sb_size k) - b)") (auto simp: params)

declare balloc_loop.simps [simp del]

definition balloc :: "uint32 \<Rightarrow> ('x fsS_scheme, uint32) kmon" where
  "balloc dev = bnd (gets fsb) (\<lambda>k. balloc_loop dev k 0)"

definition bfree :: "uint32 \<Rightarrow> uint32 \<Rightarrow> ('x fsS_scheme, unit) kmon" where
  "bfree dev b =
     bnd (gets fsb) (\<lambda>k.
     bnd (bread dev (BBLOCK b k)) (\<lambda>bp.
     let bi = unat b mod BPB in
     bnd (get_buf bp b_data) (\<lambda>d.
     thn (assert_else (\<not> d ! (bi div 8) AND bit_mask bi = 0) ''freeing free block'')
     (thn (set_data bp (\<lambda>d. d[bi div 8 := d ! (bi div 8) AND NOT (bit_mask bi)]))
     (thn (log_write bp)
     (brelse bp))))))"

section \<open>Inodes\<close>

definition iinit :: "('x fsS_scheme, unit) kmon" where
  "iinit = for_each [0..<NINODE] (\<lambda>i. initsleeplock (SInode i))"

definition iget :: "uint32 \<Rightarrow> uint32 \<Rightarrow> ('x fsS_scheme, nat) kmon" where
  "iget dev inum =
     thn (acquire LItable)
     (bnd (gets (\<lambda>s. find (\<lambda>i. sint (i_ref (itable s i)) > 0 \<and> i_dev (itable s i) = dev
                              \<and> i_inum (itable s i) = inum) [0..<NINODE])) (\<lambda>hit.
     case hit of
       Some ip \<Rightarrow>
         thn (upd_inode ip (\<lambda>i. i\<lparr>i_ref := i_ref i + 1\<rparr>))
         (thn (release LItable) (ret ip))
     | None \<Rightarrow>
         bnd (gets (\<lambda>s. find (\<lambda>i. i_ref (itable s i) = 0) [0..<NINODE])) (\<lambda>empty.
         case empty of
           None \<Rightarrow> panic ''iget: no inodes''
         | Some ip \<Rightarrow>
             thn (upd_inode ip (\<lambda>i. i\<lparr>i_dev := dev, i_inum := inum, i_ref := 1, i_valid := False\<rparr>))
             (thn (release LItable) (ret ip)))))"

text \<open>The loop of \<^verbatim>\<open>ialloc\<close> over the inode numbers; \<open>memset\<close> and the assignment of the type leave the
  other fields of the inode zero.\<close>

definition fresh_dinode :: "uint16 \<Rightarrow> dinode" where
  "fresh_dinode ty = \<lparr>d_type = ty, d_major = 0, d_minor = 0, d_nlink = 0, d_size = 0,
     d_addrs = replicate (NDIRECT + 1) 0\<rparr>"

fun ialloc_loop :: "uint32 \<Rightarrow> uint16 \<Rightarrow> superblock \<Rightarrow> nat list \<Rightarrow> ('x fsS_scheme, nat option) kmon" where
  "ialloc_loop dev ty k [] = thn (printf (cbytes ''ialloc: no inodes'' @ [10]) []) (ret None)"
| "ialloc_loop dev ty k (inum # is) =
     (if inum \<ge> 2 ^ 31 then fault ''signed overflow''
      else bnd (bread dev (IBLOCK (of_nat inum) k)) (\<lambda>bp.
        bnd (get_buf bp b_data) (\<lambda>d.
        if d_type (get_dinode d (inum mod IPB)) = 0 then
          thn (set_data bp (\<lambda>d. put_dinode d (inum mod IPB) (fresh_dinode ty)))
          (thn (log_write bp)
          (thn (brelse bp)
          (bnd (iget dev (of_nat inum)) (\<lambda>ip. ret (Some ip)))))
        else thn (brelse bp) (ialloc_loop dev ty k is))))"

definition ialloc :: "uint32 \<Rightarrow> uint16 \<Rightarrow> ('x fsS_scheme, nat option) kmon" where
  "ialloc dev ty = bnd (gets fsb) (\<lambda>k. ialloc_loop dev ty k [1..<unat (sb_ninodes k)])"

definition iupdate :: "nat \<Rightarrow> ('x fsS_scheme, unit) kmon" where
  "iupdate ip =
     bnd (gets fsb) (\<lambda>k.
     bnd (get_inode ip (\<lambda>i. i)) (\<lambda>i.
     bnd (bread (i_dev i) (IBLOCK (i_inum i) k)) (\<lambda>bp.
     thn (set_data bp (\<lambda>d. put_dinode d (unat (i_inum i) mod IPB) (i_d i)))
     (thn (log_write bp)
     (brelse bp)))))"

definition idup :: "nat \<Rightarrow> ('x fsS_scheme, nat) kmon" where
  "idup ip =
     thn (acquire LItable)
     (thn (upd_inode ip (\<lambda>i. i\<lparr>i_ref := i_ref i + 1\<rparr>))
     (thn (release LItable) (ret ip)))"

definition ilock :: "nat option \<Rightarrow> ('x fsS_scheme, unit) kmon" where
  "ilock ip0 = (case ip0 of None \<Rightarrow> panic ''ilock'' | Some ip \<Rightarrow>
     bnd (get_inode ip i_ref) (\<lambda>r.
     if sint r < 1 then panic ''ilock''
     else thn (acquiresleep (SInode ip))
       (bnd (get_inode ip (\<lambda>i. i)) (\<lambda>i.
       whenM (\<not> i_valid i)
         (bnd (gets fsb) (\<lambda>k.
         bnd (bread (i_dev i) (IBLOCK (i_inum i) k)) (\<lambda>bp.
         bnd (get_buf bp b_data) (\<lambda>d.
         thn (upd_di ip (\<lambda>_. get_dinode d (unat (i_inum i) mod IPB)))
         (thn (brelse bp)
         (thn (upd_inode ip (\<lambda>i. i\<lparr>i_valid := True\<rparr>))
         (bnd (get_di ip d_type) (\<lambda>ty.
         assert_else (\<not> ty = 0) ''ilock: no type''))))))))))))"

definition iunlock :: "nat option \<Rightarrow> ('x fsS_scheme, unit) kmon" where
  "iunlock ip0 = (case ip0 of None \<Rightarrow> panic ''iunlock'' | Some ip \<Rightarrow>
     bnd (holdingsleep (SInode ip)) (\<lambda>h.
     bnd (get_inode ip i_ref) (\<lambda>r.
     if \<not> h \<or> sint r < 1 then panic ''iunlock''
     else releasesleep (SInode ip))))"

section \<open>Inode content\<close>

definition bmap :: "nat \<Rightarrow> uint32 \<Rightarrow> ('x fsS_scheme, uint32) kmon" where
  "bmap ip bn =
     bnd (get_inode ip i_dev) (\<lambda>dev.
     if unat bn < NDIRECT then
       bnd (get_di ip (\<lambda>i. d_addrs i ! unat bn)) (\<lambda>addr.
       if addr = 0 then
         bnd (balloc dev) (\<lambda>addr.
         if addr = 0 then ret 0
         else thn (upd_di ip (\<lambda>i. i\<lparr>d_addrs := (d_addrs i)[unat bn := addr]\<rparr>)) (ret addr))
       else ret addr)
     else let bn = unat bn - NDIRECT in
     if bn < NINDIRECT then
       bnd (get_di ip (\<lambda>i. d_addrs i ! NDIRECT)) (\<lambda>addr.
       bnd (if addr = 0 then
              bnd (balloc dev) (\<lambda>addr.
              thn (whenM (addr \<noteq> 0) (upd_di ip (\<lambda>i. i\<lparr>d_addrs := (d_addrs i)[NDIRECT := addr]\<rparr>))) (ret addr))
            else ret addr) (\<lambda>addr.
       if addr = 0 then ret 0
       else bnd (bread dev addr) (\<lambda>bp.
         bnd (get_buf bp (\<lambda>b. get32 (b_data b) (4 * bn))) (\<lambda>addr.
         bnd (if addr = 0 then
                bnd (balloc dev) (\<lambda>addr.
                thn (whenM (addr \<noteq> 0) (thn (set_data bp (\<lambda>d. put32 d (4 * bn) addr)) (log_write bp)))
                (ret addr))
              else ret addr) (\<lambda>addr.
         thn (brelse bp) (ret addr))))))
     else panic ''bmap: out of range'')"

definition itrunc :: "nat \<Rightarrow> ('x fsS_scheme, unit) kmon" where
  "itrunc ip =
     bnd (get_inode ip i_dev) (\<lambda>dev.
     thn (for_each [0..<NDIRECT] (\<lambda>i.
       bnd (get_di ip (\<lambda>d. d_addrs d ! i)) (\<lambda>addr.
       whenM (addr \<noteq> 0)
         (thn (bfree dev addr) (upd_di ip (\<lambda>d. d\<lparr>d_addrs := (d_addrs d)[i := 0]\<rparr>))))))
     (bnd (get_di ip (\<lambda>d. d_addrs d ! NDIRECT)) (\<lambda>ind.
     thn (whenM (ind \<noteq> 0)
       (bnd (bread dev ind) (\<lambda>bp.
        thn (for_each [0..<NINDIRECT] (\<lambda>j.
          bnd (get_buf bp (\<lambda>b. get32 (b_data b) (4 * j))) (\<lambda>addr.
          whenM (addr \<noteq> 0) (bfree dev addr))))
        (thn (brelse bp)
        (thn (bfree dev ind)
        (upd_di ip (\<lambda>d. d\<lparr>d_addrs := (d_addrs d)[NDIRECT := 0]\<rparr>)))))))
     (thn (upd_di ip (\<lambda>d. d\<lparr>d_size := 0\<rparr>))
     (iupdate ip)))))"

definition iput :: "nat \<Rightarrow> ('x fsS_scheme, unit) kmon" where
  "iput ip =
     thn (acquire LItable)
     (bnd (get_inode ip (\<lambda>i. i_ref i = 1 \<and> i_valid i \<and> d_nlink (i_d i) = 0)) (\<lambda>dead.
     thn (whenM dead
       (thn (acquiresleep (SInode ip))
       (thn (release LItable)
       (thn (itrunc ip)
       (thn (upd_di ip (\<lambda>d. d\<lparr>d_type := 0\<rparr>))
       (thn (iupdate ip)
       (thn (upd_inode ip (\<lambda>i. i\<lparr>i_valid := False\<rparr>))
       (thn (releasesleep (SInode ip))
       (acquire LItable)))))))))
     (thn (upd_inode ip (\<lambda>i. i\<lparr>i_ref := i_ref i - 1\<rparr>))
     (release LItable))))"

definition iunlockput :: "nat \<Rightarrow> ('x fsS_scheme, unit) kmon" where
  "iunlockput ip = thn (iunlock (Some ip)) (iput ip)"

record stat =
  st_dev :: cint
  st_ino :: uint32
  st_type :: uint16
  st_nlink :: uint16
  st_size :: uint64

definition stati :: "nat \<Rightarrow> ('x fsS_scheme, stat) kmon" where
  "stati ip = get_inode ip (\<lambda>i. \<lparr>st_dev = i_dev i, st_ino = i_inum i, st_type = d_type (i_d i),
     st_nlink = d_nlink (i_d i), st_size = ucast (d_size (i_d i))\<rparr>)"

text \<open>The number of bytes of one iteration of the loops of \<^verbatim>\<open>readi\<close> and \<^verbatim>\<open>writei\<close>.\<close>

definition chunk :: "uint32 \<Rightarrow> uint32 \<Rightarrow> uint32 \<Rightarrow> uint32" where
  "chunk off tot n = min (n - tot) (of_nat BSIZE - off mod of_nat BSIZE)"

lemma chunk_pos:
  assumes "tot < n"
  shows "0 < unat (chunk off tot n)" and "unat (chunk off tot n) \<le> unat n - unat tot"
proof -
  have "unat (off mod 1024) < 1024" by (simp add: unat_mod)
  then have "0 < unat (1024 - off mod 1024)" by (simp add: unat_sub_if')
  moreover have "0 < unat (n - tot)" "unat (n - tot) = unat n - unat tot"
    using assms by (simp_all add: unat_sub_if' word_less_nat_alt)
  ultimately show "0 < unat (chunk off tot n)" "unat (chunk off tot n) \<le> unat n - unat tot"
    by (auto simp: chunk_def min_def BSIZE_def word_le_nat_alt)
qed

lemma chunk_add: "tot < n \<Longrightarrow> unat (tot + chunk off tot n) = unat tot + unat (chunk off tot n)"
proof -
  assume "tot < n"
  moreover have "unat n < 2 ^ 32" by (rule unat_lt_32)
  ultimately show ?thesis
    using chunk_pos(2) [of tot n off] by (simp add: unat_add_small word_less_nat_alt)
qed

lemma chunk_less: "tot < n \<Longrightarrow> unat n - unat (tot + chunk off tot n) < unat n - unat tot"
  using chunk_pos [of tot n off] by (simp add: chunk_add word_less_nat_alt)

text \<open>A directory offset that does not wrap around.\<close>

lemma next_off_less: "\<not> off + 16 < off \<Longrightarrow> 2 ^ 32 - unat (off + 16 :: uint32) < 2 ^ 32 - unat off"
proof -
  assume *: "\<not> off + 16 < off"
  have lt: "unat off < 2 ^ 32" by (rule unat_lt_32)
  have "unat (off + 16) = (unat off + 16) mod 2 ^ 32" by (simp add: unat_word_ariths)
  then have "unat off < unat (off + 16)"
    using * lt by (cases "unat off + 16 < 2 ^ 32") (auto simp: not_less word_le_nat_alt mod_if)
  then show ?thesis using lt by linarith
qed

definition dst_plus :: "uint64 option \<Rightarrow> uint32 \<Rightarrow> uint64 option" where
  "dst_plus dst m = map_option (\<lambda>a. a + ucast m) dst"

text \<open>\<^verbatim>\<open>readi\<close> returns \<open>tot\<close> and the bytes delivered to a kernel buffer.\<close>

function readi_loop :: "nat \<Rightarrow> uint64 option \<Rightarrow> uint32 \<Rightarrow> uint32 \<Rightarrow> uint32 \<Rightarrow> ('x fsS_scheme, cint \<times> bytes) kmon" where
  "readi_loop ip dst off tot n =
     (if tot < n then
        bnd (bmap ip (off div of_nat BSIZE)) (\<lambda>addr.
        if addr = 0 then ret (tot, [])
        else bnd (get_inode ip i_dev) (\<lambda>dev.
          bnd (bread dev addr) (\<lambda>bp.
          bnd (get_buf bp b_data) (\<lambda>d.
          let m = chunk off tot n in
          bnd (either_copyout dst (take (unat m) (drop (unat off mod BSIZE) d))) (\<lambda>(r, bs).
          if r = -1 then thn (brelse bp) (ret (-1, []))
          else thn (brelse bp)
            (bnd (readi_loop ip (dst_plus dst m) (off + m) (tot + m) n) (\<lambda>(t, rest).
             ret (t, bs @ rest))))))))
      else ret (tot, []))"
  by pat_completeness auto
termination
  by (relation "measure (\<lambda>(ip, dst, off, tot, n). unat n - unat tot)")
    (auto dest: chunk_less)

declare readi_loop.simps [simp del]

definition readi :: "nat \<Rightarrow> uint64 option \<Rightarrow> uint32 \<Rightarrow> uint32 \<Rightarrow> ('x fsS_scheme, cint \<times> bytes) kmon" where
  "readi ip dst off n =
     bnd (get_di ip d_size) (\<lambda>isize.
     if off > isize \<or> off + n < off then ret (0, [])
     else readi_loop ip dst off 0 (if off + n > isize then isize - off else n))"

definition splice :: "bytes \<Rightarrow> nat \<Rightarrow> bytes \<Rightarrow> bytes" where
  "splice d b bs = take b d @ bs @ drop (b + length bs) d"

text \<open>The loop of \<^verbatim>\<open>writei\<close>; the result is \<open>off\<close> and \<open>tot\<close> at its end. A failing copy has stored the bytes
  before the page that is not mapped.\<close>

function writei_loop :: "nat \<Rightarrow> copy_src \<Rightarrow> uint32 \<Rightarrow> uint32 \<Rightarrow> uint32 \<Rightarrow> ('x fsS_scheme, uint32 \<times> uint32) kmon" where
  "writei_loop ip src off tot n =
     (if tot < n then
        bnd (bmap ip (off div of_nat BSIZE)) (\<lambda>addr.
        if addr = 0 then ret (off, tot)
        else bnd (get_inode ip i_dev) (\<lambda>dev.
          bnd (bread dev addr) (\<lambda>bp.
          let m = chunk off tot n in
          bnd (either_copyin src (ucast m)) (\<lambda>(r, bs).
          thn (set_data bp (\<lambda>d. splice d (unat off mod BSIZE) bs))
          (if r = -1 then thn (brelse bp) (ret (off, tot))
           else thn (log_write bp)
             (thn (brelse bp)
             (writei_loop ip (src_off src (unat m)) (off + m) (tot + m) n)))))))
      else ret (off, tot))"
  by pat_completeness auto
termination
  by (relation "measure (\<lambda>(ip, src, off, tot, n). unat n - unat tot)")
    (auto dest: chunk_less)

declare writei_loop.simps [simp del]

definition writei :: "nat \<Rightarrow> copy_src \<Rightarrow> uint32 \<Rightarrow> uint32 \<Rightarrow> ('x fsS_scheme, cint) kmon" where
  "writei ip src off n =
     bnd (get_di ip d_size) (\<lambda>isize.
     if off > isize \<or> off + n < off then ret (-1)
     else if unat (off + n) > MAXFILE * BSIZE then ret (-1)
     else bnd (writei_loop ip src off 0 n) (\<lambda>(off, tot).
       bnd (get_di ip d_size) (\<lambda>isize.
       thn (whenM (off > isize) (upd_di ip (\<lambda>d. d\<lparr>d_size := off\<rparr>)))
       (thn (iupdate ip)
       (ret tot)))))"

section \<open>Directories\<close>

text \<open>\<^verbatim>\<open>namecmp\<close>; a read past the end of a name buffer has no meaning.\<close>

definition namecmp :: "bytes \<Rightarrow> bytes \<Rightarrow> ('x fsS_scheme, int) kmon" where
  "namecmp s t = (case strncmp s t DIRSIZ of None \<Rightarrow> fault ''namecmp'' | Some r \<Rightarrow> ret r)"

text \<open>
  The loop of \<^verbatim>\<open>dirlookup\<close>; the result is the inode and the offset of its entry. The test for
  wrap-around is the one \<^verbatim>\<open>readi\<close> makes first: it reads nothing then.
\<close>

function dirlookup_loop :: "nat \<Rightarrow> bytes \<Rightarrow> uint32 \<Rightarrow> ('x fsS_scheme, (nat \<times> uint32) option) kmon" where
  "dirlookup_loop dp name off =
     bnd (get_di dp d_size) (\<lambda>isize.
     if off < isize then
       if off + 16 < off then panic ''dirlookup read''
       else bnd (readi dp None off 16) (\<lambda>(r, de).
         if r \<noteq> 16 then panic ''dirlookup read''
         else if de_inum de = 0 then dirlookup_loop dp name (off + 16)
         else bnd (namecmp name (de_name de)) (\<lambda>c.
           if c = 0 then
             bnd (get_inode dp i_dev) (\<lambda>dev.
             bnd (iget dev (ucast (de_inum de))) (\<lambda>ip. ret (Some (ip, off))))
           else dirlookup_loop dp name (off + 16)))
     else ret None)"
  by pat_completeness auto
termination
  by (relation "measure (\<lambda>(dp, name, off). 2 ^ 32 - unat off)")
    (auto dest!: next_off_less)

declare dirlookup_loop.simps [simp del]

definition dirlookup :: "nat \<Rightarrow> bytes \<Rightarrow> ('x fsS_scheme, (nat \<times> uint32) option) kmon" where
  "dirlookup dp name =
     bnd (get_di dp d_type) (\<lambda>ty.
     if ty \<noteq> T_DIR then panic ''dirlookup not DIR'' else dirlookup_loop dp name 0)"

text \<open>The search of \<^verbatim>\<open>dirlink\<close> for an empty entry: its offset, or the end of the directory.\<close>

function empty_dirent :: "nat \<Rightarrow> uint32 \<Rightarrow> ('x fsS_scheme, uint32) kmon" where
  "empty_dirent dp off =
     bnd (get_di dp d_size) (\<lambda>isize.
     if off < isize then
       if off + 16 < off then panic ''dirlink read''
       else bnd (readi dp None off 16) (\<lambda>(r, de).
         if r \<noteq> 16 then panic ''dirlink read''
         else if de_inum de = 0 then ret off
         else empty_dirent dp (off + 16))
     else ret off)"
  by pat_completeness auto
termination
  by (relation "measure (\<lambda>(dp, off). 2 ^ 32 - unat off)")
    (auto dest!: next_off_less)

declare empty_dirent.simps [simp del]

definition dirlink :: "nat \<Rightarrow> bytes \<Rightarrow> uint32 \<Rightarrow> ('x fsS_scheme, int) kmon" where
  "dirlink dp name inum =
     bnd (dirlookup dp name) (\<lambda>found.
     case found of
       Some (ip, _) \<Rightarrow> thn (iput ip) (ret (-1))
     | None \<Rightarrow>
         bnd (empty_dirent dp 0) (\<lambda>off.
         case strncpy name DIRSIZ of
           None \<Rightarrow> fault ''strncpy''
         | Some nm \<Rightarrow>
             bnd (writei dp (KernSrc (mk_dirent (ucast inum) nm)) off 16) (\<lambda>r.
             if r \<noteq> 16 then ret (-1) else ret 0)))"

section \<open>Paths\<close>

definition slash :: uint8 where "slash = chr (CHR ''/'')"

definition at_nul :: "bytes \<Rightarrow> bool" where
  "at_nul p = (case p of [] \<Rightarrow> True | c # _ \<Rightarrow> c = 0)"

text \<open>\<^verbatim>\<open>skipelem\<close>: the rest of the path and the new content of \<open>name\<close>. A path ends at a NUL or at the end
  of the list.\<close>

definition skipelem :: "bytes \<Rightarrow> bytes \<Rightarrow> (bytes \<times> bytes) option" where
  "skipelem path name =
     (let path = dropWhile ((=) slash) path in
      if at_nul path then None
      else let el = takeWhile (\<lambda>c. c \<noteq> slash \<and> c \<noteq> 0) path;
               rest = dropWhile (\<lambda>c. c \<noteq> slash \<and> c \<noteq> 0) path;
               name = (if length el \<ge> DIRSIZ then take DIRSIZ el @ drop DIRSIZ name
                       else el @ [0] @ drop (length el + 1) name)
           in Some (dropWhile ((=) slash) rest, name))"

lemma skipelem_shorter: "skipelem path name = Some (path', name') \<Longrightarrow> length path' < length path"
proof -
  assume "skipelem path name = Some (path', name')"
  then have n: "\<not> at_nul (dropWhile ((=) slash) path)"
    and p: "path' = dropWhile ((=) slash) (dropWhile (\<lambda>c. c \<noteq> slash \<and> c \<noteq> 0) (dropWhile ((=) slash) path))"
    by (simp_all add: skipelem_def Let_def split: if_splits)
  from n obtain c q where q: "dropWhile ((=) slash) path = c # q" and c: "c \<noteq> 0"
    by (cases "dropWhile ((=) slash) path") (auto simp: at_nul_def)
  from q have "c \<noteq> slash" by (metis dropWhile_eq_Cons_conv)
  with c have "dropWhile (\<lambda>c. c \<noteq> slash \<and> c \<noteq> 0) (c # q) = dropWhile (\<lambda>c. c \<noteq> slash \<and> c \<noteq> 0) q" by simp
  then have "length path' \<le> length q"
    by (simp add: p q) (meson length_dropWhile_le le_trans)
  also have "length q < length path" using length_dropWhile_le [of "(=) slash" path] q by simp
  finally show ?thesis .
qed

function namex_loop :: "nat \<Rightarrow> bytes \<Rightarrow> bool \<Rightarrow> bytes \<Rightarrow> ('x fsS_scheme, nat option \<times> bytes) kmon" where
  "namex_loop ip path nameiparent name =
     (case skipelem path name of
        None \<Rightarrow>
          if nameiparent then thn (iput ip) (ret (None, name)) else ret (Some ip, name)
      | Some (path', name') \<Rightarrow>
          thn (ilock (Some ip))
          (bnd (get_di ip d_type) (\<lambda>ty.
          if ty \<noteq> T_DIR then thn (iunlockput ip) (ret (None, name'))
          else if nameiparent \<and> at_nul path' then thn (iunlock (Some ip)) (ret (Some ip, name'))
          else bnd (dirlookup ip name') (\<lambda>found.
            case found of
              None \<Rightarrow> thn (iunlockput ip) (ret (None, name'))
            | Some (nxt, _) \<Rightarrow> thn (iunlockput ip) (namex_loop nxt path' nameiparent name')))))"
  by pat_completeness auto
termination
  by (relation "measure (\<lambda>(ip, path, par, name). length path)") (auto dest: skipelem_shorter)

declare namex_loop.simps [simp del]

definition namex :: "bytes \<Rightarrow> bool \<Rightarrow> bytes \<Rightarrow> ('x fsS_scheme, nat option \<times> bytes) kmon" where
  "namex path nameiparent name =
     bnd (if path \<noteq> [] \<and> hd path = slash then iget ROOTDEV ROOTINO
          else bnd myproc (\<lambda>p. bnd (get_proc p p_cwd) (\<lambda>cwd.
            case cwd of None \<Rightarrow> fault ''null pointer'' | Some ip \<Rightarrow> idup ip))) (\<lambda>ip.
     namex_loop ip path nameiparent name)"

definition namei :: "bytes \<Rightarrow> ('x fsS_scheme, nat option) kmon" where
  "namei path = bnd (namex path False (replicate DIRSIZ 0)) (\<lambda>(ip, _). ret ip)"

definition nameiparent :: "bytes \<Rightarrow> bytes \<Rightarrow> ('x fsS_scheme, nat option \<times> bytes) kmon" where
  "nameiparent path name = namex path True name"

end
