(* ===== verification/File.thy ===== *)
theory File
  imports Fs
begin

text \<open>
  \<^verbatim>\<open>kernel/file.c\<close>, \<^verbatim>\<open>kernel/pipe.c\<close> and the device switch. A pointer to a \<^verbatim>\<open>struct file\<close> is its index in
  \<open>ftable\<close>; a pipe lives in a page of its own and is named by the address of that page. Uninitialised
  stack bytes that the kernel hands to user programs are the field \<open>junk\<close>.
\<close>

section \<open>State\<close>

definition PIPESIZE :: nat where "PIPESIZE = 512"
definition CONSOLE :: nat where "CONSOLE = 1"

datatype fdtype = FD_NONE | FD_PIPE | FD_INODE | FD_DEVICE

record kfile =
  f_type :: fdtype
  f_ref :: cint
  f_readable :: bool
  f_writable :: bool
  f_pipe :: uint64
  f_ip :: "nat option"
  f_off :: uint32
  f_major :: uint16

record pipe =
  pi_data :: "nat \<Rightarrow> uint8"
  pi_nread :: uint32
  pi_nwrite :: uint32
  pi_readopen :: bool
  pi_writeopen :: bool

text \<open>The entries of \<^verbatim>\<open>devsw\<close>: a null pointer, or one of the functions of the console.\<close>

datatype devfn = NullFn | ConsoleFn

record fileS = fsS +
  ftable :: "nat \<Rightarrow> kfile"
  pipes :: "uint64 \<Rightarrow> pipe"
  dev_read :: "nat \<Rightarrow> devfn"
  dev_write :: "nat \<Rightarrow> devfn"
  junk :: "nat \<Rightarrow> uint8"

definition upd_file :: "nat \<Rightarrow> (kfile \<Rightarrow> kfile) \<Rightarrow> ('x fileS_scheme, unit) kmon" where
  "upd_file f g = modify (\<lambda>s. s\<lparr>ftable := (ftable s)(f := g (ftable s f))\<rparr>)"

definition get_file :: "nat \<Rightarrow> (kfile \<Rightarrow> 'a) \<Rightarrow> ('x fileS_scheme, 'a) kmon" where
  "get_file f g = gets (\<lambda>s. g (ftable s f))"

definition upd_pipe :: "uint64 \<Rightarrow> (pipe \<Rightarrow> pipe) \<Rightarrow> ('x fileS_scheme, unit) kmon" where
  "upd_pipe pp g = modify (\<lambda>s. s\<lparr>pipes := (pipes s)(pp := g (pipes s pp))\<rparr>)"

definition get_pipe :: "uint64 \<Rightarrow> (pipe \<Rightarrow> 'a) \<Rightarrow> ('x fileS_scheme, 'a) kmon" where
  "get_pipe pp g = gets (\<lambda>s. g (pipes s pp))"

definition deref :: "'a option \<Rightarrow> ('s, 'a) kmon" where
  "deref p = (case p of None \<Rightarrow> fault ''null pointer'' | Some a \<Rightarrow> ret a)"

text \<open>\<^verbatim>\<open>consoleinit\<close>: it connects the console; \<^verbatim>\<open>uartinit\<close> programs the device.\<close>

definition consoleinit :: "('x fileS_scheme, unit) kmon" where
  "consoleinit = modify (\<lambda>s. s\<lparr>dev_read := (dev_read s)(CONSOLE := ConsoleFn),
     dev_write := (dev_write s)(CONSOLE := ConsoleFn)\<rparr>)"

section \<open>Pipes\<close>

definition pipeclose :: "uint64 \<Rightarrow> bool \<Rightarrow> ('x fileS_scheme, unit) kmon" where
  "pipeclose pp writable =
     thn (acquire (LPipe pp))
     (thn (if writable then thn (upd_pipe pp (\<lambda>q. q\<lparr>pi_writeopen := False\<rparr>)) (wakeup (ChPipeRead pp))
           else thn (upd_pipe pp (\<lambda>q. q\<lparr>pi_readopen := False\<rparr>)) (wakeup (ChPipeWrite pp)))
     (bnd (get_pipe pp (\<lambda>q. \<not> pi_readopen q \<and> \<not> pi_writeopen q)) (\<lambda>dead.
     if dead then thn (release (LPipe pp)) (kfree pp) else release (LPipe pp))))"

text \<open>
  The loop of \<^verbatim>\<open>pipewrite\<close> with the lock held, \<open>i\<close> bytes written and the rest still to write: \<^const>\<open>None\<close> when it
  returns \<open>-1\<close> from inside, with the lock released. A process that slept in it enters it again.
\<close>

definition pipe_put :: "uint8 \<Rightarrow> pipe \<Rightarrow> pipe" where
  "pipe_put ch q = q\<lparr>pi_data := (pi_data q)(unat (pi_nwrite q) mod PIPESIZE := ch), pi_nwrite := pi_nwrite q + 1\<rparr>"

fun pipewrite_loop :: "uint64 \<Rightarrow> nat \<Rightarrow> uint64 \<Rightarrow> nat \<Rightarrow> nat \<Rightarrow> ('x fileS_scheme, nat option) kmon" where
  "pipewrite_loop pp pr addr i 0 = ret (Some i)"
| "pipewrite_loop pp pr addr i (Suc k) =
     bnd (get_pipe pp pi_readopen) (\<lambda>ro.
     bnd (if ro then killed pr else ret 1) (\<lambda>stop.
     if stop \<noteq> 0 then thn (release (LPipe pp)) (ret None)
     else bnd (get_pipe pp (\<lambda>q. pi_nwrite q = pi_nread q + of_nat PIPESIZE)) (\<lambda>full.
       if full then thn (wakeup (ChPipeRead pp)) (sleep (ChPipeWrite pp) (LPipe pp))
       else bnd (get_proc pr p_pagetable) (\<lambda>pt.
         bnd (copyin pt (addr + of_nat i) 1) (\<lambda>(r, bs).
         if r = -1 then ret (Some i)
         else thn (upd_pipe pp (pipe_put (hd bs)))
           (pipewrite_loop pp pr addr (Suc i) k))))))"

definition pipewrite :: "uint64 \<Rightarrow> uint64 \<Rightarrow> cint \<Rightarrow> ('x fileS_scheme, int) kmon" where
  "pipewrite pp addr n =
     bnd myproc (\<lambda>pr.
     thn (acquire (LPipe pp))
     (bnd (pipewrite_loop pp pr addr 0 (nat (sint n))) (\<lambda>r. case r of
        None \<Rightarrow> ret (-1)
      | Some i \<Rightarrow> thn (wakeup (ChPipeRead pp)) (thn (release (LPipe pp)) (ret (int i))))))"

definition pipe_get :: "pipe \<Rightarrow> uint8 \<times> pipe" where
  "pipe_get q = (pi_data q (unat (pi_nread q) mod PIPESIZE), q\<lparr>pi_nread := pi_nread q + 1\<rparr>)"

text \<open>The copying loop of \<^verbatim>\<open>piperead\<close>; its result is \<open>i\<close> at the end.\<close>

fun piperead_loop :: "uint64 \<Rightarrow> nat \<Rightarrow> uint64 \<Rightarrow> nat \<Rightarrow> nat \<Rightarrow> ('x fileS_scheme, nat) kmon" where
  "piperead_loop pp pr addr i 0 = ret i"
| "piperead_loop pp pr addr i (Suc k) =
     bnd (get_pipe pp (\<lambda>q. pi_nread q = pi_nwrite q)) (\<lambda>empty.
     if empty then ret i
     else bnd (get_pipe pp (\<lambda>q. fst (pipe_get q))) (\<lambda>ch.
       thn (upd_pipe pp (\<lambda>q. snd (pipe_get q)))
       (bnd (get_proc pr p_pagetable) (\<lambda>pt.
       bnd (copyout pt (addr + of_nat i) [ch]) (\<lambda>r.
       if r = -1 then ret i
       else piperead_loop pp pr addr (Suc i) k)))))"

text \<open>From the test of the waiting loop on, with the lock held; a process that slept enters it here.\<close>

definition piperead_locked :: "uint64 \<Rightarrow> nat \<Rightarrow> uint64 \<Rightarrow> cint \<Rightarrow> ('x fileS_scheme, int) kmon" where
  "piperead_locked pp pr addr n =
     bnd (get_pipe pp (\<lambda>q. pi_nread q = pi_nwrite q \<and> pi_writeopen q)) (\<lambda>wait.
     if wait then
       bnd (killed pr) (\<lambda>k.
       if k \<noteq> 0 then thn (release (LPipe pp)) (ret (-1))
       else sleep (ChPipeRead pp) (LPipe pp))
     else bnd (piperead_loop pp pr addr 0 (nat (sint n))) (\<lambda>i.
       thn (wakeup (ChPipeWrite pp))
       (thn (release (LPipe pp))
       (ret (int i)))))"

definition piperead :: "uint64 \<Rightarrow> uint64 \<Rightarrow> cint \<Rightarrow> ('x fileS_scheme, int) kmon" where
  "piperead pp addr n =
     bnd myproc (\<lambda>pr. thn (acquire (LPipe pp)) (piperead_locked pp pr addr n))"

section \<open>The file table\<close>

definition filealloc :: "('x fileS_scheme, nat option) kmon" where
  "filealloc =
     thn (acquire LFtable)
     (bnd (gets (\<lambda>s. find (\<lambda>f. f_ref (ftable s f) = 0) [0..<NFILE])) (\<lambda>r. case r of
        Some f \<Rightarrow> thn (upd_file f (\<lambda>x. x\<lparr>f_ref := 1\<rparr>)) (thn (release LFtable) (ret (Some f)))
      | None \<Rightarrow> thn (release LFtable) (ret None)))"

definition filedup :: "nat \<Rightarrow> ('x fileS_scheme, nat) kmon" where
  "filedup f =
     thn (acquire LFtable)
     (bnd (get_file f f_ref) (\<lambda>r.
     thn (assert_else (\<not> sint r < 1) ''filedup'')
     (thn (upd_file f (\<lambda>x. x\<lparr>f_ref := f_ref x + 1\<rparr>))
     (thn (release LFtable) (ret f)))))"

definition fileclose :: "nat \<Rightarrow> ('x fileS_scheme, unit) kmon" where
  "fileclose f =
     thn (acquire LFtable)
     (bnd (get_file f f_ref) (\<lambda>r.
     thn (assert_else (\<not> sint r < 1) ''fileclose'')
     (thn (upd_file f (\<lambda>x. x\<lparr>f_ref := f_ref x - 1\<rparr>))
     (bnd (get_file f (\<lambda>x. x)) (\<lambda>ff.
     if sint (f_ref ff) > 0 then release LFtable
     else thn (upd_file f (\<lambda>x. x\<lparr>f_ref := 0, f_type := FD_NONE\<rparr>))
       (thn (release LFtable)
       (case f_type ff of
          FD_PIPE \<Rightarrow> pipeclose (f_pipe ff) (f_writable ff)
        | FD_NONE \<Rightarrow> ret ()
        | _ \<Rightarrow> thn begin_op (bnd (deref (f_ip ff)) (\<lambda>ip. thn (iput ip) end_op)))))))))"

text \<open>
  \<^verbatim>\<open>pipealloc\<close>: the two files, or \<^const>\<open>None\<close>. At the label \<^verbatim>\<open>bad\<close> the pipe is never allocated, so only the files
  are closed.
\<close>

definition mk_pipe_end :: "uint64 \<Rightarrow> bool \<Rightarrow> kfile \<Rightarrow> kfile" where
  "mk_pipe_end pp w x = x\<lparr>f_type := FD_PIPE, f_readable := \<not> w, f_writable := w, f_pipe := pp\<rparr>"

definition pipealloc :: "('x fileS_scheme, (nat \<times> nat) option) kmon" where
  "pipealloc =
     bnd filealloc (\<lambda>r0. case r0 of None \<Rightarrow> ret None | Some f0 \<Rightarrow>
     bnd filealloc (\<lambda>r1. case r1 of None \<Rightarrow> thn (fileclose f0) (ret None) | Some f1 \<Rightarrow>
     bnd kalloc (\<lambda>pp.
     if pp = 0 then thn (fileclose f0) (thn (fileclose f1) (ret None))
     else thn (upd_pipe pp (\<lambda>q. q\<lparr>pi_readopen := True, pi_writeopen := True, pi_nwrite := 0, pi_nread := 0\<rparr>))
       (thn (upd_file f0 (mk_pipe_end pp False))
       (thn (upd_file f1 (mk_pipe_end pp True))
       (ret (Some (f0, f1))))))))"

section \<open>Reading, writing and status\<close>

definition le_bytes :: "nat \<Rightarrow> 'a::len word \<Rightarrow> bytes" where
  "le_bytes n v = map (\<lambda>i. ucast (drop_bit (8 * i) v)) [0..<n]"

text \<open>The 24 bytes of \<^verbatim>\<open>struct stat\<close>; the four bytes before \<open>size\<close> are padding.\<close>

definition stat_bytes :: "bytes \<Rightarrow> stat \<Rightarrow> bytes" where
  "stat_bytes pad st = le_bytes 4 (st_dev st) @ le_bytes 4 (st_ino st) @ le_bytes 2 (st_type st)
     @ le_bytes 2 (st_nlink st) @ pad @ le_bytes 8 (st_size st)"

definition filestat :: "nat \<Rightarrow> uint64 \<Rightarrow> ('x fileS_scheme, int) kmon" where
  "filestat f addr =
     bnd myproc (\<lambda>p.
     bnd (get_file f (\<lambda>x. x)) (\<lambda>x.
     if f_type x = FD_INODE \<or> f_type x = FD_DEVICE then
       thn (ilock (f_ip x))
       (bnd (deref (f_ip x)) (\<lambda>ip.
       bnd (stati ip) (\<lambda>st.
       thn (iunlock (f_ip x))
       (bnd (get_proc p p_pagetable) (\<lambda>pt.
       bnd (gets (\<lambda>s. map (junk s) [12..<16])) (\<lambda>pad.
       bnd (copyout pt addr (stat_bytes pad st)) (\<lambda>r.
       if r < 0 then ret (-1) else ret 0)))))))
     else ret (-1)))"

definition dev_ok :: "uint16 \<Rightarrow> bool" where
  "dev_ok m \<longleftrightarrow> \<not> (sint m < 0 \<or> sint m \<ge> int NDEV)"

definition fileread :: "nat \<Rightarrow> uint64 \<Rightarrow> cint \<Rightarrow> ('x fileS_scheme, int) kmon" where
  "fileread f addr n =
     bnd (get_file f (\<lambda>x. x)) (\<lambda>x.
     if \<not> f_readable x then ret (-1)
     else case f_type x of
       FD_PIPE \<Rightarrow> piperead (f_pipe x) addr n
     | FD_DEVICE \<Rightarrow>
         bnd (gets (\<lambda>s. dev_read s (unat (f_major x)))) (\<lambda>d.
         if \<not> dev_ok (f_major x) \<or> d = NullFn then ret (-1)
         else bnd (consoleread (Some addr) n) (\<lambda>(r, _). ret r))
     | FD_INODE \<Rightarrow>
         thn (ilock (f_ip x))
         (bnd (deref (f_ip x)) (\<lambda>ip.
         bnd (readi ip (Some addr) (f_off x) n) (\<lambda>(r, _).
         thn (whenM (sint r > 0) (upd_file f (\<lambda>x. x\<lparr>f_off := f_off x + r\<rparr>)))
         (thn (iunlock (f_ip x))
         (ret (sint r))))))
     | FD_NONE \<Rightarrow> panic ''fileread'')"

text \<open>The bytes one transaction of \<^verbatim>\<open>filewrite\<close> may write, and its loop with \<open>i\<close> of \<open>n\<close> bytes written.\<close>

definition maxwrite :: nat where "maxwrite = ((MAXOPBLOCKS - 1 - 1 - 2) div 2) * BSIZE"

function filewrite_loop :: "nat \<Rightarrow> uint64 \<Rightarrow> nat \<Rightarrow> nat \<Rightarrow> ('x fileS_scheme, nat) kmon" where
  "filewrite_loop f addr i n =
     (if i < n then
        let n1 = min (n - i) maxwrite in
        thn begin_op
        (bnd (get_file f f_ip) (\<lambda>ip0.
        thn (ilock ip0)
        (bnd (deref ip0) (\<lambda>ip.
        bnd (get_file f f_off) (\<lambda>off.
        bnd (writei ip (UserSrc (addr + of_nat i)) off (of_nat n1)) (\<lambda>r.
        thn (whenM (sint r > 0) (upd_file f (\<lambda>x. x\<lparr>f_off := f_off x + r\<rparr>)))
        (thn (iunlock ip0)
        (thn end_op
        (if sint r \<noteq> int n1 then ret i
         else filewrite_loop f addr (i + n1) n)))))))))
      else ret i)"
  by pat_completeness auto
termination
  by (relation "measure (\<lambda>(f, addr, i, n). n - i)") (auto simp: maxwrite_def params)

declare filewrite_loop.simps [simp del]

definition filewrite :: "nat \<Rightarrow> uint64 \<Rightarrow> cint \<Rightarrow> ('x fileS_scheme, int) kmon" where
  "filewrite f addr n =
     bnd (get_file f (\<lambda>x. x)) (\<lambda>x.
     if \<not> f_writable x then ret (-1)
     else case f_type x of
       FD_PIPE \<Rightarrow> pipewrite (f_pipe x) addr n
     | FD_DEVICE \<Rightarrow>
         bnd (gets (\<lambda>s. dev_write s (unat (f_major x)))) (\<lambda>d.
         if \<not> dev_ok (f_major x) \<or> d = NullFn then ret (-1)
         else consolewrite (UserSrc addr) n)
     | FD_INODE \<Rightarrow>
         bnd (filewrite_loop f addr 0 (nat (sint n))) (\<lambda>i.
         ret (if int i = sint n then sint n else -1))
     | FD_NONE \<Rightarrow> panic ''filewrite'')"

end
