(* ===== verification/ProcLife.thy ===== *)
theory ProcLife
  imports File
begin

text \<open>
  The part of \<^verbatim>\<open>kernel/proc.c\<close> that creates and ends processes and therefore needs files and inodes:
  \<^verbatim>\<open>userinit\<close>, \<^verbatim>\<open>fork\<close>, \<^verbatim>\<open>reparent\<close>, \<^verbatim>\<open>exit\<close>, \<^verbatim>\<open>wait\<close> and \<^verbatim>\<open>waitx\<close>.
\<close>

section \<open>The first process\<close>

definition initcode :: bytes where
  "initcode =
    [0x17, 0x05, 0x00, 0x00, 0x13, 0x05, 0x45, 0x02,
     0x97, 0x05, 0x00, 0x00, 0x93, 0x85, 0x35, 0x02,
     0x93, 0x08, 0x70, 0x00, 0x73, 0x00, 0x00, 0x00,
     0x93, 0x08, 0x20, 0x00, 0x73, 0x00, 0x00, 0x00,
     0xef, 0xf0, 0x9f, 0xff, 0x2f, 0x69, 0x6e, 0x69,
     0x74, 0x00, 0x00, 0x24, 0x00, 0x00, 0x00, 0x00,
     0x00, 0x00, 0x00, 0x00]"

text \<open>\<^verbatim>\<open>p->trapframe->r = v\<close> and the read of it.\<close>

definition tf_set :: "nat \<Rightarrow> tfreg \<Rightarrow> uint64 \<Rightarrow> ('x kern_scheme, unit) kmon" where
  "tf_set p r v = bnd (get_proc p p_trapframe) (\<lambda>tf. store64 (tf + tf_off r) v)"

definition tf_get :: "nat \<Rightarrow> tfreg \<Rightarrow> ('x kern_scheme, uint64) kmon" where
  "tf_get p r = bnd (get_proc p p_trapframe) (\<lambda>tf. load64 (tf + tf_off r))"

text \<open>\<^verbatim>\<open>safestrcpy(p->name, t, sizeof(p->name))\<close>.\<close>

definition set_name :: "nat \<Rightarrow> bytes \<Rightarrow> ('x kern_scheme, unit) kmon" where
  "set_name p t = bnd (get_proc p p_name) (\<lambda>nm. case safestrcpy nm t 16 of
     None \<Rightarrow> fault ''safestrcpy'' | Some nm' \<Rightarrow> upd_proc p (\<lambda>q. q\<lparr>p_name := nm'\<rparr>))"

definition userinit :: "('x fileS_scheme, unit) kmon" where
  "userinit =
     bnd allocproc (\<lambda>p0.
     thn (modify (\<lambda>s. s\<lparr>initproc := p0\<rparr>))
     (bnd (deref p0) (\<lambda>p.
     bnd (get_proc p p_pagetable) (\<lambda>pt.
     thn (uvmfirst pt initcode)
     (thn (upd_proc p (\<lambda>q. q\<lparr>p_sz := PGSIZE\<rparr>))
     (thn (tf_set p Epc 0)
     (thn (tf_set p TfSp PGSIZE)
     (thn (set_name p (cbytes ''initcode'' @ [0]))
     (bnd (namei [slash, 0]) (\<lambda>ip.
     thn (upd_proc p (\<lambda>q. q\<lparr>p_cwd := ip\<rparr>))
     (thn (upd_proc p (\<lambda>q. q\<lparr>p_state := RUNNABLE\<rparr>))
     (release (LProc p)))))))))))))"

section \<open>fork\<close>

text \<open>The loop that duplicates the open files.\<close>

definition dup_files :: "nat \<Rightarrow> nat \<Rightarrow> ('x fileS_scheme, unit) kmon" where
  "dup_files p np = for_each [0..<NOFILE] (\<lambda>i.
     bnd (get_proc p (\<lambda>q. p_ofile q i)) (\<lambda>f0. case f0 of
       None \<Rightarrow> ret ()
     | Some f \<Rightarrow> bnd (filedup f) (\<lambda>f'. upd_proc np (\<lambda>q. q\<lparr>p_ofile := (p_ofile q)(i := Some f')\<rparr>))))"

text \<open>What \<^verbatim>\<open>fork\<close> does once memory has been shared.\<close>

definition fork_finish :: "nat \<Rightarrow> nat \<Rightarrow> ('x fileS_scheme, int) kmon" where
  "fork_finish p np =
     bnd (get_proc p (\<lambda>q. q)) (\<lambda>q.
     thn (upd_proc np (\<lambda>n. n\<lparr>p_sz := p_sz q\<rparr>))
     (bnd (get_proc np p_trapframe) (\<lambda>ntf.
     thn (set_mem (\<lambda>m. st_bytes m ntf (ld_bytes m (p_trapframe q) (unat sizeof_trapframe))))
     (thn (tf_set np TfA0 0)
     (thn (dup_files p np)
     (bnd (deref (p_cwd q)) (\<lambda>cwd.
     bnd (idup cwd) (\<lambda>ip.
     thn (upd_proc np (\<lambda>n. n\<lparr>p_cwd := Some ip\<rparr>))
     (thn (set_name np (p_name q))
     (bnd (get_proc np p_pid) (\<lambda>pid.
     thn (release (LProc np))
     (thn (acquire LWait)
     (thn (upd_proc np (\<lambda>n. n\<lparr>p_parent := Some p\<rparr>))
     (thn (release LWait)
     (thn (acquire (LProc np))
     (thn (upd_proc np (\<lambda>n. n\<lparr>p_state := RUNNABLE\<rparr>))
     (thn (release (LProc np))
     (ret (sint pid)))))))))))))))))))"

definition fork :: "('x fileS_scheme, int) kmon" where
  "fork =
     bnd myproc (\<lambda>p.
     bnd allocproc (\<lambda>np0. case np0 of None \<Rightarrow> ret (-1) | Some np \<Rightarrow>
     bnd (get_proc p p_pagetable) (\<lambda>opt.
     bnd (get_proc np p_pagetable) (\<lambda>npt.
     bnd (get_proc p p_sz) (\<lambda>sz.
     bnd (uvmcopy opt npt sz) (\<lambda>r.
     if r < 0 then thn (freeproc np) (thn (release (LProc np)) (ret (-1)))
     else fork_finish p np))))))"

section \<open>exit\<close>

definition chan_proc :: "nat option \<Rightarrow> chan" where
  "chan_proc p = (case p of None \<Rightarrow> NoChan | Some i \<Rightarrow> ChProc i)"

definition reparent :: "nat \<Rightarrow> ('x kern_scheme, unit) kmon" where
  "reparent p = for_each all_procs (\<lambda>pp.
     bnd (get_proc pp p_parent) (\<lambda>par.
     whenM (par = Some p)
       (bnd (gets initproc) (\<lambda>ip.
        thn (upd_proc pp (\<lambda>q. q\<lparr>p_parent := ip\<rparr>))
        (wakeup (chan_proc ip))))))"

definition close_files :: "nat \<Rightarrow> ('x fileS_scheme, unit) kmon" where
  "close_files p = for_each [0..<NOFILE] (\<lambda>fd.
     bnd (get_proc p (\<lambda>q. p_ofile q fd)) (\<lambda>f0. case f0 of
       None \<Rightarrow> ret ()
     | Some f \<Rightarrow> thn (fileclose f) (upd_proc p (\<lambda>q. q\<lparr>p_ofile := (p_ofile q)(fd := None)\<rparr>))))"

text \<open>From the acquisition of \<^verbatim>\<open>wait_lock\<close> on.\<close>

definition exit_zombie :: "nat \<Rightarrow> cint \<Rightarrow> ('x kern_scheme, 'a) kmon" where
  "exit_zombie p status =
     thn (acquire LWait)
     (thn (reparent p)
     (bnd (get_proc p p_parent) (\<lambda>par.
     thn (wakeup (chan_proc par))
     (thn (acquire (LProc p))
     (bnd (gets ticks) (\<lambda>tk.
     thn (upd_proc p (\<lambda>q. q\<lparr>p_xstate := status, p_state := ZOMBIE, p_etime := tk\<rparr>))
     (thn (release LWait)
     (thn sched
     (panic ''zombie exit'')))))))))"

definition exit :: "cint \<Rightarrow> ('x fileS_scheme, 'a) kmon" where
  "exit status =
     bnd myproc (\<lambda>p.
     bnd (gets initproc) (\<lambda>ip.
     if Some p = ip then panic ''init exiting''
     else thn (close_files p)
       (thn begin_op
       (bnd (get_proc p p_cwd) (\<lambda>cwd0.
       bnd (deref cwd0) (\<lambda>cwd.
       thn (iput cwd)
       (thn end_op
       (thn (upd_proc p (\<lambda>q. q\<lparr>p_cwd := None\<rparr>))
       (exit_zombie p status)))))))))"

section \<open>wait and waitx\<close>

text \<open>
  The scan of \<^verbatim>\<open>wait\<close>: \<^const>\<open>Inl\<close> the value it returns from inside the loop, else whether there are
  children. \<^verbatim>\<open>waitx\<close> has the same scan and also delivers the times of the child it found.
\<close>

definition child_times :: "proc \<Rightarrow> uint32 \<times> uint32" where
  "child_times q = (p_etime q - p_ctime q - p_rtime q, p_rtime q)"

fun wait_scan :: "nat \<Rightarrow> uint64 \<Rightarrow> nat list \<Rightarrow> bool
    \<Rightarrow> ('x kern_scheme, int \<times> (uint32 \<times> uint32) + bool) kmon" where
  "wait_scan p addr [] havekids = ret (Inr havekids)"
| "wait_scan p addr (pp # pps) havekids =
     bnd (get_proc pp p_parent) (\<lambda>par.
     if par = Some p then
       thn (acquire (LProc pp))
       (bnd (get_proc pp (\<lambda>q. q)) (\<lambda>q.
       if p_state q = ZOMBIE then
         bnd (if addr \<noteq> 0 then bnd (get_proc p p_pagetable) (\<lambda>pt. copyout pt addr (le_bytes 4 (p_xstate q)))
              else ret 0) (\<lambda>r.
         if r < 0 then thn (release (LProc pp)) (thn (release LWait) (ret (Inl (-1, child_times q))))
         else thn (freeproc pp)
           (thn (release (LProc pp))
           (thn (release LWait)
           (ret (Inl (sint (p_pid q), child_times q))))))
       else thn (release (LProc pp)) (wait_scan p addr pps True)))
     else wait_scan p addr pps havekids)"

text \<open>One round of the endless loop with \<^verbatim>\<open>wait_lock\<close> held; a process that slept in it enters it again.\<close>

definition wait_loop :: "nat \<Rightarrow> uint64 \<Rightarrow> ('x kern_scheme, int) kmon" where
  "wait_loop p addr =
     bnd (wait_scan p addr all_procs False) (\<lambda>r. case r of
       Inl (v, _) \<Rightarrow> ret v
     | Inr havekids \<Rightarrow>
         bnd (if havekids then killed p else ret 1) (\<lambda>stop.
         if stop \<noteq> 0 then thn (release LWait) (ret (-1))
         else sleep (ChProc p) LWait))"

definition wait :: "uint64 \<Rightarrow> ('x kern_scheme, int) kmon" where
  "wait addr = bnd myproc (\<lambda>p. thn (acquire LWait) (wait_loop p addr))"

text \<open>\<^verbatim>\<open>waitx\<close>: the value returned, and what it stored through \<open>wtime\<close> and \<open>rtime\<close>, if anything.\<close>

definition waitx_loop :: "nat \<Rightarrow> uint64 \<Rightarrow> ('x kern_scheme, int \<times> (uint32 \<times> uint32) option) kmon" where
  "waitx_loop p addr =
     bnd (wait_scan p addr all_procs False) (\<lambda>r. case r of
       Inl (v, t) \<Rightarrow> ret (v, Some t)
     | Inr havekids \<Rightarrow>
         bnd (get_proc p p_killed) (\<lambda>k.
         if \<not> havekids \<or> k \<noteq> 0 then thn (release LWait) (ret (-1, None))
         else sleep (ChProc p) LWait))"

definition waitx :: "uint64 \<Rightarrow> ('x kern_scheme, int \<times> (uint32 \<times> uint32) option) kmon" where
  "waitx addr = bnd myproc (\<lambda>p. thn (acquire LWait) (waitx_loop p addr))"

end
