(* ===== verification/Exec.thy ===== *)
theory Exec
  imports ProcLife
begin

text \<open>
  \<^verbatim>\<open>kernel/exec.c\<close>. The argument strings are in pages of the kernel: \<open>argv\<close> is the list of their addresses, and
  the null pointer that ends the array is the end of the list.
\<close>

section \<open>ELF headers (elf.h)\<close>

definition ELF_MAGIC :: uint32 where "ELF_MAGIC = 0x464C457F"
definition ELF_PROG_LOAD :: uint32 where "ELF_PROG_LOAD = 1"

definition get64 :: "bytes \<Rightarrow> nat \<Rightarrow> uint64" where
  "get64 d b = ucast (get32 d b) OR push_bit 32 (ucast (get32 d (b + 4)))"

record elfhdr =
  e_magic :: uint32
  e_entry :: uint64
  e_phoff :: uint64
  e_phnum :: uint16

definition sizeof_elfhdr :: uint32 where "sizeof_elfhdr = 64"

definition get_elfhdr :: "bytes \<Rightarrow> elfhdr" where
  "get_elfhdr d = \<lparr>e_magic = get32 d 0, e_entry = get64 d 24, e_phoff = get64 d 32, e_phnum = get16 d 56\<rparr>"

record proghdr =
  ph_type :: uint32
  ph_flags :: uint32
  ph_off :: uint64
  ph_vaddr :: uint64
  ph_filesz :: uint64
  ph_memsz :: uint64

definition sizeof_proghdr :: uint32 where "sizeof_proghdr = 56"

definition get_proghdr :: "bytes \<Rightarrow> proghdr" where
  "get_proghdr d = \<lparr>ph_type = get32 d 0, ph_flags = get32 d 4, ph_off = get64 d 8, ph_vaddr = get64 d 16,
     ph_filesz = get64 d 32, ph_memsz = get64 d 40\<rparr>"

definition flags2perm :: "cint \<Rightarrow> cint" where
  "flags2perm flags =
     (let perm = (if flags AND 1 \<noteq> 0 then ucast PTE_X else 0)
      in if flags AND 2 \<noteq> 0 then perm OR ucast PTE_W else perm)"

section \<open>Loading\<close>

text \<open>
  The loop of \<^verbatim>\<open>loadseg\<close>. Its variable is a \<^verbatim>\<open>uint\<close> and wraps around for a segment of more than
  \<open>2 ^ 32 - 4096\<close> bytes.
\<close>

function loadseg_loop :: "pagetable_t \<Rightarrow> uint64 \<Rightarrow> nat \<Rightarrow> uint32 \<Rightarrow> nat \<Rightarrow> uint32 \<Rightarrow> ('x fileS_scheme, int) kmon" where
  "loadseg_loop pt va ip offset i sz =
     (if i < unat sz then
        bnd (walkaddr pt (va + of_nat i)) (\<lambda>pa.
        if pa = 0 then panic ''loadseg: address should exist''
        else let n = min (unat sz - i) 4096 in
          bnd (readi ip None (offset + of_nat i) (of_nat n)) (\<lambda>(r, bs).
          thn (set_mem (\<lambda>m. st_bytes m pa bs))
          (if r \<noteq> of_nat n then ret (-1)
           else if i + 4096 \<ge> 2 ^ 32 then fault ''loadseg: wrap-around''
           else loadseg_loop pt va ip offset (i + 4096) sz)))
      else ret 0)"
  by pat_completeness auto
termination
  by (relation "measure (\<lambda>(pt, va, ip, offset, i, sz). unat sz - i)") auto

declare loadseg_loop.simps [simp del]

definition loadseg :: "pagetable_t \<Rightarrow> uint64 \<Rightarrow> nat \<Rightarrow> uint32 \<Rightarrow> uint32 \<Rightarrow> ('x fileS_scheme, int) kmon" where
  "loadseg pt va ip offset sz = loadseg_loop pt va ip offset 0 sz"

text \<open>The loop over the program headers: whether it ended without \<^verbatim>\<open>goto bad\<close>, and \<open>sz\<close> then.\<close>

fun load_phdrs :: "nat \<Rightarrow> pagetable_t \<Rightarrow> nat \<Rightarrow> cint \<Rightarrow> uint64 \<Rightarrow> ('x fileS_scheme, bool \<times> uint64) kmon" where
  "load_phdrs ip pt 0 off sz = ret (True, sz)"
| "load_phdrs ip pt (Suc k) off sz =
     bnd (readi ip None off sizeof_proghdr) (\<lambda>(r, d).
     if r \<noteq> sizeof_proghdr then ret (False, sz)
     else let ph = get_proghdr d in
       if ph_type ph \<noteq> ELF_PROG_LOAD then load_phdrs ip pt k (off + sizeof_proghdr) sz
       else if ph_memsz ph < ph_filesz ph then ret (False, sz)
       else if ph_vaddr ph + ph_memsz ph < ph_vaddr ph then ret (False, sz)
       else if ph_vaddr ph mod PGSIZE \<noteq> 0 then ret (False, sz)
       else bnd (uvmalloc pt sz (ph_vaddr ph + ph_memsz ph) (flags2perm (ph_flags ph))) (\<lambda>sz1.
         if sz1 = 0 then ret (False, sz)
         else bnd (loadseg pt (ph_vaddr ph) ip (ucast (ph_off ph)) (ucast (ph_filesz ph))) (\<lambda>r.
           if r < 0 then ret (False, sz1)
           else load_phdrs ip pt k (off + sizeof_proghdr) sz1)))"

section \<open>The arguments\<close>

text \<open>The string at a kernel address, within a page.\<close>

definition str_at :: "memory \<Rightarrow> uint64 \<Rightarrow> bytes option" where
  "str_at m a = map_option (\<lambda>n. ld_bytes m a n) (strlen (ld_bytes m a 4096))"

fun push_args :: "pagetable_t \<Rightarrow> uint64 \<Rightarrow> uint64 list \<Rightarrow> uint64 list \<Rightarrow> uint64
    \<Rightarrow> ('x fileS_scheme, (uint64 list \<times> uint64) option) kmon" where
  "push_args pt stackbase [] ustack sp = ret (Some (ustack, sp))"
| "push_args pt stackbase (a # argv) ustack sp =
     (if length ustack \<ge> MAXARG then ret None
      else bnd (gets (\<lambda>s. str_at (mem s) a)) (\<lambda>str0. case str0 of None \<Rightarrow> fault ''strlen'' | Some str \<Rightarrow>
        let sp = sp - (of_nat (length str) + 1); sp = sp - sp mod 16 in
        if sp < stackbase then ret None
        else bnd (copyout pt sp (str @ [0])) (\<lambda>r.
          if r < 0 then ret None
          else push_args pt stackbase argv (ustack @ [sp]) sp)))"

text \<open>\<^verbatim>\<open>last\<close>: what follows the last slash of the path.\<close>

definition last_elem :: "bytes \<Rightarrow> bytes" where
  "last_elem path = rev (takeWhile ((\<noteq>) slash) (rev (takeWhile ((\<noteq>) 0) path))) @ dropWhile ((\<noteq>) 0) path"

section \<open>exec\<close>

definition exec_bad :: "pagetable_t \<Rightarrow> uint64 \<Rightarrow> nat option \<Rightarrow> ('x fileS_scheme, int) kmon" where
  "exec_bad pt sz ip0 =
     thn (whenM (pt \<noteq> 0) (proc_freepagetable pt sz))
     (case ip0 of None \<Rightarrow> ret (-1) | Some ip \<Rightarrow> thn (iunlockput ip) (thn end_op (ret (-1))))"

text \<open>From the array of argument pointers on.\<close>

definition exec_commit :: "nat \<Rightarrow> bytes \<Rightarrow> elfhdr \<Rightarrow> pagetable_t \<Rightarrow> uint64 \<Rightarrow> uint64 \<Rightarrow> uint64 \<Rightarrow> uint64 list \<Rightarrow> uint64
    \<Rightarrow> ('x fileS_scheme, int) kmon" where
  "exec_commit p path elf pt sz oldsz stackbase ustack sp =
     (let argc = length ustack; sp = sp - (of_nat argc + 1) * 8; sp = sp - sp mod 16 in
      if argc \<ge> MAXARG then fault ''ustack: index''
      else if sp < stackbase then exec_bad pt sz None
      else bnd (copyout pt sp (concat (map (le_bytes 8) (ustack @ [0])))) (\<lambda>r.
        if r < 0 then exec_bad pt sz None
        else thn (tf_set p TfA1 sp)
          (thn (set_name p (last_elem path))
          (bnd (get_proc p p_pagetable) (\<lambda>oldpt.
          thn (upd_proc p (\<lambda>q. q\<lparr>p_pagetable := pt, p_sz := sz\<rparr>))
          (thn (tf_set p Epc (e_entry elf))
          (thn (tf_set p TfSp sp)
          (thn (proc_freepagetable oldpt oldsz)
          (ret (int argc))))))))))"

definition exec_stack :: "nat \<Rightarrow> bytes \<Rightarrow> uint64 list \<Rightarrow> elfhdr \<Rightarrow> pagetable_t \<Rightarrow> uint64 \<Rightarrow> ('x fileS_scheme, int) kmon" where
  "exec_stack p path argv elf pt sz =
     bnd (get_proc p p_sz) (\<lambda>oldsz.
     let sz = PGROUNDUP sz in
     bnd (uvmalloc pt sz (sz + 2 * PGSIZE) (ucast PTE_W)) (\<lambda>sz1.
     if sz1 = 0 then exec_bad pt sz None
     else thn (uvmclear pt (sz1 - 2 * PGSIZE))
       (bnd (push_args pt (sz1 - PGSIZE) argv [] sz1) (\<lambda>r. case r of
          None \<Rightarrow> exec_bad pt sz1 None
        | Some (ustack, sp) \<Rightarrow> exec_commit p path elf pt sz1 oldsz (sz1 - PGSIZE) ustack sp))))"

definition exec :: "bytes \<Rightarrow> uint64 list \<Rightarrow> ('x fileS_scheme, int) kmon" where
  "exec path argv =
     bnd myproc (\<lambda>p.
     thn begin_op
     (bnd (namei path) (\<lambda>ip0. case ip0 of None \<Rightarrow> thn end_op (ret (-1)) | Some ip \<Rightarrow>
     thn (ilock (Some ip))
     (bnd (readi ip None 0 sizeof_elfhdr) (\<lambda>(r, d).
     let elf = get_elfhdr d in
     if r \<noteq> sizeof_elfhdr then exec_bad 0 0 (Some ip)
     else if e_magic elf \<noteq> ELF_MAGIC then exec_bad 0 0 (Some ip)
     else bnd (proc_pagetable p) (\<lambda>pt.
       if pt = 0 then exec_bad 0 0 (Some ip)
       else bnd (load_phdrs ip pt (unat (e_phnum elf)) (ucast (e_phoff elf)) 0) (\<lambda>(good, sz).
         if \<not> good then exec_bad pt sz (Some ip)
         else thn (iunlockput ip)
           (thn end_op
           (exec_stack p path argv elf pt sz)))))))))"

end
