(* ===== verification/Sysfile.thy ===== *)
theory Sysfile
  imports Exec
begin

text \<open>
  The argument fetching of \<^verbatim>\<open>kernel/syscall.c\<close> and the file-system calls of \<^verbatim>\<open>kernel/sysfile.c\<close>, with
  \<^verbatim>\<open>getreadcount\<close> and \<^verbatim>\<open>set_priority\<close>. A call returns the 64-bit value it leaves in \<open>a0\<close>.
\<close>

record sysS = fileS +
  readCount :: cint

section \<open>Fetching arguments\<close>

text \<open>\<^verbatim>\<open>fetchaddr\<close>: the result and the word it stored.\<close>

definition word_of :: "bytes \<Rightarrow> uint64" where
  "word_of bs = foldr (\<lambda>b acc. ucast b OR push_bit 8 acc) bs 0"

definition fetchaddr :: "uint64 \<Rightarrow> ('x kern_scheme, int \<times> uint64) kmon" where
  "fetchaddr addr =
     bnd myproc (\<lambda>p.
     bnd (get_proc p p_sz) (\<lambda>sz.
     if addr \<ge> sz \<or> addr + 8 > sz then ret (-1, 0)
     else bnd (get_proc p p_pagetable) (\<lambda>pt.
       bnd (copyin pt addr 8) (\<lambda>(r, bs).
       if r \<noteq> 0 then ret (-1, 0) else ret (0, word_of bs)))))"

text \<open>\<^verbatim>\<open>fetchstr\<close>: the result and the bytes it stored in the buffer.\<close>

definition fetchstr :: "uint64 \<Rightarrow> cint \<Rightarrow> ('x kern_scheme, int \<times> bytes) kmon" where
  "fetchstr addr mx =
     bnd myproc (\<lambda>p.
     bnd (get_proc p p_pagetable) (\<lambda>pt.
     bnd (copyinstr pt addr (scast mx)) (\<lambda>(r, bs).
     if r < 0 then ret (-1, bs)
     else case strlen bs of None \<Rightarrow> fault ''strlen'' | Some n \<Rightarrow> ret (int n, bs))))"

definition argraw :: "nat \<Rightarrow> ('x kern_scheme, uint64) kmon" where
  "argraw n =
     bnd myproc (\<lambda>p.
     if n = 0 then tf_get p TfA0
     else if n = 1 then tf_get p TfA1
     else if n = 2 then tf_get p TfA2
     else if n = 3 then tf_get p TfA3
     else if n = 4 then tf_get p TfA4
     else if n = 5 then tf_get p TfA5
     else panic ''argraw'')"

definition argint :: "nat \<Rightarrow> ('x kern_scheme, cint) kmon" where
  "argint n = bnd (argraw n) (\<lambda>v. ret (ucast v))"

definition argaddr :: "nat \<Rightarrow> ('x kern_scheme, uint64) kmon" where
  "argaddr n = argraw n"

definition argstr :: "nat \<Rightarrow> cint \<Rightarrow> ('x kern_scheme, int \<times> bytes) kmon" where
  "argstr n mx = bnd (argaddr n) (\<lambda>addr. fetchstr addr mx)"

definition argfd :: "nat \<Rightarrow> ('x fileS_scheme, (nat \<times> nat) option) kmon" where
  "argfd n =
     bnd (argint n) (\<lambda>fd.
     if sint fd < 0 \<or> sint fd \<ge> int NOFILE then ret None
     else bnd myproc (\<lambda>p.
       bnd (get_proc p (\<lambda>q. p_ofile q (unat fd))) (\<lambda>f0. case f0 of
         None \<Rightarrow> ret None
       | Some f \<Rightarrow> ret (Some (unat fd, f)))))"

definition fdalloc :: "nat \<Rightarrow> ('x fileS_scheme, nat option) kmon" where
  "fdalloc f =
     bnd myproc (\<lambda>p.
     bnd (get_proc p (\<lambda>q. find (\<lambda>fd. p_ofile q fd = None) [0..<NOFILE])) (\<lambda>r. case r of
       None \<Rightarrow> ret None
     | Some fd \<Rightarrow> thn (upd_proc p (\<lambda>q. q\<lparr>p_ofile := (p_ofile q)(fd := Some f)\<rparr>)) (ret (Some fd))))"

definition clear_fd :: "nat \<Rightarrow> nat \<Rightarrow> ('x kern_scheme, unit) kmon" where
  "clear_fd p fd = upd_proc p (\<lambda>q. q\<lparr>p_ofile := (p_ofile q)(fd := None)\<rparr>)"

section \<open>Descriptors\<close>

definition sys_dup :: "('x fileS_scheme, uint64) kmon" where
  "sys_dup =
     bnd (argfd 0) (\<lambda>a. case a of None \<Rightarrow> ret (-1) | Some (_, f) \<Rightarrow>
     bnd (fdalloc f) (\<lambda>r. case r of None \<Rightarrow> ret (-1) | Some fd \<Rightarrow>
     bnd (filedup f) (\<lambda>_. ret (of_nat fd))))"

definition sys_getreadcount :: "('x sysS_scheme, uint64) kmon" where
  "sys_getreadcount = gets (\<lambda>s. scast (readCount s))"

definition sys_read :: "('x sysS_scheme, uint64) kmon" where
  "sys_read =
     thn (modify (\<lambda>s. s\<lparr>readCount := readCount s + 1\<rparr>))
     (bnd (argaddr 1) (\<lambda>p.
     bnd (argint 2) (\<lambda>n.
     bnd (argfd 0) (\<lambda>a. case a of None \<Rightarrow> ret (-1) | Some (_, f) \<Rightarrow>
     bnd (fileread f p n) (\<lambda>r. ret (of_int r))))))"

definition sys_write :: "('x fileS_scheme, uint64) kmon" where
  "sys_write =
     bnd (argaddr 1) (\<lambda>p.
     bnd (argint 2) (\<lambda>n.
     bnd (argfd 0) (\<lambda>a. case a of None \<Rightarrow> ret (-1) | Some (_, f) \<Rightarrow>
     bnd (filewrite f p n) (\<lambda>r. ret (of_int r)))))"

definition sys_close :: "('x fileS_scheme, uint64) kmon" where
  "sys_close =
     bnd (argfd 0) (\<lambda>a. case a of None \<Rightarrow> ret (-1) | Some (fd, f) \<Rightarrow>
     bnd myproc (\<lambda>p.
     thn (clear_fd p fd)
     (thn (fileclose f) (ret 0))))"

definition sys_fstat :: "('x fileS_scheme, uint64) kmon" where
  "sys_fstat =
     bnd (argaddr 1) (\<lambda>st.
     bnd (argfd 0) (\<lambda>a. case a of None \<Rightarrow> ret (-1) | Some (_, f) \<Rightarrow>
     bnd (filestat f st) (\<lambda>r. ret (of_int r))))"

section \<open>Priorities\<close>

text \<open>\<^verbatim>\<open>new_priority + 25 > 100 ? 100 : new_priority + 25\<close> on 64 bits, then stored in an \<^verbatim>\<open>int\<close>.\<close>

definition new_dp_of :: "uint64 \<Rightarrow> cint" where
  "new_dp_of np = (if np + 25 > 100 then 100 else ucast (np + 25))"

text \<open>The loop: \<open>Inl\<close> when it has to yield from inside, else the old priority and the old \<open>dp\<close>.\<close>

fun set_priority_loop :: "cint \<Rightarrow> uint64 \<Rightarrow> nat list \<Rightarrow> ('x kern_scheme, cint + cint \<times> cint) kmon" where
  "set_priority_loop pid np [] = ret (Inr (50, 0))"
| "set_priority_loop pid np (p # ps) =
     thn (acquire (LProc p))
     (bnd (get_proc p (\<lambda>q. q)) (\<lambda>q.
     if p_pid q = pid then
       thn (upd_proc p (\<lambda>q. q\<lparr>p_sp := ucast np, p_rbi := 25\<rparr>))
       (thn (release (LProc p))
       (if sint (new_dp_of np) > sint (p_dp q) then ret (Inl (p_sp q))
        else ret (Inr (p_sp q, p_dp q))))
     else thn (release (LProc p)) (set_priority_loop pid np ps)))"

text \<open>The value returned after a yield is what \<^verbatim>\<open>old_priority\<close> was before it; see \<open>sys_set_priority_resume\<close>.\<close>

definition set_priority_decide :: "('x kern_scheme, cint \<times> bool) kmon" where
  "set_priority_decide =
     bnd (argint 0) (\<lambda>pid.
     bnd (argaddr 1) (\<lambda>np.
     bnd (set_priority_loop pid np all_procs) (\<lambda>r. case r of
       Inl old \<Rightarrow> ret (old, True)
     | Inr (old, old_dp) \<Rightarrow> ret (old, sint (new_dp_of np) > sint old_dp))))"

definition sys_set_priority :: "('x kern_scheme, uint64) kmon" where
  "sys_set_priority =
     bnd set_priority_decide (\<lambda>(old, yields). if yields then yield else ret (scast old))"

definition sys_set_priority_resume :: "nat \<Rightarrow> cint \<Rightarrow> ('x kern_scheme, uint64) kmon" where
  "sys_set_priority_resume p old = thn (yield_resume p) (ret (scast old))"

section \<open>link and unlink\<close>

definition link_bad :: "nat \<Rightarrow> ('x fileS_scheme, uint64) kmon" where
  "link_bad ip =
     thn (ilock (Some ip))
     (thn (upd_di ip (\<lambda>d. d\<lparr>d_nlink := d_nlink d - 1\<rparr>))
     (thn (iupdate ip)
     (thn (iunlockput ip)
     (thn end_op
     (ret (-1))))))"

definition sys_link_with :: "bytes \<Rightarrow> bytes \<Rightarrow> ('x fileS_scheme, uint64) kmon" where
  "sys_link_with old new =
     thn begin_op
     (bnd (namei old) (\<lambda>ip0. case ip0 of None \<Rightarrow> thn end_op (ret (-1)) | Some ip \<Rightarrow>
     thn (ilock (Some ip))
     (bnd (get_di ip d_type) (\<lambda>ty.
     if ty = T_DIR then thn (iunlockput ip) (thn end_op (ret (-1)))
     else thn (upd_di ip (\<lambda>d. d\<lparr>d_nlink := d_nlink d + 1\<rparr>))
       (thn (iupdate ip)
       (thn (iunlock (Some ip))
       (bnd (nameiparent new (replicate DIRSIZ 0)) (\<lambda>(dp0, name). case dp0 of None \<Rightarrow> link_bad ip | Some dp \<Rightarrow>
       thn (ilock (Some dp))
       (bnd (get_inode dp i_dev) (\<lambda>ddev.
       bnd (get_inode ip (\<lambda>i. i)) (\<lambda>i.
       bnd (if ddev \<noteq> i_dev i then ret (-1) else dirlink dp name (i_inum i)) (\<lambda>r.
       if r < 0 then thn (iunlockput dp) (link_bad ip)
       else thn (iunlockput dp)
         (thn (iput ip)
         (thn end_op
         (ret 0)))))))))))))))"

definition sys_link :: "('x fileS_scheme, uint64) kmon" where
  "sys_link =
     bnd (argstr 0 (of_nat MAXPATH)) (\<lambda>(r0, old).
     if r0 < 0 then ret (-1)
     else bnd (argstr 1 (of_nat MAXPATH)) (\<lambda>(r1, new).
       if r1 < 0 then ret (-1) else sys_link_with old new))"

function isdirempty_loop :: "nat \<Rightarrow> uint32 \<Rightarrow> ('x fsS_scheme, bool) kmon" where
  "isdirempty_loop dp off =
     bnd (get_di dp d_size) (\<lambda>isize.
     if off < isize then
       if off + 16 < off then panic ''isdirempty: readi''
       else bnd (readi dp None off 16) (\<lambda>(r, de).
         if r \<noteq> 16 then panic ''isdirempty: readi''
         else if de_inum de \<noteq> 0 then ret False
         else isdirempty_loop dp (off + 16))
     else ret True)"
  by pat_completeness auto
termination
  by (relation "measure (\<lambda>(dp, off). 2 ^ 32 - unat off)") (auto dest!: next_off_less)

declare isdirempty_loop.simps [simp del]

definition isdirempty :: "nat \<Rightarrow> ('x fsS_scheme, bool) kmon" where
  "isdirempty dp = isdirempty_loop dp (2 * 16)"

definition unlink_bad :: "nat \<Rightarrow> ('x fileS_scheme, uint64) kmon" where
  "unlink_bad dp = thn (iunlockput dp) (thn end_op (ret (-1)))"

text \<open>From the lookup of the name on; \<open>off\<close> is the offset of its entry.\<close>

definition unlink_entry :: "nat \<Rightarrow> nat \<Rightarrow> uint32 \<Rightarrow> ('x fileS_scheme, uint64) kmon" where
  "unlink_entry dp ip off =
     thn (ilock (Some ip))
     (bnd (get_di ip (\<lambda>d. d)) (\<lambda>d.
     thn (assert_else (\<not> sint (d_nlink d) < 1) ''unlink: nlink < 1'')
     (bnd (if d_type d = T_DIR then isdirempty ip else ret True) (\<lambda>empty.
     if \<not> empty then thn (iunlockput ip) (unlink_bad dp)
     else bnd (writei dp (KernSrc (replicate 16 0)) off 16) (\<lambda>r.
       thn (assert_else (\<not> r \<noteq> 16) ''unlink: writei'')
       (thn (whenM (d_type d = T_DIR)
          (thn (upd_di dp (\<lambda>d. d\<lparr>d_nlink := d_nlink d - 1\<rparr>)) (iupdate dp)))
       (thn (iunlockput dp)
       (thn (upd_di ip (\<lambda>d. d\<lparr>d_nlink := d_nlink d - 1\<rparr>))
       (thn (iupdate ip)
       (thn (iunlockput ip)
       (thn end_op
       (ret 0))))))))))))"

definition sys_unlink :: "('x fileS_scheme, uint64) kmon" where
  "sys_unlink =
     bnd (argstr 0 (of_nat MAXPATH)) (\<lambda>(r, path).
     if r < 0 then ret (-1)
     else thn begin_op
       (bnd (nameiparent path (replicate DIRSIZ 0)) (\<lambda>(dp0, name).
       case dp0 of None \<Rightarrow> thn end_op (ret (-1)) | Some dp \<Rightarrow>
       thn (ilock (Some dp))
       (bnd (namecmp name (cbytes ''.'' @ [0])) (\<lambda>c1.
       if c1 = 0 then unlink_bad dp
       else bnd (namecmp name (cbytes ''..'' @ [0])) (\<lambda>c2.
         if c2 = 0 then unlink_bad dp
         else bnd (dirlookup dp name) (\<lambda>found. case found of
           None \<Rightarrow> unlink_bad dp
         | Some (ip, off) \<Rightarrow> unlink_entry dp ip off)))))))"

section \<open>create, open, mkdir, mknod, chdir\<close>

definition create_fail :: "nat \<Rightarrow> nat \<Rightarrow> ('x fileS_scheme, nat option) kmon" where
  "create_fail dp ip =
     thn (upd_di ip (\<lambda>d. d\<lparr>d_nlink := 0\<rparr>))
     (thn (iupdate ip)
     (thn (iunlockput ip)
     (thn (iunlockput dp)
     (ret None))))"

definition dots_fail :: "nat \<Rightarrow> nat \<Rightarrow> ('x fileS_scheme, bool) kmon" where
  "dots_fail dp ip =
     bnd (get_inode ip i_inum) (\<lambda>inum.
     bnd (dirlink ip (cbytes ''.'' @ [0]) inum) (\<lambda>r.
     if r < 0 then ret True
     else bnd (get_inode dp i_inum) (\<lambda>dinum.
       bnd (dirlink ip (cbytes ''..'' @ [0]) dinum) (\<lambda>r. ret (r < 0)))))"

text \<open>What \<^verbatim>\<open>create\<close> does with a fresh inode.\<close>

definition create_new :: "nat \<Rightarrow> nat \<Rightarrow> bytes \<Rightarrow> uint16 \<Rightarrow> uint16 \<Rightarrow> uint16 \<Rightarrow> ('x fileS_scheme, nat option) kmon" where
  "create_new dp ip name ty major minor =
     thn (ilock (Some ip))
     (thn (upd_di ip (\<lambda>d. d\<lparr>d_major := major, d_minor := minor, d_nlink := 1\<rparr>))
     (thn (iupdate ip)
     (bnd (if ty = T_DIR then dots_fail dp ip else ret False) (\<lambda>bad.
     if bad then create_fail dp ip
     else bnd (get_inode ip i_inum) (\<lambda>inum.
       bnd (dirlink dp name inum) (\<lambda>r.
       if r < 0 then create_fail dp ip
       else thn (whenM (ty = T_DIR)
           (thn (upd_di dp (\<lambda>d. d\<lparr>d_nlink := d_nlink d + 1\<rparr>)) (iupdate dp)))
         (thn (iunlockput dp)
         (ret (Some ip)))))))))"

definition create :: "bytes \<Rightarrow> uint16 \<Rightarrow> uint16 \<Rightarrow> uint16 \<Rightarrow> ('x fileS_scheme, nat option) kmon" where
  "create path ty major minor =
     bnd (nameiparent path (replicate DIRSIZ 0)) (\<lambda>(dp0, name). case dp0 of None \<Rightarrow> ret None | Some dp \<Rightarrow>
     thn (ilock (Some dp))
     (bnd (dirlookup dp name) (\<lambda>found. case found of
       Some (ip, _) \<Rightarrow>
         thn (iunlockput dp)
         (thn (ilock (Some ip))
         (bnd (get_di ip d_type) (\<lambda>ity.
         if ty = T_FILE \<and> (ity = T_FILE \<or> ity = T_DEVICE) then ret (Some ip)
         else thn (iunlockput ip) (ret None))))
     | None \<Rightarrow>
         bnd (get_inode dp i_dev) (\<lambda>dev.
         bnd (ialloc dev ty) (\<lambda>ip0. case ip0 of
           None \<Rightarrow> thn (iunlockput dp) (ret None)
         | Some ip \<Rightarrow> create_new dp ip name ty major minor)))))"

definition O_RDONLY :: cint where "O_RDONLY = 0"
definition O_WRONLY :: cint where "O_WRONLY = 1"
definition O_RDWR :: cint where "O_RDWR = 2"
definition O_CREATE :: cint where "O_CREATE = 0x200"
definition O_TRUNC :: cint where "O_TRUNC = 0x400"

text \<open>The part of \<^verbatim>\<open>sys_open\<close> that finds the inode; it comes back locked.\<close>

definition open_inode :: "bytes \<Rightarrow> cint \<Rightarrow> ('x fileS_scheme, nat option) kmon" where
  "open_inode path omode =
     (if omode AND O_CREATE \<noteq> 0 then create path T_FILE 0 0
      else bnd (namei path) (\<lambda>ip0. case ip0 of None \<Rightarrow> ret None | Some ip \<Rightarrow>
        thn (ilock (Some ip))
        (bnd (get_di ip d_type) (\<lambda>ty.
        if ty = T_DIR \<and> omode \<noteq> O_RDONLY then thn (iunlockput ip) (ret None)
        else ret (Some ip)))))"

text \<open>\<^verbatim>\<open>filealloc\<close> and \<^verbatim>\<open>fdalloc\<close>, with the file closed again when there is no descriptor.\<close>

definition open_slot :: "('x fileS_scheme, (nat \<times> nat) option) kmon" where
  "open_slot =
     bnd filealloc (\<lambda>f0. case f0 of None \<Rightarrow> ret None | Some f \<Rightarrow>
     bnd (fdalloc f) (\<lambda>r. case r of
       None \<Rightarrow> thn (fileclose f) (ret None)
     | Some fd \<Rightarrow> ret (Some (f, fd))))"

definition open_fields :: "nat \<Rightarrow> dinode \<Rightarrow> cint \<Rightarrow> kfile \<Rightarrow> kfile" where
  "open_fields ip d omode x =
     (let x = (if d_type d = T_DEVICE then x\<lparr>f_type := FD_DEVICE, f_major := d_major d\<rparr>
               else x\<lparr>f_type := FD_INODE, f_off := 0\<rparr>)
      in x\<lparr>f_ip := Some ip, f_readable := omode AND O_WRONLY = 0,
           f_writable := omode AND O_WRONLY \<noteq> 0 \<or> omode AND O_RDWR \<noteq> 0\<rparr>)"

definition open_locked :: "nat \<Rightarrow> cint \<Rightarrow> ('x fileS_scheme, uint64) kmon" where
  "open_locked ip omode =
     bnd (get_di ip (\<lambda>d. d)) (\<lambda>d.
     if d_type d = T_DEVICE \<and> \<not> dev_ok (d_major d) then thn (iunlockput ip) (thn end_op (ret (-1)))
     else bnd open_slot (\<lambda>slot. case slot of
       None \<Rightarrow> thn (iunlockput ip) (thn end_op (ret (-1)))
     | Some (f, fd) \<Rightarrow>
         thn (upd_file f (open_fields ip d omode))
         (thn (whenM (omode AND O_TRUNC \<noteq> 0 \<and> d_type d = T_FILE) (itrunc ip))
         (thn (iunlock (Some ip))
         (thn end_op
         (ret (of_nat fd)))))))"

definition sys_open :: "('x fileS_scheme, uint64) kmon" where
  "sys_open =
     bnd (argint 1) (\<lambda>omode.
     bnd (argstr 0 (of_nat MAXPATH)) (\<lambda>(n, path).
     if n < 0 then ret (-1)
     else thn begin_op
       (bnd (open_inode path omode) (\<lambda>ip0. case ip0 of
         None \<Rightarrow> thn end_op (ret (-1))
       | Some ip \<Rightarrow> open_locked ip omode))))"

definition finish_create :: "nat option \<Rightarrow> ('x fileS_scheme, uint64) kmon" where
  "finish_create ip0 = (case ip0 of
     None \<Rightarrow> thn end_op (ret (-1))
   | Some ip \<Rightarrow> thn (iunlockput ip) (thn end_op (ret 0)))"

definition sys_mkdir :: "('x fileS_scheme, uint64) kmon" where
  "sys_mkdir =
     thn begin_op
     (bnd (argstr 0 (of_nat MAXPATH)) (\<lambda>(r, path).
     bnd (if r < 0 then ret None else create path T_DIR 0 0) finish_create))"

definition sys_mknod :: "('x fileS_scheme, uint64) kmon" where
  "sys_mknod =
     thn begin_op
     (bnd (argint 1) (\<lambda>major.
     bnd (argint 2) (\<lambda>minor.
     bnd (argstr 0 (of_nat MAXPATH)) (\<lambda>(r, path).
     bnd (if r < 0 then ret None else create path T_DEVICE (ucast major) (ucast minor)) finish_create))))"

definition sys_chdir :: "('x fileS_scheme, uint64) kmon" where
  "sys_chdir =
     bnd myproc (\<lambda>p.
     thn begin_op
     (bnd (argstr 0 (of_nat MAXPATH)) (\<lambda>(r, path).
     bnd (if r < 0 then ret None else namei path) (\<lambda>ip0. case ip0 of
       None \<Rightarrow> thn end_op (ret (-1))
     | Some ip \<Rightarrow>
         thn (ilock (Some ip))
         (bnd (get_di ip d_type) (\<lambda>ty.
         if ty \<noteq> T_DIR then thn (iunlockput ip) (thn end_op (ret (-1)))
         else thn (iunlock (Some ip))
           (bnd (get_proc p p_cwd) (\<lambda>cwd0.
           bnd (deref cwd0) (\<lambda>cwd.
           thn (iput cwd)
           (thn end_op
           (thn (upd_proc p (\<lambda>q. q\<lparr>p_cwd := Some ip\<rparr>))
           (ret 0))))))))))))"

section \<open>exec and pipe\<close>

text \<open>The loop that fetches the argument strings into pages: whether it ended without \<^verbatim>\<open>goto bad\<close>, and the
  pages it allocated.\<close>

fun fetch_args :: "uint64 \<Rightarrow> nat \<Rightarrow> nat \<Rightarrow> uint64 list \<Rightarrow> ('x kern_scheme, bool \<times> uint64 list) kmon" where
  "fetch_args uargv i 0 argv = ret (False, argv)"
| "fetch_args uargv i (Suc k) argv =
     bnd (fetchaddr (uargv + 8 * of_nat i)) (\<lambda>(r, uarg).
     if r < 0 then ret (False, argv)
     else if uarg = 0 then ret (True, argv)
     else bnd kalloc (\<lambda>pg.
       if pg = 0 then ret (False, argv)
       else bnd (fetchstr uarg 4096) (\<lambda>(r, bs).
         thn (set_mem (\<lambda>m. st_bytes m pg bs))
         (if r < 0 then ret (False, argv @ [pg])
          else fetch_args uargv (Suc i) k (argv @ [pg])))))"

definition sys_exec :: "('x fileS_scheme, uint64) kmon" where
  "sys_exec =
     bnd (argaddr 1) (\<lambda>uargv.
     bnd (argstr 0 (of_nat MAXPATH)) (\<lambda>(r, path).
     if r < 0 then ret (-1)
     else bnd (fetch_args uargv 0 MAXARG []) (\<lambda>(good, argv).
       if good then
         bnd (exec path argv) (\<lambda>r.
         thn (for_each argv kfree) (ret (of_int r)))
       else thn (for_each argv kfree) (ret (-1)))))"

definition close_both :: "nat \<Rightarrow> nat \<Rightarrow> ('x fileS_scheme, uint64) kmon" where
  "close_both rfile wfile = thn (fileclose rfile) (thn (fileclose wfile) (ret (-1)))"

definition sys_pipe :: "('x fileS_scheme, uint64) kmon" where
  "sys_pipe =
     bnd myproc (\<lambda>p.
     bnd (argaddr 0) (\<lambda>fdarray.
     bnd pipealloc (\<lambda>pr. case pr of None \<Rightarrow> ret (-1) | Some (rfile, wfile) \<Rightarrow>
     bnd (fdalloc rfile) (\<lambda>r0. case r0 of None \<Rightarrow> close_both rfile wfile | Some fd0 \<Rightarrow>
     bnd (fdalloc wfile) (\<lambda>r1. case r1 of None \<Rightarrow> thn (clear_fd p fd0) (close_both rfile wfile) | Some fd1 \<Rightarrow>
     bnd (get_proc p p_pagetable) (\<lambda>pt.
     bnd (copyout pt fdarray (le_bytes 4 (of_nat fd0 :: cint))) (\<lambda>c0.
     bnd (if c0 < 0 then ret c0 else copyout pt (fdarray + 4) (le_bytes 4 (of_nat fd1 :: cint))) (\<lambda>c1.
     if c1 < 0 then thn (clear_fd p fd0) (thn (clear_fd p fd1) (close_both rfile wfile))
     else ret 0))))))))"

end
