(* ===== verification/VmInv.thy ===== *)
theory VmInv
  imports Vm
begin

text \<open>
  Page tables as trees: address arithmetic of PTE slots, the pure lookup that \<^verbatim>\<open>walk\<close> performs,
  well-formed page tables (every table page is reached once), and what the routines of
  \<^verbatim>\<open>vm.c\<close> do to them.
\<close>

section \<open>Slots and indices\<close>

definition slot :: "uint64 \<Rightarrow> nat \<Rightarrow> uint64" where
  "slot pt i = pt + 8 * of_nat i"

definition px :: "nat \<Rightarrow> uint64 \<Rightarrow> nat" where
  "px l va = unat (PX l va)"

lemma px_lt [simp]: "px l va < 512"
proof -
  have "unat (drop_bit (PXSHIFT l) va AND PXMASK) \<le> unat PXMASK"
    by (rule word_and_le1 [THEN word_le_nat_alt [THEN iffD1]])
  then show ?thesis by (simp add: px_def PX_def PXMASK_def)
qed

lemma unat_drop_bit: "unat (drop_bit n w :: 'a::len word) = unat w div 2 ^ n"
proof -
  have "drop_bit n (take_bit LENGTH('a) (unat w)) = unat w div 2 ^ n"
    by (simp add: take_bit_nat_eq_self drop_bit_eq_div)
  then show ?thesis by (simp only: unsigned_drop_bit_eq)
qed

lemma px_eq: "px l va = unat va div 2 ^ (12 + 9 * l) mod 512"
proof -
  have "PXMASK = mask 9" by (simp add: PXMASK_def mask_eq_exp_minus_1)
  then have "PX l va = take_bit 9 (drop_bit (PXSHIFT l) va)"
    by (simp add: PX_def take_bit_eq_mask)
  then have "px l va = take_bit 9 (unat (drop_bit (PXSHIFT l) va))"
    by (simp only: px_def unsigned_take_bit_eq)
  then show ?thesis
    by (simp only: unat_drop_bit) (simp add: take_bit_eq_mod PXSHIFT_def PGSHIFT_def)
qed

lemma pte_addr_slot: "pte_addr pt l va = slot pt (px l va)"
  by (simp add: pte_addr_def slot_def px_def)

lemma unat_slot_off: "i < 512 \<Longrightarrow> unat (8 * of_nat i :: uint64) = 8 * i"
  by (simp add: unat_word_ariths unat_of_nat_small)

lemma slot_page [simp]: "pg_aligned pt \<Longrightarrow> i < 512 \<Longrightarrow> PGROUNDDOWN (slot pt i) = pt"
  by (simp add: slot_def unat_slot_off)

lemma slot_aligned [simp]: "pg_aligned pt \<Longrightarrow> w_aligned (slot pt i)"
  by (simp add: slot_def w_aligned_slot)

lemma slot_inj:
  assumes "pg_aligned pt" "pg_aligned pt'" "i < 512" "j < 512"
  shows "slot pt i = slot pt' j \<longleftrightarrow> pt = pt' \<and> i = j"
proof
  assume eq: "slot pt i = slot pt' j"
  then have "pt = pt'" using assms slot_page by metis
  with eq have "(8 * of_nat i :: uint64) = 8 * of_nat j" by (simp add: slot_def)
  then have "unat (8 * of_nat i :: uint64) = unat (8 * of_nat j :: uint64)" by simp
  then have "i = j" using assms by (simp add: unat_slot_off)
  with \<open>pt = pt'\<close> show "pt = pt' \<and> i = j" by simp
qed simp

lemma ld64_st64_slot:
  assumes "pg_aligned pt" "pg_aligned pt'" "i < 512" "j < 512"
  shows "ld64 (st64 m (slot pt i) v) (slot pt' j) = (if pt = pt' \<and> i = j then v else ld64 m (slot pt' j))"
  using assms by (auto simp: ld64_st64 slot_inj)

lemma px_page_inj:
  assumes "va < MAXVA" "va' < MAXVA" "px 0 va = px 0 va'" "px 1 va = px 1 va'" "px 2 va = px 2 va'"
  shows "PGROUNDDOWN va = PGROUNDDOWN va'"
proof -
  have split: "x div 2^12 = x div 2^12 mod 512 + 512 * (x div 2^21 mod 512) + 512 * 512 * (x div 2^30 mod 512)"
    if "x < 2^38" for x :: nat
  proof -
    have "x div 2^30 < 512" using that by (simp add: div_less_iff_less_mult)
    then have c: "x div 2^30 mod 512 = x div 2^30" by (rule mod_less)
    have "x div 2^12 div 512 = x div 2^21" "x div 2^21 div 512 = x div 2^30"
      by (simp_all add: div_mult2_eq [symmetric])
    then have "x div 2^12 = x div 2^12 mod 512 + 512 * (x div 2^21)"
        "x div 2^21 = x div 2^21 mod 512 + 512 * (x div 2^30)"
      by (metis mod_mult_div_eq)+
    with c show ?thesis by linarith
  qed
  have "unat va < 2^38" "unat va' < 2^38" using assms(1,2) by (simp_all add: MAXVA_def word_less_nat_alt)
  then show ?thesis using assms(3-5) split[of "unat va"] split[of "unat va'"]
    by (simp add: PGROUNDDOWN_eq_iff px_eq)
qed

lemma px_page_cong: "PGROUNDDOWN va = PGROUNDDOWN va' \<Longrightarrow> px l va = px l va'"
proof -
  assume "PGROUNDDOWN va = PGROUNDDOWN va'"
  then have "unat va div 4096 div 2^(9*l) = unat va' div 4096 div 2^(9*l)" by (simp add: PGROUNDDOWN_eq_iff)
  then show ?thesis by (simp add: px_eq power_add div_mult2_eq)
qed

section \<open>Encoding of PTEs\<close>

lemma PTE2PA_PA2PTE:
  assumes "pg_aligned pa" "flags < 1024"
  shows "PTE2PA (PA2PTE pa OR flags) = pa" 
proof -
  have f: "drop_bit 10 flags = 0"
    using assms(2) by (simp add: word_unat_eq_iff unat_drop_bit word_less_nat_alt del: drop_bit_eq_div)
  have p: "drop_bit 10 (push_bit 10 (drop_bit 12 pa)) = drop_bit 12 pa"
    by (rule bit_eqI) (auto simp: bit_simps dest: bit_imp_le_length)
  have "PTE2PA (PA2PTE pa OR flags) = push_bit 12 (drop_bit 12 pa)"
    by (simp only: PTE2PA_def PA2PTE_def drop_bit_or f p) simp
  also have "\<dots> = PGROUNDDOWN pa" by (simp add: PGROUNDDOWN_def pgmask and_not_mask_eq)
  finally show ?thesis using assms by simp
qed

lemma PTE_FLAGS_PA2PTE:
  assumes "flags < 1024"
  shows "PTE_FLAGS (PA2PTE pa OR flags) = flags"
proof -
  have "PA2PTE pa AND mask 10 = 0" by (rule bit_eqI) (auto simp: PA2PTE_def bit_simps)
  moreover have "flags AND mask 10 = flags"
    using assms by (simp add: take_bit_eq_mask [symmetric] word_unat_eq_iff unsigned_take_bit_eq word_less_nat_alt take_bit_nat_eq_self)
  ultimately have "(PA2PTE pa OR flags) AND mask 10 = flags" by (simp add: bit.conj_disj_distrib2)
  then show ?thesis by (simp add: PTE_FLAGS_def mask_eq_exp_minus_1)
qed

section \<open>The tree of table pages\<close>

definition child :: "memory \<Rightarrow> uint64 \<Rightarrow> nat \<Rightarrow> uint64" where
  "child m pt i = PTE2PA (ld64 m (slot pt i))"

definition present :: "memory \<Rightarrow> uint64 \<Rightarrow> nat \<Rightarrow> bool" where
  "present m pt i \<longleftrightarrow> ld64 m (slot pt i) AND PTE_V \<noteq> 0"

fun lookup_level :: "memory \<Rightarrow> uint64 \<Rightarrow> uint64 \<Rightarrow> nat \<Rightarrow> uint64 option" where
  "lookup_level m pt va 0 = Some (slot pt (px 0 va))"
| "lookup_level m pt va (Suc l) =
     (if present m pt (px (Suc l) va) then lookup_level m (child m pt (px (Suc l) va)) va l else None)"

definition leaf :: "memory \<Rightarrow> nat \<Rightarrow> uint64 \<Rightarrow> uint64 \<Rightarrow> pte_t" where
  "leaf m l pt va = (case lookup_level m pt va l of None \<Rightarrow> 0 | Some a \<Rightarrow> ld64 m a)"

fun tabs :: "memory \<Rightarrow> nat \<Rightarrow> uint64 \<Rightarrow> uint64 set" where
  "tabs m 0 pt = {pt}"
| "tabs m (Suc l) pt = insert pt (\<Union>i\<in>{i. i < 512 \<and> present m pt i}. tabs m l (child m pt i))"

fun twf :: "memory \<Rightarrow> nat \<Rightarrow> uint64 \<Rightarrow> bool" where
  "twf m 0 pt \<longleftrightarrow> pg_aligned pt"
| "twf m (Suc l) pt \<longleftrightarrow> pg_aligned pt
     \<and> (\<forall>i<512. present m pt i \<longrightarrow> twf m l (child m pt i) \<and> pt \<notin> tabs m l (child m pt i))
     \<and> (\<forall>i<512. \<forall>j<512. present m pt i \<longrightarrow> present m pt j \<longrightarrow> i \<noteq> j \<longrightarrow>
          tabs m l (child m pt i) \<inter> tabs m l (child m pt j) = {})"

lemma leaf_0 [simp]: "leaf m 0 pt va = ld64 m (slot pt (px 0 va))"
  by (simp add: leaf_def)

lemma leaf_Suc [simp]: "leaf m (Suc l) pt va =
    (if present m pt (px (Suc l) va) then leaf m l (child m pt (px (Suc l) va)) va else 0)"
  by (simp add: leaf_def)

lemma twf_aligned: "twf m l pt \<Longrightarrow> pg_aligned pt"
  by (cases l) auto

lemma root_in_tabs [simp]: "pt \<in> tabs m l pt"
  by (cases l) auto

lemma lookup_slot:
  "twf m l pt \<Longrightarrow> lookup_level m pt va l = Some a \<Longrightarrow>
    \<exists>t\<in>tabs m l pt. pg_aligned t \<and> a = slot t (px 0 va)"
proof (induction l arbitrary: pt)
  case (Suc l)
  let ?i = "px (Suc l) va"
  from Suc.prems have p: "present m pt ?i" "lookup_level m (child m pt ?i) va l = Some a"
    by (auto split: if_splits)
  then have "\<exists>t\<in>tabs m l (child m pt ?i). pg_aligned t \<and> a = slot t (px 0 va)"
    using Suc.prems(1) by (intro Suc.IH) auto
  moreover have "tabs m l (child m pt ?i) \<subseteq> tabs m (Suc l) pt" using p(1) px_lt by auto
  ultimately show ?case by blast
qed auto

text \<open>A memory that agrees on the table pages has the same tree.\<close>

lemma slot_cong:
  "pg_aligned pt \<Longrightarrow> i < 512 \<Longrightarrow> (\<And>x. PGROUNDDOWN x = pt \<Longrightarrow> m' x = m x) \<Longrightarrow>
    ld64 m' (slot pt i) = ld64 m (slot pt i)"
  by (rule ld64_page_cong) auto

lemma entry_cong:
  assumes "pg_aligned pt" and "i < 512" and "\<And>x. PGROUNDDOWN x = pt \<Longrightarrow> m' x = m x"
  shows "present m' pt i = present m pt i" and "child m' pt i = child m pt i"
  using slot_cong [OF assms(1,2,3)] by (auto simp: present_def child_def)

lemma tree_cong:
  assumes "twf m l pt" and "\<And>x. PGROUNDDOWN x \<in> tabs m l pt \<Longrightarrow> m' x = m x"
  shows "tabs m' l pt = tabs m l pt" and "twf m' l pt"
    and "lookup_level m' pt va l = lookup_level m pt va l" and "leaf m' l pt va = leaf m l pt va"
proof -
  have "tabs m' l pt = tabs m l pt \<and> twf m' l pt \<and> (\<forall>va. lookup_level m' pt va l = lookup_level m pt va l
      \<and> leaf m' l pt va = leaf m l pt va)"
    using assms
  proof (induction l arbitrary: pt)
    case 0
    then show ?case by (auto intro: slot_cong)
  next
    case (Suc l)
    have al: "pg_aligned pt" using Suc.prems(1) by simp
    have page: "\<And>x. PGROUNDDOWN x = pt \<Longrightarrow> m' x = m x" using Suc.prems(2) by simp
    note e = entry_cong [OF al _ page]
    have ih: "tabs m' l (child m pt i) = tabs m l (child m pt i) \<and> twf m' l (child m pt i)
        \<and> (\<forall>va. lookup_level m' (child m pt i) va l = lookup_level m (child m pt i) va l
           \<and> leaf m' l (child m pt i) va = leaf m l (child m pt i) va)"
      if "i < 512" "present m pt i" for i
      using that Suc.prems by (intro Suc.IH) auto
    show ?case
      using Suc.prems(1) ih by (auto simp: e al)
  qed
  then show "tabs m' l pt = tabs m l pt" "twf m' l pt"
      "lookup_level m' pt va l = lookup_level m pt va l" "leaf m' l pt va = leaf m l pt va" by auto
qed

text \<open>A change confined to one subtree and to fresh pages.\<close>

lemma subtree_change:
  assumes wf: "twf m (Suc l) pt" and i: "i < 512" "present m pt i"
    and out: "\<And>x. PGROUNDDOWN x \<notin> tabs m l (child m pt i) \<union> N \<Longrightarrow> m' x = m x"
    and N: "N \<inter> tabs m (Suc l) pt = {}"
    and sub: "twf m' l (child m pt i)" "tabs m' l (child m pt i) = tabs m l (child m pt i) \<union> N"
  shows "twf m' (Suc l) pt" and "tabs m' (Suc l) pt = tabs m (Suc l) pt \<union> N"
    and "present m' pt j = present m pt j \<or> j \<ge> 512" and "child m' pt j = child m pt j \<or> j \<ge> 512"
    and "j \<noteq> i \<Longrightarrow> j < 512 \<Longrightarrow> present m pt j \<Longrightarrow> leaf m' l (child m pt j) va = leaf m l (child m pt j) va"
proof -
  let ?c = "child m pt i"
  have al: "pg_aligned pt" and ptc: "pt \<notin> tabs m l ?c" and ptN: "pt \<notin> N"
    using wf i N by auto
  have page: "\<And>x. PGROUNDDOWN x = pt \<Longrightarrow> m' x = m x" using out ptc ptN by simp
  note e = entry_cong [OF al _ page]
  then show "present m' pt j = present m pt j \<or> j \<ge> 512" "child m' pt j = child m pt j \<or> j \<ge> 512"
    by (auto simp: not_le)
  have oth: "twf m l (child m pt j) \<and> (\<forall>x. PGROUNDDOWN x \<in> tabs m l (child m pt j) \<longrightarrow> m' x = m x)"
    if "j < 512" "present m pt j" "j \<noteq> i" for j
  proof -
    have "tabs m l (child m pt j) \<inter> tabs m l ?c = {}" using wf i that by simp
    moreover have "tabs m l (child m pt j) \<inter> N = {}" using N that by auto
    ultimately show ?thesis using wf that out by auto
  qed
  note o = tree_cong [where m = m and m' = m' and l = l]
  have ot: "tabs m' l (child m pt j) = tabs m l (child m pt j)" "twf m' l (child m pt j)"
    if "j < 512" "present m pt j" "j \<noteq> i" for j
    using oth [OF that] by (auto intro!: o)
  show "leaf m' l (child m pt j) va = leaf m l (child m pt j) va" if "j \<noteq> i" "j < 512" "present m pt j"
    using oth [OF that(2,3,1)] by (auto intro!: o)
  have t: "tabs m' l (child m' pt j) = (if j = i then tabs m l ?c \<union> N else tabs m l (child m pt j))"
    if "j < 512" "present m pt j" for j
    using that ot sub by (simp add: e)
  show "tabs m' (Suc l) pt = tabs m (Suc l) pt \<union> N"
  proof -
    let ?J = "{j. j < 512 \<and> present m pt j}"
    have "{j. j < 512 \<and> present m' pt j} = ?J" by (auto simp: e)
    then have "tabs m' (Suc l) pt = insert pt (\<Union>j\<in>?J. tabs m' l (child m' pt j))" by simp
    also have "(\<Union>j\<in>?J. tabs m' l (child m' pt j))
        = (\<Union>j\<in>?J. if j = i then tabs m l ?c \<union> N else tabs m l (child m pt j))"
      by (intro SUP_cong) (simp_all add: t)
    also have "\<dots> = (\<Union>j\<in>?J. tabs m l (child m pt j)) \<union> N"
      using i by (auto split: if_splits)
    finally show ?thesis by simp
  qed
  show "twf m' (Suc l) pt"
  proof -
    have "twf m' l (child m' pt j) \<and> pt \<notin> tabs m' l (child m' pt j)" if "j < 512" "present m' pt j" for j
      using that wf ptN ptc ot [of j] sub by (cases "j = i") (auto simp: e)
    moreover have "tabs m' l (child m' pt j) \<inter> tabs m' l (child m' pt k) = {}"
      if "j < 512" "k < 512" "present m' pt j" "present m' pt k" "j \<noteq> k" for j k
    proof -
      have "tabs m l (child m pt j) \<inter> tabs m l (child m pt k) = {}" using wf that by (simp add: e)
      moreover have "tabs m l (child m pt j) \<inter> N = {}" "tabs m l (child m pt k) \<inter> N = {}"
        using N that by (auto simp: e)
      ultimately show ?thesis using that t [of j] t [of k] by (auto simp: e split: if_splits)
    qed
    ultimately show ?thesis using al by simp
  qed
qed

text \<open>A page of zeros is an empty table.\<close>

lemma zero_page:
  assumes "pg_aligned pg" and "\<And>x. PGROUNDDOWN x = pg \<Longrightarrow> m x = 0"
  shows "i < 512 \<Longrightarrow> ld64 m (slot pg i) = 0" and "tabs m l pg = {pg}" and "twf m l pg" and "leaf m l pg va = 0"
proof -
  have z: "ld64 m (slot pg i) = 0" if "i < 512" for i
    using assms that by (intro ld64_zero) (simp add: w_aligned_page)
  show "i < 512 \<Longrightarrow> ld64 m (slot pg i) = 0" by (rule z)
  have "\<not> present m pg i" if "i < 512" for i using z [OF that] by (simp add: present_def)
  then show "tabs m l pg = {pg}" "twf m l pg" "leaf m l pg va = 0"
    using assms(1) z by (cases l; auto)+
qed

text \<open>The flags of a PTE that points to a table.\<close>

lemma PTE2PA_table [simp]: "pg_aligned pg \<Longrightarrow> PTE2PA (PA2PTE pg OR PTE_V) = pg"
  by (rule PTE2PA_PA2PTE) (simp_all add: PTE_V_def)

lemma PTE_V_nonzero [simp]: "PTE_V \<noteq> 0"
  by (simp add: PTE_V_def)

lemma or_PTE_V [simp]: "(x OR PTE_V) AND PTE_V \<noteq> 0"
proof -
  have "bit ((x OR PTE_V) AND PTE_V) 0" by (simp add: bit_simps PTE_V_def)
  then show ?thesis by (metis bit_0_eq bot_apply bot_bool_def)
qed

text \<open>Linking a fresh zero page as a new table: the tree grows by that page, no translation changes.\<close>

lemma link_table:
  assumes wf: "twf m (Suc l) pt" and i: "i < 512" "\<not> present m pt i"
    and pg: "pg_aligned pg" "pg \<notin> tabs m (Suc l) pt"
    and m': "m' = st64 (fill m pg 0 4096) (slot pt i) (PA2PTE pg OR PTE_V)"
  shows "twf m' (Suc l) pt" and "tabs m' (Suc l) pt = insert pg (tabs m (Suc l) pt)"
    and "present m' pt i" and "child m' pt i = pg" and "leaf m' (Suc l) pt va = leaf m (Suc l) pt va"
    and "twf m' l pg" and "tabs m' l pg = {pg}"
    and "PGROUNDDOWN x \<noteq> pt \<Longrightarrow> PGROUNDDOWN x \<noteq> pg \<Longrightarrow> m' x = m x"
proof -
  have al: "pg_aligned pt" and ne: "pt \<noteq> pg" using wf pg by auto
  show out: "m' x = m x" if "PGROUNDDOWN x \<noteq> pt" "PGROUNDDOWN x \<noteq> pg" for x
    using that al i(1) pg(1) by (simp add: m' st64_page fill_page)
  have z: "m' x = 0" if "PGROUNDDOWN x = pg" for x
    using that al i(1) pg(1) ne by (simp add: m' st64_page fill_page)
  note zp = zero_page [OF pg(1) z]
  show "twf m' l pg" "tabs m' l pg = {pg}" by (simp_all add: zp)
  have ent: "ld64 m' (slot pt j) = (if j = i then PA2PTE pg OR PTE_V else ld64 m (slot pt j))" if "j < 512" for j
    using that al i(1) pg(1) ne by (simp add: m' ld64_st64_slot ld64_fill_zero)
  show pi: "present m' pt i" and ci: "child m' pt i = pg" using i(1) pg(1) by (simp_all add: present_def child_def ent)
  have e: "present m' pt j = present m pt j" "child m' pt j = child m pt j" if "j < 512" "j \<noteq> i" for j
    using that by (simp_all add: present_def child_def ent)
  have same: "tabs m' l (child m pt j) = tabs m l (child m pt j) \<and> twf m' l (child m pt j)
      \<and> (\<forall>va. leaf m' l (child m pt j) va = leaf m l (child m pt j) va)" if "j < 512" "present m pt j" for j
  proof -
    have "twf m l (child m pt j)" "pt \<notin> tabs m l (child m pt j)" "pg \<notin> tabs m l (child m pt j)"
      using that wf pg by auto
    then show ?thesis using out by (metis tree_cong)
  qed
  have J: "{j. j < 512 \<and> present m' pt j} = insert i {j. j < 512 \<and> present m pt j}"
    using i pi e by auto
  have T: "tabs m' l (child m' pt j) = (if j = i then {pg} else tabs m l (child m pt j))"
    if "j < 512" "j = i \<or> present m pt j" for j
    using that same e ci zp(2) by (cases "j = i") auto
  have "(\<Union>j\<in>{j. j < 512 \<and> present m pt j}. tabs m' l (child m' pt j))
      = (\<Union>j\<in>{j. j < 512 \<and> present m pt j}. tabs m l (child m pt j))"
    using i by (intro SUP_cong) (auto simp: T)
  then show "tabs m' (Suc l) pt = insert pg (tabs m (Suc l) pt)"
    unfolding tabs.simps J by (auto simp: ci zp)
  show "leaf m' (Suc l) pt va = leaf m (Suc l) pt va"
    using i e pi ci same px_lt zp(4) by (cases "px (Suc l) va = i") auto
  have "twf m' l (child m' pt j) \<and> pt \<notin> tabs m' l (child m' pt j)" if "j < 512" "present m' pt j" for j
    using that wf same e ci zp ne by (cases "j = i") auto
  moreover have "tabs m' l (child m' pt j) \<inter> tabs m' l (child m' pt k) = {}"
    if "j < 512" "k < 512" "present m' pt j" "present m' pt k" "j \<noteq> k" for j k
  proof -
    have p: "j = i \<or> present m pt j" "k = i \<or> present m pt k" using that e by auto
    then have "pg \<notin> tabs m l (child m pt j) \<or> j = i" "pg \<notin> tabs m l (child m pt k) \<or> k = i"
      using pg(2) that by auto
    then show ?thesis using that wf p by (auto simp: T)
  qed
  ultimately show "twf m' (Suc l) pt" using al by simp
qed

section \<open>What walk does\<close>

lemma present_iff: "ld64 m (pte_addr pt l va) AND PTE_V \<noteq> 0 \<longleftrightarrow> present m pt (px l va)"
  by (simp add: present_def pte_addr_slot)

lemma walk_level_noalloc:
  "walk_level pt va False l s = Ok (case lookup_level (mem s) pt va l of None \<Rightarrow> 0 | Some a \<Rightarrow> a) s"
  by (induction l arbitrary: pt)
    (simp_all add: load64_def present_def child_def pte_addr_slot)

definition walk0 :: "memory \<Rightarrow> pagetable_t \<Rightarrow> uint64 \<Rightarrow> uint64" where
  "walk0 m pt va = (case lookup_level m pt va 2 of None \<Rightarrow> 0 | Some a \<Rightarrow> a)"

lemma walk_noalloc: "va < MAXVA \<Longrightarrow> walk pt va False s = Ok (walk0 (mem s) pt va) s"
  by (simp add: walk_def walk0_def walk_level_noalloc not_le)

text \<open>The parts of the state that the memory routines do not touch.\<close>

definition kmem_frame :: "'x kmem_scheme \<Rightarrow> 'x kmem_scheme \<Rightarrow> bool" where
  "kmem_frame s t \<longleftrightarrow> (\<exists>m f r. t = s\<lparr>mem := m, freelist := f, refcnt := r\<rparr>)"

lemma kmem_frame_refl [simp]: "kmem_frame s s"
  unfolding kmem_frame_def by (intro exI [of _ "mem s"] exI [of _ "freelist s"] exI [of _ "refcnt s"]) simp

lemma kmem_frame_trans: "kmem_frame s t \<Longrightarrow> kmem_frame t u \<Longrightarrow> kmem_frame s u"
  unfolding kmem_frame_def by (elim exE, simp, blast)

lemma kmem_frame_upd [simp]: "kmem_frame s (s\<lparr>mem := m\<rparr>)"
  unfolding kmem_frame_def by (intro exI [of _ m] exI [of _ "freelist s"] exI [of _ "refcnt s"]) simp

lemma kmem_frame_pop [simp]: "kmem_frame s (pop_free s)"
  unfolding kmem_frame_def pop_free_def
  by (intro exI [of _ "mem (pop_free s)"] exI [of _ "freelist (pop_free s)"] exI [of _ "refcnt (pop_free s)"])
    (simp add: pop_free_def)

lemma kmem_frameD: "kmem_frame s t \<Longrightarrow> held t = held s \<and> kend t = kend s"
  by (auto simp: kmem_frame_def)

text \<open>Writing to pages that are not free keeps the allocator's invariant.\<close>

lemma kmem_ok_mem:
  assumes "kmem_ok ps s" and "\<And>x. PGROUNDDOWN x \<in> set ps \<Longrightarrow> m x = mem s x"
  shows "kmem_ok ps (s\<lparr>mem := m\<rparr>)"
proof -
  have inv: "kmem_inv ps s" using assms(1) by (simp add: kmem_ok_def)
  have "is_list m (freelist s) ps \<longleftrightarrow> is_list (mem s) (freelist s) ps"
    using assms(2) kmem_inv_aligned [OF inv] by (intro is_list_cong) auto
  then show ?thesis using assms(1) by (simp add: kmem_ok_def kmem_inv_def)
qed

lemma kmem_ok_alignedD: "kmem_ok ps s \<Longrightarrow> p \<in> set ps \<Longrightarrow> pg_aligned p \<and> valid_pa (kend s) p \<and> p \<noteq> 0"
  using kmem_invD(3,4) valid_pa_aligned valid_pa_nonzero unfolding kmem_ok_def by blast

text \<open>One page taken from the allocator and cleared.\<close>

definition take_page :: "uint64 \<Rightarrow> 'x kmem_scheme \<Rightarrow> 'x kmem_scheme" where
  "take_page pg s = (pop_free s)\<lparr>mem := fill (mem s) pg 0 4096\<rparr>"

lemma fill_fill [simp]: "fill (fill m a c n) a d n = fill m a d n"
  by (auto simp: fill_def)

lemma kalloc_cleared:
  assumes "kmem_ok (pg # ps) s"
  shows "kalloc s = Ok pg (pop_free s)"
    and "memset pg 0 4096 (pop_free s) = Ok () (take_page pg s)"
    and "kmem_ok ps (take_page pg s)" and "kmem_frame s (take_page pg s)"
    and "mem (take_page pg s) = fill (mem s) pg 0 4096"
    and "rc (take_page pg s) pg = 1"
    and "valid_pa (kend s) q \<Longrightarrow> q \<noteq> pg \<Longrightarrow> rc (take_page pg s) q = rc s q"
proof -
  have inv: "kmem_inv (pg # ps) s" and nh: "LKmem \<notin> set (held s)" using assms by (auto simp: kmem_ok_def)
  have pg: "freelist s = pg" "pg \<noteq> 0" "pg_aligned pg" "pg \<notin> set ps"
    using freelist_hd [OF inv] kmem_ok_alignedD [OF assms, of pg] kmem_invD(2) [OF inv] by auto
  show "kalloc s = Ok pg (pop_free s)" using pg nh by (simp add: kalloc_run)
  show mem: "mem (take_page pg s) = fill (mem s) pg 0 4096" by (simp add: take_page_def)
  show "memset pg 0 4096 (pop_free s) = Ok () (take_page pg s)"
    using pg by (simp add: memset_run take_page_def) (simp add: pop_free_def)
  show "kmem_ok ps (take_page pg s)"
    unfolding take_page_def
  proof (rule kmem_ok_mem)
    show "kmem_ok ps (pop_free s)" using assms pop_free_inv [OF inv] by (simp add: kmem_ok_def)
    show "fill (mem s) pg 0 4096 x = mem (pop_free s) x" if "PGROUNDDOWN x \<in> set ps" for x
      using that pg by (auto simp: pop_free_def fill_page)
  qed
  show "kmem_frame s (take_page pg s)"
    unfolding take_page_def using kmem_frame_trans kmem_frame_pop kmem_frame_upd by blast
  show "rc (take_page pg s) pg = 1" using pg by (simp add: rc_def take_page_def pop_free_def)
  show "rc (take_page pg s) q = rc s q" if "valid_pa (kend s) q" "q \<noteq> pg"
    using that pg by (simp add: rc_def take_page_def pop_free_def pg_div_inj valid_pa_aligned)
qed

text \<open>
  \<open>grown l pt ps n s t\<close>: between \<open>s\<close> and \<open>t\<close> the tree below \<open>pt\<close> has taken the first \<open>n\<close> pages of
  the free list \<open>ps\<close> as new tables, and no translation has changed.
\<close>

definition grown :: "nat \<Rightarrow> uint64 \<Rightarrow> uint64 list \<Rightarrow> nat \<Rightarrow> 'x kmem_scheme \<Rightarrow> 'x kmem_scheme \<Rightarrow> bool" where
  "grown l pt ps n s t \<longleftrightarrow> kmem_ok (drop n ps) t \<and> n \<le> length ps \<and> kmem_frame s t
     \<and> twf (mem t) l pt \<and> tabs (mem t) l pt = tabs (mem s) l pt \<union> set (take n ps)
     \<and> (\<forall>x. PGROUNDDOWN x \<notin> tabs (mem s) l pt \<union> set (take n ps) \<longrightarrow> mem t x = mem s x)
     \<and> (\<forall>va. leaf (mem t) l pt va = leaf (mem s) l pt va)
     \<and> (\<forall>q. valid_pa (kend s) q \<longrightarrow> q \<notin> set (take n ps) \<longrightarrow> rc t q = rc s q)"

text \<open>A page table whose pages are neither free nor the null page.\<close>

definition tree_ok :: "nat \<Rightarrow> uint64 \<Rightarrow> uint64 list \<Rightarrow> 'x kmem_scheme \<Rightarrow> bool" where
  "tree_ok l pt ps s \<longleftrightarrow> twf (mem s) l pt \<and> kmem_ok ps s
     \<and> tabs (mem s) l pt \<inter> set ps = {} \<and> 0 \<notin> tabs (mem s) l pt"

lemma tree_okD:
  assumes "tree_ok l pt ps s"
  shows "twf (mem s) l pt" "kmem_ok ps s" "tabs (mem s) l pt \<inter> set ps = {}" "0 \<notin> tabs (mem s) l pt"
    "distinct ps" "pg_aligned pt"
  using assms km.inv_distinct twf_aligned by (auto simp: tree_ok_def)

lemma grown_refl: "tree_ok l pt ps s \<Longrightarrow> grown l pt ps 0 s s"
  by (simp add: grown_def tree_ok_def)

lemma grown_tree_ok:
  assumes "tree_ok l pt ps s" and "grown l pt ps n s t"
  shows "tree_ok l pt (drop n ps) t"
proof -
  have "set (take n ps) \<inter> set (drop n ps) = {}"
    using tree_okD(5) [OF assms(1)] by (metis append_take_drop_id distinct_append)
  moreover have "0 \<notin> set ps" using kmem_ok_alignedD tree_okD(2) [OF assms(1)] by blast
  ultimately show ?thesis
    using assms set_drop_subset [of n ps] set_take_subset [of n ps]
    by (auto simp: tree_ok_def grown_def)
qed

lemma grown_trans:
  assumes "grown l pt ps n s t" and "grown l pt (drop n ps) k t u"
  shows "grown l pt ps (n + k) s u"
proof -
  have tk: "set (take (n + k) ps) = set (take n ps) \<union> set (take k (drop n ps))"
    by (simp add: take_add)
  have fr: "kend t = kend s" using assms(1) kmem_frameD by (auto simp: grown_def)
  show ?thesis
    using assms fr unfolding grown_def tk
    by (auto simp: add.commute intro: kmem_frame_trans)
qed

lemma grown_link:
  assumes ok: "tree_ok (Suc l) pt (pg # ps) s" and i: "i < 512" "\<not> present (mem s) pt i"
  defines "t \<equiv> take_page pg s\<lparr>mem := st64 (mem (take_page pg s)) (slot pt i) (PA2PTE pg OR PTE_V)\<rparr>"
  shows "grown (Suc l) pt (pg # ps) 1 s t" and "present (mem t) pt i" and "child (mem t) pt i = pg"
proof -
  have kok: "kmem_ok (pg # ps) s" by (rule tree_okD(2) [OF ok])
  note kc = kalloc_cleared [OF kok]
  have pg: "pg_aligned pg" "pg \<notin> tabs (mem s) (Suc l) pt" using kmem_ok_alignedD [OF kok] tree_okD(3) [OF ok] by auto
  have mt: "mem t = st64 (fill (mem s) pg 0 4096) (slot pt i) (PA2PTE pg OR PTE_V)"
    by (simp add: t_def kc(5))
  note lt = link_table [OF tree_okD(1) [OF ok] i pg mt]
  show "present (mem t) pt i" "child (mem t) pt i = pg" by (rule lt)+
  have "kmem_ok ps t"
    unfolding t_def
  proof (rule kmem_ok_mem [OF kc(3)])
    fix x assume "PGROUNDDOWN x \<in> set ps"
    then show "st64 (mem (take_page pg s)) (slot pt i) (PA2PTE pg OR PTE_V) x = mem (take_page pg s) x"
      using tree_okD(3,6) [OF ok] i(1) by (intro st64_page) auto
  qed
  moreover have "kmem_frame s t" unfolding t_def using kc(4) kmem_frame_upd kmem_frame_trans by blast
  moreover have "rc t q = rc (take_page pg s) q" for q by (simp add: t_def rc_def)
  moreover have "mem t x = mem s x" if "PGROUNDDOWN x \<notin> insert pg (tabs (mem s) (Suc l) pt)" for x
    using that by (intro lt(8)) auto
  ultimately show "grown (Suc l) pt (pg # ps) 1 s t"
    using lt(1,2,5) kc(7) by (auto simp: grown_def simp del: leaf_Suc tabs.simps twf.simps)
qed

lemma grown_lift:
  assumes ok: "tree_ok (Suc l) pt ps s" and i: "i < 512" "present (mem s) pt i"
    and sub: "grown l (child (mem s) pt i) ps n s t"
  shows "grown (Suc l) pt ps n s t"
    and "present (mem t) pt i" and "child (mem t) pt i = child (mem s) pt i"
proof -
  let ?c = "child (mem s) pt i" and ?N = "set (take n ps)"
  have out: "mem t x = mem s x" if "PGROUNDDOWN x \<notin> tabs (mem s) l ?c \<union> ?N" for x
    using sub that by (simp add: grown_def)
  have N: "?N \<inter> tabs (mem s) (Suc l) pt = {}" using tree_okD(3) [OF ok] set_take_subset [of n ps] by blast
  have st: "twf (mem t) l ?c" "tabs (mem t) l ?c = tabs (mem s) l ?c \<union> ?N" using sub by (auto simp: grown_def)
  note sc = subtree_change [OF tree_okD(1) [OF ok] i out N st]
  have ij: "present (mem t) pt j = present (mem s) pt j" "child (mem t) pt j = child (mem s) pt j" if "j < 512" for j
    using sc(3,4) [of j] that by auto
  show "present (mem t) pt i" "child (mem t) pt i = ?c" using ij i by auto
  have lf: "leaf (mem t) (Suc l) pt va = leaf (mem s) (Suc l) pt va" for va
  proof (cases "px (Suc l) va = i")
    case True
    with i ij sub show ?thesis by (simp add: grown_def)
  next
    case False
    with ij sc(5) show ?thesis by simp
  qed
  have sub_tabs: "tabs (mem s) l ?c \<subseteq> tabs (mem s) (Suc l) pt" using i by auto
  show "grown (Suc l) pt ps n s t"
    using sub sub_tabs sc(1,2) lf unfolding grown_def by (auto simp del: leaf_Suc tabs.simps twf.simps)
qed

lemma child_tree_ok:
  assumes "tree_ok (Suc l) pt ps s" and "i < 512" "present (mem s) pt i"
  shows "tree_ok l (child (mem s) pt i) ps s"
proof -
  have "tabs (mem s) l (child (mem s) pt i) \<subseteq> tabs (mem s) (Suc l) pt" using assms(2,3) by auto
  then show ?thesis using assms unfolding tree_ok_def by auto
qed

lemma slot_nonzero: "pg_aligned t \<Longrightarrow> i < 512 \<Longrightarrow> t \<noteq> 0 \<Longrightarrow> slot t i \<noteq> 0"
proof
  assume a: "pg_aligned t" "i < 512" "t \<noteq> 0" and "slot t i = 0"
  then have "t = PGROUNDDOWN 0" using slot_page [of t i] by simp
  then show False using a by (simp add: PGROUNDDOWN_def)
qed

lemma walk_level_alloc:
  assumes "tree_ok l pt ps s"
  shows "\<exists>n r t. walk_level pt va True l s = Ok r t \<and> grown l pt ps n s t \<and> n \<le> l
     \<and> (if r = 0 then drop n ps = [] \<and> n < l else lookup_level (mem t) pt va l = Some r)"
  using assms
proof (induction l arbitrary: pt ps s)
  case 0
  then have "slot pt (px 0 va) \<noteq> 0"
    using slot_nonzero [of pt "px 0 va"] by (auto simp: tree_ok_def)
  with 0 show ?case
    by (intro exI [of _ 0] exI [of _ "slot pt (px 0 va)"] exI [of _ s]) (simp add: grown_refl pte_addr_slot)
next
  case (Suc l)
  let ?i = "px (Suc l) va"
  have below: "\<exists>n r t. walk_level (child (mem s) pt ?i) va True l s = Ok r t \<and> grown (Suc l) pt ps n s t \<and> n \<le> l
     \<and> (if r = 0 then drop n ps = [] \<and> n < l else lookup_level (mem t) pt va (Suc l) = Some r)"
    if ok: "tree_ok (Suc l) pt ps s" and p: "present (mem s) pt ?i" for ps and s :: "'a kmem_scheme"
  proof -
    from Suc.IH [OF child_tree_ok [OF ok px_lt p]] obtain n r t
      where *: "walk_level (child (mem s) pt ?i) va True l s = Ok r t"
        "grown l (child (mem s) pt ?i) ps n s t" "n \<le> l"
        "if r = 0 then drop n ps = [] \<and> n < l else lookup_level (mem t) (child (mem s) pt ?i) va l = Some r"
      by blast
    with grown_lift [OF ok px_lt p *(2)] show ?thesis
      by (intro exI [of _ n] exI [of _ r] exI [of _ t]) auto
  qed
  have pv: "ld64 (mem s) (pte_addr pt (Suc l) va) AND PTE_V \<noteq> 0 \<longleftrightarrow> present (mem s) pt ?i"
    by (simp only: present_iff)
  show ?case
  proof (cases "present (mem s) pt ?i")
    case True
    have "child (mem s) pt ?i = PTE2PA (ld64 (mem s) (pte_addr pt (Suc l) va))"
      by (simp add: child_def pte_addr_slot)
    then have "walk_level pt va True (Suc l) s = walk_level (child (mem s) pt ?i) va True l s"
      using True by (simp add: load64_def pv)
    with below [OF Suc.prems True] show ?thesis
      by (metis le_SucI less_SucI)
  next
    case False
    show ?thesis
    proof (cases ps)
      case Nil
      with Suc.prems have "kalloc s = Ok 0 s" by (simp add: km.alloc_null tree_ok_def)
      then have "walk_level pt va True (Suc l) s = Ok 0 s" using False by (simp add: load64_def pv bnd_Ok)
      then show ?thesis using Nil grown_refl [OF Suc.prems]
        by (intro exI [of _ 0] exI [of _ s]) auto
    next
      case (Cons pg ps')
      note ok = Suc.prems [unfolded Cons]
      note kc = kalloc_cleared [OF tree_okD(2) [OF ok]]
      let ?t = "take_page pg s\<lparr>mem := st64 (mem (take_page pg s)) (slot pt ?i) (PA2PTE pg OR PTE_V)\<rparr>"
      note gl = grown_link [OF ok px_lt False]
      have ok': "tree_ok (Suc l) pt ps' ?t" using grown_tree_ok [OF ok gl(1)] by simp
      have nz: "pg \<noteq> 0" using kmem_ok_alignedD [OF tree_okD(2) [OF ok]] by simp
      have run: "walk_level pt va True (Suc l) s = walk_level pg va True l ?t"
        using False nz
        by (simp add: load64_def present_def bnd_Ok thn_Ok kc(1,2) store64_def set_mem_def pte_addr_slot)
      from below [OF ok' gl(2), unfolded gl(3)] obtain n r u where *: "walk_level pg va True l ?t = Ok r u"
          "grown (Suc l) pt ps' n ?t u" "n \<le> l"
          "if r = 0 then drop n ps' = [] \<and> n < l else lookup_level (mem u) pt va (Suc l) = Some r"
        by blast
      have "grown (Suc l) pt ps (1 + n) s u" unfolding Cons using gl(1) *(2) by (intro grown_trans [where n = 1]) auto
      moreover have "if r = 0 then drop (1 + n) ps = [] \<and> 1 + n < Suc l else lookup_level (mem u) pt va (Suc l) = Some r"
        using *(4) by (simp add: Cons del: lookup_level.simps split: if_splits)
      moreover have "walk_level pt va True (Suc l) s = Ok r u" by (rule trans [OF run *(1)])
      moreover have "1 + n \<le> Suc l" using *(3) by simp
      ultimately show ?thesis by blast
    qed
  qed
qed


section \<open>Mapping one page\<close>

text \<open>A store into the slot that a lookup found changes that translation and no other.\<close>

lemma leaf_store:
  assumes "twf m l pt" and "lookup_level m pt va l = Some a" and "l \<le> 2"
  shows "leaf (st64 m a v) l pt va = v"
    and "\<exists>k\<le>l. px k va' \<noteq> px k va \<Longrightarrow> leaf (st64 m a v) l pt va' = leaf m l pt va'"
    and "tabs (st64 m a v) l pt = tabs m l pt" and "twf (st64 m a v) l pt"
    and "lookup_level (st64 m a v) pt va l = Some a"
proof -
  have "leaf (st64 m a v) l pt va = v \<and> tabs (st64 m a v) l pt = tabs m l pt \<and> twf (st64 m a v) l pt
     \<and> lookup_level (st64 m a v) pt va l = Some a
     \<and> (\<forall>va'. (\<exists>k\<le>l. px k va' \<noteq> px k va) \<longrightarrow> leaf (st64 m a v) l pt va' = leaf m l pt va')"
    using assms
  proof (induction l arbitrary: pt)
    case 0
    then show ?case by (auto simp: ld64_st64_slot)
  next
    case (Suc l)
    let ?i = "px (Suc l) va" and ?m = "st64 m a v"
    have p: "present m pt ?i" and lk: "lookup_level m (child m pt ?i) va l = Some a"
      using Suc.prems(2) by (auto split: if_splits)
    let ?c = "child m pt ?i"
    have wfc: "twf m l ?c" "pt \<notin> tabs m l ?c" using Suc.prems(1) p px_lt by auto
    have ih: "leaf ?m l ?c va = v" "tabs ?m l ?c = tabs m l ?c" "twf ?m l ?c" "lookup_level ?m ?c va l = Some a"
        "\<forall>va'. (\<exists>k\<le>l. px k va' \<noteq> px k va) \<longrightarrow> leaf ?m l ?c va' = leaf m l ?c va'"
      using Suc.IH [OF wfc(1) lk] Suc.prems(3) by auto
    obtain t where t: "t \<in> tabs m l ?c" "pg_aligned t" "a = slot t (px 0 va)"
      using lookup_slot [OF wfc(1) lk] by blast
    have out: "?m x = m x" if "PGROUNDDOWN x \<notin> tabs m l ?c \<union> {}" for x
      using that t by (auto intro!: st64_page)
    note sc = subtree_change [where N = "{}", OF Suc.prems(1) px_lt p out _ ih(3), simplified, OF ih(2)]
    have ij: "present ?m pt j = present m pt j" "child ?m pt j = child m pt j" if "j < 512" for j
      using sc(3,4) [of j] that by auto
    have other: "leaf ?m (Suc l) pt va' = leaf m (Suc l) pt va'" if "\<exists>k\<le>Suc l. px k va' \<noteq> px k va" for va'
    proof (cases "px (Suc l) va' = ?i")
      case True
      with that have "\<exists>k\<le>l. px k va' \<noteq> px k va" by (metis le_Suc_eq)
      with True ij ih(5) p show ?thesis by simp
    next
      case False
      then show ?thesis using ij sc(5) [of "px (Suc l) va'"] by simp
    qed
    show ?case using ij p ih sc(1,2) other by auto
  qed
  then show "leaf (st64 m a v) l pt va = v"
    and "\<exists>k\<le>l. px k va' \<noteq> px k va \<Longrightarrow> leaf (st64 m a v) l pt va' = leaf m l pt va'"
    and "tabs (st64 m a v) l pt = tabs m l pt" and "twf (st64 m a v) l pt"
    and "lookup_level (st64 m a v) pt va l = Some a" by auto
qed

text \<open>
  The contract of \<^verbatim>\<open>walk\<close> with \<open>alloc\<close> set, and of \<^verbatim>\<open>mappages\<close> for one page. Both return; without memory
  for the tables they report failure, and whatever happens no other translation changes.
\<close>

lemma walk_alloc:
  assumes "tree_ok 2 pt ps s" and "va < MAXVA"
  shows "\<exists>n r t. walk pt va True s = Ok r t \<and> grown 2 pt ps n s t \<and> n \<le> 2
     \<and> (if r = 0 then drop n ps = [] \<and> n < 2 else lookup_level (mem t) pt va 2 = Some r)"
  using walk_level_alloc [OF assms(1), of va] assms(2) by (simp add: walk_def not_le)

definition same_page :: "uint64 \<Rightarrow> uint64 \<Rightarrow> bool" where
  "same_page va va' \<longleftrightarrow> (\<forall>k\<le>2. px k va' = px k va)"

lemma same_page_iff:
  "va < MAXVA \<Longrightarrow> va' < MAXVA \<Longrightarrow> same_page va va' \<longleftrightarrow> PGROUNDDOWN va = PGROUNDDOWN va'"
proof
  assume lt: "va < MAXVA" "va' < MAXVA" and "same_page va va'"
  then have "px k va = px k va'" if "k \<le> 2" for k using that by (simp add: same_page_def)
  then show "PGROUNDDOWN va = PGROUNDDOWN va'"
    by (intro px_page_inj [OF lt]) simp_all
next
  assume "PGROUNDDOWN va = PGROUNDDOWN va'"
  then show "same_page va va'" unfolding same_page_def using px_page_cong [of va va'] by simp
qed

lemma leaf_store2:
  assumes "twf m 2 pt" and "lookup_level m pt va 2 = Some a"
  shows "leaf (st64 m a v) 2 pt va' = (if same_page va va' then v else leaf m 2 pt va')"
    and "tabs (st64 m a v) 2 pt = tabs m 2 pt" and "twf (st64 m a v) 2 pt"
proof -
  note ls = leaf_store [OF assms order_refl]
  have "leaf (st64 m a v) 2 pt va' = leaf (st64 m a v) 2 pt va" if "same_page va va'"
  proof -
    have "lookup_level x y va' 2 = lookup_level x y va 2" for x y
      using that by (simp add: same_page_def numeral_2_eq_2)
    then show ?thesis by (simp add: leaf_def)
  qed
  then show "leaf (st64 m a v) 2 pt va' = (if same_page va va' then v else leaf m 2 pt va')"
    using ls(1,2) by (auto simp: same_page_def)
  show "tabs (st64 m a v) 2 pt = tabs m 2 pt" "twf (st64 m a v) 2 pt" by (rule ls)+
qed

text \<open>\<open>mapped va v s t\<close>: \<open>t\<close> is \<open>s\<close> with the translation of the page of \<open>va\<close> set to \<open>v\<close>, using up the
  first \<open>n\<close> free pages for tables.\<close>

definition mapped :: "uint64 \<Rightarrow> uint64 \<Rightarrow> pte_t \<Rightarrow> uint64 list \<Rightarrow> nat \<Rightarrow> 'x kmem_scheme \<Rightarrow> 'x kmem_scheme \<Rightarrow> bool" where
  "mapped pt va v ps n s t \<longleftrightarrow> tree_ok 2 pt (drop n ps) t \<and> n \<le> 2 \<and> n \<le> length ps \<and> kmem_frame s t
     \<and> tabs (mem t) 2 pt = tabs (mem s) 2 pt \<union> set (take n ps)
     \<and> (\<forall>x. PGROUNDDOWN x \<notin> tabs (mem s) 2 pt \<union> set (take n ps) \<longrightarrow> mem t x = mem s x)
     \<and> (\<forall>va'. leaf (mem t) 2 pt va' = (if same_page va va' then v else leaf (mem s) 2 pt va'))
     \<and> (\<forall>q. valid_pa (kend s) q \<longrightarrow> q \<notin> set (take n ps) \<longrightarrow> rc t q = rc s q)"

lemma mappages_page:
  assumes ok: "tree_ok 2 pt ps s" and va: "va < MAXVA" "pg_aligned va"
    and free: "leaf (mem s) 2 pt va AND PTE_V = 0"
  shows "\<exists>n t. (mappages pt va PGSIZE pa perm s = Ok 0 t \<and> mapped pt va (PA2PTE pa OR scast perm OR PTE_V) ps n s t)
     \<or> (mappages pt va PGSIZE pa perm s = Ok (-1) t \<and> grown 2 pt ps n s t \<and> n < 2 \<and> drop n ps = [])"
proof -
  have u: "unat (4095 :: uint64) < 4096" by simp
  have e: "va + PGSIZE - 1 = va + 4095" by (simp add: PGSIZE_def)
  have lst: "PGROUNDDOWN (va + PGSIZE - 1) = va"
    unfolding e by (rule PGROUNDDOWN_add [OF va(2) u])
  obtain n r t where w: "walk pt va True s = Ok r t" "grown 2 pt ps n s t" "n \<le> 2"
      "if r = 0 then drop n ps = [] \<and> n < 2 else lookup_level (mem t) pt va 2 = Some r"
    using walk_alloc [OF ok va(1)] by blast
  have loop: "mappages pt va PGSIZE pa perm s =
      (if r = 0 then Ok (-1) t
       else if ld64 (mem t) r AND PTE_V \<noteq> 0 then Panic ''mappages: remap''
       else Ok 0 (t\<lparr>mem := st64 (mem t) r (PA2PTE pa OR scast perm OR PTE_V)\<rparr>))"
    using va w(1) lst
    by (simp add: mappages_def mappages_loop.simps [of pt va va] bnd_Ok thn_def load64_def store64_def set_mem_def
        not_le PGSIZE_def)
  show ?thesis
  proof (cases "r = 0")
    case True
    with w loop show ?thesis by auto
  next
    case False
    with w have lk: "lookup_level (mem t) pt va 2 = Some r" by simp
    have okt: "tree_ok 2 pt (drop n ps) t" by (rule grown_tree_ok [OF ok w(2)])
    note ls = leaf_store2 [OF tree_okD(1) [OF okt] lk]
    have "leaf (mem t) 2 pt va = leaf (mem s) 2 pt va" using w(2) by (simp add: grown_def)
    then have "ld64 (mem t) r = leaf (mem s) 2 pt va" using lk by (simp add: leaf_def)
    with free False have run: "mappages pt va PGSIZE pa perm s =
        Ok 0 (t\<lparr>mem := st64 (mem t) r (PA2PTE pa OR scast perm OR PTE_V)\<rparr>)" by (simp add: loop)
    obtain tb where tb: "tb \<in> tabs (mem t) 2 pt" "pg_aligned tb" "r = slot tb (px 0 va)"
      using lookup_slot [OF tree_okD(1) [OF okt] lk] by blast
    have out: "st64 (mem t) r v x = mem t x" if "PGROUNDDOWN x \<notin> tabs (mem t) 2 pt" for x v
      using that tb by (auto intro!: st64_page)
    let ?u = "t\<lparr>mem := st64 (mem t) r (PA2PTE pa OR scast perm OR PTE_V)\<rparr>"
    have "kmem_ok (drop n ps) ?u"
      using tree_okD(2,3) [OF okt] by (intro kmem_ok_mem) (auto intro!: out)
    then have "tree_ok 2 pt (drop n ps) ?u" using okt ls by (simp add: tree_ok_def)
    then have "mapped pt va (PA2PTE pa OR scast perm OR PTE_V) ps n s ?u"
      using w(2,3) ls out kmem_frame_trans [OF _ kmem_frame_upd] by (auto simp: mapped_def grown_def rc_def)
    with run show ?thesis by blast
  qed
qed

end
