(* ===== verification/Cow.thy ===== *)
theory Cow
  imports VmInv
begin

text \<open>
  Copy-on-write: \<^verbatim>\<open>uvmcopy\<close> (\<^verbatim>\<open>kernel/vm.c\<close>) shares the pages of a process with its child, and
  \<^verbatim>\<open>cowtest_h\<close> (\<^verbatim>\<open>kernel/trap.c\<close>) gives a process its own copy of a shared page on a store fault.
  The results are stated on the memory a process sees through its page table.
\<close>

section \<open>Copy-on-write PTEs\<close>

definition share_pte :: "pte_t \<Rightarrow> pte_t" where
  "share_pte v = PA2PTE (PTE2PA (cow_pte v)) OR PTE_FLAGS (cow_pte v) OR PTE_V"

lemma and_pow_iff: "(v AND push_bit n 1 = 0) \<longleftrightarrow> \<not> bit v n" if "n < LENGTH('a)" for v :: "'a::len word"
proof
  assume "v AND push_bit n 1 = 0"
  then have "\<not> bit (v AND push_bit n 1) n" by simp
  then show "\<not> bit v n" using that by (simp add: bit_simps)
next
  assume "\<not> bit v n"
  then show "v AND push_bit n 1 = 0" by (intro bit_eqI) (auto simp: bit_simps)
qed

lemma flag_bits:
  "v AND PTE_V = 0 \<longleftrightarrow> \<not> bit v 0" "v AND PTE_R = 0 \<longleftrightarrow> \<not> bit v 1" "v AND PTE_W = 0 \<longleftrightarrow> \<not> bit v 2"
  "v AND PTE_U = 0 \<longleftrightarrow> \<not> bit v 4" "v AND PTE_RSW = 0 \<longleftrightarrow> \<not> bit v 8"
  unfolding PTE_V_def PTE_R_def PTE_W_def PTE_U_def PTE_RSW_def by (rule and_pow_iff; simp)+

lemma bit_pow64: "n < 64 \<Longrightarrow> bit (push_bit n 1 :: uint64) k \<longleftrightarrow> k = n"
  by (auto simp: bit_simps)

lemma bit_lt_64: "bit (v :: uint64) n \<Longrightarrow> n < 64"
  using bit_imp_le_length [of v n] by simp

lemma bit_cow_pte:
  "bit (cow_pte v) n \<longleftrightarrow> (if bit v 2 \<and> n = 2 then False else if bit v 2 \<and> n = 8 then True else bit v n)"
  by (simp only: cow_pte_def flag_bits if_split [of "\<lambda>x. bit x n = _"] bit_or_iff bit_and_iff bit_not_iff bit_pow64)
    (auto dest: bit_lt_64)

lemma bit_PTE2PA: "bit (PTE2PA v) n \<longleftrightarrow> 12 \<le> n \<and> n < 64 \<and> bit v (n - 2)"
  by (auto simp: PTE2PA_def bit_simps)

lemma PTE2PA_aligned [simp]: "pg_aligned (PTE2PA v)"
proof -
  have "PGROUNDDOWN (PTE2PA v) = PTE2PA v"
    by (rule bit_eqI) (auto simp: PGROUNDDOWN_def pgmask bit_simps bit_PTE2PA)
  then show ?thesis using pg_aligned_PGROUNDDOWN [of "PTE2PA v"] by simp
qed

lemma PTE2PA_cow [simp]: "PTE2PA (cow_pte v) = PTE2PA v"
  by (rule bit_eqI) (auto simp: bit_PTE2PA bit_cow_pte)

lemma PTE_FLAGS_mask: "PTE_FLAGS v = v AND mask 10"
  by (simp add: PTE_FLAGS_def mask_eq_exp_minus_1)

lemma bit_PTE_FLAGS: "bit (PTE_FLAGS v) n \<longleftrightarrow> n < 10 \<and> bit v n"
  by (auto simp: PTE_FLAGS_mask bit_simps)

text \<open>The flags as an \<^verbatim>\<open>int\<close>.\<close>

lemma flags_int: "scast (ucast (PTE_FLAGS v) :: cint) = PTE_FLAGS v"
  by (rule bit_eqI) (auto simp: bit_simps bit_PTE_FLAGS)

lemma flags_lt: "PTE_FLAGS v OR PTE_V < 1024"
proof -
  have "PTE_FLAGS v OR PTE_V = take_bit 10 (PTE_FLAGS v OR PTE_V)"
    by (rule bit_eqI) (auto simp: bit_simps bit_PTE_FLAGS PTE_V_def)
  then have "unat (PTE_FLAGS v OR PTE_V) < 2 ^ 10"
    by (metis take_bit_nat_less_exp unsigned_take_bit_eq)
  then show ?thesis by (simp add: word_less_nat_alt)
qed

lemma PTE2PA_share [simp]: "PTE2PA (share_pte v) = PTE2PA v"
  using PTE2PA_PA2PTE [OF PTE2PA_aligned flags_lt, of "cow_pte v" "cow_pte v"]
  by (simp add: share_pte_def or.assoc)

lemma bit_share_pte: "n < 10 \<Longrightarrow> bit (share_pte v) n \<longleftrightarrow> n = 0 \<or> bit (cow_pte v) n"
  by (auto simp: share_pte_def bit_simps PA2PTE_def bit_PTE_FLAGS PTE_V_def)

lemma cow_flags [simp]:
  "cow_pte v AND PTE_W = 0" "share_pte v AND PTE_W = 0" "share_pte v AND PTE_V \<noteq> 0"
  "cow_pte v AND PTE_V = 0 \<longleftrightarrow> v AND PTE_V = 0"
  by (simp_all add: flag_bits bit_cow_pte bit_share_pte)

lemma cow_keeps:
  "cow_pte v AND PTE_U = 0 \<longleftrightarrow> v AND PTE_U = 0" "cow_pte v AND PTE_R = 0 \<longleftrightarrow> v AND PTE_R = 0"
  "share_pte v AND PTE_U = 0 \<longleftrightarrow> v AND PTE_U = 0" "share_pte v AND PTE_R = 0 \<longleftrightarrow> v AND PTE_R = 0"
  "cow_pte v AND PTE_RSW = 0 \<longleftrightarrow> v AND PTE_RSW = 0 \<and> v AND PTE_W = 0"
  by (auto simp: flag_bits bit_cow_pte bit_share_pte)

lemma cow_PTE_FLAGS:
  "PTE_FLAGS (cow_pte v) AND (NOT PTE_W AND NOT PTE_RSW) = PTE_FLAGS v AND (NOT PTE_W AND NOT PTE_RSW)"
  by (rule bit_eqI) (auto simp: bit_and_iff bit_not_iff bit_or_iff bit_PTE_FLAGS bit_cow_pte PTE_W_def PTE_RSW_def bit_pow64)

lemma share_PTE_FLAGS: "v AND PTE_V \<noteq> 0 \<Longrightarrow> PTE_FLAGS (share_pte v) = PTE_FLAGS (cow_pte v)"
  by (rule bit_eqI) (auto simp: bit_PTE_FLAGS bit_share_pte bit_cow_pte flag_bits)

section \<open>Counting references\<close>

definition add_ref :: "uint64 \<Rightarrow> 'x kmem_scheme \<Rightarrow> 'x kmem_scheme" where
  "add_ref pa s = s\<lparr>refcnt := (refcnt s)(pa div 4096 := refcnt s (pa div 4096) + 1)\<rparr>"

lemma valid_pa_index: "valid_pa e pa \<Longrightarrow> pa div PGSIZE < PHYSTOP div PGSIZE"
proof -
  assume v: "valid_pa e pa"
  then have "unat pa < 557056 * 4096" by (simp add: valid_pa_def PHYSTOP_def KERNBASE_def word_less_nat_alt)
  then have "unat pa div 4096 < 557056" by (simp add: div_less_iff_less_mult)
  moreover have "PHYSTOP div PGSIZE = 557056" by (simp add: PHYSTOP_def KERNBASE_def PGSIZE_def)
  ultimately show ?thesis by (simp add: word_less_nat_alt unat_div PGSIZE_def)
qed

lemma incref_run:
  assumes "valid_pa (kend s) pa" and "LRef \<notin> set (held s)"
  shows "incref pa s = Ok () (add_ref pa s)"
proof -
  have i: "pa div PGSIZE < PHYSTOP div PGSIZE" using assms(1) by (rule valid_pa_index)
  show ?thesis
    unfolding incref_def using assms(2) i
    by (simp only: if_True) (simp add: thn_def bnd_def lock_run add_ref_def PGSIZE_def)
qed

lemma add_ref_rc:
  assumes "valid_pa (kend s) pa" and "valid_pa (kend s) q" and "rc s pa < 2 ^ 31 - 1"
  shows "rc (add_ref pa s) q = rc s q + (if q = pa then 1 else 0)"
  using assms by (auto simp: rc_def add_ref_def pg_div_inj valid_pa_aligned sint_plus_one)

lemma add_ref_frame [simp]: "kmem_frame s (add_ref pa s)" "mem (add_ref pa s) = mem s" "kend (add_ref pa s) = kend s"
  "held (add_ref pa s) = held s"
  unfolding kmem_frame_def add_ref_def
  by (intro exI [of _ "mem s"] exI [of _ "freelist s"] exI [of _ "refcnt (add_ref pa s)"]) (simp_all add: add_ref_def)

lemma kmem_ok_add_ref:
  assumes ok: "kmem_ok ps s" and pa: "valid_pa (kend s) pa" "1 \<le> rc s pa" "rc s pa < 2 ^ 31 - 1"
  shows "kmem_ok ps (add_ref pa s)"
proof -
  have inv: "kmem_inv ps s" using ok by (simp add: kmem_ok_def)
  have "q \<in> set ps \<longleftrightarrow> rc (add_ref pa s) q \<le> 0" if "valid_pa (kend s) q" for q
    using that pa kmem_invD(5) [OF inv that] by (auto simp: add_ref_rc)
  then show ?thesis using ok by (simp add: kmem_ok_def kmem_inv_def rc_def add_ref_def)
qed

section \<open>Sharing one page\<close>

lemma tree_store:
  assumes ok: "tree_ok 2 pt ps s" and lk: "lookup_level (mem s) pt va 2 = Some a"
    and t_def: "t = s\<lparr>mem := st64 (mem s) a v\<rparr>"
  shows "tree_ok 2 pt ps t" and "tabs (mem t) 2 pt = tabs (mem s) 2 pt"
    and "leaf (mem t) 2 pt va' = (if same_page va va' then v else leaf (mem s) 2 pt va')"
    and "PGROUNDDOWN x \<notin> tabs (mem s) 2 pt \<Longrightarrow> mem t x = mem s x"
proof -
  note ls = leaf_store2 [OF tree_okD(1) [OF ok] lk, of v]
  obtain tb where tb: "tb \<in> tabs (mem s) 2 pt" "pg_aligned tb" "a = slot tb (px 0 va)"
    using lookup_slot [OF tree_okD(1) [OF ok] lk] by blast
  show out: "mem t x = mem s x" if "PGROUNDDOWN x \<notin> tabs (mem s) 2 pt" for x
    using that tb by (auto simp: t_def intro!: st64_page)
  have "kmem_ok ps t"
    unfolding t_def using tree_okD(2,3) [OF ok] out by (intro kmem_ok_mem) (auto simp: t_def)
  then show "tree_ok 2 pt ps t" using ok ls by (simp add: tree_ok_def t_def)
  show "tabs (mem t) 2 pt = tabs (mem s) 2 pt" using ls by (simp add: t_def)
  show "leaf (mem t) 2 pt va' = (if same_page va va' then v else leaf (mem s) 2 pt va')"
    using ls by (simp add: t_def)
qed

lemma tree_other:
  assumes ok: "tree_ok 2 pt ps s" and k: "kmem_ok ps' t" "set ps' \<subseteq> set ps"
    and same: "\<And>x. PGROUNDDOWN x \<in> tabs (mem s) 2 pt \<Longrightarrow> mem t x = mem s x"
  shows "tree_ok 2 pt ps' t" and "tabs (mem t) 2 pt = tabs (mem s) 2 pt"
    and "leaf (mem t) 2 pt va = leaf (mem s) 2 pt va"
    and "lookup_level (mem t) pt va 2 = lookup_level (mem s) pt va 2"
proof -
  note tc = tree_cong [OF tree_okD(1) [OF ok] same]
  show "tabs (mem t) 2 pt = tabs (mem s) 2 pt" by (rule tc(1))
  show "leaf (mem t) 2 pt va = leaf (mem s) 2 pt va" by (rule tc(4))
  show "lookup_level (mem t) pt va 2 = lookup_level (mem s) pt va 2" by (rule tc(3))
  show "tree_ok 2 pt ps' t" using ok k tc by (auto simp: tree_ok_def)
qed

lemma leaf_present:
  assumes "leaf m 2 pt va AND PTE_V \<noteq> 0"
  obtains a where "lookup_level m pt va 2 = Some a" "ld64 m a = leaf m 2 pt va" "walk0 m pt va = a"
  using assms by (cases "lookup_level m pt va 2") (auto simp: leaf_def walk0_def)

lemma walk0_nonzero:
  assumes ok: "tree_ok 2 pt ps s" and lk: "lookup_level (mem s) pt va 2 = Some a"
  shows "a \<noteq> 0"
proof -
  obtain tb where "tb \<in> tabs (mem s) 2 pt" "pg_aligned tb" "a = slot tb (px 0 va)"
    using lookup_slot [OF tree_okD(1) [OF ok] lk] by blast
  then show ?thesis using slot_nonzero [of tb "px 0 va"] tree_okD(4) [OF ok] by auto
qed

text \<open>Two page tables over the same allocator, with no page in common.\<close>

definition two_trees :: "uint64 \<Rightarrow> uint64 \<Rightarrow> uint64 list \<Rightarrow> 'x kmem_scheme \<Rightarrow> bool" where
  "two_trees old new ps s \<longleftrightarrow> tree_ok 2 old ps s \<and> tree_ok 2 new ps s
     \<and> tabs (mem s) 2 old \<inter> tabs (mem s) 2 new = {}"

text \<open>What one iteration of the loop of \<^verbatim>\<open>uvmcopy\<close> does to page \<open>va\<close>, when memory for tables is left.\<close>

definition shared1 :: "uint64 \<Rightarrow> uint64 \<Rightarrow> uint64 \<Rightarrow> uint64 list \<Rightarrow> nat \<Rightarrow> 'x kmem_scheme \<Rightarrow> 'x kmem_scheme \<Rightarrow> bool" where
  "shared1 old new va ps n s t \<longleftrightarrow> (let v = leaf (mem s) 2 old va in
       two_trees old new (drop n ps) t \<and> n \<le> 2 \<and> n \<le> length ps \<and> kmem_frame s t
     \<and> tabs (mem t) 2 old = tabs (mem s) 2 old
     \<and> tabs (mem t) 2 new = tabs (mem s) 2 new \<union> set (take n ps)
     \<and> (\<forall>x. PGROUNDDOWN x \<notin> tabs (mem s) 2 old \<union> tabs (mem s) 2 new \<union> set (take n ps) \<longrightarrow> mem t x = mem s x)
     \<and> (\<forall>va'. leaf (mem t) 2 old va' = (if same_page va va' then cow_pte v else leaf (mem s) 2 old va'))
     \<and> (\<forall>va'. leaf (mem t) 2 new va' = (if same_page va va' then share_pte v else leaf (mem s) 2 new va'))
     \<and> (\<forall>q. valid_pa (kend s) q \<longrightarrow> q \<notin> set (take n ps) \<longrightarrow>
          rc t q = rc s q + (if q = PTE2PA v then 1 else 0)))"

text \<open>The page is present in the old table, absent in the new one, and its count can grow.\<close>

definition sharable :: "uint64 \<Rightarrow> uint64 \<Rightarrow> uint64 \<Rightarrow> 'x kmem_scheme \<Rightarrow> bool" where
  "sharable old new va s \<longleftrightarrow> (let v = leaf (mem s) 2 old va in
     v AND PTE_V \<noteq> 0 \<and> leaf (mem s) 2 new va AND PTE_V = 0
     \<and> valid_pa (kend s) (PTE2PA v) \<and> 1 \<le> rc s (PTE2PA v) \<and> rc s (PTE2PA v) < 2 ^ 31 - 1)"

text \<open>The iteration up to \<^verbatim>\<open>mappages\<close>: the parent's PTE and the count are updated, nothing else.\<close>

lemma uvmcopy_body_prefix:
  assumes tt: "two_trees old new ps s" and va: "va < MAXVA" and sh: "sharable old new va s"
    and v: "v = leaf (mem s) 2 old va"
  obtains t where "uvmcopy_body old new va s = mappages new va PGSIZE (PTE2PA v) (ucast (PTE_FLAGS (cow_pte v))) t"
    and "two_trees old new ps t" and "kmem_frame s t"
    and "tabs (mem t) 2 old = tabs (mem s) 2 old" and "tabs (mem t) 2 new = tabs (mem s) 2 new"
    and "\<And>x. PGROUNDDOWN x \<notin> tabs (mem s) 2 old \<Longrightarrow> mem t x = mem s x"
    and "\<And>va'. leaf (mem t) 2 old va' = (if same_page va va' then cow_pte v else leaf (mem s) 2 old va')"
    and "\<And>va'. leaf (mem t) 2 new va' = leaf (mem s) 2 new va'"
    and "\<And>q. valid_pa (kend s) q \<Longrightarrow> rc t q = rc s q + (if q = PTE2PA v then 1 else 0)"
proof -
  have okO: "tree_ok 2 old ps s" and okN: "tree_ok 2 new ps s"
    and dj: "tabs (mem s) 2 old \<inter> tabs (mem s) 2 new = {}" using tt by (auto simp: two_trees_def)
  have V: "v AND PTE_V \<noteq> 0"
    and pa: "valid_pa (kend s) (PTE2PA v)" "1 \<le> rc s (PTE2PA v)" "rc s (PTE2PA v) < 2 ^ 31 - 1"
    using sh by (auto simp: sharable_def Let_def v)
  obtain a where a: "lookup_level (mem s) old va 2 = Some a" "ld64 (mem s) a = v" "walk0 (mem s) old va = a"
    using V unfolding v by (rule leaf_present)
  have a0: "a \<noteq> 0" by (rule walk0_nonzero [OF okO a(1)])
  define s1 where "s1 = s\<lparr>mem := st64 (mem s) a (cow_pte v)\<rparr>"
  note ts = tree_store [OF okO a(1) s1_def]
  have k1: "kmem_ok ps s1" "kend s1 = kend s" "held s1 = held s" "rc s1 q = rc s q" for q
    using ts(1) by (auto simp: tree_ok_def s1_def rc_def)
  have okN1: "tree_ok 2 new ps s1" "tabs (mem s1) 2 new = tabs (mem s) 2 new"
      "leaf (mem s1) 2 new va' = leaf (mem s) 2 new va'" for va'
    using dj ts(4) by (auto intro!: tree_other [OF okN k1(1)])
  define s2 where "s2 = add_ref (PTE2PA v) s1"
  have k2: "kmem_ok ps s2" unfolding s2_def using pa k1 by (intro kmem_ok_add_ref) auto
  have inc: "incref (PTE2PA v) s1 = Ok () s2"
    unfolding s2_def using pa(1) k1 by (intro incref_run) (auto simp: kmem_ok_def)
  have m2: "mem s2 = mem s1" by (simp add: s2_def)
  have "uvmcopy_body old new va s = mappages new va PGSIZE (PTE2PA v) (ucast (PTE_FLAGS (cow_pte v))) s2"
    using V a a0 va inc
    by (simp add: uvmcopy_body_def walk_noalloc bnd_Ok thn_Ok load64_def store64_def set_mem_def Let_def
        PTE_FLAGS_def PGSIZE_def flip: s1_def PTE2PA_def)
  moreover have "two_trees old new ps s2"
    using ts(1,2) okN1(1,2) k2 dj by (auto simp: two_trees_def tree_ok_def m2)
  moreover have "kmem_frame s s2"
    unfolding s2_def s1_def using kmem_frame_trans kmem_frame_upd add_ref_frame by blast
  moreover have "rc s2 q = rc s q + (if q = PTE2PA v then 1 else 0)" if "valid_pa (kend s) q" for q
    using that pa k1 by (simp add: s2_def add_ref_rc)
  ultimately show ?thesis
    using that [of s2] ts(2,3,4) okN1(2,3) by (simp add: m2)
qed

lemma uvmcopy_body_run:
  assumes tt: "two_trees old new ps s" and va: "va < MAXVA" "pg_aligned va"
    and sh: "sharable old new va s"
  shows "\<exists>n t. (uvmcopy_body old new va s = Ok 0 t \<and> shared1 old new va ps n s t)
     \<or> (uvmcopy_body old new va s = Ok (-1) t \<and> n < 2 \<and> drop n ps = [])"
proof -
  define v where "v = leaf (mem s) 2 old va"
  obtain u where run: "uvmcopy_body old new va s = mappages new va PGSIZE (PTE2PA v) (ucast (PTE_FLAGS (cow_pte v))) u"
    and tu: "two_trees old new ps u" and fr: "kmem_frame s u"
    and T: "tabs (mem u) 2 old = tabs (mem s) 2 old" "tabs (mem u) 2 new = tabs (mem s) 2 new"
    and out: "\<And>x. PGROUNDDOWN x \<notin> tabs (mem s) 2 old \<Longrightarrow> mem u x = mem s x"
    and lo: "\<And>va'. leaf (mem u) 2 old va' = (if same_page va va' then cow_pte v else leaf (mem s) 2 old va')"
    and ln: "\<And>va'. leaf (mem u) 2 new va' = leaf (mem s) 2 new va'"
    and rcu: "\<And>q. valid_pa (kend s) q \<Longrightarrow> rc u q = rc s q + (if q = PTE2PA v then 1 else 0)"
    using uvmcopy_body_prefix [OF tt va(1) sh v_def] by blast
  have okO: "tree_ok 2 old ps u" and okN: "tree_ok 2 new ps u"
    and dj: "tabs (mem u) 2 old \<inter> tabs (mem u) 2 new = {}" using tu by (auto simp: two_trees_def)
  have fru: "leaf (mem u) 2 new va AND PTE_V = 0" using sh by (simp add: ln sharable_def Let_def)
  obtain n t where "(uvmcopy_body old new va s = Ok 0 t \<and> mapped new va (share_pte v) ps n u t)
     \<or> (uvmcopy_body old new va s = Ok (-1) t \<and> n < 2 \<and> drop n ps = [])"
    using mappages_page [OF okN va fru, of "PTE2PA v" "ucast (PTE_FLAGS (cow_pte v))"] unfolding run share_pte_def PTE2PA_cow flags_int by blast
  moreover have "shared1 old new va ps n s t" if mp: "mapped new va (share_pte v) ps n u t"
  proof -
    have taken: "set (take n ps) \<inter> tabs (mem u) 2 old = {}"
      using tree_okD(3) [OF okO] set_take_subset [of n ps] by blast
    have same: "mem t x = mem u x" if "PGROUNDDOWN x \<in> tabs (mem u) 2 old" for x
      using mp that dj taken by (auto simp: mapped_def)
    have kt: "kmem_ok (drop n ps) t" using mp by (auto simp: mapped_def tree_ok_def)
    note tO = tree_other [OF okO kt set_drop_subset same]
    have "two_trees old new (drop n ps) t" using tO(1,2) mp dj taken by (auto simp: two_trees_def mapped_def)
    moreover have "kmem_frame s t" using fr mp kmem_frame_trans by (auto simp: mapped_def)
    moreover have "mem t x = mem s x"
      if "PGROUNDDOWN x \<notin> tabs (mem s) 2 old \<union> tabs (mem s) 2 new \<union> set (take n ps)" for x
      using that mp T out [of x] by (auto simp: mapped_def)
    moreover have "rc t q = rc s q + (if q = PTE2PA v then 1 else 0)"
      if "valid_pa (kend s) q" "q \<notin> set (take n ps)" for q
      using that mp rcu kmem_frameD [OF fr] by (simp add: mapped_def)
    ultimately show ?thesis
      using mp T tO(2,3) lo ln unfolding shared1_def Let_def v_def [symmetric] by (simp add: mapped_def)
  qed
  ultimately show ?thesis by blast
qed

section \<open>Sharing an address space\<close>

definition page_va :: "nat \<Rightarrow> uint64" where
  "page_va k = of_nat (4096 * k)"

definition npages :: "uint64 \<Rightarrow> nat" where
  "npages sz = (unat sz + 4095) div 4096"

text \<open>How many of the first \<open>k\<close> pages of \<open>pt\<close> are the physical page \<open>q\<close>.\<close>

definition uses :: "memory \<Rightarrow> uint64 \<Rightarrow> nat \<Rightarrow> uint64 \<Rightarrow> nat" where
  "uses m pt k q = length (filter (\<lambda>j. PTE2PA (leaf m 2 pt (page_va j)) = q) [0..<k])"

definition shared :: "uint64 \<Rightarrow> uint64 \<Rightarrow> nat \<Rightarrow> uint64 list \<Rightarrow> nat \<Rightarrow> 'x kmem_scheme \<Rightarrow> 'x kmem_scheme \<Rightarrow> bool" where
  "shared old new k ps n s t \<longleftrightarrow>
       two_trees old new (drop n ps) t \<and> n \<le> 2 * k \<and> n \<le> length ps \<and> kmem_frame s t
     \<and> tabs (mem t) 2 old = tabs (mem s) 2 old
     \<and> tabs (mem t) 2 new = tabs (mem s) 2 new \<union> set (take n ps)
     \<and> (\<forall>x. PGROUNDDOWN x \<notin> tabs (mem s) 2 old \<union> tabs (mem s) 2 new \<union> set (take n ps) \<longrightarrow> mem t x = mem s x)
     \<and> (\<forall>va<MAXVA. leaf (mem t) 2 old va =
          (if unat va div 4096 < k then cow_pte (leaf (mem s) 2 old va) else leaf (mem s) 2 old va))
     \<and> (\<forall>va<MAXVA. leaf (mem t) 2 new va =
          (if unat va div 4096 < k then share_pte (leaf (mem s) 2 old va) else leaf (mem s) 2 new va))
     \<and> (\<forall>q. valid_pa (kend s) q \<longrightarrow> q \<notin> set (take n ps) \<longrightarrow> rc t q = rc s q + int (uses (mem s) old k q))"

text \<open>The address space of \<open>old\<close> up to \<open>N\<close> pages is mapped to allocated pages, and that of \<open>new\<close> is empty.\<close>

definition copyable :: "uint64 \<Rightarrow> uint64 \<Rightarrow> nat \<Rightarrow> uint64 list \<Rightarrow> 'x kmem_scheme \<Rightarrow> bool" where
  "copyable old new N ps s \<longleftrightarrow> two_trees old new ps s
     \<and> (\<forall>j<N. let v = leaf (mem s) 2 old (page_va j) in
          v AND PTE_V \<noteq> 0 \<and> leaf (mem s) 2 new (page_va j) AND PTE_V = 0
        \<and> valid_pa (kend s) (PTE2PA v) \<and> 1 \<le> rc s (PTE2PA v) \<and> rc s (PTE2PA v) + int N < 2 ^ 31)"

lemma unat_page_va: "4096 * k < 2 ^ 64 \<Longrightarrow> unat (page_va k) = 4096 * k"
  unfolding page_va_def by (rule unat_of_nat_small) simp

lemma page_va_lt: "4096 * k < 2 ^ 38 \<Longrightarrow> page_va k < MAXVA"
  by (simp add: word_less_nat_alt MAXVA_def unat_page_va)

lemma page_va_aligned: "4096 * k < 2 ^ 64 \<Longrightarrow> pg_aligned (page_va k)"
  by (simp add: pg_aligned_unat unat_page_va)

lemma page_va_Suc: "page_va k + PGSIZE = page_va (Suc k)"
  by (simp add: page_va_def PGSIZE_def add.commute)

lemma same_page_va:
  "4096 * k < 2 ^ 38 \<Longrightarrow> va < MAXVA \<Longrightarrow> same_page (page_va k) va \<longleftrightarrow> unat va div 4096 = k"
  by (auto simp: same_page_iff page_va_lt PGROUNDDOWN_eq_iff unat_page_va)

lemma leaf_page_va:
  assumes "4096 * k < 2 ^ 38" "va < MAXVA" "unat va div 4096 = k"
  shows "leaf m 2 pt va = leaf m 2 pt (page_va k)"
proof -
  have "same_page (page_va k) va" using assms by (simp add: same_page_va)
  then have "lookup_level m pt va 2 = lookup_level m pt (page_va k) 2"
    by (simp add: same_page_def numeral_2_eq_2)
  then show ?thesis by (simp add: leaf_def)
qed

lemma shared_0: "two_trees old new ps s \<Longrightarrow> shared old new 0 ps 0 s s"
  by (simp add: shared_def uses_def)

lemma uses_le: "uses m pt k q \<le> k"
  unfolding uses_def by (rule order_trans [OF length_filter_le]) simp

lemma shared_sharable:
  assumes c: "copyable old new N ps s" and sh: "shared old new k ps n s t" and k: "k < N" "4096 * N \<le> 2 ^ 38"
  shows "sharable old new (page_va k) t"
proof -
  let ?v = "leaf (mem s) 2 old (page_va k)"
  have lt: "page_va k < MAXVA" "unat (page_va k) div 4096 = k"
    using k by (auto intro!: page_va_lt simp: unat_page_va)
  have v: "leaf (mem t) 2 old (page_va k) = ?v" "leaf (mem t) 2 new (page_va k) = leaf (mem s) 2 new (page_va k)"
    using sh lt by (auto simp: shared_def)
  have cv: "?v AND PTE_V \<noteq> 0" "leaf (mem s) 2 new (page_va k) AND PTE_V = 0"
      "valid_pa (kend s) (PTE2PA ?v)" "1 \<le> rc s (PTE2PA ?v)" "rc s (PTE2PA ?v) + int N < 2 ^ 31"
    using c k(1) by (auto simp: copyable_def Let_def)
  have kd: "kend t = kend s" using sh kmem_frameD by (auto simp: shared_def)
  have "kmem_inv ps s" using c by (auto simp: copyable_def two_trees_def tree_ok_def kmem_ok_def)
  then have "PTE2PA ?v \<notin> set ps" using kmem_invD(5) [of ps s "PTE2PA ?v"] cv by simp
  then have "PTE2PA ?v \<notin> set (take n ps)" using set_take_subset [of n ps] by blast
  then have "rc t (PTE2PA ?v) = rc s (PTE2PA ?v) + int (uses (mem s) old k (PTE2PA ?v))"
    using sh cv by (simp add: shared_def)
  then show ?thesis
    using cv v kd uses_le [of "mem s" old k "PTE2PA ?v"] k(1) by (simp add: sharable_def)
qed

lemma shared_Suc:
  assumes sh: "shared old new k ps n s t" and s1: "shared1 old new (page_va k) (drop n ps) n' t u"
    and k: "4096 * k < 2 ^ 38"
  shows "shared old new (Suc k) ps (n + n') s u"
proof -
  let ?v = "leaf (mem s) 2 old (page_va k)"
  have tk: "set (take (n + n') ps) = set (take n ps) \<union> set (take n' (drop n ps))"
    by (simp add: take_add)
  have lt: "page_va k < MAXVA" "unat (page_va k) div 4096 = k" using k by (auto intro!: page_va_lt simp: unat_page_va)
  have v: "leaf (mem t) 2 old (page_va k) = ?v" using sh lt by (simp add: shared_def)
  have kd: "kend t = kend s" using sh kmem_frameD by (auto simp: shared_def)
  note s1' = s1 [unfolded shared1_def Let_def v]
  show ?thesis
    unfolding shared_def tk
  proof (intro conjI allI impI)
    show "two_trees old new (drop (n + n') ps) u" using s1' by (simp add: add.commute)
    show "n + n' \<le> 2 * Suc k" "n + n' \<le> length ps" using sh s1' by (auto simp: shared_def)
    show "kmem_frame s u" using sh s1' kmem_frame_trans by (auto simp: shared_def)
    show "tabs (mem u) 2 old = tabs (mem s) 2 old" using sh s1' by (simp add: shared_def)
    show "tabs (mem u) 2 new = tabs (mem s) 2 new \<union> (set (take n ps) \<union> set (take n' (drop n ps)))"
      using sh s1' by (auto simp: shared_def)
    show "mem u x = mem s x" if "PGROUNDDOWN x \<notin> tabs (mem s) 2 old \<union> tabs (mem s) 2 new
        \<union> (set (take n ps) \<union> set (take n' (drop n ps)))" for x
      using sh s1' that by (simp add: shared_def)
    fix va assume va: "va < MAXVA"
    note sp = same_page_va [OF k va]
    show "leaf (mem u) 2 old va = (if unat va div 4096 < Suc k then cow_pte (leaf (mem s) 2 old va) else leaf (mem s) 2 old va)"
      using sh s1' va sp leaf_page_va [OF k va] by (auto simp: shared_def less_Suc_eq)
    show "leaf (mem u) 2 new va = (if unat va div 4096 < Suc k then share_pte (leaf (mem s) 2 old va) else leaf (mem s) 2 new va)"
      using sh s1' va sp leaf_page_va [OF k va] by (auto simp: shared_def less_Suc_eq)
  next
    fix q assume "valid_pa (kend s) q" "q \<notin> set (take n ps) \<union> set (take n' (drop n ps))"
    then show "rc u q = rc s q + int (uses (mem s) old (Suc k) q)"
      using sh s1' kd by (auto simp: shared_def uses_def)
  qed
qed

lemma npages_less: "k < npages sz \<longleftrightarrow> 4096 * k < unat sz"
  unfolding npages_def by (simp add: less_eq_div_iff_mult_less_eq Suc_le_eq [symmetric]) linarith

lemma uvmcopy_loop_shared:
  assumes c: "copyable old new (npages sz) ps s" and sz: "sz \<le> MAXVA" and mem: "2 * npages sz \<le> length ps"
    and sh: "shared old new k ps n s t" and k: "k \<le> npages sz"
  shows "\<exists>n u. uvmcopy_loop old new (page_va k) sz t = Ok 0 u \<and> shared old new (npages sz) ps n s u"
  using sh k
proof (induction "npages sz - k" arbitrary: k n t)
  case 0
  have "unat sz \<le> 2 ^ 38" using sz by (simp add: word_le_nat_alt MAXVA_def)
  have "k = npages sz" using 0 by simp
  then have "unat sz \<le> 4096 * k" "4096 * k < 2 ^ 64"
    using npages_less [of k sz] \<open>unat sz \<le> 2 ^ 38\<close> by (simp_all add: npages_def)
  then have "\<not> page_va k < sz" by (simp add: word_less_nat_alt unat_page_va)
  then have "uvmcopy_loop old new (page_va k) sz t = Ok 0 t" by (simp add: uvmcopy_loop.simps)
  with 0 \<open>k = npages sz\<close> show ?case by blast
next
  case (Suc d)
  have k: "k < npages sz" using Suc.hyps(2) by simp
  have szn: "unat sz \<le> 2 ^ 38" using sz by (simp add: word_le_nat_alt MAXVA_def)
  have N: "4096 * npages sz \<le> 2 ^ 38" using szn unfolding npages_def by simp
  have k38: "4096 * k < 2 ^ 38" using k N by simp
  have i: "page_va k < sz" "page_va k < MAXVA" "pg_aligned (page_va k)"
    using k k38 by (auto simp: word_less_nat_alt [of _ sz] unat_page_va npages_less intro!: page_va_lt page_va_aligned)
  have tt: "two_trees old new (drop n ps) t" and n: "n \<le> 2 * k" using Suc.prems(1) by (auto simp: shared_def)
  have free: "2 \<le> length (drop n ps)" using n k mem by simp
  obtain n' u where b: "(uvmcopy_body old new (page_va k) t = Ok 0 u \<and> shared1 old new (page_va k) (drop n ps) n' t u)
     \<or> (uvmcopy_body old new (page_va k) t = Ok (-1) u \<and> n' < 2 \<and> drop n' (drop n ps) = [])"
    using uvmcopy_body_run [OF tt i(2,3) shared_sharable [OF c Suc.prems(1) k N]] by blast
  with free have b: "uvmcopy_body old new (page_va k) t = Ok 0 u" "shared1 old new (page_va k) (drop n ps) n' t u"
    by auto
  note sh' = shared_Suc [OF Suc.prems(1) b(2) k38]
  have "uvmcopy_loop old new (page_va k) sz t = uvmcopy_loop old new (page_va (Suc k)) sz u"
    using i b(1) i(2) [folded not_le] by (simp add: uvmcopy_loop.simps [of old new "page_va k"] bnd_Ok page_va_Suc)
  with Suc.hyps(1) [of "Suc k", OF _ sh'] Suc.hyps(2) k show ?case by auto
qed

section \<open>The store fault\<close>

definition cowtest_h :: "pagetable_t \<Rightarrow> uint64 \<Rightarrow> ('x kmem_scheme, int) kmon" where
  "cowtest_h pt va =
     (if va \<ge> push_bit (9 + 9 + 9 + 12 - 1) 1 then ret (-1)
      else bnd (walk pt va False) (\<lambda>pte.
        if pte = 0 then ret (-1)
        else bnd (load64 pte) (\<lambda>v.
          if v AND PTE_RSW = 0 \<or> v AND PTE_U = 0 \<or> v AND PTE_V = 0 then ret (-1)
          else bnd kalloc (\<lambda>pg.
            if pg = 0 then ret (-1)
            else bnd (load64 pte) (\<lambda>v.
              let old_phys_addr = push_bit 12 (drop_bit 10 v) in
              thn (memmove pg old_phys_addr 4096)
              (thn (kfree old_phys_addr)
              (bnd (load64 pte) (\<lambda>v.
               let f = v AND 0x3FF in
               thn (store64 pte (push_bit 10 (drop_bit 12 pg) OR f OR push_bit 2 1))
               (thn (bnd (load64 pte) (\<lambda>v. store64 pte (v AND NOT PTE_RSW)))
               (ret 0))))))))))"

text \<open>The PTE that the handler leaves.\<close>

definition own_pte :: "uint64 \<Rightarrow> pte_t \<Rightarrow> pte_t" where
  "own_pte pg v = (PA2PTE pg OR PTE_FLAGS v OR PTE_W) AND NOT PTE_RSW"

lemma flags_W_lt: "PTE_FLAGS v OR PTE_W < 1024"
proof -
  have "PTE_FLAGS v OR PTE_W = take_bit 10 (PTE_FLAGS v OR PTE_W)"
    unfolding PTE_W_def by (rule bit_eqI) (simp only: bit_simps bit_pow64 bit_PTE_FLAGS, auto)
  then have "unat (PTE_FLAGS v OR PTE_W) < 2 ^ 10"
    by (metis take_bit_nat_less_exp unsigned_take_bit_eq)
  then show ?thesis by (simp add: word_less_nat_alt)
qed

lemma PTE2PA_own: "pg_aligned pg \<Longrightarrow> PTE2PA (own_pte pg v) = pg"
proof -
  assume "pg_aligned pg"
  then have "PTE2PA (PA2PTE pg OR PTE_FLAGS v OR PTE_W) = pg"
    using PTE2PA_PA2PTE [OF _ flags_W_lt] by (simp add: or.assoc)
  moreover have "PTE2PA (x AND NOT PTE_RSW) = PTE2PA x" for x
    unfolding PTE_RSW_def by (rule bit_eqI) (simp only: bit_PTE2PA bit_and_iff bit_not_iff bit_pow64, auto)
  ultimately show ?thesis by (simp add: own_pte_def)
qed

lemma bit_PA2PTE_low: "n < 10 \<Longrightarrow> \<not> bit (PA2PTE pa) n"
  by (simp add: PA2PTE_def bit_simps)

lemma bit_own_pte: "n < 10 \<Longrightarrow> bit (own_pte pg v) n \<longleftrightarrow> n = 2 \<or> n \<noteq> 8 \<and> bit v n"
  using bit_PA2PTE_low [of n pg]
  by (simp only: own_pte_def PTE_W_def PTE_RSW_def bit_and_iff bit_or_iff bit_not_iff bit_pow64 bit_PTE_FLAGS) auto

lemma own_flags:
  "own_pte pg v AND PTE_W \<noteq> 0" "own_pte pg v AND PTE_RSW = 0"
  "own_pte pg v AND PTE_V = 0 \<longleftrightarrow> v AND PTE_V = 0" "own_pte pg v AND PTE_U = 0 \<longleftrightarrow> v AND PTE_U = 0"
  "own_pte pg v AND PTE_R = 0 \<longleftrightarrow> v AND PTE_R = 0"
  by (simp_all add: flag_bits bit_own_pte)

lemma own_PTE_FLAGS: "PTE_FLAGS (own_pte pg v) = (PTE_FLAGS v OR PTE_W) AND NOT PTE_RSW"
proof (rule bit_eqI)
  fix n
  show "bit (PTE_FLAGS (own_pte pg v)) n \<longleftrightarrow> bit ((PTE_FLAGS v OR PTE_W) AND NOT PTE_RSW) n"
    unfolding PTE_W_def PTE_RSW_def bit_and_iff bit_or_iff bit_not_iff bit_PTE_FLAGS
    by (cases "n < 10") (simp_all add: bit_own_pte bit_pow64 del: push_bit_of_1 flip: push_bit_eq_mult, auto)
qed

text \<open>
  The byte that a load of a process in user mode gets at \<open>va\<close> through its page table; \<^const>\<open>None\<close> is a fault, when the page is not
  present, not for the user or not readable.
\<close>

definition uview :: "memory \<Rightarrow> pagetable_t \<Rightarrow> uint64 \<Rightarrow> uint8 option" where
  "uview m pt va = (let v = leaf m 2 pt va in
     if va < MAXVA \<and> v AND PTE_V \<noteq> 0 \<and> v AND PTE_U \<noteq> 0 \<and> v AND PTE_R \<noteq> 0
     then Some (m (PTE2PA v + (va - PGROUNDDOWN va))) else None)"

lemma off_page: "pg_aligned p \<Longrightarrow> PGROUNDDOWN (p + (va - PGROUNDDOWN va)) = p"
  by (simp add: page_offset_lt)

text \<open>A reference given back: the page goes to the free list with the last one.\<close>

lemma kfree_ref:
  assumes ok: "kmem_ok ps s" and pa: "valid_pa (kend s) pa" "1 \<le> rc s pa"
  shows "\<exists>t. kfree pa s = Ok () t \<and> kmem_frame s t \<and> kmem_ok (if rc s pa = 1 then pa # ps else ps) t
     \<and> (\<forall>x. PGROUNDDOWN x \<noteq> pa \<or> 1 < rc s pa \<longrightarrow> mem t x = mem s x)
     \<and> (\<forall>q. valid_pa (kend s) q \<longrightarrow> rc t q = rc s q - (if q = pa then 1 else 0))"
proof -
  have unl: "kmem_unlocked s" and inv: "kmem_inv ps s" using ok by (auto simp: kmem_ok_def)
  have dec: "sint (refcnt s (pa div 4096) - 1) = rc s pa - 1"
    using pa(2) by (simp add: rc_def sint_minus_one)
  have rcd: "rc (drop_ref pa s) q = rc s q - (if q = pa then 1 else 0)" if "valid_pa (kend s) q" for q
    using that pa dec by (auto simp: rc_def drop_ref_def pg_div_inj valid_pa_aligned)
  have al: "pg_aligned pa" using pa(1) by (rule valid_pa_aligned)
  have fd: "kmem_frame s (drop_ref pa s)"
    unfolding kmem_frame_def drop_ref_def
    by (intro exI [of _ "mem s"] exI [of _ "freelist s"] exI [of _ "refcnt (drop_ref pa s)"]) (simp add: drop_ref_def)
  have fp: "kmem_frame u (push_free pa u)" for u :: "'a kmem_scheme"
    unfolding kmem_frame_def push_free_def
    by (intro exI [of _ "mem (push_free pa u)"] exI [of _ "freelist (push_free pa u)"] exI [of _ "refcnt u"])
      (simp add: push_free_def)
  show ?thesis
  proof (cases "rc s pa = 1")
    case True
    let ?t = "push_free pa (drop_ref pa s)"
    have "kfree pa s = Ok () ?t" using kfree_run [OF pa(1) unl] dec True by simp
    moreover have "kmem_ok (pa # ps) ?t" using push_free_inv [OF inv pa(1) True] unl by (simp add: kmem_ok_def)
    moreover have "mem ?t x = mem s x" if "PGROUNDDOWN x \<noteq> pa" for x
      using that al w_aligned_if_pg [OF al] by (simp add: push_free_def drop_ref_def st64_page fill_page)
    moreover have "rc ?t q = rc (drop_ref pa s) q" for q by (simp add: rc_def push_free_def)
    moreover have "kmem_frame s ?t" by (rule kmem_frame_trans [OF fd fp])
    ultimately show ?thesis using True rcd by auto
  next
    case False
    then have gt: "1 < rc s pa" using pa(2) by simp
    have "kfree pa s = Ok () (drop_ref pa s)" using kfree_run [OF pa(1) unl] dec gt by simp
    moreover have "kmem_ok ps (drop_ref pa s)" using drop_ref_inv(1) [OF inv pa(1) gt] unl by (simp add: kmem_ok_def)
    moreover have "mem (drop_ref pa s) = mem s" by (simp add: drop_ref_def)
    ultimately show ?thesis using False rcd fd by auto
  qed
qed

lemma memmove_page:
  assumes "unat d + 4096 < 2 ^ 64" and "unat a + 4096 < 2 ^ 64"
  shows "memmove d a 4096 s = Ok () (s\<lparr>mem := st_bytes (mem s) d (ld_bytes (mem s) a 4096)\<rparr>)"
  using assms by (simp add: memmove_def memmove_mem_bytes set_mem_def)

lemma copied_page:
  "pg_aligned d \<Longrightarrow> st_bytes m d (ld_bytes m' a 4096) x = (if PGROUNDDOWN x = d then m' (a + (x - d)) else m x)"
  by (simp add: st_ld_bytes in_page_iff)

lemma valid_pa_small: "valid_pa e p \<Longrightarrow> unat p + 4096 < 2 ^ 64"
  by (simp add: valid_pa_def PHYSTOP_def KERNBASE_def word_less_nat_alt)

text \<open>\<^verbatim>\<open>kalloc\<close> and \<^verbatim>\<open>memmove\<close>: a fresh page with the bytes of the page \<open>pa\<close>.\<close>

lemma cow_copy_run:
  fixes s :: "'x kmem_scheme"
  assumes kok: "kmem_ok (pg # ps) s" and pa: "pg_aligned pa" "valid_pa (kend s) pa" "pg \<noteq> pa"
  shows "\<exists>s1 s2. kalloc s = Ok pg s1 \<and> memmove pg pa 4096 s1 = Ok () s2 \<and> kmem_ok ps s2 \<and> kmem_frame s s2 \<and> kend s2 = kend s
     \<and> (\<forall>x. PGROUNDDOWN x \<noteq> pg \<longrightarrow> mem s1 x = mem s x)
     \<and> (\<forall>x. mem s2 x = (if PGROUNDDOWN x = pg then mem s (pa + (x - pg)) else mem s x))
     \<and> (\<forall>q. valid_pa (kend s) q \<longrightarrow> rc s2 q = (if q = pg then 1 else rc s q))"
proof -
  have inv: "kmem_inv (pg # ps) s" and nh: "LKmem \<notin> set (held s)" using kok by (auto simp: kmem_ok_def)
  have pg: "pg_aligned pg" "valid_pa (kend s) pg" "pg \<noteq> 0" "freelist s = pg" "pg \<notin> set ps"
    using kmem_ok_alignedD [OF kok, of pg] freelist_hd [OF inv] kmem_invD(2) [OF inv] by auto
  define s1 where "s1 = pop_free s"
  define s2 where "s2 = s1\<lparr>mem := st_bytes (mem s1) pg (ld_bytes (mem s1) pa 4096)\<rparr>"
  have ka: "kalloc s = Ok pg s1" using kalloc_run [OF nh] pg by (simp add: s1_def)
  have k1: "kmem_ok ps s1" using pop_free_inv [OF inv] kok by (simp add: kmem_ok_def s1_def)
  have m1: "mem s1 x = (if PGROUNDDOWN x = pg then 5 else mem s x)" for x
    using pg by (simp add: s1_def pop_free_def fill_page)
  have mv: "memmove pg pa 4096 s1 = Ok () s2"
    unfolding s2_def using valid_pa_small pg(2) pa(2) by (intro memmove_page) auto
  have m2: "mem s2 x = (if PGROUNDDOWN x = pg then mem s (pa + (x - pg)) else mem s x)" for x
    using pg(1) pa(1,3) m1 in_page_iff [OF pg(1), of x] by (auto simp: s2_def copied_page)
  have k2: "kmem_ok ps s2"
    unfolding s2_def using k1 pg(1,5) by (intro kmem_ok_mem) (auto simp: copied_page)
  have rc2: "rc s2 q = (if q = pg then 1 else rc s q)" if "valid_pa (kend s) q" for q
    using that pg by (simp add: rc_def s2_def s1_def pop_free_def pg_div_inj valid_pa_aligned)
  have fr2: "kmem_frame s s2" unfolding s2_def s1_def using kmem_frame_trans kmem_frame_pop kmem_frame_upd by blast
  have "kend s2 = kend s" by (simp add: s2_def s1_def)
  then show ?thesis using ka mv k2 fr2 m1 m2 rc2 by (intro exI [of _ s1] exI [of _ s2]) auto
qed

lemma cowtest_h_run:
  fixes s :: "'x kmem_scheme"
  assumes ok: "tree_ok 2 pt (pg # ps) s" and va: "va < MAXVA"
    and v: "v = leaf (mem s) 2 pt va" "v AND PTE_RSW \<noteq> 0" "v AND PTE_U \<noteq> 0" "v AND PTE_V \<noteq> 0"
    and pa: "pa = PTE2PA v" "valid_pa (kend s) pa" "1 \<le> rc s pa" "pa \<notin> tabs (mem s) 2 pt"
  shows "\<exists>t. cowtest_h pt va s = Ok 0 t \<and> tree_ok 2 pt (if rc s pa = 1 then pa # ps else ps) t \<and> kmem_frame s t
     \<and> tabs (mem t) 2 pt = tabs (mem s) 2 pt
     \<and> (\<forall>va'. leaf (mem t) 2 pt va' = (if same_page va va' then own_pte pg v else leaf (mem s) 2 pt va'))
     \<and> (\<forall>x. PGROUNDDOWN x = pg \<longrightarrow> mem t x = mem s (pa + (x - pg)))
     \<and> (\<forall>x. PGROUNDDOWN x \<notin> {pg, pa} \<union> tabs (mem s) 2 pt \<longrightarrow> mem t x = mem s x)
     \<and> (1 < rc s pa \<longrightarrow> (\<forall>x. PGROUNDDOWN x = pa \<longrightarrow> mem t x = mem s x))
     \<and> (\<forall>q. valid_pa (kend s) q \<longrightarrow> rc t q = (if q = pg then 1 else rc s q - (if q = pa then 1 else 0)))"
proof -
  have kok: "kmem_ok (pg # ps) s" by (rule tree_okD(2) [OF ok])
  have inv: "kmem_inv (pg # ps) s" and nh: "LKmem \<notin> set (held s)" using kok by (auto simp: kmem_ok_def)
  have pg: "pg_aligned pg" "valid_pa (kend s) pg" "pg \<noteq> 0" "freelist s = pg" "pg \<notin> tabs (mem s) 2 pt" "pg \<notin> set ps"
    using kmem_ok_alignedD [OF kok, of pg] freelist_hd [OF inv] tree_okD(3) [OF ok] kmem_invD(2) [OF inv] by auto
  have al: "pg_aligned pa" by (simp add: pa(1))
  have "pg \<noteq> pa" using kmem_invD(5) [OF inv pa(2)] pa(3) by auto
  obtain a where a: "lookup_level (mem s) pt va 2 = Some a" "ld64 (mem s) a = v" "walk0 (mem s) pt va = a"
    using v leaf_present by metis
  have a0: "a \<noteq> 0" by (rule walk0_nonzero [OF ok a(1)])
  obtain s1 s2 where ka: "kalloc s = Ok pg s1" and mv: "memmove pg pa 4096 s1 = Ok () s2" and k2: "kmem_ok ps s2"
    and fr2: "kmem_frame s s2" and kd2: "kend s2 = kend s" and m1: "\<And>x. PGROUNDDOWN x \<noteq> pg \<Longrightarrow> mem s1 x = mem s x"
    and m2: "\<And>x. mem s2 x = (if PGROUNDDOWN x = pg then mem s (pa + (x - pg)) else mem s x)"
    and rc2: "\<And>q. valid_pa (kend s) q \<Longrightarrow> rc s2 q = (if q = pg then 1 else rc s q)"
    using cow_copy_run [OF kok al pa(2) \<open>pg \<noteq> pa\<close>] by auto
  text \<open>After \<^verbatim>\<open>kfree\<close>.\<close>
  have pa2: "valid_pa (kend s2) pa" "rc s2 pa = rc s pa" using pa rc2 [OF pa(2)] \<open>pg \<noteq> pa\<close> kd2 by auto
  define qs where "qs = (if rc s pa = 1 then pa # ps else ps)"
  obtain s3 where s3: "kfree pa s2 = Ok () s3" "kmem_frame s2 s3" "kmem_ok qs s3"
      "\<And>x. PGROUNDDOWN x \<noteq> pa \<or> 1 < rc s pa \<Longrightarrow> mem s3 x = mem s2 x"
      "\<And>q. valid_pa (kend s) q \<Longrightarrow> rc s3 q = rc s2 q - (if q = pa then 1 else 0)"
    using kfree_ref [OF k2 pa2(1)] pa(3) pa2(2) kd2 unfolding qs_def by auto
  have tab3: "mem s3 x = mem s x" if "PGROUNDDOWN x \<in> tabs (mem s) 2 pt" for x
  proof -
    have "PGROUNDDOWN x \<noteq> pa" "PGROUNDDOWN x \<noteq> pg" using that pg(5) pa(4) by auto
    then show ?thesis using s3(4) [of x] m2 by simp
  qed
  have sub: "set qs \<inter> tabs (mem s) 2 pt = {}" using tree_okD(3) [OF ok] pa(4) by (auto simp: qs_def)
  note tc = tree_cong [OF tree_okD(1) [OF ok] tab3]
  have ok3: "tree_ok 2 pt qs s3" using ok s3(3) sub tc by (auto simp: tree_ok_def)
  have a3: "lookup_level (mem s3) pt va 2 = Some a" using a(1) tc(3) by simp
  have lv: "leaf (mem s3) 2 pt va' = leaf (mem s) 2 pt va'" for va' by (rule tc(4))
  have "ld64 (mem s3) a = v" using a3 lv [of va] v(1) by (simp add: leaf_def)
  have ld1: "ld64 (mem s1) a = v"
  proof -
    obtain tb where tb: "tb \<in> tabs (mem s) 2 pt" "pg_aligned tb" "a = slot tb (px 0 va)"
      using lookup_slot [OF tree_okD(1) [OF ok] a(1)] by blast
    then have "ld64 (mem s1) a = ld64 (mem s) a"
      using pg(5) by (intro ld64_page_cong m1) auto
    then show ?thesis using a(2) by simp
  qed
  text \<open>The two stores into the PTE.\<close>
  define t where "t = s3\<lparr>mem := st64 (mem s3) a (own_pte pg v)\<rparr>"
  note ts = tree_store [OF ok3 a3 t_def]
  have sts: "st64 (st64 m a x) a y = st64 m a y" for m x y by (auto simp: st64_def fun_eq_iff)
  have lt: "\<not> push_bit (9 + 9 + 9 + 12 - 1) 1 \<le> va" using va unfolding MAXVA_def by (simp only: not_le)
  have run: "cowtest_h pt va s = Ok 0 t"
    unfolding cowtest_h_def if_not_P [OF lt]
    using v a a0 va ka mv [unfolded pa(1) v(1)] s3(1) [unfolded pa(1) v(1)] ld1 \<open>ld64 (mem s3) a = v\<close> pg(3)
    by (simp add: walk_noalloc bnd_Ok thn_Ok load64_def store64_def set_mem_def Let_def ld64_st64_same sts t_def
        own_pte_def PA2PTE_def PTE_FLAGS_def PTE_W_def flip: PTE2PA_def)
  have fr: "kmem_frame s t" unfolding t_def using fr2 s3(2) kmem_frame_trans kmem_frame_upd by blast
  have tm: "mem t x = mem s3 x" if "PGROUNDDOWN x \<notin> tabs (mem s) 2 pt" for x using that ts(4) [of x] tc(1) by simp
  have rct: "rc t q = rc s3 q" for q by (simp add: rc_def t_def)
  show ?thesis
    using run ts(1,2,3) fr tc(1) lv tm s3(4,5) m2 pg(5) pa(4) \<open>pg \<noteq> pa\<close> rc2 rct unfolding qs_def
    by (intro exI [of _ t]) auto
qed

section \<open>A concrete address space\<close>

text \<open>
  Eight pages of memory: a page table (root, middle and last level in the first three pages) that maps
  virtual pages 0 (writable) and 1 (copy-on-write) to the fourth page, an empty page table in the
  fifth, and three free pages.
\<close>

definition wpg :: "nat \<Rightarrow> uint64" where
  "wpg i = 0x87FF5000 + of_nat i * 4096"

definition wit_mem :: memory where
  "wit_mem = st64 (st64 (st64 (st64 (st64 (st64 (\<lambda>_. 0)
      (slot (wpg 3) 0) (PA2PTE (wpg 4) OR PTE_V))
      (slot (wpg 4) 0) (PA2PTE (wpg 5) OR PTE_V))
      (slot (wpg 5) 0) (PA2PTE (wpg 6) OR (PTE_R OR PTE_W OR PTE_U OR PTE_V)))
      (slot (wpg 5) 1) (PA2PTE (wpg 6) OR (PTE_R OR PTE_U OR PTE_RSW OR PTE_V)))
      (slot (wpg 8) 0) (wpg 9))
      (slot (wpg 9) 0) (wpg 10)"

definition wit_refs :: "uint64 \<Rightarrow> cint" where
  "wit_refs i = (if i = wpg 6 div 4096 then 2 else if i < wpg 8 div 4096 then 1 else 0)"

definition wit_kmem :: kmem where
  "wit_kmem = \<lparr>mem = wit_mem, held = [], freelist = wpg 8, refcnt = wit_refs, kend = wpg 3\<rparr>"

lemma wpg_numeral: "i < 11 \<Longrightarrow> unat (wpg i) = 0x87FF5000 + 4096 * i"
  unfolding wpg_def by (subst unat_add_small) (simp_all add: unat_word_ariths unat_of_nat_small)

lemma wpg_inj: "i < 11 \<Longrightarrow> j < 11 \<Longrightarrow> wpg i = wpg j \<longleftrightarrow> i = j"
  by (simp add: word_unat_eq_iff wpg_numeral)

lemma wpg_aligned: "i < 11 \<Longrightarrow> pg_aligned (wpg i)"
  by (simp add: pg_aligned_unat wpg_numeral)

lemma ld64_wit:
  assumes "p < 11" "i < 512"
  shows "ld64 wit_mem (slot (wpg p) i) =
    (if p = 9 \<and> i = 0 then wpg 10 else if p = 8 \<and> i = 0 then wpg 9
     else if p = 5 \<and> i = 1 then PA2PTE (wpg 6) OR (PTE_R OR PTE_U OR PTE_RSW OR PTE_V)
     else if p = 5 \<and> i = 0 then PA2PTE (wpg 6) OR (PTE_R OR PTE_W OR PTE_U OR PTE_V)
     else if p = 4 \<and> i = 0 then PA2PTE (wpg 5) OR PTE_V
     else if p = 3 \<and> i = 0 then PA2PTE (wpg 4) OR PTE_V else 0)"
  using assms by (auto simp: wit_mem_def ld64_st64_slot wpg_aligned wpg_inj ld64_zero)

lemma or_PTE_V_assoc: "(x OR (a OR (b OR (c OR PTE_V)))) AND PTE_V \<noteq> 0"
  using or_PTE_V [of "x OR a OR b OR c"] by (simp add: or.assoc)

lemma wit_entries:
  "i < 512 \<Longrightarrow> present wit_mem (wpg 3) i \<longleftrightarrow> i = 0" "child wit_mem (wpg 3) 0 = wpg 4"
  "i < 512 \<Longrightarrow> present wit_mem (wpg 4) i \<longleftrightarrow> i = 0" "child wit_mem (wpg 4) 0 = wpg 5"
  "i < 512 \<Longrightarrow> \<not> present wit_mem (wpg 7) i"
  by (auto simp: present_def child_def ld64_wit wpg_aligned)

lemma wit_sets: "{i. i < 512 \<and> present wit_mem (wpg 3) i} = {0}" "{i. i < 512 \<and> present wit_mem (wpg 4) i} = {0}"
    "{i. i < 512 \<and> present wit_mem (wpg 7) i} = {}"
  by (auto simp: wit_entries)

lemma wit_tabs: "tabs wit_mem 2 (wpg 3) = {wpg 3, wpg 4, wpg 5}" "tabs wit_mem 2 (wpg 7) = {wpg 7}"
  by (auto simp: numeral_2_eq_2 wit_sets wit_entries)

lemma wit_twf: "twf wit_mem 2 (wpg 3)" "twf wit_mem 2 (wpg 7)"
  using wit_entries by (auto simp: numeral_2_eq_2 wit_entries wit_sets wpg_aligned wpg_inj)

lemma wit_kmem_ok: "kmem_ok [wpg 8, wpg 9, wpg 10] wit_kmem"
proof -
  have s0: "slot (wpg i) 0 = wpg i" for i by (simp add: slot_def)
  have nz: "wpg i \<noteq> 0" if "i < 11" for i using wpg_numeral [OF that] by auto
  have l: "is_list wit_mem (wpg 8) [wpg 8, wpg 9, wpg 10]"
    using ld64_wit [of 8 0] ld64_wit [of 9 0] ld64_wit [of 10 0] nz by (simp add: s0)
  have k: "unat (wpg 3) = 0x87FF8000" using wpg_numeral [of 3] by simp
  have v: "valid_pa (wpg 3) (wpg i)" if "3 \<le> i" "i < 11" for i
    using that by (simp add: valid_pa_def wpg_aligned word_le_nat_alt word_less_nat_alt wpg_numeral PHYSTOP_def KERNBASE_def)
  have cover: "\<exists>i. 3 \<le> i \<and> i < 11 \<and> p = wpg i" if vp: "valid_pa (wpg 3) p" for p
  proof -
    obtain q where q: "unat p = 4096 * q" using pg_alignedE valid_pa_aligned [OF vp] by blast
    have "0x87FF8000 \<le> unat p" "unat p < 0x88000000"
      using vp k by (simp_all add: valid_pa_def word_le_nat_alt word_less_nat_alt PHYSTOP_def KERNBASE_def)
    then have "q - 0x87FF5 < 11" "3 \<le> q - 0x87FF5" using q by simp_all
    then have "p = wpg (q - 0x87FF5)" using q by (simp add: word_unat_eq_iff wpg_numeral)
    with \<open>q - 0x87FF5 < 11\<close> \<open>3 \<le> q - 0x87FF5\<close> show ?thesis by blast
  qed
  have d: "unat (wpg i div 4096) = 0x87FF5 + i" if "i < 11" for i
    using wpg_numeral [OF that] by (simp add: unat_div)
  have r: "sint (wit_refs (wpg i div 4096)) \<le> 0 \<longleftrightarrow> 8 \<le> i" if "3 \<le> i" "i < 11" for i
    using that d [OF that(2)] d [of 6] d [of 8] by (auto simp: wit_refs_def word_less_nat_alt word_unat_eq_iff)
  have "p \<in> {wpg 8, wpg 9, wpg 10} \<longleftrightarrow> sint (wit_refs (p div 4096)) \<le> 0" if vp: "valid_pa (wpg 3) p" for p
  proof -
    obtain i where i: "3 \<le> i" "i < 11" "p = wpg i" using cover [OF vp] by blast
    then have "i = 8 \<or> i = 9 \<or> i = 10 \<longleftrightarrow> 8 \<le> i" by auto
    then show ?thesis using i r by (simp add: wpg_inj)
  qed
  moreover have "kend_ok (wpg 3)" by (simp add: kend_ok_def word_less_nat_alt wpg_numeral PHYSTOP_def KERNBASE_def)
  ultimately show ?thesis
    using l v by (simp add: kmem_ok_def kmem_inv_def wit_kmem_def wpg_inj)
qed

lemma wit_trees: "two_trees (wpg 3) (wpg 7) [wpg 8, wpg 9, wpg 10] wit_kmem"
proof -
  have nz: "wpg i \<noteq> 0" if "i < 11" for i using wpg_numeral [OF that] by auto
  have m: "mem wit_kmem = wit_mem" by (simp add: wit_kmem_def)
  show ?thesis
    using wit_kmem_ok wit_twf nz [of 3] nz [of 4] nz [of 5] nz [of 7]
    by (simp add: two_trees_def tree_ok_def m wit_tabs wpg_inj)
qed

lemma wit_px: "px 1 (page_va i) = 0" "px 2 (page_va i) = 0" "px 0 (page_va i) = i" if "i < 2"
  using that by (auto simp: px_eq unat_page_va)

lemma wit_leaf:
  "leaf wit_mem 2 (wpg 3) (page_va 0) = PA2PTE (wpg 6) OR (PTE_R OR PTE_W OR PTE_U OR PTE_V)"
  "leaf wit_mem 2 (wpg 3) (page_va 1) = PA2PTE (wpg 6) OR (PTE_R OR PTE_U OR PTE_RSW OR PTE_V)"
  "leaf wit_mem 2 (wpg 7) (page_va i) = 0"
proof -
  have "leaf wit_mem 2 (wpg 3) (page_va i) = ld64 wit_mem (slot (wpg 5) i)" if "i < 2" for i
    using that wit_px [OF that] by (simp add: numeral_2_eq_2 wit_entries)
  then show "leaf wit_mem 2 (wpg 3) (page_va 0) = PA2PTE (wpg 6) OR (PTE_R OR PTE_W OR PTE_U OR PTE_V)"
    "leaf wit_mem 2 (wpg 3) (page_va 1) = PA2PTE (wpg 6) OR (PTE_R OR PTE_U OR PTE_RSW OR PTE_V)"
    by (simp_all add: ld64_wit)
  show "leaf wit_mem 2 (wpg 7) (page_va i) = 0" by (simp add: numeral_2_eq_2 wit_entries)
qed

lemma wit_pa: "PTE2PA (leaf wit_mem 2 (wpg 3) (page_va 0)) = wpg 6" "PTE2PA (leaf wit_mem 2 (wpg 3) (page_va 1)) = wpg 6"
  unfolding wit_leaf by (rule PTE2PA_PA2PTE; simp add: wpg_aligned PTE_R_def PTE_W_def PTE_U_def PTE_V_def PTE_RSW_def)+

lemma wit_page: "valid_pa (wpg 3) (wpg 6)" "rc wit_kmem (wpg 6) = 2"
  by (simp_all add: valid_pa_def wpg_aligned word_le_nat_alt word_less_nat_alt wpg_numeral PHYSTOP_def KERNBASE_def
      rc_def wit_kmem_def wit_refs_def)

lemma wit_copyable: "copyable (wpg 3) (wpg 7) 1 [wpg 8, wpg 9, wpg 10] wit_kmem"
proof -
  have m: "mem wit_kmem = wit_mem" "kend wit_kmem = wpg 3" by (simp_all add: wit_kmem_def)
  show ?thesis
    using wit_trees wit_page wit_pa(1) by (simp add: copyable_def m wit_leaf(3)) (simp add: wit_leaf(1) or_PTE_V_assoc)
qed

text \<open>The same memory with the three free pages handed out.\<close>

definition wit_full :: kmem where
  "wit_full = \<lparr>mem = wit_mem, held = [], freelist = 0,
     refcnt = (\<lambda>i. if i = wpg 6 div 4096 then 2 else 1), kend = wpg 3\<rparr>"

lemma wit_full_trees: "two_trees (wpg 3) (wpg 7) [] wit_full"
proof -
  have "kend_ok (wpg 3)" by (simp add: kend_ok_def word_less_nat_alt wpg_numeral PHYSTOP_def KERNBASE_def)
  then have "kmem_ok [] wit_full" by (simp add: kmem_ok_def kmem_inv_def wit_full_def)
  moreover have "mem wit_full = wit_mem" by (simp add: wit_full_def)
  moreover have "wpg i \<noteq> 0" if "i < 11" for i using wpg_numeral [OF that] by auto
  ultimately show ?thesis using wit_twf by (auto simp: two_trees_def tree_ok_def wit_tabs wpg_inj)
qed

section \<open>Properties\<close>

lemma uview_shared:
  assumes u: "\<And>x. PGROUNDDOWN x = PTE2PA (leaf m 2 pt va) \<Longrightarrow> m' x = m x"
    and p: "PTE2PA (leaf m' 2 pt' va) = PTE2PA (leaf m 2 pt va)"
    and f: "(leaf m' 2 pt' va AND PTE_V = 0) = (leaf m 2 pt va AND PTE_V = 0)"
      "(leaf m' 2 pt' va AND PTE_U = 0) = (leaf m 2 pt va AND PTE_U = 0)" "(leaf m' 2 pt' va AND PTE_R = 0) = (leaf m 2 pt va AND PTE_R = 0)"
  shows "uview m' pt' va = uview m pt va"
proof -
  have "m' (PTE2PA (leaf m 2 pt va) + (va - PGROUNDDOWN va)) = m (PTE2PA (leaf m 2 pt va) + (va - PGROUNDDOWN va))"
    by (rule u) (simp add: off_page)
  then show ?thesis by (simp add: uview_def Let_def p f)
qed

lemma wit_uview: "uview wit_mem (wpg 3) 42 = Some (wit_mem (wpg 6 + 42))"
proof -
  have z: "page_va 0 = 0" "(42 :: uint64) < MAXVA" "PGROUNDDOWN 42 = 0" by (simp_all add: page_va_def MAXVA_def PGROUNDDOWN_def PGSIZE_def)
  have l: "leaf wit_mem 2 (wpg 3) 42 = leaf wit_mem 2 (wpg 3) (page_va 0)" using z(2) by (intro leaf_page_va) simp_all
  have f: "\<not> (leaf wit_mem 2 (wpg 3) (page_va 0) AND PTE_V = 0)" "\<not> (leaf wit_mem 2 (wpg 3) (page_va 0) AND PTE_U = 0)"
      "\<not> (leaf wit_mem 2 (wpg 3) (page_va 0) AND PTE_R = 0)"
    unfolding flag_bits wit_leaf(1) by (simp_all add: bit_simps PTE_R_def PTE_W_def PTE_U_def PTE_V_def)
  then show ?thesis using z(2,3) wit_pa(1) by (simp add: uview_def Let_def l)
qed

text \<open>
  C20. \<^verbatim>\<open>mappages\<close> of one page of a well-formed page table always returns. With success, the page \<open>va\<close>
  translates to \<open>pa\<close> with the permissions asked for; without memory for the tables it reports
  \<open>-1\<close>, which happens with fewer than two free pages only. No other translation changes in
  either case, and the page table stays well formed.
\<close>

theorem mappages_sets_one_page:
  assumes "tree_ok 2 pt ps s" and "va < MAXVA" and "pg_aligned va"
    and "leaf (mem s) 2 pt va AND PTE_V = 0"
  shows "\<exists>r n t. mappages pt va PGSIZE pa perm s = Ok r t \<and> tree_ok 2 pt (drop n ps) t
     \<and> (r = 0 \<or> r = -1 \<and> length ps < 2)
     \<and> (\<forall>va'<MAXVA. leaf (mem t) 2 pt va' =
          (if r = 0 \<and> PGROUNDDOWN va' = va then PA2PTE pa OR scast perm OR PTE_V else leaf (mem s) 2 pt va'))"
proof -
  have sp: "same_page va va' \<longleftrightarrow> PGROUNDDOWN va' = va" if "va' < MAXVA" for va'
    using assms(2,3) that by (auto simp: same_page_iff)
  obtain n t where "(mappages pt va PGSIZE pa perm s = Ok 0 t \<and> mapped pt va (PA2PTE pa OR scast perm OR PTE_V) ps n s t)
     \<or> (mappages pt va PGSIZE pa perm s = Ok (-1) t \<and> grown 2 pt ps n s t \<and> n < 2 \<and> drop n ps = [])"
    using mappages_page [OF assms] by blast
  then show ?thesis
  proof
    assume *: "mappages pt va PGSIZE pa perm s = Ok 0 t \<and> mapped pt va (PA2PTE pa OR scast perm OR PTE_V) ps n s t"
    then show ?thesis by (intro exI [of _ 0] exI [of _ n] exI [of _ t]) (auto simp: mapped_def sp)
  next
    assume *: "mappages pt va PGSIZE pa perm s = Ok (-1) t \<and> grown 2 pt ps n s t \<and> n < 2 \<and> drop n ps = []"
    then have "tree_ok 2 pt (drop n ps) t" using grown_tree_ok [OF assms(1)] by blast
    with * show ?thesis
      by (intro exI [of _ "-1"] exI [of _ n] exI [of _ t]) (auto simp: grown_def)
  qed
qed

theorem mappages_sets_one_page_witness:
  "\<exists>r n t. mappages (wpg 7) 0 PGSIZE (wpg 6) (ucast PTE_R) wit_kmem = Ok r t
     \<and> tree_ok 2 (wpg 7) (drop n [wpg 8, wpg 9, wpg 10]) t \<and> r = 0
     \<and> leaf (mem t) 2 (wpg 7) 0 = PA2PTE (wpg 6) OR PTE_R OR PTE_V"
proof -
  have ok: "tree_ok 2 (wpg 7) [wpg 8, wpg 9, wpg 10] wit_kmem" using wit_trees by (simp add: two_trees_def)
  have fr: "leaf (mem wit_kmem) 2 (wpg 7) 0 AND PTE_V = 0"
    using wit_leaf(3) [of 0] by (simp add: wit_kmem_def page_va_def)
  have z: "0 < MAXVA" "pg_aligned 0" "PGROUNDDOWN 0 = 0" by (simp_all add: MAXVA_def pg_aligned_def PGROUNDDOWN_def)
  have r: "scast (ucast PTE_R :: cint) = PTE_R" by (simp add: PTE_R_def)
  show ?thesis using mappages_sets_one_page [OF ok z(1,2) fr, of "wpg 6" "ucast PTE_R"] z r by fastforce
qed

text \<open>
  C1. \<^verbatim>\<open>uvmcopy\<close> with enough memory for the child's page tables returns 0, and then parent and child see at
  every address below \<open>sz\<close> what the parent saw before: the same byte, or no byte where the parent could not read; both map the same physical page there. The flags of a page are the same in
  both tables: it is not writable, it is marked copy-on-write iff it was writable or marked before, and every other flag is as it
  was, so that a page is present, readable, executable and open to the user iff it was. The reference count of each
  allocated page has grown by the number of times the parent maps it.
\<close>

theorem uvmcopy_shares:
  fixes s :: "'x kmem_scheme"
  assumes c: "copyable old new (npages sz) ps s" and sz: "sz \<le> MAXVA" and enough: "2 * npages sz \<le> length ps"
    and user: "\<forall>j<npages sz. PTE2PA (leaf (mem s) 2 old (page_va j)) \<notin> tabs (mem s) 2 old \<union> tabs (mem s) 2 new"
  shows "\<exists>t. uvmcopy old new sz s = Ok 0 t
     \<and> (\<forall>va. va < sz \<longrightarrow> uview (mem t) old va = uview (mem s) old va \<and> uview (mem t) new va = uview (mem s) old va
          \<and> PTE2PA (leaf (mem t) 2 old va) = PTE2PA (leaf (mem s) 2 old va) \<and> PTE2PA (leaf (mem t) 2 new va) = PTE2PA (leaf (mem s) 2 old va)
          \<and> leaf (mem t) 2 old va AND PTE_W = 0 \<and> leaf (mem t) 2 new va AND PTE_W = 0
          \<and> (leaf (mem t) 2 old va AND PTE_RSW \<noteq> 0 \<longleftrightarrow> leaf (mem s) 2 old va AND PTE_W \<noteq> 0 \<or> leaf (mem s) 2 old va AND PTE_RSW \<noteq> 0)
          \<and> PTE_FLAGS (leaf (mem t) 2 old va) AND (NOT PTE_W AND NOT PTE_RSW) = PTE_FLAGS (leaf (mem s) 2 old va) AND (NOT PTE_W AND NOT PTE_RSW)
          \<and> PTE_FLAGS (leaf (mem t) 2 new va) = PTE_FLAGS (leaf (mem t) 2 old va))
     \<and> (\<forall>q. valid_pa (kend s) q \<and> 1 \<le> rc s q \<longrightarrow> rc t q = rc s q + int (uses (mem s) old (npages sz) q))"
proof -
  have tt: "two_trees old new ps s" using c by (simp add: copyable_def)
  have inv: "kmem_inv ps s" using tt by (simp add: two_trees_def tree_ok_def kmem_ok_def)
  obtain n t where t: "uvmcopy old new sz s = Ok 0 t" and sh: "shared old new (npages sz) ps n s t"
    using uvmcopy_loop_shared [OF c sz enough shared_0 [OF tt]] by (auto simp: uvmcopy_def page_va_def)
  have free: "q \<notin> set (take n ps)" if "valid_pa (kend s) q" "1 \<le> rc s q" for q
    using that kmem_invD(5) [OF inv, of q] set_take_subset [of n ps] by auto
  have view: "uview (mem t) old va = uview (mem s) old va \<and> uview (mem t) new va = uview (mem s) old va
          \<and> leaf (mem t) 2 old va = cow_pte (leaf (mem s) 2 old va)
          \<and> leaf (mem t) 2 new va = share_pte (leaf (mem s) 2 old va) \<and> leaf (mem s) 2 old va AND PTE_V \<noteq> 0" if va: "va < sz" for va
  proof -
    let ?k = "unat va div 4096"
    have k: "?k < npages sz" unfolding npages_less using va unfolding word_less_nat_alt by linarith
    have vm: "va < MAXVA" using va sz by simp
    have "unat va < 2 ^ 38" using vm by (simp add: word_less_nat_alt MAXVA_def)
    then have "4096 * ?k < 2 ^ 38" by linarith
    then have lf: "leaf (mem s) 2 old va = leaf (mem s) 2 old (page_va ?k)" using vm by (intro leaf_page_va) auto
    have l: "leaf (mem t) 2 old va = cow_pte (leaf (mem s) 2 old va)"
        "leaf (mem t) 2 new va = share_pte (leaf (mem s) 2 old va)" using sh vm k by (auto simp: shared_def)
    have "PTE2PA (leaf (mem s) 2 old va) \<notin> set (take n ps)"
      using c k free unfolding lf copyable_def Let_def by blast
    then have same: "mem t x = mem s x" if "PGROUNDDOWN x = PTE2PA (leaf (mem s) 2 old va)" for x
      using sh user k that unfolding lf shared_def by auto
    have "leaf (mem s) 2 old va AND PTE_V \<noteq> 0" using c k unfolding lf copyable_def Let_def by blast
    then show ?thesis using l same by (auto intro!: uview_shared simp: cow_keeps)
  qed
  have "rc t q = rc s q + int (uses (mem s) old (npages sz) q)" if "valid_pa (kend s) q" "1 \<le> rc s q" for q
    using sh that free [OF that] by (simp add: shared_def)
  with t view show ?thesis by (auto simp: cow_keeps cow_PTE_FLAGS share_PTE_FLAGS)
qed

theorem uvmcopy_shares_witness:
  "\<exists>t. uvmcopy (wpg 3) (wpg 7) 4096 wit_kmem = Ok 0 t \<and> rc t (wpg 6) = 3
     \<and> uview (mem t) (wpg 7) 42 = Some (wit_mem (wpg 6 + 42))"
proof -
  have n: "npages 4096 = 1" by (simp add: npages_def)
  have m: "mem wit_kmem = wit_mem" "kend wit_kmem = wpg 3" by (simp_all add: wit_kmem_def)
  have u: "uses wit_mem (wpg 3) 1 (wpg 6) = 1" by (simp add: uses_def wit_pa)
  have "uview wit_mem (wpg 3) 42 = Some (wit_mem (wpg 6 + 42))" by (rule wit_uview)
  then show ?thesis
    using uvmcopy_shares [of "wpg 3" "wpg 7" 4096 "[wpg 8, wpg 9, wpg 10]" wit_kmem] wit_copyable wit_pa(1) wit_page u
    unfolding n m by (fastforce simp: wit_tabs wpg_inj MAXVA_def)
qed

text \<open>
  C2. A store fault on a copy-on-write page, with a free page left: \<^verbatim>\<open>cowtest_h\<close> returns 0, the
  process then maps its own page there, with the flags it had and made writable in place of the copy-on-write mark, and sees the same
  bytes in it; the page is present and open to the user. Every other translation is unchanged, the shared page keeps its contents while somebody else refers to it
  and has one reference less, and with the last reference it is a free page again.
\<close>

theorem cowtest_h_private_copy:
  fixes s :: "'x kmem_scheme"
  assumes ok: "tree_ok 2 pt (pg # ps) s" and va: "va < MAXVA"
    and v: "leaf (mem s) 2 pt va AND PTE_RSW \<noteq> 0" "leaf (mem s) 2 pt va AND PTE_U \<noteq> 0"
      "leaf (mem s) 2 pt va AND PTE_V \<noteq> 0"
    and pa: "pa = PTE2PA (leaf (mem s) 2 pt va)" "valid_pa (kend s) pa" "1 \<le> rc s pa" "pa \<notin> tabs (mem s) 2 pt"
  shows "\<exists>t. cowtest_h pt va s = Ok 0 t
     \<and> leaf (mem t) 2 pt va AND PTE_W \<noteq> 0 \<and> leaf (mem t) 2 pt va AND PTE_RSW = 0
     \<and> leaf (mem t) 2 pt va AND PTE_V \<noteq> 0 \<and> leaf (mem t) 2 pt va AND PTE_U \<noteq> 0
     \<and> PTE_FLAGS (leaf (mem t) 2 pt va) = (PTE_FLAGS (leaf (mem s) 2 pt va) OR PTE_W) AND NOT PTE_RSW
     \<and> PTE2PA (leaf (mem t) 2 pt va) = pg \<and> rc t pg = 1 \<and> rc t pa = rc s pa - 1
     \<and> (\<forall>va'<MAXVA. PGROUNDDOWN va' = PGROUNDDOWN va \<longrightarrow> uview (mem t) pt va' = uview (mem s) pt va')
     \<and> (\<forall>va'<MAXVA. PGROUNDDOWN va' \<noteq> PGROUNDDOWN va \<longrightarrow> leaf (mem t) 2 pt va' = leaf (mem s) 2 pt va')
     \<and> (1 < rc s pa \<longrightarrow> (\<forall>x. PGROUNDDOWN x = pa \<longrightarrow> mem t x = mem s x))
     \<and> tree_ok 2 pt (if rc s pa = 1 then pa # ps else ps) t"
proof -
  let ?v = "leaf (mem s) 2 pt va"
  have kok: "kmem_ok (pg # ps) s" by (rule tree_okD(2) [OF ok])
  then have pg: "pg_aligned pg" "valid_pa (kend s) pg" "pg \<noteq> pa"
    using kmem_ok_alignedD [OF kok, of pg] kmem_invD(5) [of "pg # ps" s pa] pa(2,3) by (auto simp: kmem_ok_def)
  obtain t where t: "cowtest_h pt va s = Ok 0 t" "tree_ok 2 pt (if rc s pa = 1 then pa # ps else ps) t"
     "\<And>va'. leaf (mem t) 2 pt va' = (if same_page va va' then own_pte pg ?v else leaf (mem s) 2 pt va')"
     "\<And>x. PGROUNDDOWN x = pg \<Longrightarrow> mem t x = mem s (pa + (x - pg))"
     "1 < rc s pa \<Longrightarrow> (\<forall>x. PGROUNDDOWN x = pa \<longrightarrow> mem t x = mem s x)"
     "\<And>q. valid_pa (kend s) q \<Longrightarrow> rc t q = (if q = pg then 1 else rc s q - (if q = pa then 1 else 0))"
    using cowtest_h_run [OF ok va refl v pa] by auto
  have sp: "same_page va va' \<longleftrightarrow> PGROUNDDOWN va' = PGROUNDDOWN va" if "va' < MAXVA" for va'
    using va that by (auto simp: same_page_iff)
  have lv: "leaf (mem t) 2 pt va = own_pte pg ?v" using t(3) va sp by simp
  have "uview (mem t) pt va' = uview (mem s) pt va'" if "va' < MAXVA" "PGROUNDDOWN va' = PGROUNDDOWN va" for va'
  proof -
    have "leaf (mem s) 2 pt va' = ?v"
      using px_page_cong [OF that(2)] by (simp add: leaf_def numeral_2_eq_2)
    moreover have "mem t (pg + (va' - PGROUNDDOWN va')) = mem s (pa + (va' - PGROUNDDOWN va'))"
      using t(4) [OF off_page [OF pg(1), of va']] by simp
    ultimately show ?thesis
      using t(3) [of va'] sp [OF that(1)] that(2) pg(1) by (simp add: uview_def Let_def own_flags PTE2PA_own pa(1))
  qed
  then show ?thesis
    using t lv sp pg pa(2) v by (intro exI [of _ t]) (auto simp: own_flags own_PTE_FLAGS PTE2PA_own)
qed

theorem cowtest_h_private_copy_witness:
  "\<exists>t. cowtest_h (wpg 3) 4096 wit_kmem = Ok 0 t \<and> leaf (mem t) 2 (wpg 3) 4096 AND PTE_W \<noteq> 0
     \<and> leaf (mem t) 2 (wpg 3) 4096 AND PTE_V \<noteq> 0 \<and> leaf (mem t) 2 (wpg 3) 4096 AND PTE_U \<noteq> 0
     \<and> PTE2PA (leaf (mem t) 2 (wpg 3) 4096) = wpg 8 \<and> rc t (wpg 6) = 1"
proof -
  have m: "mem wit_kmem = wit_mem" "kend wit_kmem = wpg 3" by (simp_all add: wit_kmem_def)
  have e: "page_va 1 = 4096" by (simp add: page_va_def)
  have v: "\<not> (leaf wit_mem 2 (wpg 3) 4096 AND PTE_RSW = 0)" "\<not> (leaf wit_mem 2 (wpg 3) 4096 AND PTE_U = 0)"
      "\<not> (leaf wit_mem 2 (wpg 3) 4096 AND PTE_V = 0)"
    unfolding flag_bits wit_leaf(2) [unfolded e]
    by (simp_all add: bit_simps PTE_RSW_def PTE_U_def PTE_V_def PTE_R_def)
  have ok: "tree_ok 2 (wpg 3) [wpg 8, wpg 9, wpg 10] wit_kmem" using wit_trees by (simp add: two_trees_def)
  show ?thesis
    using cowtest_h_private_copy [OF ok, of 4096 "wpg 6"] v wit_pa(2) wit_page unfolding m e
    by (fastforce simp: MAXVA_def wit_tabs wpg_inj)
qed

text \<open>
  C33. \<^verbatim>\<open>cowtest_h\<close> refuses every other fault: it returns \<open>-1\<close> and changes nothing when the address is out
  of range, when the page is not a present user page marked copy-on-write, or when no page is free.
\<close>

theorem cowtest_h_refuses:
  assumes "kmem_ok ps s"
    and "va \<ge> MAXVA \<or> leaf (mem s) 2 pt va AND PTE_RSW = 0 \<or> leaf (mem s) 2 pt va AND PTE_U = 0
       \<or> leaf (mem s) 2 pt va AND PTE_V = 0 \<or> ps = []"
  shows "cowtest_h pt va s = Ok (-1) s"
proof (cases "va \<ge> MAXVA")
  case True
  then have "va \<ge> push_bit (9 + 9 + 9 + 12 - 1) 1" by (simp only: MAXVA_def)
  then show ?thesis unfolding cowtest_h_def by (simp only: if_True)
next
  case False
  then have va: "va < MAXVA" "\<not> push_bit (9 + 9 + 9 + 12 - 1) 1 \<le> va"
    by (simp only: not_le, unfold MAXVA_def, simp only: not_le)
  have "kalloc s = Ok 0 s" if "ps = []" using assms(1) that by (simp add: km.alloc_null)
  then show ?thesis
    using False assms(2) va(1) unfolding cowtest_h_def if_not_P [OF va(2)]
    by (cases "lookup_level (mem s) pt va 2")
      (auto simp: walk_noalloc walk0_def bnd_Ok load64_def leaf_def)
qed

theorem cowtest_h_refuses_witness:
  "cowtest_h (wpg 3) 0 wit_kmem = Ok (-1) wit_kmem"
proof -
  have m: "mem wit_kmem = wit_mem" by (simp add: wit_kmem_def)
  have "leaf wit_mem 2 (wpg 3) 0 AND PTE_RSW = 0"
    unfolding flag_bits wit_leaf(1) [unfolded page_va_def, simplified]
    by (simp add: bit_simps PTE_R_def PTE_W_def PTE_U_def PTE_V_def PA2PTE_def)
  then show ?thesis using cowtest_h_refuses [OF wit_kmem_ok, of 0 "wpg 3"] by (simp add: m)
qed

text \<open>
  C36. When \<^verbatim>\<open>uvmcopy\<close> fails for lack of memory at the first page, it returns \<open>-1\<close> and the child maps nothing,
  but the count it took on that page stays: the page can no longer become free.
\<close>

theorem uvmcopy_failure_keeps_reference:
  assumes tt: "two_trees old new [] s" and sh: "sharable old new 0 s" and np: "\<not> present (mem s) new 0"
    and sz: "0 < sz"
  shows "\<exists>t. uvmcopy old new sz s = Ok (-1) t
     \<and> rc t (PTE2PA (leaf (mem s) 2 old 0)) = rc s (PTE2PA (leaf (mem s) 2 old 0)) + 1
     \<and> (\<forall>va. leaf (mem t) 2 new va = leaf (mem s) 2 new va)"
proof -
  define v where "v = leaf (mem s) 2 old 0"
  have z: "0 < MAXVA" by (simp add: MAXVA_def)
  obtain u where run: "uvmcopy_body old new 0 s = mappages new 0 PGSIZE (PTE2PA v) (ucast (PTE_FLAGS (cow_pte v))) u"
    and tu: "two_trees old new [] u" and "kmem_frame s u"
    and "tabs (mem u) 2 old = tabs (mem s) 2 old" "tabs (mem u) 2 new = tabs (mem s) 2 new"
    and out: "\<And>x. PGROUNDDOWN x \<notin> tabs (mem s) 2 old \<Longrightarrow> mem u x = mem s x"
    and "\<And>va'. leaf (mem u) 2 old va' = (if same_page 0 va' then cow_pte v else leaf (mem s) 2 old va')"
    and ln: "\<And>va'. leaf (mem u) 2 new va' = leaf (mem s) 2 new va'"
    and rcu: "\<And>q. valid_pa (kend s) q \<Longrightarrow> rc u q = rc s q + (if q = PTE2PA v then 1 else 0)"
    using uvmcopy_body_prefix [OF tt z sh v_def] by blast
  have "kmem_ok [] u" using tu by (simp add: two_trees_def tree_ok_def)
  then have ka: "kalloc u = Ok 0 u" by (rule km.alloc_null)
  have "tree_ok 2 new [] s" using tt by (simp add: two_trees_def)
  then have "pg_aligned new" by (rule tree_okD(6))
  moreover have "new \<notin> tabs (mem s) 2 old"
    using tt root_in_tabs [of new "mem s" 2] unfolding two_trees_def by blast
  ultimately have "\<not> present (mem u) new 0" using np entry_cong(1) [of new 0 "mem u" "mem s"] out by simp
  moreover have "px 2 0 = 0" by (simp add: px_eq)
  ultimately have "walk new 0 True u = Ok 0 u"
    using ka z by (simp add: walk_def numeral_2_eq_2 load64_def present_def pte_addr_slot bnd_Ok not_le)
  then have "mappages new 0 PGSIZE pa perm u = Ok (-1) u" for pa perm
    using z by (simp add: mappages_def mappages_loop.simps [of new 0 0] PGROUNDDOWN_def PGSIZE_def bnd_Ok not_le)
  with run have b: "uvmcopy_body old new 0 s = Ok (-1) u" by simp
  have "uvmunmap new 0 0 True u = Ok () u"
    by (simp add: uvmunmap_def uvmunmap_loop.simps PGSIZE_def)
  with b z sz have "uvmcopy old new sz s = Ok (-1) u"
    by (simp add: uvmcopy_def uvmcopy_loop.simps [of old new 0] bnd_Ok thn_Ok not_le)
  moreover have "valid_pa (kend s) (PTE2PA v)" using sh by (simp add: sharable_def Let_def v_def)
  ultimately show ?thesis using rcu ln by (auto simp: v_def)
qed

theorem uvmcopy_failure_keeps_reference_witness:
  "\<exists>t. uvmcopy (wpg 3) (wpg 7) 4096 wit_full = Ok (-1) t \<and> rc t (wpg 6) = 3"
proof -
  have m: "mem wit_full = wit_mem" "kend wit_full = wpg 3" "rc wit_full (wpg 6) = 2"
    by (simp_all add: wit_full_def rc_def wit_refs_def wpg_def)
  have "sharable (wpg 3) (wpg 7) 0 wit_full"
    using wit_page(1) wit_pa(1) wit_leaf(3) [of 0] m or_PTE_V_assoc
    by (simp add: sharable_def page_va_def) (simp add: wit_leaf(1) [unfolded page_va_def, simplified])
  moreover have "\<not> present (mem wit_full) (wpg 7) 0" using wit_entries(5) [of 0] by (simp add: m)
  moreover have "PTE2PA (leaf (mem wit_full) 2 (wpg 3) 0) = wpg 6" using wit_pa(1) by (simp add: m page_va_def)
  ultimately show ?thesis
    using uvmcopy_failure_keeps_reference [OF wit_full_trees, of 4096] by (auto simp: m)
qed

end
