(* ===== verification/Trap.thy ===== *)
theory Trap
  imports Sysfile Cow
begin

text \<open>
  \<^verbatim>\<open>kernel/sysproc.c\<close>, the dispatcher of \<^verbatim>\<open>kernel/syscall.c\<close> and \<^verbatim>\<open>kernel/trap.c\<close>, with \<^verbatim>\<open>forkret\<close> of \<^verbatim>\<open>proc.c\<close> and
  \<^verbatim>\<open>kernel/plic.c\<close>. The control registers of the hart are fields of the state. The interrupt handler of
  the disk is a parameter; \<open>usertrapret\<close> ends with the jump to \<^verbatim>\<open>userret\<close>, whose target and argument
  are its result.
\<close>

section \<open>State\<close>

definition SSTATUS_SPP :: uint64 where "SSTATUS_SPP = push_bit 8 1"
definition SSTATUS_SPIE :: uint64 where "SSTATUS_SPIE = push_bit 5 1"
definition SSTATUS_SIE :: uint64 where "SSTATUS_SIE = push_bit 1 1"
definition UART0_IRQ :: cint where "UART0_IRQ = 10"
definition VIRTIO0_IRQ :: cint where "VIRTIO0_IRQ = 1"

record trapS = sysS +
  r_scause :: uint64
  r_sepc :: uint64
  r_stval :: uint64
  r_sstatus :: uint64
  r_stvec :: uint64
  r_satp :: uint64
  r_tp :: uint64
  r_sip :: uint64
  plic_sclaim :: cint
  plic_completed :: "cint list"
  forkret_first :: bool
  sym_kernelvec :: uint64
  sym_uservec :: uint64
  sym_userret :: uint64
  sym_usertrap :: uint64

section \<open>Process system calls (sysproc.c)\<close>

definition sys_exit :: "('x fileS_scheme, uint64) kmon" where
  "sys_exit = bnd (argint 0) exit"

definition sys_getpid :: "('x kern_scheme, uint64) kmon" where
  "sys_getpid = bnd myproc (\<lambda>p. get_proc p (\<lambda>q. scast (p_pid q)))"

definition sys_fork :: "('x fileS_scheme, uint64) kmon" where
  "sys_fork = bnd fork (\<lambda>r. ret (of_int r))"

definition sys_wait :: "('x kern_scheme, uint64) kmon" where
  "sys_wait = bnd (argaddr 0) (\<lambda>a. bnd (wait a) (\<lambda>r. ret (of_int r)))"

definition sys_sbrk :: "('x kern_scheme, uint64) kmon" where
  "sys_sbrk =
     bnd (argint 0) (\<lambda>n.
     bnd myproc (\<lambda>p.
     bnd (get_proc p p_sz) (\<lambda>addr.
     bnd (growproc n) (\<lambda>r.
     if r < 0 then ret (-1) else ret addr))))"

text \<open>
  The loop of \<^verbatim>\<open>sys_sleep\<close> with the lock held; a process that slept in it enters it again. The
  comparison of a \<^verbatim>\<open>uint\<close> with an \<^verbatim>\<open>int\<close> is unsigned.
\<close>

definition sys_sleep_loop :: "uint32 \<Rightarrow> cint \<Rightarrow> ('x kern_scheme, uint64) kmon" where
  "sys_sleep_loop ticks0 n =
     bnd (gets ticks) (\<lambda>tk.
     if tk - ticks0 < n then
       bnd myproc (\<lambda>p.
       bnd (killed p) (\<lambda>k.
       if k \<noteq> 0 then thn (release LTicks) (ret (-1)) else sleep ChTicks LTicks))
     else thn (release LTicks) (ret 0))"

definition sys_sleep :: "('x kern_scheme, uint64) kmon" where
  "sys_sleep =
     bnd (argint 0) (\<lambda>n.
     thn (acquire LTicks)
     (bnd (gets ticks) (\<lambda>ticks0. sys_sleep_loop ticks0 n)))"

definition sys_kill :: "('x kern_scheme, uint64) kmon" where
  "sys_kill = bnd (argint 0) (\<lambda>pid. bnd (kill pid) (\<lambda>r. ret (of_int r)))"

definition sys_uptime :: "('x kern_scheme, uint64) kmon" where
  "sys_uptime =
     thn (acquire LTicks)
     (bnd (gets ticks) (\<lambda>xticks.
     thn (release LTicks)
     (ret (ucast xticks))))"

text \<open>Where \<^verbatim>\<open>waitx\<close> stored nothing, \<^verbatim>\<open>sys_waitx\<close> copies out the uninitialised locals.\<close>

definition sys_waitx :: "('x fileS_scheme, uint64) kmon" where
  "sys_waitx =
     bnd (argaddr 0) (\<lambda>addr.
     bnd (argaddr 1) (\<lambda>addr1.
     bnd (argaddr 2) (\<lambda>addr2.
     bnd (waitx addr) (\<lambda>(r, times).
     bnd (gets (\<lambda>s. case times of
        Some (w, rt) \<Rightarrow> (le_bytes 4 w, le_bytes 4 rt)
      | None \<Rightarrow> (map (junk s) [0..<4], map (junk s) [4..<8]))) (\<lambda>(wb, rb).
     bnd myproc (\<lambda>p.
     bnd (get_proc p p_pagetable) (\<lambda>pt.
     bnd (copyout pt addr1 wb) (\<lambda>c1.
     if c1 < 0 then ret (-1)
     else bnd (copyout pt addr2 rb) (\<lambda>c2.
       if c2 < 0 then ret (-1) else ret (of_int r))))))))))"

section \<open>The dispatcher (syscall.c)\<close>

datatype sysnum =
    SYS_fork | SYS_exit | SYS_wait | SYS_pipe | SYS_read | SYS_kill | SYS_exec | SYS_fstat | SYS_chdir
  | SYS_dup | SYS_getpid | SYS_sbrk | SYS_sleep | SYS_uptime | SYS_open | SYS_write | SYS_mknod
  | SYS_unlink | SYS_link | SYS_mkdir | SYS_close | SYS_waitx | SYS_getreadcount | SYS_set_priority

text \<open>The numbers of \<^verbatim>\<open>syscall.h\<close>, in their order from 1 on.\<close>

definition syscall_order :: "sysnum list" where
  "syscall_order =
    [SYS_fork, SYS_exit, SYS_wait, SYS_pipe, SYS_read, SYS_kill, SYS_exec, SYS_fstat, SYS_chdir, SYS_dup,
     SYS_getpid, SYS_sbrk, SYS_sleep, SYS_uptime, SYS_open, SYS_write, SYS_mknod, SYS_unlink, SYS_link,
     SYS_mkdir, SYS_close, SYS_waitx, SYS_getreadcount, SYS_set_priority]"

fun syscalls :: "sysnum \<Rightarrow> ('x sysS_scheme, uint64) kmon" where
  "syscalls SYS_fork = sys_fork"
| "syscalls SYS_exit = sys_exit"
| "syscalls SYS_wait = sys_wait"
| "syscalls SYS_pipe = sys_pipe"
| "syscalls SYS_read = sys_read"
| "syscalls SYS_kill = sys_kill"
| "syscalls SYS_exec = sys_exec"
| "syscalls SYS_fstat = sys_fstat"
| "syscalls SYS_chdir = sys_chdir"
| "syscalls SYS_dup = sys_dup"
| "syscalls SYS_getpid = sys_getpid"
| "syscalls SYS_sbrk = sys_sbrk"
| "syscalls SYS_sleep = sys_sleep"
| "syscalls SYS_uptime = sys_uptime"
| "syscalls SYS_open = sys_open"
| "syscalls SYS_write = sys_write"
| "syscalls SYS_mknod = sys_mknod"
| "syscalls SYS_unlink = sys_unlink"
| "syscalls SYS_link = sys_link"
| "syscalls SYS_mkdir = sys_mkdir"
| "syscalls SYS_close = sys_close"
| "syscalls SYS_waitx = sys_waitx"
| "syscalls SYS_getreadcount = sys_getreadcount"
| "syscalls SYS_set_priority = sys_set_priority"

text \<open>\<^verbatim>\<open>syscalls[num]\<close> behind the test of \<^verbatim>\<open>syscall\<close>; the entry 0 is null.\<close>

definition lookup_syscall :: "cint \<Rightarrow> sysnum option" where
  "lookup_syscall num =
     (if sint num > 0 \<and> sint num < int (length syscall_order + 1)
      then Some (syscall_order ! (nat (sint num) - 1)) else None)"

definition syscall :: "('x sysS_scheme, unit) kmon" where
  "syscall =
     bnd myproc (\<lambda>p.
     bnd (tf_get p TfA7) (\<lambda>a7.
     let num = ucast a7 in
     case lookup_syscall num of
       Some n \<Rightarrow> bnd (syscalls n) (\<lambda>v. tf_set p TfA0 v)
     | None \<Rightarrow>
         bnd (get_proc p (\<lambda>q. q)) (\<lambda>q.
         thn (printf (cbytes ''%d %s: unknown sys call %d'' @ [10])
                [VInt (p_pid q), VStr (Some (p_name q)), VInt num])
         (tf_set p TfA0 (-1)))))"

section \<open>Interrupts\<close>

definition trapinithart :: "('x trapS_scheme, unit) kmon" where
  "trapinithart = modify (\<lambda>s. s\<lparr>r_stvec := sym_kernelvec s\<rparr>)"

definition cpuid :: "('x trapS_scheme, cint) kmon" where
  "cpuid = gets (\<lambda>s. ucast (r_tp s))"

definition plic_claim :: "('x trapS_scheme, cint) kmon" where
  "plic_claim = gets plic_sclaim"

definition plic_complete :: "cint \<Rightarrow> ('x trapS_scheme, unit) kmon" where
  "plic_complete irq = modify (\<lambda>s. s\<lparr>plic_completed := plic_completed s @ [irq]\<rparr>)"

definition clockintr :: "('x kern_scheme, unit) kmon" where
  "clockintr =
     thn (acquire LTicks)
     (thn (modify (\<lambda>s. s\<lparr>ticks := ticks s + 1\<rparr>))
     (thn update_time
     (thn (wakeup ChTicks)
     (release LTicks))))"

definition external_irq :: "uint64 \<Rightarrow> bool" where
  "external_irq scause \<longleftrightarrow> scause AND 0x8000000000000000 \<noteq> 0 \<and> scause AND 0xff = 9"

definition devintr :: "('x trapS_scheme, unit) kmon \<Rightarrow> ('x trapS_scheme, nat) kmon" where
  "devintr virtio_disk_intr =
     bnd (gets r_scause) (\<lambda>scause.
     if external_irq scause then
       bnd plic_claim (\<lambda>irq.
       thn (if irq = UART0_IRQ then uartintr
            else if irq = VIRTIO0_IRQ then virtio_disk_intr
            else whenM (irq \<noteq> 0) (printf (cbytes ''unexpected interrupt irq=%d'' @ [10]) [VInt irq]))
       (thn (whenM (irq \<noteq> 0) (plic_complete irq))
       (ret 1)))
     else if scause = 0x8000000000000001 then
       bnd cpuid (\<lambda>id.
       thn (whenM (id = 0) clockintr)
       (thn (modify (\<lambda>s. s\<lparr>r_sip := r_sip s AND NOT 2\<rparr>))
       (ret 2)))
     else ret 0)"

section \<open>Traps\<close>

definition intr_on :: "('x trapS_scheme, unit) kmon" where
  "intr_on = modify (\<lambda>s. s\<lparr>r_sstatus := r_sstatus s OR SSTATUS_SIE\<rparr>)"

definition intr_off :: "('x trapS_scheme, unit) kmon" where
  "intr_off = modify (\<lambda>s. s\<lparr>r_sstatus := r_sstatus s AND NOT SSTATUS_SIE\<rparr>)"

definition usertrapret :: "('x trapS_scheme, uint64 \<times> uint64) kmon" where
  "usertrapret =
     bnd myproc (\<lambda>p.
     thn intr_off
     (thn (modify (\<lambda>s. s\<lparr>r_stvec := TRAMPOLINE + (sym_uservec s - sym_trampoline s)\<rparr>))
     (bnd (gets r_satp) (\<lambda>ksatp.
     thn (tf_set p KernelSatp ksatp)
     (bnd (get_proc p p_kstack) (\<lambda>ks.
     thn (tf_set p KernelSp (ks + PGSIZE))
     (bnd (gets sym_usertrap) (\<lambda>ut.
     thn (tf_set p KernelTrap ut)
     (bnd (gets r_tp) (\<lambda>tp.
     thn (tf_set p KernelHartid tp)
     (thn (modify (\<lambda>s. s\<lparr>r_sstatus := (r_sstatus s AND NOT SSTATUS_SPP) OR SSTATUS_SPIE\<rparr>))
     (bnd (tf_get p Epc) (\<lambda>epc.
     thn (modify (\<lambda>s. s\<lparr>r_sepc := epc\<rparr>))
     (bnd (get_proc p p_pagetable) (\<lambda>pt.
     gets (\<lambda>s. (TRAMPOLINE + (sym_userret s - sym_trampoline s), MAKE_SATP pt)))))))))))))))))"

text \<open>The three ways of \<^verbatim>\<open>usertrap\<close>, with the result of \<^verbatim>\<open>devintr\<close> (0 where it is not called).\<close>

definition usertrap_cause :: "('x trapS_scheme, unit) kmon \<Rightarrow> nat \<Rightarrow> ('x trapS_scheme, nat) kmon" where
  "usertrap_cause virtio_disk_intr p =
     bnd (gets r_scause) (\<lambda>scause.
     if scause = 8 then
       bnd (killed p) (\<lambda>k.
       thn (whenM (k \<noteq> 0) (exit (-1)))
       (bnd (tf_get p Epc) (\<lambda>epc.
       thn (tf_set p Epc (epc + 4))
       (thn intr_on
       (thn syscall (ret 0))))))
     else if scause = 15 then
       bnd (gets r_stval) (\<lambda>v.
       bnd (get_proc p p_sz) (\<lambda>sz.
       thn (whenM (v \<ge> sz) (kill_cur p))
       (bnd (get_proc p p_pagetable) (\<lambda>pt.
       bnd (cowtest_h pt v) (\<lambda>r.
       thn (whenM (r \<noteq> 0) (kill_cur p))
       (ret 0))))))
     else bnd (devintr virtio_disk_intr) (\<lambda>which_dev.
       if which_dev \<noteq> 0 then ret which_dev
       else bnd (gets (\<lambda>s. s)) (\<lambda>s.
         thn (printf (cbytes ''usertrap(): unexpected scause %p pid=%d'' @ [10])
                [VPtr (r_scause s), VInt (p_pid (procs s p))])
         (thn (printf (cbytes ''            sepc=%p stval=%p'' @ [10]) [VPtr (r_sepc s), VPtr (r_stval s)])
         (thn (setkilled p)
         (ret 0))))))"

definition usertrap :: "('x trapS_scheme, unit) kmon \<Rightarrow> ('x trapS_scheme, uint64 \<times> uint64) kmon" where
  "usertrap virtio_disk_intr =
     bnd (gets r_sstatus) (\<lambda>st.
     if st AND SSTATUS_SPP \<noteq> 0 then panic ''usertrap: not from user mode''
     else thn (modify (\<lambda>s. s\<lparr>r_stvec := sym_kernelvec s\<rparr>))
       (bnd myproc (\<lambda>p.
       bnd (gets r_sepc) (\<lambda>sepc.
       thn (tf_set p Epc sepc)
       (bnd (usertrap_cause virtio_disk_intr p) (\<lambda>which_dev.
       bnd (killed p) (\<lambda>k.
       thn (whenM (k \<noteq> 0) (exit (-1)))
       (if which_dev = 2 then yield else usertrapret))))))))"

text \<open>After the yield of \<^verbatim>\<open>usertrap\<close>.\<close>

definition usertrap_resume :: "nat \<Rightarrow> ('x trapS_scheme, uint64 \<times> uint64) kmon" where
  "usertrap_resume p = thn (yield_resume p) usertrapret"

definition restore_trap_regs :: "uint64 \<Rightarrow> uint64 \<Rightarrow> ('x trapS_scheme, unit) kmon" where
  "restore_trap_regs sepc sstatus = modify (\<lambda>s. s\<lparr>r_sepc := sepc, r_sstatus := sstatus\<rparr>)"

definition kerneltrap :: "('x trapS_scheme, unit) kmon \<Rightarrow> ('x trapS_scheme, unit) kmon" where
  "kerneltrap virtio_disk_intr =
     bnd (gets r_sepc) (\<lambda>sepc.
     bnd (gets r_sstatus) (\<lambda>sstatus.
     bnd (gets r_scause) (\<lambda>scause.
     thn (assert_else (\<not> sstatus AND SSTATUS_SPP = 0) ''kerneltrap: not from supervisor mode'')
     (thn (assert_else (\<not> sstatus AND SSTATUS_SIE \<noteq> 0) ''kerneltrap: interrupts enabled'')
     (bnd (devintr virtio_disk_intr) (\<lambda>which_dev.
     if which_dev = 0 then
       thn (printf (cbytes ''scause %p'' @ [10]) [VPtr scause])
       (bnd (gets (\<lambda>s. (r_sepc s, r_stval s))) (\<lambda>(pc, tv).
       thn (printf (cbytes ''sepc=%p stval=%p'' @ [10]) [VPtr pc, VPtr tv])
       (panic ''kerneltrap'')))
     else bnd (gets cur) (\<lambda>c.
       bnd (gets (\<lambda>s. case c of None \<Rightarrow> False | Some p \<Rightarrow> p_state (procs s p) = RUNNING)) (\<lambda>running.
       if which_dev = 2 \<and> running then yield
       else restore_trap_regs sepc sstatus))))))))"

definition kerneltrap_resume :: "nat \<Rightarrow> uint64 \<Rightarrow> uint64 \<Rightarrow> ('x trapS_scheme, unit) kmon" where
  "kerneltrap_resume p sepc sstatus = thn (yield_resume p) (restore_trap_regs sepc sstatus)"

definition forkret :: "('x trapS_scheme, uint64 \<times> uint64) kmon" where
  "forkret =
     bnd myproc (\<lambda>p.
     thn (release (LProc p))
     (bnd (gets forkret_first) (\<lambda>first.
     thn (whenM first (thn (modify (\<lambda>s. s\<lparr>forkret_first := False\<rparr>)) (fsinit ROOTDEV)))
     usertrapret)))"

end
