(* ===== verification/ConsoleInv.thy ===== *)
theory ConsoleInv
  imports Console
begin

text \<open>
  Properties of \<^verbatim>\<open>kernel/printf.c\<close>: what \<^verbatim>\<open>printint\<close> prints reads back as the number.
\<close>

section \<open>Reading back what printint prints\<close>

text \<open>The value of a digit, and of a list of digits with the least significant first; the minus sign comes last.\<close>

definition digit_val :: "uint8 \<Rightarrow> nat" where
  "digit_val c = (if c < 58 then unat c - 48 else unat c - 87)"

fun digits_val :: "nat \<Rightarrow> bytes \<Rightarrow> nat" where
  "digits_val base [] = 0"
| "digits_val base (c # cs) = digit_val c + base * digits_val base cs"

definition read_int :: "nat \<Rightarrow> bytes \<Rightarrow> int" where
  "read_int base buf = (if last buf = chr (CHR ''-'') then - int (digits_val base (butlast buf)) else int (digits_val base buf))"

lemma hexdigits_eq: "hexdigits = [48, 49, 50, 51, 52, 53, 54, 55, 56, 57, 97, 98, 99, 100, 101, 102]"
  by (simp add: hexdigits_def cbytes_def chr_def of_char_def)

lemma digit_val_hexdigits: "n < 16 \<Longrightarrow> digit_val (hexdigits ! n) = n \<and> hexdigits ! n \<noteq> 45"
proof -
  have "list_all (\<lambda>n. digit_val (hexdigits ! n) = n \<and> hexdigits ! n \<noteq> 45) [0..<16]"
    by (simp add: hexdigits_eq digit_val_def upt_rec)
  moreover assume "n < 16"
  ultimately show ?thesis by (simp add: list_all_iff)
qed

lemma int_digits_val:
  assumes "1 < base" "base \<le> 16"
  shows "digits_val base (int_digits x base) = x"
proof (induction x rule: less_induct)
  case (less x)
  have d: "digit_val (hexdigits ! (x mod base)) = x mod base"
    using assms by (intro digit_val_hexdigits [THEN conjunct1]) (meson less_le_trans mod_less_divisor less_trans zero_less_one)
  show ?case
  proof (cases "x div base = 0")
    case True
    then have "x mod base = x" by (metis mult_zero_right add.left_neutral mult_div_mod_eq)
    then show ?thesis using True d by (subst int_digits.simps) simp
  next
    case False
    then have "x div base < x" using assms by (intro div_less_dividend) (auto intro: gr0I)
    then show ?thesis using False d assms less [of "x div base"] by (subst int_digits.simps) simp
  qed
qed

lemma int_digits_length:
  assumes "1 < base" shows "x < base ^ Suc n \<Longrightarrow> length (int_digits x base) \<le> Suc n"
proof (induction n arbitrary: x)
  case 0
  then show ?case by (subst int_digits.simps) simp
next
  case (Suc n)
  then have "x div base < base ^ Suc n" using assms by (simp add: div_less_iff_less_mult mult.commute)
  then show ?case using Suc.IH by (subst int_digits.simps) simp
qed

lemma int_digits_chars:
  assumes "1 < base" "base \<le> 16"
  shows "45 \<notin> set (int_digits x base) \<and> int_digits x base \<noteq> []"
proof (induction x rule: less_induct)
  case (less x)
  have d: "hexdigits ! (x mod base) \<noteq> 45"
    using assms by (intro digit_val_hexdigits [THEN conjunct2]) (meson less_le_trans mod_less_divisor less_trans zero_less_one)
  have "x div base < x" if "x div base \<noteq> 0" using assms that by (intro div_less_dividend) (auto intro: gr0I)
  then show ?case using d less [of "x div base"] by (subst int_digits.simps, subst (2) int_digits.simps) auto
qed

lemma sint_cint: "sint (x :: cint) = uint x - 2 ^ 32 * of_bool (bit x 31)"
proof -
  have "sint x = take_bit 32 (uint x) - 2 ^ 32 * of_bool (bit (uint x) 31)"
    by (simp add: sint_uint signed_take_bit_eq_take_bit_minus)
  moreover have "take_bit 32 (uint x) = uint x" using uint_lt2p [of x] by (intro take_bit_int_eq_self) simp_all
  ultimately show ?thesis by (simp add: bit_uint_iff)
qed

lemma unat_neg_sint: "sint x < 0 \<Longrightarrow> int (unat (- x :: cint)) = - sint x"
proof -
  assume "sint x < 0"
  then have s: "sint x = uint x - 2 ^ 32" "x \<noteq> 0" using sint_cint [of x] uint_ge_0 [of x] by (cases "bit x 31"; auto)+
  then have "uint (- x) = 2 ^ 32 - uint x" using uint_sub_if' [of 0 x] uint_ge_0 [of x] by (auto simp: uint_0_iff split: if_splits)
  then show ?thesis using s by simp
qed

lemma uint_sint: "\<not> sint (x :: cint) < 0 \<Longrightarrow> sint x = uint x"
  using sint_cint [of x] uint_lt2p [of x] by (cases "bit x 31") auto

text \<open>
  \<^verbatim>\<open>printint\<close> with the bases the kernel uses, 10 and 16: for every number its 16-byte buffer is not
  overrun, and what is printed reads back as that number, including the most negative \<^verbatim>\<open>int\<close>.
\<close>

theorem printint_reads_back:
  assumes "base = 10 \<or> base = 16"
  shows "length (printint_buf xx base sign) \<le> 16
    \<and> read_int base (printint_buf xx base sign) = (if sign then sint xx else uint xx)"
proof -
  have b: "1 < base" "base \<le> 16" using assms by auto
  let ?x = "if sign \<and> sint xx < 0 then - xx else xx"
  define x where "x = ?x"
  have "unat x < 2 ^ 32" by (rule unat_lt_32)
  also have "(2 :: nat) ^ 32 \<le> base ^ Suc 9" using assms by auto
  finally have len: "length (int_digits (unat x) base) \<le> 10" using int_digits_length [OF b(1), of "unat x" 9] by simp
  have buf: "printint_buf xx base sign = int_digits (unat x) base @ (if sign \<and> sint xx < 0 then [45] else [])"
    by (simp add: printint_buf_def Let_def chr_def of_char_def x_def)
  have last: "last (int_digits (unat x) base) \<noteq> 45" using int_digits_chars [OF b] last_in_set by metis
  have val: "digits_val base (int_digits (unat x) base) = unat x" by (rule int_digits_val [OF b])
  have "read_int base (printint_buf xx base sign) = (if sign \<and> sint xx < 0 then - int (unat x) else int (unat x))"
    using last val by (simp add: buf read_int_def chr_def of_char_def)
  then show ?thesis using len uint_sint [of xx] unat_neg_sint [of xx] by (auto simp: buf x_def)
qed

theorem printint_reads_back_witness:
  "printint_buf 0x80000000 10 True = rev (cbytes ''-2147483648'') \<and> read_int 10 (printint_buf 0x80000000 10 True) = -2147483648"
  using printint_reads_back [of 10 "0x80000000" True] by (simp add: printint_buf_def int_digits.simps hexdigits_eq cbytes_def chr_def of_char_def)

end
