(* ===== verification/FsInv.thy ===== *)
theory FsInv
  imports Fs
begin

text \<open>
  Properties of the on-disk structures of \<^verbatim>\<open>kernel/fs.c\<close> and of its path names.
\<close>

section \<open>Fields of blocks\<close>

named_theorems field_simps "reading a field after a field has been written"

lemma length_put [simp]: "length (put16 d a v) = length d" "length (put32 d a w) = length d"
  by (simp_all add: put16_def put32_def)

lemma get16_put16 [field_simps]: "a + 1 < length d \<Longrightarrow> get16 (put16 d a v) a = v"
  by (rule bit_eqI) (auto simp: get16_def put16_def bit_simps nth_list_update less_Suc_eq_le)

lemma get32_put32 [field_simps]: "a + 3 < length d \<Longrightarrow> get32 (put32 d a v) a = v"
proof -
  assume a: "a + 3 < length d"
  have "get32 (put32 d a v) a = ucast (ucast v :: uint8) OR push_bit 8 (ucast (ucast (drop_bit 8 v) :: uint8))
     OR push_bit 16 (ucast (ucast (drop_bit 16 v) :: uint8)) OR push_bit 24 (ucast (ucast (drop_bit 24 v) :: uint8))"
    using a by (simp add: get32_def put32_def nth_list_update)
  also have "\<dots> = v"
  proof (rule bit_eqI)
    fix n assume "possible_bit TYPE(32 word) n"
    then have n: "n < 32" by simp
    show "bit ((ucast (ucast v :: uint8) :: uint32) OR push_bit 8 (ucast (ucast (drop_bit 8 v) :: uint8))
     OR push_bit 16 (ucast (ucast (drop_bit 16 v) :: uint8)) OR push_bit 24 (ucast (ucast (drop_bit 24 v) :: uint8))) n = bit v n"
      using n by (cases "n < 8"; cases "n < 16"; cases "n < 24") (auto simp: bit_simps)
  qed
  finally show ?thesis .
qed

text \<open>Fields that do not overlap do not interfere.\<close>

lemma nth_put16: "k < a \<or> a + 2 \<le> k \<Longrightarrow> put16 d a v ! k = d ! k"
  by (auto simp: put16_def nth_list_update)

lemma nth_put32: "k < a \<or> a + 4 \<le> k \<Longrightarrow> put32 d a v ! k = d ! k"
  by (auto simp: put32_def nth_list_update)

lemma get16_cong: "d ! a = d' ! a \<Longrightarrow> d ! (a + 1) = d' ! (a + 1) \<Longrightarrow> get16 d a = get16 d' a"
  by (simp add: get16_def)

lemma get32_cong:
  assumes "\<And>i. i < 4 \<Longrightarrow> d ! (a + i) = d' ! (a + i)"
  shows "get32 d a = get32 d' a"
  using assms [of 0] assms [of 1] assms [of 2] assms [of 3] by (simp add: get32_def)

lemma get16_put_other [field_simps]:
  "b + 2 \<le> a \<or> a + 2 \<le> b \<Longrightarrow> get16 (put16 d a v) b = get16 d b"
  "b + 2 \<le> a \<or> a + 4 \<le> b \<Longrightarrow> get16 (put32 d a w) b = get16 d b"
  by (auto intro!: get16_cong simp: nth_put16 nth_put32)

lemma get32_put_other [field_simps]:
  "b + 4 \<le> a \<or> a + 2 \<le> b \<Longrightarrow> get32 (put16 d a v) b = get32 d b"
  "b + 4 \<le> a \<or> a + 4 \<le> b \<Longrightarrow> get32 (put32 d a w) b = get32 d b"
  by (auto intro!: get32_cong simp: nth_put16 nth_put32)

lemma put_words_simps: "put_words d b [] = d" "put_words d b (vs @ [v]) = put32 (put_words d b vs) (b + 4 * length vs) v"
  by (simp_all add: put_words_def enumerate_append_eq)

lemma length_put_words [simp]: "length (put_words d b vs) = length d"
  by (induction vs rule: rev_induct) (simp_all add: put_words_simps)

lemma put_words_other [field_simps]:
  "c + 2 \<le> b \<or> b + 4 * length vs \<le> c \<Longrightarrow> get16 (put_words d b vs) c = get16 d c"
  "c + 4 \<le> b \<or> b + 4 * length vs \<le> c \<Longrightarrow> get32 (put_words d b vs) c = get32 d c"
  by (induction vs rule: rev_induct) (auto simp: put_words_simps field_simps)

lemma put_words_nth [field_simps]:
  "i < length vs \<Longrightarrow> b + 4 * length vs \<le> length d \<Longrightarrow> get32 (put_words d b vs) (b + 4 * i) = vs ! i"
  by (induction vs rule: rev_induct) (auto simp: put_words_simps field_simps nth_append less_Suc_eq)

text \<open>An inode written into a block, and the inodes beside it.\<close>

lemma get_put_dinode:
  assumes "length d = BSIZE" and "j < IPB" and "k < IPB" and "length (d_addrs i) = NDIRECT + 1"
  shows "get_dinode (put_dinode d j i) k = (if k = j then i else get_dinode d k)"
proof -
  have l: "length d = 1024" "j < 16" "k < 16" "length (d_addrs i) = 13" using assms by (simp_all add: params)
  show ?thesis
  proof (cases "k = j")
    case True
    have "map (\<lambda>n. get32 (put_dinode d j i) (64 * j + 12 + 4 * n)) [0..<13] = d_addrs i"
      using l by (intro nth_equalityI) (simp_all add: put_dinode_def Let_def field_simps)
    then show ?thesis
      using True l by (cases i) (simp add: get_dinode_def put_dinode_def Let_def field_simps params)
  next
    case False
    then have sep: "64 * k + 64 \<le> 64 * j \<or> 64 * j + 64 \<le> 64 * k" by linarith
    have "get32 (put_dinode d j i) (64 * k + 12 + 4 * n) = get32 d (64 * k + 12 + 4 * n)" if "n < 13" for n
      using sep l that by (auto simp: put_dinode_def Let_def field_simps)
    then show ?thesis
      using False sep l by (simp add: get_dinode_def params) (auto simp: put_dinode_def Let_def field_simps)
  qed
qed

text \<open>
  The inodes of a block: an inode written into its place in a block reads back exactly, and the
  other inodes of the block are not changed.
\<close>

theorem dinode_roundtrip:
  assumes "length d = BSIZE" and "j < IPB" and "k < IPB" and "length (d_addrs i) = NDIRECT + 1"
  shows "get_dinode (put_dinode d j i) k = (if k = j then i else get_dinode d k)"
  using assms by (rule get_put_dinode)

theorem dinode_roundtrip_witness:
  "get_dinode (put_dinode (replicate BSIZE 0) 3 (fresh_dinode 2)) 3 = fresh_dinode 2
   \<and> get_dinode (put_dinode (replicate BSIZE 0) 3 (fresh_dinode 2)) 4 = get_dinode (replicate BSIZE 0) 4"
  using dinode_roundtrip [of "replicate BSIZE 0" 3 3 "fresh_dinode 2"] dinode_roundtrip [of "replicate BSIZE 0" 3 4 "fresh_dinode 2"]
  by (simp add: params fresh_dinode_def)

end
