(* ===== verification/LogSpec.thy ===== *)
theory LogSpec
  imports Log FsInv
begin

text \<open>
  The log on the disk as a specification: its layout, the writes of a commit in their order, what a restart makes of a
  disk, and the atomicity of the writes with respect to a stop after any number of them.
\<close>

section \<open>The log on the disk, as a specification\<close>

text \<open>
  The log area starts with the header block \<open>st\<close>; the \<open>m\<close> blocks after it hold the logged content. \<open>head_of\<close> is
  the header for a list of home blocks and \<open>head_list\<close> reads it back; \<open>put_disk\<close> carries out a list of
  writes; \<open>install_disk\<close> copies the logged blocks to their homes; \<open>recover_disk\<close> is what a restart makes
  of a disk; and \<open>commit_writes\<close> is the order of the writes of a commit.
\<close>

definition log_blk :: "uint32 \<Rightarrow> nat \<Rightarrow> uint32" where
  "log_blk st i = st + of_nat i + 1"

definition in_log :: "uint32 \<Rightarrow> nat \<Rightarrow> uint32 \<Rightarrow> bool" where
  "in_log st m x \<longleftrightarrow> x = st \<or> (\<exists>i<m. x = log_blk st i)"

definition head_of :: "uint32 list \<Rightarrow> bytes \<Rightarrow> bytes" where
  "head_of bs d = put_words (put32 d 0 (of_nat (length bs))) 4 bs"

definition head_list :: "bytes \<Rightarrow> uint32 list" where
  "head_list d = map (\<lambda>i. get32 d (4 + 4 * i)) [0..<nat (sint (get32 d 0))]"

definition put_disk :: "(uint32 \<times> bytes) list \<Rightarrow> (uint32 \<Rightarrow> bytes) \<Rightarrow> uint32 \<Rightarrow> bytes" where
  "put_disk ws f = fold (\<lambda>(n, d) f. f(n := d)) ws f"

definition install_disk :: "uint32 \<Rightarrow> uint32 list \<Rightarrow> (uint32 \<Rightarrow> bytes) \<Rightarrow> uint32 \<Rightarrow> bytes" where
  "install_disk st bs f = put_disk (map (\<lambda>i. (bs ! i, f (log_blk st i))) [0..<length bs]) f"

definition recover_disk :: "uint32 \<Rightarrow> (uint32 \<Rightarrow> bytes) \<Rightarrow> uint32 \<Rightarrow> bytes" where
  "recover_disk st f = (install_disk st (head_list (f st)) f)(st := put32 (f st) 0 0)"

definition log_writes :: "uint32 \<Rightarrow> uint32 list \<Rightarrow> (uint32 \<Rightarrow> bytes) \<Rightarrow> (uint32 \<times> bytes) list" where
  "log_writes st bs V = map (\<lambda>i. (log_blk st i, V (bs ! i))) [0..<length bs]"

definition home_writes :: "uint32 list \<Rightarrow> (uint32 \<Rightarrow> bytes) \<Rightarrow> (uint32 \<times> bytes) list" where
  "home_writes bs V = map (\<lambda>b. (b, V b)) bs"

definition commit_writes :: "uint32 \<Rightarrow> uint32 list \<Rightarrow> (uint32 \<Rightarrow> bytes) \<Rightarrow> (uint32 \<times> bytes) list" where
  "commit_writes st bs V = log_writes st bs V @ [(st, head_of bs (V st))] @ home_writes bs V
     @ [(st, put32 (head_of bs (V st)) 0 0)]"

lemma put_disk_simps [simp]:
  "put_disk [] f = f" "put_disk ((n, d) # ws) f = put_disk ws (f(n := d))" "put_disk (ws @ ws') f = put_disk ws' (put_disk ws f)"
  by (simp_all add: put_disk_def)

lemma put_disk_other: "x \<notin> fst ` set ws \<Longrightarrow> put_disk ws f x = f x"
  by (induction ws arbitrary: f) auto

lemma put_disk_same:
  "(\<And>d. (x, d) \<in> set ws \<Longrightarrow> d = v) \<Longrightarrow> x \<in> fst ` set ws \<Longrightarrow> put_disk ws f x = v"
proof (induction ws rule: rev_induct)
  case (snoc w ws)
  show ?case
  proof (cases "fst w = x")
    case True
    then have "w = (x, v)" using snoc.prems(1) [of "snd w"] by (cases w) auto
    then show ?thesis by simp
  next
    case False
    then have "put_disk ws f x = v" using snoc by auto
    then show ?thesis using False by (cases w) simp
  qed
qed simp

lemma log_blk_inj: "log_blk st i = log_blk st j \<longleftrightarrow> i = j" if "i < 2 ^ 32" "j < 2 ^ 32"
  using that by (simp add: log_blk_def word_of_nat_eq_iff take_bit_nat_eq_self)

lemma log_blk_ne: "i < LOGSIZE \<Longrightarrow> log_blk st i \<noteq> st"
proof
  assume i: "i < LOGSIZE" and "log_blk st i = st"
  then have "of_nat (Suc i) = (0 :: uint32)" by (simp add: log_blk_def add.commute add.left_commute)
  then have "unat (of_nat (Suc i) :: uint32) = 0" by simp
  then show False using i unfolding unat_of_nat by (simp add: params)
qed

lemma in_logI [simp]: "in_log st m st" "i < m \<Longrightarrow> in_log st m (log_blk st i)"
  by (auto simp: in_log_def)

lemma nat_sint_of_nat: "n \<le> LOGSIZE \<Longrightarrow> nat (sint (of_nat n :: uint32)) = n"
  by (simp add: signed_of_nat params signed_take_bit_int_eq_self)

lemma head_roundtrip:
  assumes "length bs \<le> LOGSIZE" "length d = BSIZE"
  shows "head_list (head_of bs d) = bs" "length (head_of bs d) = BSIZE"
proof -
  have n: "get32 (head_of bs d) 0 = of_nat (length bs)" using assms by (simp add: head_of_def field_simps params BSIZE_def)
  have "get32 (head_of bs d) (4 + 4 * i) = bs ! i" if "i < length bs" for i
    using assms that by (simp add: head_of_def put_words_nth params BSIZE_def)
  then show "head_list (head_of bs d) = bs"
    unfolding head_list_def n nat_sint_of_nat [OF assms(1)] by (intro nth_equalityI) simp_all
  show "length (head_of bs d) = BSIZE" using assms by (simp add: head_of_def)
qed

lemma head_list_cleared: "3 < length d \<Longrightarrow> head_list (put32 d 0 0) = []"
  by (simp add: head_list_def field_simps)

lemma head_list_0: "get32 d 0 = 0 \<Longrightarrow> head_list d = []"
  by (simp add: head_list_def)

lemma log_writes_at:
  assumes "length bs \<le> LOGSIZE" "i < length bs"
  shows "put_disk (log_writes st bs V) f (log_blk st i) = V (bs ! i)"
proof (rule put_disk_same)
  show "log_blk st i \<in> fst ` set (log_writes st bs V)" using assms by (force simp: log_writes_def)
  fix d
  assume "(log_blk st i, d) \<in> set (log_writes st bs V)"
  then obtain j where "j < length bs" "log_blk st i = log_blk st j" "d = V (bs ! j)" by (auto simp: log_writes_def)
  then show "d = V (bs ! i)" using assms log_blk_inj [of i j st] by (simp add: params)
qed

lemma log_writes_other:
  assumes "length bs \<le> m" "m \<le> LOGSIZE" "x = st \<or> \<not> in_log st m x" "set ws \<subseteq> set (log_writes st bs V)"
  shows "put_disk ws f x = f x"
proof (rule put_disk_other)
  show "x \<notin> fst ` set ws"
  proof
    assume "x \<in> fst ` set ws"
    then obtain i where "i < length bs" "x = log_blk st i" using assms(4) by (auto simp: log_writes_def)
    then show False using assms(1-3) log_blk_ne [of i st] by auto
  qed
qed

lemma home_writes_at:
  assumes "set ws \<subseteq> set (home_writes bs V)" "f x = V x \<or> x \<notin> set bs \<or> x \<in> fst ` set ws"
  shows "put_disk ws f x = (if x \<in> set bs then V x else f x)"
proof (cases "x \<in> fst ` set ws")
  case True
  then have "x \<in> set bs" using assms(1) by (auto simp: home_writes_def)
  moreover have "put_disk ws f x = V x" using True assms(1) by (intro put_disk_same) (auto simp: home_writes_def)
  ultimately show ?thesis by simp
qed (use assms in \<open>auto simp: put_disk_other\<close>)

lemma home_writes_other: "set ws \<subseteq> set (home_writes bs V) \<Longrightarrow> x \<notin> set bs \<Longrightarrow> put_disk ws f x = f x"
  by (rule put_disk_other) (auto simp: home_writes_def)

lemma install_disk_home: "install_disk st bs f = put_disk (home_writes bs V) f"
  if "\<And>i. i < length bs \<Longrightarrow> f (log_blk st i) = V (bs ! i)"
proof -
  have "map (\<lambda>i. (bs ! i, f (log_blk st i))) [0..<length bs] = home_writes bs V"
    unfolding home_writes_def using that by (intro nth_equalityI) simp_all
  then show ?thesis by (simp add: install_disk_def)
qed

lemma install_disk_Nil [simp]: "install_disk st [] f = f"
  by (simp add: install_disk_def)

text \<open>A restart after any number of the writes of a commit finds all of the transaction or nothing of it.\<close>

lemma recover_prefix:
  assumes m: "length bs \<le> m" "m \<le> LOGSIZE" and out: "\<forall>b\<in>set bs. \<not> in_log st m b"
    and head: "get32 (f st) 0 = 0" "length (f st) = BSIZE" "V st = f st" and x: "\<not> in_log st m x"
  shows "recover_disk st (put_disk (take k (commit_writes st bs V)) f) x
    = (if length bs < k \<and> x \<in> set bs then V x else f x)"
proof -
  have n: "length bs \<le> LOGSIZE" using m by simp
  let ?W = "log_writes st bs V" and ?h = "head_of bs (f st)" and ?H = "home_writes bs V"
  have xst: "x \<noteq> st" using x by auto
  have len: "length ?W = length bs" "length ?H = length bs" by (simp_all add: log_writes_def home_writes_def)
  have bst: "st \<notin> set bs" using out by auto
  let ?g = "put_disk ?W f"
  have g: "?g x = f x" using x by (intro log_writes_other [OF m]) auto
  consider "k \<le> length bs" | j where "k = length bs + 1 + j" "j \<le> length bs" | "2 * length bs + 2 \<le> k"
    by atomize_elim presburger
  then show ?thesis
  proof cases
    case 1
    let ?d = "put_disk (take k ?W) f"
    have d: "?d x = f x" "?d st = f st" using x set_take_subset [of k ?W] by (auto intro!: log_writes_other [OF m])
    have "take k (commit_writes st bs V) = take k ?W" using 1 by (simp add: commit_writes_def len)
    then show ?thesis using 1 d xst head(1) by (simp add: recover_disk_def head_list_0)
  next
    case 2
    let ?e = "?g(st := ?h)"
    let ?d = "put_disk (take j ?H) ?e"
    have sub: "set (take j ?H) \<subseteq> set ?H" by (rule set_take_subset)
    have t: "take k (commit_writes st bs V) = ?W @ [(st, ?h)] @ take j ?H" using 2 by (simp add: commit_writes_def len head(3))
    have dst: "?d st = ?h" using home_writes_other [OF sub bst, of ?e] by simp
    have "?d (log_blk st i) = V (bs ! i)" if "i < length bs" for i
    proof -
      have i: "i < LOGSIZE" "i < m" using that m by simp_all
      then have "log_blk st i \<notin> set bs" using out by auto
      then show ?thesis using home_writes_other [OF sub, of "log_blk st i" ?e] log_writes_at [OF n that] log_blk_ne [OF i(1)] by simp
    qed
    then have ins: "install_disk st bs ?d = put_disk ?H ?d" by (rule install_disk_home)
    have "put_disk ?H ?d x = (if x \<in> set bs then V x else ?d x)" by (rule home_writes_at) (auto simp: home_writes_def image_image)
    then have "recover_disk st ?d x = (if x \<in> set bs then V x else ?d x)"
      using dst ins xst head_roundtrip(1) [OF n head(2)] by (simp add: recover_disk_def)
    moreover have "x \<notin> set bs \<Longrightarrow> ?d x = f x" using home_writes_other [OF sub, of x ?e] xst g by simp
    ultimately show ?thesis using 2 unfolding t by (simp add: t)
  next
    case 3
    let ?d = "(put_disk ?H (?g(st := ?h)))(st := put32 ?h 0 0)"
    have t: "take k (commit_writes st bs V) = ?W @ [(st, ?h)] @ ?H @ [(st, put32 ?h 0 0)]"
      using 3 by (simp add: commit_writes_def len head(3))
    have "head_list (?d st) = []" using head_roundtrip(2) [OF n head(2)] by (simp add: head_list_cleared BSIZE_def)
    then have "recover_disk st ?d x = put_disk ?H (?g(st := ?h)) x" using xst by (simp add: recover_disk_def)
    also have "\<dots> = (if x \<in> set bs then V x else f x)"
      using home_writes_at [of ?H bs V "?g(st := ?h)" x] g xst by (simp add: home_writes_def image_image)
    finally show ?thesis using 3 by (simp add: t)
  qed
qed

end
