(* ===== verification/Ring.thy ===== *)
theory Ring
  imports Prelude
begin

text \<open>
  Bounded queues. The kernel has three ring buffers (pipes, console input, UART output) with the same
  scheme: indices that only grow and wrap around at the word size, and a slot that is the index
  modulo the size. The locale \<open>bounded_fifo\<close> is the interface of a queue with a capacity; a ring
  whose size divides the range of its indices provides it.
\<close>

section \<open>The interface\<close>

locale bounded_fifo =
  fixes contents :: "'q \<Rightarrow> 'b list" and put :: "'b \<Rightarrow> 'q \<Rightarrow> 'q" and get :: "'q \<Rightarrow> 'b \<times> 'q"
    and cap :: nat and inv :: "'q \<Rightarrow> bool"
  assumes put_contents: "inv q \<Longrightarrow> length (contents q) < cap \<Longrightarrow> contents (put x q) = contents q @ [x]"
    and put_inv: "inv q \<Longrightarrow> length (contents q) < cap \<Longrightarrow> inv (put x q)"
    and get_contents: "inv q \<Longrightarrow> contents q \<noteq> [] \<Longrightarrow> contents q = fst (get q) # contents (snd (get q))"
    and get_inv: "inv q \<Longrightarrow> contents q \<noteq> [] \<Longrightarrow> inv (snd (get q))"
    and bound: "inv q \<Longrightarrow> length (contents q) \<le> cap"
begin

lemma put_all:
  "inv q \<Longrightarrow> length (contents q) + length xs \<le> cap \<Longrightarrow>
    inv (fold put xs q) \<and> contents (fold put xs q) = contents q @ xs"
  by (induction xs arbitrary: q) (simp_all add: put_contents put_inv)

lemma get_first: "inv q \<Longrightarrow> contents q \<noteq> [] \<Longrightarrow> fst (get q) = hd (contents q) \<and> contents (snd (get q)) = tl (contents q)"
  using get_contents by (metis list.sel(1,3))

lemma get_pow:
  "inv q \<Longrightarrow> n \<le> length (contents q) \<Longrightarrow>
    inv (((\<lambda>q. snd (get q)) ^^ n) q) \<and> contents (((\<lambda>q. snd (get q)) ^^ n) q) = drop n (contents q)"
proof (induction n)
  case (Suc n)
  let ?q = "((\<lambda>q. snd (get q)) ^^ n) q"
  have "inv ?q" "contents ?q = drop n (contents q)" using Suc by auto
  moreover from this have "contents ?q \<noteq> []" using Suc.prems by simp
  ultimately show ?case using get_first [of ?q] get_inv [of ?q] by (simp add: drop_Suc tl_drop)
qed simp

text \<open>What is put into an empty queue comes out in the same order.\<close>

lemma fifo_order:
  assumes "inv q" and "contents q = []" and "length xs \<le> cap" and "i < length xs"
  shows "fst (get (((\<lambda>q. snd (get q)) ^^ i) (fold put xs q))) = xs ! i"
proof -
  have p: "inv (fold put xs q)" "contents (fold put xs q) = xs" using put_all [of q xs] assms by auto
  then have "contents (((\<lambda>q. snd (get q)) ^^ i) (fold put xs q)) = drop i xs" "inv (((\<lambda>q. snd (get q)) ^^ i) (fold put xs q))"
    using get_pow [of "fold put xs q" i] assms(4) by auto
  then show ?thesis using get_first assms(4) by (simp add: hd_drop_conv_nth)
qed

end

section \<open>Rings\<close>

type_synonym 'a ring = "(nat \<Rightarrow> uint8) \<times> 'a word \<times> 'a word"

definition ring_list :: "nat \<Rightarrow> 'a::len ring \<Rightarrow> bytes" where
  "ring_list N = (\<lambda>(b, r, w). map (\<lambda>i. b (unat (r + of_nat i) mod N)) [0..<unat (w - r)])"

definition ring_put :: "nat \<Rightarrow> uint8 \<Rightarrow> 'a::len ring \<Rightarrow> 'a ring" where
  "ring_put N c = (\<lambda>(b, r, w). (b(unat w mod N := c), r, w + 1))"

definition ring_get :: "nat \<Rightarrow> 'a::len ring \<Rightarrow> uint8 \<times> 'a ring" where
  "ring_get N = (\<lambda>(b, r, w). (b (unat r mod N), (b, r + 1, w)))"

definition ring_ok :: "nat \<Rightarrow> 'a::len ring \<Rightarrow> bool" where
  "ring_ok N = (\<lambda>(b, r, w). unat (w - r) \<le> N)"

lemma length_ring_list [simp]: "length (ring_list N (b, r, w)) = unat (w - r)"
  by (simp add: ring_list_def)

lemma ring_empty_iff: "ring_list N (b, r, w) = [] \<longleftrightarrow> r = w"
proof -
  have "ring_list N (b, r, w) = [] \<longleftrightarrow> unat (w - r) = 0" by (metis length_0_conv length_ring_list)
  then show ?thesis by (simp add: unat_eq_0) (metis eq_iff_diff_eq_0)
qed

locale word_ring =
  fixes N :: nat and T :: "'a::len itself"
  assumes pos: "0 < N" and room: "N < 2 ^ LENGTH('a)" and dvd: "N dvd 2 ^ LENGTH('a)"
begin

lemma slot_add: "unat ((r :: 'a word) + of_nat i) mod N = (unat r + i) mod N"
proof -
  have "unat (r + of_nat i) mod N = (unat r + i) mod 2 ^ LENGTH('a) mod N"
    by (metis mod_add_right_eq unat_of_nat unat_word_ariths(1) take_bit_eq_mod)
  also have "\<dots> = (unat r + i) mod N" using dvd by (rule mod_mod_cancel)
  finally show ?thesis .
qed

lemma unat_grow: "unat (w - (r :: 'a word)) < N \<Longrightarrow> unat (w + 1 - r) = Suc (unat (w - r))"
proof -
  assume "unat (w - r) < N"
  then have "unat (w - r) + unat (1 :: 'a word) < 2 ^ LENGTH('a)" using room by (cases "LENGTH('a) = 0") auto
  then have "unat (w - r + 1) = unat (w - r) + unat (1 :: 'a word)" by (rule unat_add_small)
  then show ?thesis by (simp add: algebra_simps)
qed

lemma unat_shrink: "r \<noteq> (w :: 'a word) \<Longrightarrow> unat (w - r) = Suc (unat (w - (r + 1)))"
proof -
  assume "r \<noteq> w"
  then have "w - r \<noteq> 0" by simp
  then have "unat (w - r - 1) = unat (w - r) - 1" "unat (w - r) > 0" by (simp_all add: unat_minus_one unat_gt_0)
  then show ?thesis by (simp add: diff_diff_eq)
qed

lemma put_list: "unat (w - r) < N \<Longrightarrow> ring_list N (ring_put N c (b, r, w)) = ring_list N (b, r, w) @ [c]" for r w :: "'a word"
proof -
  assume lt: "unat (w - r) < N"
  have w: "unat w mod N = (unat r + unat (w - r)) mod N" using slot_add [of r "unat (w - r)"] by simp
  have other: "(unat r + i) mod N \<noteq> (unat r + unat (w - r)) mod N" if "i < unat (w - r)" for i
  proof
    assume eq: "(unat r + i) mod N = (unat r + unat (w - r)) mod N"
    have "N dvd (unat r + unat (w - r)) - (unat r + i)"
      using eq that by (subst mod_eq_dvd_iff_nat [symmetric]) auto
    then have "N dvd unat (w - r) - i" by simp
    then show False using that lt by (auto dest!: dvd_imp_le)
  qed
  show ?thesis
    using lt by (simp add: ring_list_def ring_put_def unat_grow w slot_add other)
qed

lemma get_list:
  "r \<noteq> w \<Longrightarrow> ring_list N (b, r, w) = fst (ring_get N (b, r, w)) # ring_list N (snd (ring_get N (b, r, w)))" for r w :: "'a word"
proof -
  assume ne: "r \<noteq> w"
  have "[0..<Suc (unat (w - (r + 1)))] = 0 # map Suc [0..<unat (w - (r + 1))]" by (simp add: upt_conv_Cons map_Suc_upt)
  then show ?thesis
    by (simp add: ring_list_def ring_get_def unat_shrink [OF ne] add.assoc add.commute [of 1] del: upt_Suc)
qed

end

sublocale word_ring < bounded_fifo "ring_list N :: 'a ring \<Rightarrow> bytes" "ring_put N" "ring_get N" N "ring_ok N"
proof
  fix q :: "'a ring" and x
  obtain b r w where q: "q = (b, r, w)" by (cases q)
  assume ok: "ring_ok N q"
  show "length (ring_list N q) \<le> N" using ok by (simp add: q ring_ok_def)
  show "ring_list N (ring_put N x q) = ring_list N q @ [x]" if "length (ring_list N q) < N"
    using that by (simp add: q put_list)
  show "ring_ok N (ring_put N x q)" if "length (ring_list N q) < N"
    using that unat_grow [of w r] by (simp add: q ring_ok_def ring_put_def)
  assume ne: "ring_list N q \<noteq> []"
  then have rw: "r \<noteq> w" by (simp add: q ring_empty_iff)
  show "ring_list N q = fst (ring_get N q) # ring_list N (snd (ring_get N q))"
    unfolding q using rw by (rule get_list)
  show "ring_ok N (snd (ring_get N q))"
    using ok unat_shrink [OF rw] by (simp add: q ring_ok_def ring_get_def)
qed

end
