(* ===== verification/UserMem.thy ===== *)
theory UserMem
  imports Sysfile Cow ProcInv
begin

text \<open>
  What the routines that fetch data from user memory deliver: \<^verbatim>\<open>copyin\<close>, \<^verbatim>\<open>copyinstr\<close>, and \<^verbatim>\<open>fetchstr\<close> above
  them. They return in every state and change nothing.
\<close>

definition uaddr :: "memory \<Rightarrow> pagetable_t \<Rightarrow> uint64 \<Rightarrow> uint64" where
  "uaddr m pt va =
     (if va \<ge> MAXVA then 0
      else if walk0 m pt va = 0 then 0
      else let pte = ld64 m (walk0 m pt va) in
        if pte AND PTE_V = 0 \<or> pte AND PTE_U = 0 then 0 else PTE2PA pte)"

lemma walkaddr_run: "walkaddr pt va s = Ok (uaddr (mem s) pt va) s"
  by (cases "va < MAXVA") (simp_all add: walkaddr_def uaddr_def walk_noalloc bnd_Ok load64_def Let_def not_less)

lemma uaddr_leaf:
  assumes "twf m 2 pt" "0 \<notin> tabs m 2 pt"
  shows "uaddr m pt va = (let v = leaf m 2 pt va in if va < MAXVA \<and> v AND PTE_V \<noteq> 0 \<and> v AND PTE_U \<noteq> 0 then PTE2PA v else 0)"
proof (cases "lookup_level m pt va 2")
  case None
  then show ?thesis by (simp add: uaddr_def walk0_def leaf_def)
next
  case (Some a)
  then obtain tb where "tb \<in> tabs m 2 pt" "pg_aligned tb" "a = slot tb (px 0 va)" using lookup_slot [OF assms(1)] by blast
  then have "a \<noteq> 0" using slot_nonzero [of tb "px 0 va"] assms(2) by auto
  then show ?thesis using Some by (auto simp: uaddr_def walk0_def leaf_def Let_def not_less)
qed

lemma uaddr_cong:
  assumes "twf m 2 pt" "0 \<notin> tabs m 2 pt" "\<And>x. PGROUNDDOWN x \<in> tabs m 2 pt \<Longrightarrow> m' x = m x"
  shows "uaddr m' pt va = uaddr m pt va"
  using tree_cong [OF assms(1,3)] assms(1,2) by (simp add: uaddr_leaf)

definition user_byte :: "memory \<Rightarrow> pagetable_t \<Rightarrow> uint64 \<Rightarrow> uint8" where
  "user_byte m pt va = m (uaddr m pt (PGROUNDDOWN va) + (va - PGROUNDDOWN va))"

definition user_ok :: "memory \<Rightarrow> pagetable_t \<Rightarrow> uint64 \<Rightarrow> bool" where
  "user_ok m pt va \<longleftrightarrow> uaddr m pt (PGROUNDDOWN va) \<noteq> 0"

definition user_bytes :: "memory \<Rightarrow> pagetable_t \<Rightarrow> uint64 \<Rightarrow> nat \<Rightarrow> bytes" where
  "user_bytes m pt va n = map (\<lambda>i. user_byte m pt (va + of_nat i)) [0..<n]"

lemma page_offset: "n \<le> 4096 - unat (va - PGROUNDDOWN va) \<Longrightarrow> i < n \<Longrightarrow>
   PGROUNDDOWN (va + of_nat i) = PGROUNDDOWN va"
proof -
  assume n: "n \<le> 4096 - unat (va - PGROUNDDOWN va)" "i < n"
  have "unat ((va - PGROUNDDOWN va) + of_nat i) = unat (va - PGROUNDDOWN va) + i"
    using n page_offset_lt [of va] by (subst unat_add_small) (simp_all add: unat_of_nat_small)
  then have "unat (va + of_nat i - PGROUNDDOWN va) < 4096" using n by (simp add: algebra_simps)
  then show ?thesis by (simp add: in_page_iff)
qed

lemma user_bytes_page:
  assumes "n \<le> 4096 - unat (va - PGROUNDDOWN va)"
  shows "user_bytes m pt va n = ld_bytes m (uaddr m pt (PGROUNDDOWN va) + (va - PGROUNDDOWN va)) n"
  using assms by (auto simp: user_bytes_def ld_bytes_def user_byte_def page_offset algebra_simps)

lemma user_bytes_append: "user_bytes m pt va (a + b) = user_bytes m pt va a @ user_bytes m pt (va + of_nat a) b"
  by (rule nth_equalityI) (auto simp: user_bytes_def nth_append)

lemma next_page: "n = 4096 - unat (va - PGROUNDDOWN va) \<Longrightarrow> va + of_nat n = PGROUNDDOWN va + PGSIZE"
  using page_offset_lt [of va] by (simp add: of_nat_diff PGSIZE_def)

text \<open>Every byte of the range lies in a page that is mapped for the user.\<close>

definition all_user :: "memory \<Rightarrow> pagetable_t \<Rightarrow> uint64 \<Rightarrow> nat \<Rightarrow> bool" where
  "all_user m pt va n \<longleftrightarrow> (\<forall>i<n. user_ok m pt (va + of_nat i))"

lemma all_user_append: "all_user m pt va (a + b) \<longleftrightarrow> all_user m pt va a \<and> all_user m pt (va + of_nat a) b"
  unfolding all_user_def
  by (auto simp: add.assoc simp flip: of_nat_add) (metis add_diff_inverse_nat nat_add_left_cancel_less)

lemma all_user_page:
  assumes "0 < n" "n \<le> 4096 - unat (va - PGROUNDDOWN va)"
  shows "all_user m pt va n \<longleftrightarrow> uaddr m pt (PGROUNDDOWN va) \<noteq> 0"
  using assms by (auto simp: all_user_def user_ok_def page_offset)

text \<open>
  The number of bytes of a range before the first page that is not mapped, and the bytes and pages of two adjacent ranges.
\<close>

definition mapped_len :: "memory \<Rightarrow> pagetable_t \<Rightarrow> uint64 \<Rightarrow> nat \<Rightarrow> nat \<Rightarrow> bool" where
  "mapped_len m pt va n k \<longleftrightarrow> k \<le> n \<and> all_user m pt va k \<and> (k < n \<longrightarrow> \<not> user_ok m pt (va + of_nat k))"

lemma all_user_0 [simp]: "all_user m pt va 0" "user_bytes m pt va 0 = []"
  by (simp_all add: all_user_def user_bytes_def)

lemma mapped_len_add:
  assumes "all_user m pt va a" "mapped_len m pt (va + of_nat a) b k"
  shows "mapped_len m pt va (a + b) (a + k)"
  using assms all_user_append [of m pt va a k] by (auto simp: mapped_len_def add.assoc)

lemma mapped_len_unique: "mapped_len m pt va n k \<Longrightarrow> mapped_len m pt va n k' \<Longrightarrow> k = k'"
  unfolding mapped_len_def all_user_def by (metis linorder_neqE_nat less_le_trans)

text \<open>One iteration of the two loops.\<close>

lemma page_part_bounds:
  "0 < len \<Longrightarrow> 0 < unat (page_part va len)" "unat (page_part va len) \<le> 4096 - unat (va - PGROUNDDOWN va)"
  "unat (page_part va len) \<le> unat len"
  using page_offset_lt [of va] by (auto simp: unat_page_part word_less_nat_alt)

lemma page_part_all: "unat len = unat (page_part va len) \<Longrightarrow> len - page_part va len = 0"
  by (simp add: word_unat_eq_iff unat_page_rest)

lemma page_part_next: "unat len \<noteq> unat (page_part va len) \<Longrightarrow> va + of_nat (unat (page_part va len)) = PGROUNDDOWN va + PGSIZE"
  by (rule next_page) (simp add: unat_page_part min_def split: if_splits)

lemma copyin_step:
  assumes "0 < len"
  shows "uaddr (mem s) pt (PGROUNDDOWN va) = 0 \<Longrightarrow> copyin pt va len s = Ok (-1, []) s"
    and "uaddr (mem s) pt (PGROUNDDOWN va) \<noteq> 0 \<Longrightarrow> copyin pt va len s =
      bnd (copyin pt (PGROUNDDOWN va + PGSIZE) (len - page_part va len))
        (\<lambda>(r, rest). ret (r, user_bytes (mem s) pt va (unat (page_part va len)) @ rest)) s"
  using assms user_bytes_page [OF page_part_bounds(2), of "mem s" pt va len]
  by (subst copyin.simps; simp add: walkaddr_run bnd_Ok Let_def)+

lemma copyin_run:
  "\<exists>k. mapped_len (mem s) pt va (unat len) k
    \<and> copyin pt va len s = Ok (if k = unat len then 0 else -1, user_bytes (mem s) pt va k) s"
proof (induction pt va len rule: copyin.induct)
  case (1 pt va len)
  let ?n = "unat (page_part va len)" and ?u = "uaddr (mem s) pt (PGROUNDDOWN va)"
  consider "len = 0" | "0 < len" "?u = 0" | "0 < len" "?u \<noteq> 0" using word_gt_0 by blast
  then show ?case
  proof cases
    case 1
    then show ?thesis by (intro exI [of _ 0]) (simp add: copyin.simps mapped_len_def)
  next
    case 2
    then show ?thesis using copyin_step(1) [OF 2] by (intro exI [of _ 0]) (auto simp: mapped_len_def user_ok_def word_less_nat_alt)
  next
    case 3
    have first: "all_user (mem s) pt va ?n" using 3 all_user_page [OF page_part_bounds(1,2)] by blast
    note step = copyin_step(2) [OF 3] and le = page_part_bounds(3) [of va len]
    show ?thesis
    proof (cases "unat len = ?n")
      case all: True
      have "copyin pt va len s = Ok (0, user_bytes (mem s) pt va ?n) s"
        unfolding step page_part_all [OF all] by (simp add: copyin.simps [of _ _ 0])
      then show ?thesis using first all by (intro exI [of _ ?n]) (simp add: mapped_len_def)
    next
      case False
      obtain k where k: "mapped_len (mem s) pt (va + of_nat ?n) (unat len - ?n) k"
        "copyin pt (PGROUNDDOWN va + PGSIZE) (len - page_part va len) s =
          Ok (if k = unat len - ?n then 0 else -1, user_bytes (mem s) pt (va + of_nat ?n) k) s"
        using "1.IH" [OF 3(1) refl refl 3(2)] unfolding page_part_next [OF False] unat_page_rest by blast
      have "mapped_len (mem s) pt va (?n + (unat len - ?n)) (?n + k)" by (rule mapped_len_add [OF first k(1)])
      moreover have "copyin pt va len s = Ok (if k = unat len - ?n then 0 else -1, user_bytes (mem s) pt va (?n + k)) s"
        unfolding step user_bytes_append by (simp only: bnd_def k(2) outcome.case prod.case)
      ultimately show ?thesis using le by (intro exI [of _ "?n + k"]) auto
    qed
  qed
qed

section \<open>Strings\<close>

lemma copy_to_nul_spec:
  "copy_to_nul m p n = (got, bs) \<Longrightarrow>
    if got then \<exists>j<n. bs = ld_bytes m p j @ [0] \<and> 0 \<notin> set (ld_bytes m p j) \<and> m (p + of_nat j) = 0
    else bs = ld_bytes m p n \<and> 0 \<notin> set (ld_bytes m p n)"
proof (induction n arbitrary: p got bs)
  case 0
  then show ?case by (simp add: ld_bytes_def)
next
  case (Suc n)
  have L: "ld_bytes m p (Suc j) = m p # ld_bytes m (p + 1) j" for j
    by (simp add: ld_bytes_def upt_conv_Cons map_Suc_upt [symmetric] add.assoc del: upt_Suc)
  show ?case
  proof (cases "m p = 0")
    case True
    then show ?thesis using Suc.prems by (auto simp: ld_bytes_def intro!: exI [of _ 0])
  next
    case False
    obtain g r where gr: "copy_to_nul m (p + 1) n = (g, r)" by fastforce
    then have "got = g" "bs = m p # r" using Suc.prems False by auto
    moreover have "m (p + of_nat (Suc j)) = m (p + 1 + of_nat j)" for j by (simp add: add.assoc)
    moreover have "(\<exists>j<Suc n. P j) \<longleftrightarrow> P 0 \<or> (\<exists>j<n. P (Suc j))" for P by (metis Suc_less_eq less_Suc_eq_0_disj zero_less_Suc)
    ultimately show ?thesis using Suc.IH [OF gr] False by (cases g) (auto simp: L simp del: of_nat_Suc)
  qed
qed

lemma cstr_append: "0 \<notin> set xs \<Longrightarrow> cstr (xs @ ys) = xs @ cstr ys"
  by (induction xs) auto

text \<open>
  The string at \<open>va\<close>: \<open>k\<close> bytes that are not NUL, all mapped, and then the end of the range, a page that is not mapped or, if the
  flag is set, a NUL.
\<close>

definition string_at :: "memory \<Rightarrow> pagetable_t \<Rightarrow> uint64 \<Rightarrow> nat \<Rightarrow> nat \<Rightarrow> bool \<Rightarrow> bool" where
  "string_at m pt va n k nul \<longleftrightarrow> k \<le> n \<and> all_user m pt va k \<and> 0 \<notin> set (user_bytes m pt va k)
     \<and> (if nul then k < n \<and> user_ok m pt (va + of_nat k) \<and> user_byte m pt (va + of_nat k) = 0
        else k < n \<longrightarrow> \<not> user_ok m pt (va + of_nat k))"

lemma string_at_add:
  assumes "all_user m pt va a" "0 \<notin> set (user_bytes m pt va a)" "string_at m pt (va + of_nat a) b k nul"
  shows "string_at m pt va (a + b) (a + k) nul"
  using assms all_user_append [of m pt va a k] user_bytes_append [of m pt va a k] by (auto simp: string_at_def add.assoc)

lemma string_at_found:
  assumes s: "string_at m pt va n k nul" and j: "j < n" "\<And>i. i \<le> j \<Longrightarrow> user_ok m pt (va + of_nat i)"
    "\<And>i. i < j \<Longrightarrow> user_byte m pt (va + of_nat i) \<noteq> 0" "user_byte m pt (va + of_nat j) = 0"
  shows "k = j \<and> nul"
proof -
  have nz: "user_byte m pt (va + of_nat i) \<noteq> 0" if "i < k" for i
  proof
    assume "user_byte m pt (va + of_nat i) = 0"
    then have "0 \<in> set (user_bytes m pt va k)" using that by (force simp: user_bytes_def)
    then show False using s by (simp add: string_at_def)
  qed
  have le: "k \<le> j" using nz [of j] j(4) by (meson not_le)
  then have "user_ok m pt (va + of_nat k)" "k < n" using j(1,2) by auto
  then have nul: nul using s by (auto simp: string_at_def split: if_splits)
  then have "\<not> k < j" using s j(3) [of k] by (auto simp: string_at_def)
  then show ?thesis using nul le by simp
qed

lemma copyinstr_step:
  assumes "0 < mx"
  shows "uaddr (mem s) pt (PGROUNDDOWN va) = 0 \<Longrightarrow> copyinstr pt va mx s = Ok (-1, []) s"
    and "uaddr (mem s) pt (PGROUNDDOWN va) \<noteq> 0 \<Longrightarrow>
      copy_to_nul (mem s) (uaddr (mem s) pt (PGROUNDDOWN va) + (va - PGROUNDDOWN va)) (unat (page_part va mx)) = (got, bs) \<Longrightarrow>
      copyinstr pt va mx s = (if got then ret (0, bs) s
        else bnd (copyinstr pt (PGROUNDDOWN va + PGSIZE) (mx - page_part va mx)) (\<lambda>(r, rest). ret (r, bs @ rest)) s)"
  using assms by (subst copyinstr.simps; simp add: walkaddr_run bnd_Ok Let_def)+

text \<open>What the inner loop finds in one page.\<close>

lemma page_string:
  assumes u: "uaddr m pt (PGROUNDDOWN va) \<noteq> 0" and mx: "0 < mx"
    and c: "copy_to_nul m (uaddr m pt (PGROUNDDOWN va) + (va - PGROUNDDOWN va)) (unat (page_part va mx)) = (got, bs)"
  shows "if got then \<exists>j. string_at m pt va (unat mx) j True \<and> bs = user_bytes m pt va j @ [0]
    else bs = user_bytes m pt va (unat (page_part va mx)) \<and> 0 \<notin> set bs \<and> all_user m pt va (unat (page_part va mx))"
proof -
  let ?n = "unat (page_part va mx)" and ?p = "uaddr m pt (PGROUNDDOWN va) + (va - PGROUNDDOWN va)"
  note n = page_part_bounds(1) [of mx va] page_part_bounds(2,3) [of va mx]
  have bytes: "user_bytes m pt va j = ld_bytes m ?p j" if "j \<le> ?n" for j
    using user_bytes_page [OF le_trans [OF that n(2)]] .
  have ok: "all_user m pt va j" if "j \<le> ?n" for j
    using u all_user_page [OF _ le_trans [OF that n(2)], of m pt] by (cases "j = 0") simp_all
  note here = bytes ok
  show ?thesis
  proof (cases got)
    case True
    then obtain j where j: "j < ?n" "bs = ld_bytes m ?p j @ [0]" "0 \<notin> set (ld_bytes m ?p j)" "m (?p + of_nat j) = 0"
      using copy_to_nul_spec [OF c] by auto
    have pg: "PGROUNDDOWN (va + of_nat j) = PGROUNDDOWN va" using page_offset [OF n(2) j(1)] .
    have "string_at m pt va (unat mx) j True"
      using j n(3) here [of j] u by (simp add: string_at_def user_ok_def user_byte_def pg algebra_simps)
    then show ?thesis using True j here(1) [of j] by auto
  next
    case False
    then show ?thesis using copy_to_nul_spec [OF c] here [of ?n] by simp
  qed
qed

lemma copyinstr_run:
  "\<exists>k nul. string_at (mem s) pt va (unat mx) k nul
    \<and> copyinstr pt va mx s = Ok (if nul then 0 else -1, user_bytes (mem s) pt va k @ (if nul then [0] else [])) s"
proof (induction pt va mx rule: copyinstr.induct)
  case (1 pt va mx)
  let ?n = "unat (page_part va mx)" and ?u = "uaddr (mem s) pt (PGROUNDDOWN va)"
  obtain got bs where c: "copy_to_nul (mem s) (?u + (va - PGROUNDDOWN va)) ?n = (got, bs)" by fastforce
  consider "mx = 0" | "0 < mx" "?u = 0" | "0 < mx" "?u \<noteq> 0" got | "0 < mx" "?u \<noteq> 0" "\<not> got" using word_gt_0 by blast
  then show ?case
  proof cases
    case 1
    then show ?thesis by (intro exI [of _ 0] exI [of _ False]) (simp add: copyinstr.simps string_at_def)
  next
    case 2
    then show ?thesis using copyinstr_step(1) [OF 2] by (intro exI [of _ 0] exI [of _ False]) (auto simp: string_at_def user_ok_def)
  next
    case 3
    then show ?thesis using copyinstr_step(2) [OF 3(1,2) c] page_string [OF 3(2,1) c] by auto
  next
    case 4
    have bs: "bs = user_bytes (mem s) pt va ?n" "0 \<notin> set (user_bytes (mem s) pt va ?n)" "all_user (mem s) pt va ?n"
      using page_string [OF 4(2,1) c] 4(3) by auto
    note step = copyinstr_step(2) [OF 4(1,2) c, unfolded if_not_P [OF 4(3)]] and le = page_part_bounds(3) [of va mx]
    show ?thesis
    proof (cases "unat mx = ?n")
      case all: True
      have "copyinstr pt va mx s = Ok (-1, bs) s" unfolding step page_part_all [OF all] by (simp add: copyinstr.simps [of _ _ 0])
      then show ?thesis using bs all by (intro exI [of _ ?n] exI [of _ False]) (simp add: string_at_def)
    next
      case False
      obtain k nul where k: "string_at (mem s) pt (va + of_nat ?n) (unat mx - ?n) k nul"
        "copyinstr pt (PGROUNDDOWN va + PGSIZE) (mx - page_part va mx) s =
          Ok (if nul then 0 else -1, user_bytes (mem s) pt (va + of_nat ?n) k @ (if nul then [0] else [])) s"
        using "1.IH" [OF 4(1) refl refl 4(2,3)] unfolding page_part_next [OF False] unat_page_rest by blast
      have "string_at (mem s) pt va (?n + (unat mx - ?n)) (?n + k) nul" by (rule string_at_add [OF bs(3,2) k(1)])
      moreover have "copyinstr pt va mx s = Ok (if nul then 0 else -1, user_bytes (mem s) pt va (?n + k) @ (if nul then [0] else [])) s"
        unfolding step user_bytes_append bs(1) append_assoc by (simp only: bnd_def k(2) outcome.case prod.case)
      ultimately show ?thesis using le by (intro exI [of _ "?n + k"] exI [of _ nul]) auto
    qed
  qed
qed

section \<open>Properties\<close>

lemma wit_uaddr: "uaddr wit_mem (wpg 3) 0 = wpg 6"
proof -
  have l: "leaf wit_mem 2 (wpg 3) 0 = PA2PTE (wpg 6) OR (PTE_R OR PTE_W OR PTE_U OR PTE_V)"
    using wit_leaf(1) by (simp add: page_va_def)
  have v: "leaf wit_mem 2 (wpg 3) 0 AND PTE_V \<noteq> 0" by (simp add: l or_PTE_V_assoc)
  have u: "leaf wit_mem 2 (wpg 3) 0 AND PTE_U \<noteq> 0"
    unfolding l by (simp only: flag_bits bit_or_iff) (simp add: PTE_U_def bit_pow64)
  obtain a where a: "lookup_level wit_mem (wpg 3) 0 2 = Some a" "ld64 wit_mem a = leaf wit_mem 2 (wpg 3) 0" "walk0 wit_mem (wpg 3) 0 = a"
    using v by (rule leaf_present)
  have "a \<noteq> 0"
    using walk0_nonzero [of "wpg 3" _ wit_kmem 0 a] wit_trees a(1) by (auto simp: two_trees_def wit_kmem_def)
  then show ?thesis
    using a v u wit_pa(1) by (simp add: uaddr_def Let_def page_va_def MAXVA_def)
qed

lemma wit_uaddr_next: "uaddr wit_mem (wpg 3) 4096 = wpg 6" "uaddr wit_mem (wpg 3) 8192 = 0"
proof -
  have t: "twf wit_mem 2 (wpg 3)" "0 \<notin> tabs wit_mem 2 (wpg 3)"
    using wit_trees by (auto simp: two_trees_def tree_ok_def wit_kmem_def)
  have f: "leaf wit_mem 2 (wpg 3) 4096 AND PTE_V \<noteq> 0" "leaf wit_mem 2 (wpg 3) 4096 AND PTE_U \<noteq> 0"
    using wit_leaf(2) unfolding flag_bits by (simp_all add: page_va_def bit_simps PTE_RSW_def PTE_U_def PTE_V_def PTE_R_def)
  then show "uaddr wit_mem (wpg 3) 4096 = wpg 6" using wit_pa(2) by (simp add: uaddr_leaf [OF t] Let_def page_va_def MAXVA_def)
  have "px 2 8192 = 0" "px 1 8192 = 0" "px 0 8192 = 2" by (simp_all add: px_eq)
  then have "leaf wit_mem 2 (wpg 3) 8192 = 0" by (simp add: numeral_2_eq_2 wit_entries ld64_wit)
  then show "uaddr wit_mem (wpg 3) 8192 = 0" by (simp add: uaddr_leaf [OF t] Let_def)
qed

text \<open>
  C16. \<^verbatim>\<open>copyin\<close> always returns and changes nothing. It delivers exactly the bytes that the process sees, in order, up to the end of
  the range or up to the first byte that lies in a page not mapped for the user; it returns 0 when that is the whole
  range, and else -1.
\<close>

theorem copyin_reads_user:
  "\<exists>k\<le>unat len. all_user (mem s) pt va k \<and> (k < unat len \<longrightarrow> \<not> user_ok (mem s) pt (va + of_nat k))
    \<and> copyin pt va len s = Ok (if k = unat len then 0 else -1, user_bytes (mem s) pt va k) s"
  using copyin_run [of s pt va len] by (auto simp: mapped_len_def)

theorem copyin_reads_user_witness:
  "copyin (wpg 3) 0 2 wit_kmem = Ok (0, [wit_mem (wpg 6), wit_mem (wpg 6 + 1)]) wit_kmem
    \<and> copyin (wpg 3) 8191 2 wit_kmem = Ok (-1, [wit_mem (wpg 6 + 4095)]) wit_kmem"
proof -
  have pg: "PGROUNDDOWN 0 = 0" "PGROUNDDOWN 1 = 0" "PGROUNDDOWN 8191 = 4096" "PGROUNDDOWN 8192 = 8192"
    by (simp_all add: PGROUNDDOWN_def PGSIZE_def)
  have m: "mem wit_kmem = wit_mem" by (simp add: wit_kmem_def)
  have nz: "wpg 6 \<noteq> 0" using wpg_numeral [of 6] by auto
  note u = user_ok_def user_byte_def pg wit_uaddr wit_uaddr_next nz
  have two: "k = 0 \<or> k = 1 \<or> k = 2" if "k \<le> unat (2 :: uint64)" for k using that by auto
  obtain k where "k \<le> unat (2 :: uint64)" "k < 2 \<longrightarrow> \<not> user_ok wit_mem (wpg 3) (0 + of_nat k)"
    "copyin (wpg 3) 0 2 wit_kmem = Ok (if k = 2 then 0 else -1, user_bytes wit_mem (wpg 3) 0 k) wit_kmem"
    using copyin_reads_user [of 2 wit_kmem "wpg 3" 0] by (auto simp: m)
  then have 1: "copyin (wpg 3) 0 2 wit_kmem = Ok (0, user_bytes wit_mem (wpg 3) 0 2) wit_kmem" using two [of k] by (auto simp: u)
  obtain k where k: "k \<le> unat (2 :: uint64)" "all_user wit_mem (wpg 3) 8191 k" "k < 2 \<longrightarrow> \<not> user_ok wit_mem (wpg 3) (8191 + of_nat k)"
    "copyin (wpg 3) 8191 2 wit_kmem = Ok (if k = 2 then 0 else -1, user_bytes wit_mem (wpg 3) 8191 k) wit_kmem"
    using copyin_reads_user [of 2 wit_kmem "wpg 3" 8191] by (auto simp: m)
  have "\<not> all_user wit_mem (wpg 3) 8191 2" by (auto simp: all_user_def u intro!: exI [of _ 1])
  then have "k = 1" using k(1-3) two [of k] by (auto simp: u)
  then show ?thesis using 1 k(4) by (simp add: user_bytes_def upt_rec u)
qed

text \<open>
  C25. For a running process \<^verbatim>\<open>fetchstr\<close> always returns, without a fault and without changing anything, for every address the
  process passes, and reads exactly the memory of the process: if there are \<open>k\<close> bytes that are not NUL and then a NUL, all in pages mapped for
  the user and within \<open>mx\<close> bytes, the buffer holds these bytes with the NUL and the result is \<open>k\<close>; else the result is -1, and the
  buffer holds the bytes up to the end of the range or the first page that is not mapped, among which there is no NUL.
\<close>

theorem fetchstr_safe:
  assumes "cur s = Some p" "0 \<le> sint mx"
  shows "\<exists>k nul. string_at (mem s) (p_pagetable (procs s p)) addr (nat (sint mx)) k nul
    \<and> fetchstr addr mx s = Ok (if nul then int k else -1, user_bytes (mem s) (p_pagetable (procs s p)) addr k @ (if nul then [0] else [])) s"
proof -
  let ?pt = "p_pagetable (procs s p)"
  have i: "int (nat (sint mx)) = sint mx" "nat (sint mx) < 2 ^ 64" using assms(2) sint_lt [of mx] by auto
  then have "(scast mx :: uint64) = of_nat (nat (sint mx))" by (metis of_int_of_nat_eq scast_eq)
  then have n: "unat (scast mx :: uint64) = nat (sint mx)" using i(2) by (simp add: unat_of_nat_small)
  obtain k nul where k: "string_at (mem s) ?pt addr (nat (sint mx)) k nul"
    and run: "copyinstr ?pt addr (scast mx) s = Ok (if nul then 0 else -1, user_bytes (mem s) ?pt addr k @ (if nul then [0] else [])) s"
    using copyinstr_run [of s ?pt addr "scast mx"] unfolding n by blast
  have "strlen (user_bytes (mem s) ?pt addr k @ [0]) = Some k"
    using k strlen_cstr [of "user_bytes (mem s) ?pt addr k @ [0]"] cstr_append [of "user_bytes (mem s) ?pt addr k" "[0]"]
    by (simp add: string_at_def user_bytes_def)
  then have "fetchstr addr mx s = Ok (if nul then int k else -1, user_bytes (mem s) ?pt addr k @ (if nul then [0] else [])) s"
    using assms(1) run by (cases nul) (simp_all add: fetchstr_def myproc_run bnd_Ok)
  then show ?thesis using k by blast
qed

text \<open>The memory of theory \<open>Cow\<close> with a string of two bytes in the page of the process.\<close>

definition wit_hi :: memory where
  "wit_hi = wit_mem(wpg 6 := 104, wpg 6 + 1 := 105, wpg 6 + 2 := 0)"

lemma wit_hi_user:
  "i < 3 \<Longrightarrow> user_ok wit_hi (wpg 3) (of_nat i)" "i < 3 \<Longrightarrow> user_byte wit_hi (wpg 3) (of_nat i) = [104, 105, 0] ! i"
proof -
  have p: "PGROUNDDOWN (wpg 6 + x) = wpg 6" if "unat x < 4096" for x using that by (intro PGROUNDDOWN_add wpg_aligned) simp_all
  have t: "twf wit_mem 2 (wpg 3)" "0 \<notin> tabs wit_mem 2 (wpg 3)" "wpg 6 \<notin> tabs wit_mem 2 (wpg 3)"
    using wit_trees by (auto simp: two_trees_def tree_ok_def wit_kmem_def wit_tabs wpg_inj)
  have "wit_hi x = wit_mem x" if "PGROUNDDOWN x \<in> tabs wit_mem 2 (wpg 3)" for x
    using that t(3) p [of 0] p [of 1] p [of 2] by (auto simp: wit_hi_def)
  then have "uaddr wit_hi (wpg 3) 0 = wpg 6" using uaddr_cong [OF t(1,2), of wit_hi 0] wit_uaddr by simp
  moreover have "PGROUNDDOWN (of_nat i) = 0" if "i < 3"
    using that by (auto simp: less_Suc_eq numeral_3_eq_3 PGROUNDDOWN_def PGSIZE_def)
  moreover have "wpg 6 \<noteq> 0" using wpg_numeral [of 6] by auto
  ultimately show "i < 3 \<Longrightarrow> user_ok wit_hi (wpg 3) (of_nat i)" "i < 3 \<Longrightarrow> user_byte wit_hi (wpg 3) (of_nat i) = [104, 105, 0] ! i"
    by (auto simp: user_ok_def user_byte_def wit_hi_def less_Suc_eq numeral_3_eq_3)
qed

theorem fetchstr_safe_witness:
  "fetchstr 0 16 (wit_kern\<lparr>mem := wit_hi, procs := wit_procs(1 := (wit_procs 1)\<lparr>p_pagetable := wpg 3\<rparr>)\<rparr>)
    = Ok (2, [104, 105, 0]) (wit_kern\<lparr>mem := wit_hi, procs := wit_procs(1 := (wit_procs 1)\<lparr>p_pagetable := wpg 3\<rparr>)\<rparr>)"
proof -
  let ?s = "wit_kern\<lparr>mem := wit_hi, procs := wit_procs(1 := (wit_procs 1)\<lparr>p_pagetable := wpg 3\<rparr>)\<rparr>"
  obtain k nul where k: "string_at wit_hi (wpg 3) 0 16 k nul"
    and run: "fetchstr 0 16 ?s = Ok (if nul then int k else -1, user_bytes wit_hi (wpg 3) 0 k @ (if nul then [0] else [])) ?s"
    using fetchstr_safe [of ?s 1 16 0] by auto
  have "k = 2 \<and> nul"
    using wit_hi_user(1) wit_hi_user(2) [of 0] wit_hi_user(2) [of 1] wit_hi_user(2) [of 2]
    by (intro string_at_found [OF k]) (auto simp: less_2_cases_iff)
  moreover have "user_bytes wit_hi (wpg 3) 0 2 = [104, 105]"
    using wit_hi_user(2) [of 0] wit_hi_user(2) [of 1] by (simp add: user_bytes_def upt_rec)
  ultimately show ?thesis using run by simp
qed

end
