(* ===== verification/Queues.thy ===== *)
theory Queues
  imports Ring UserMem
begin

text \<open>
  The three ring buffers of the kernel as bounded queues: pipes, console input and UART output. Each is an
  interpretation of the locales of theory \<open>Ring\<close>, and the routines that use it are related to lists.
\<close>

section \<open>Rings of 32 and 64 bit indices\<close>

interpretation r512: word_ring 512 "TYPE(32)"
  by unfold_locales simp_all

interpretation r128: word_ring 128 "TYPE(32)"
  by unfold_locales simp_all

interpretation r32: word_ring 32 "TYPE(64)"
  by unfold_locales simp_all

section \<open>Pipes\<close>

definition pipe_ring :: "pipe \<Rightarrow> 32 ring" where
  "pipe_ring q = (pi_data q, pi_nread q, pi_nwrite q)"

definition pipe_list :: "pipe \<Rightarrow> bytes" where
  "pipe_list q = ring_list 512 (pipe_ring q)"

definition pipe_ok :: "pipe \<Rightarrow> bool" where
  "pipe_ok q \<longleftrightarrow> ring_ok 512 (pipe_ring q)"

lemma pipe_ring_ops:
  "pipe_ring (pipe_put c q) = ring_put 512 c (pipe_ring q)"
  "fst (pipe_get q) = fst (ring_get 512 (pipe_ring q))"
  "pipe_ring (snd (pipe_get q)) = snd (ring_get 512 (pipe_ring q))"
  by (simp_all add: pipe_ring_def pipe_put_def pipe_get_def ring_put_def ring_get_def PIPESIZE_def)

interpretation pipeq: bounded_fifo pipe_list pipe_put pipe_get PIPESIZE pipe_ok
proof
  fix q and x :: uint8
  assume q: "pipe_ok q"
  note ok = q [unfolded pipe_ok_def]
  show "length (pipe_list q) \<le> PIPESIZE" using r512.bound [OF ok] by (simp add: pipe_list_def PIPESIZE_def)
  show "pipe_list (pipe_put x q) = pipe_list q @ [x]" if "length (pipe_list q) < PIPESIZE"
    using r512.put_contents [OF ok] that by (simp add: pipe_list_def PIPESIZE_def pipe_ring_ops)
  show "pipe_ok (pipe_put x q)" if "length (pipe_list q) < PIPESIZE"
    using r512.put_inv [OF ok] that by (simp add: pipe_list_def pipe_ok_def PIPESIZE_def pipe_ring_ops)
  assume ne: "pipe_list q \<noteq> []"
  show "pipe_list q = fst (pipe_get q) # pipe_list (snd (pipe_get q))"
    using r512.get_contents [OF ok] ne by (simp add: pipe_list_def pipe_ring_ops)
  show "pipe_ok (snd (pipe_get q))"
    using r512.get_inv [OF ok] ne by (simp add: pipe_list_def pipe_ok_def pipe_ring_ops)
qed

text \<open>The tests of \<^verbatim>\<open>pipewrite\<close> and \<^verbatim>\<open>piperead\<close> for a full and an empty pipe.\<close>

lemma pipe_full_iff: "pipe_ok q \<Longrightarrow> pi_nwrite q = pi_nread q + of_nat PIPESIZE \<longleftrightarrow> length (pipe_list q) = PIPESIZE"
proof -
  have "pi_nwrite q = pi_nread q + 512 \<longleftrightarrow> pi_nwrite q - pi_nread q = 512" by (metis add.commute diff_add_cancel add_diff_cancel_left')
  also have "\<dots> \<longleftrightarrow> unat (pi_nwrite q - pi_nread q) = 512" by (simp add: word_unat_eq_iff)
  finally show ?thesis by (simp add: pipe_list_def pipe_ring_def PIPESIZE_def)
qed

lemma pipe_empty_iff: "pi_nread q = pi_nwrite q \<longleftrightarrow> pipe_list q = []"
  by (simp add: pipe_list_def pipe_ring_def ring_empty_iff)

lemma copyin_byte:
  "copyin pt a 1 s = (if user_ok (mem s) pt a then Ok (0, [user_byte (mem s) pt a]) s else Ok (-1, []) s)"
proof -
  obtain k where k: "mapped_len (mem s) pt a 1 k" "copyin pt a 1 s = Ok (if k = 1 then 0 else -1, user_bytes (mem s) pt a k) s"
    using copyin_run [of s pt a 1] by auto
  then have "k = (if user_ok (mem s) pt a then 1 else 0)" by (auto simp: mapped_len_def all_user_def le_Suc_eq)
  then show ?thesis using k(2) by (simp add: user_bytes_def)
qed

lemma killed_run: "LProc p \<notin> set (held s) \<Longrightarrow> killed p s = Ok (p_killed (procs s p)) s"
  by (simp add: killed_def thn_def bnd_def acquire_def release_def)

lemma pipe_run [simp]:
  "upd_pipe pp g s = Ok () (s\<lparr>pipes := (pipes s)(pp := g (pipes s pp))\<rparr>)"
  "get_pipe pp h s = Ok (h (pipes s pp)) s"
  "bnd (get_pipe pp h) k s = k (h (pipes s pp)) s"
  by (simp_all add: upd_pipe_def get_pipe_def)

definition can_write :: "uint64 \<Rightarrow> nat \<Rightarrow> 'x fileS_scheme \<Rightarrow> bool" where
  "can_write pp pr s \<longleftrightarrow> pipe_ok (pipes s pp) \<and> pi_readopen (pipes s pp) \<and> p_killed (procs s pr) = 0
     \<and> LProc pr \<notin> set (held s)"

lemma pipe_put_readopen [simp]: "pi_readopen (pipe_put c q) = pi_readopen q" "pi_writeopen (pipe_put c q) = pi_writeopen q"
  by (simp_all add: pipe_put_def)

lemma pipewrite_loop_run:
  fixes s :: "'x fileS_scheme"
  assumes "can_write pp pr s" "length (pipe_list (pipes s pp)) + k \<le> PIPESIZE"
    and "all_user (mem s) (p_pagetable (procs s pr)) (addr + of_nat i) k"
  shows "pipewrite_loop pp pr addr i k s = Ok (Some (i + k)) (s\<lparr>pipes := (pipes s)(pp :=
     fold pipe_put (user_bytes (mem s) (p_pagetable (procs s pr)) (addr + of_nat i) k) (pipes s pp))\<rparr>)"
  using assms
proof (induction k arbitrary: i s)
  case 0
  then show ?case by (simp add: user_bytes_def)
next
  case (Suc k)
  let ?q = "pipes s pp" and ?pt = "p_pagetable (procs s pr)"
  let ?c = "user_byte (mem s) ?pt (addr + of_nat i)"
  let ?t = "s\<lparr>pipes := (pipes s)(pp := pipe_put ?c ?q)\<rparr>"
  have ok: "pipe_ok ?q" "length (pipe_list ?q) < PIPESIZE" using Suc.prems by (auto simp: can_write_def)
  have u: "user_ok (mem s) ?pt (addr + of_nat i)" using Suc.prems(3) by (auto simp: all_user_def dest: spec [of _ 0])
  have au: "all_user (mem s) ?pt (addr + of_nat (Suc i)) k"
    using all_user_append [of "mem s" ?pt "addr + of_nat i" 1 k] Suc.prems(3) by (simp add: algebra_simps)
  have ub: "user_bytes (mem s) ?pt (addr + of_nat i) (Suc k) = ?c # user_bytes (mem s) ?pt (addr + of_nat (Suc i)) k"
    using user_bytes_append [of "mem s" ?pt "addr + of_nat i" 1 k] by (simp add: user_bytes_def algebra_simps)
  have "pipewrite_loop pp pr addr i (Suc k) s = pipewrite_loop pp pr addr (Suc i) k ?t"
    using Suc.prems(1) ok u pipe_full_iff [of ?q]
    by (simp add: can_write_def killed_run copyin_byte bnd_Ok thn_Ok)
  also have "\<dots> = Ok (Some (Suc i + k)) (?t\<lparr>pipes := (pipes ?t)(pp :=
     fold pipe_put (user_bytes (mem ?t) (p_pagetable (procs ?t pr)) (addr + of_nat (Suc i)) k) (pipes ?t pp))\<rparr>)"
  proof (rule Suc.IH)
    show "can_write pp pr ?t" using Suc.prems(1) ok by (simp add: can_write_def pipeq.put_inv)
    show "length (pipe_list (pipes ?t pp)) + k \<le> PIPESIZE" using ok Suc.prems(2) by (simp add: pipeq.put_contents)
    show "all_user (mem ?t) (p_pagetable (procs ?t pr)) (addr + of_nat (Suc i)) k" using au by simp
  qed
  finally show ?case by (simp del: pipewrite_loop.simps add: ub fun_upd_def cong: if_cong)
qed


text \<open>
  The reading side. Where \<^verbatim>\<open>copyout\<close> stores a byte, and a buffer of the process into which it stores directly: no page of it is
  shared copy-on-write, holds page tables or appears twice.
\<close>

definition user_addr :: "memory \<Rightarrow> pagetable_t \<Rightarrow> uint64 \<Rightarrow> uint64" where
  "user_addr m pt va = uaddr m pt (PGROUNDDOWN va) + (va - PGROUNDDOWN va)"

lemma user_byte_addr: "user_byte m pt va = m (user_addr m pt va)"
  by (simp add: user_byte_def user_addr_def)

definition private_buf :: "memory \<Rightarrow> pagetable_t \<Rightarrow> uint64 \<Rightarrow> nat \<Rightarrow> bool" where
  "private_buf m pt va n \<longleftrightarrow>
     (\<forall>i<n. user_ok m pt (va + of_nat i) \<longrightarrow>
        leaf m 2 pt (PGROUNDDOWN (va + of_nat i)) AND PTE_RSW = 0
        \<and> PGROUNDDOWN (user_addr m pt (va + of_nat i)) \<notin> tabs m 2 pt
        \<and> (\<forall>j<n. j \<noteq> i \<longrightarrow> user_addr m pt (va + of_nat j) \<noteq> user_addr m pt (va + of_nat i)))"

lemma copyout_byte:
  assumes "cur s = Some p" "twf (mem s) 2 pt" "0 \<notin> tabs (mem s) 2 pt"
    and priv: "user_ok (mem s) pt a \<Longrightarrow> leaf (mem s) 2 pt (PGROUNDDOWN a) AND PTE_RSW = 0"
  shows "copyout pt a [c] s =
    (if user_ok (mem s) pt a then Ok 0 (s\<lparr>mem := (mem s)(user_addr (mem s) pt a := c)\<rparr>) else Ok (-1) s)"
proof (cases "user_ok (mem s) pt a")
  case True
  let ?v = "leaf (mem s) 2 pt (PGROUNDDOWN a)"
  have v: "PGROUNDDOWN a < MAXVA" "?v AND PTE_V \<noteq> 0"
    using True uaddr_leaf [OF assms(2,3), of "PGROUNDDOWN a"] by (auto simp: user_ok_def Let_def split: if_splits)
  obtain x where x: "walk0 (mem s) pt (PGROUNDDOWN a) = x" "ld64 (mem s) x = ?v"
    using leaf_present [OF v(2)] by metis
  have "?v \<noteq> 0" using v(2) by auto
  then have cow: "copyout_cow pt p (PGROUNDDOWN a) pa s = Ok pa s" for pa
    using x v priv [OF True] by (simp add: copyout_cow_def walk_noalloc bnd_Ok thn_Ok load64_def)
  have st: "st_bytes m b [c] = m(b := c)" for m b
    by (auto simp: st_bytes_def fun_eq_iff unat_eq_zero)
  have n: "min (4096 - unat (a - PGROUNDDOWN a)) (Suc 0) = Suc 0" using page_offset_lt [of a] by simp
  show ?thesis
    using True assms(1) unfolding user_ok_def
    by (subst copyout.simps) (simp add: walkaddr_run bnd_Ok thn_Ok myproc_run cow st n user_addr_def copyout.simps [of _ _ "[]"] Let_def set_mem_def)
next
  case False
  then show ?thesis by (subst copyout.simps) (simp add: walkaddr_run bnd_Ok Let_def user_ok_def)
qed



lemma user_addr_cong: "(\<And>va. uaddr m' pt va = uaddr m pt va) \<Longrightarrow> user_addr m' pt va = user_addr m pt va"
  by (simp add: user_addr_def)

lemma private_bufD:
  assumes "private_buf m pt va n" "i < n" "user_ok m pt (va + of_nat i)"
  shows "leaf m 2 pt (PGROUNDDOWN (va + of_nat i)) AND PTE_RSW = 0" "PGROUNDDOWN (user_addr m pt (va + of_nat i)) \<notin> tabs m 2 pt"
    "j < n \<Longrightarrow> j \<noteq> i \<Longrightarrow> user_addr m pt (va + of_nat j) \<noteq> user_addr m pt (va + of_nat i)"
  using assms by (auto simp: private_buf_def)

lemma private_buf_tl:
  assumes "private_buf m pt va (Suc n)"
  shows "private_buf m pt (va + 1) n"
  unfolding private_buf_def
proof (intro allI impI conjI)
  fix i j
  assume i: "i < n" "user_ok m pt (va + 1 + of_nat i)"
  have s: "va + of_nat (Suc x) = va + 1 + of_nat x" for x by simp
  note D = private_bufD [OF assms, of "Suc i", unfolded s, OF _ i(2)]
  show "leaf m 2 pt (PGROUNDDOWN (va + 1 + of_nat i)) AND PTE_RSW = 0" "PGROUNDDOWN (user_addr m pt (va + 1 + of_nat i)) \<notin> tabs m 2 pt"
    using D(1,2) i(1) by auto
  show "user_addr m pt (va + 1 + of_nat j) \<noteq> user_addr m pt (va + 1 + of_nat i)" if "j < n" "j \<noteq> i"
    using D(3) [of "Suc j", unfolded s] i(1) that by auto
qed

text \<open>A table that is kept when bytes outside its pages change.\<close>

lemma table_kept:
  assumes "twf m 2 pt" "0 \<notin> tabs m 2 pt" "\<And>x. PGROUNDDOWN x \<in> tabs m 2 pt \<Longrightarrow> m' x = m x"
  shows "twf m' 2 pt" "0 \<notin> tabs m' 2 pt" "user_addr m' pt va = user_addr m pt va" "user_ok m' pt va = user_ok m pt va"
    "private_buf m' pt va n = private_buf m pt va n"
proof -
  note c = tree_cong [OF assms(1,3)] and u = uaddr_cong [OF assms]
  show "twf m' 2 pt" "0 \<notin> tabs m' 2 pt" "user_addr m' pt va = user_addr m pt va" "user_ok m' pt va = user_ok m pt va"
    "private_buf m' pt va n = private_buf m pt va n"
    using assms(2) c(2) by (simp_all add: c(1,4) u user_addr_def user_ok_def private_buf_def)
qed

text \<open>
  What the copying loop leaves behind: \<open>g\<close> bytes of the front of the pipe are in the buffer, nothing else of the memory
  changed, and the byte that could not be stored, if there is one, is gone too.
\<close>

definition delivered :: "uint64 \<Rightarrow> pagetable_t \<Rightarrow> uint64 \<Rightarrow> nat \<Rightarrow> nat \<Rightarrow> 'x fileS_scheme \<Rightarrow> 'x fileS_scheme \<Rightarrow> bool" where
  "delivered pp pt va n g s t \<longleftrightarrow>
     mapped_len (mem s) pt va n g
     \<and> user_bytes (mem t) pt va g = take g (pipe_list (pipes s pp))
     \<and> (\<forall>x. (\<forall>i<g. x \<noteq> user_addr (mem s) pt (va + of_nat i)) \<longrightarrow> mem t x = mem s x)
     \<and> pipe_list (pipes t pp) = drop (if g < n then Suc g else g) (pipe_list (pipes s pp))
     \<and> pipe_ok (pipes t pp)"


lemma delivered_step:
  fixes s :: "'x fileS_scheme"
  assumes tab: "twf (mem s) 2 pt" "0 \<notin> tabs (mem s) 2 pt" and buf: "private_buf (mem s) pt va (Suc n)" and ok: "user_ok (mem s) pt va"
    and list: "pipe_list (pipes s pp) = c # cs" "pipe_list (pipes u pp) = cs"
    and mu: "mem u = (mem s)(user_addr (mem s) pt va := c)" and d: "delivered pp pt (va + 1) n g u t"
  shows "delivered pp pt va (Suc n) (Suc g) s t"
proof -
  let ?a = "user_addr (mem s) pt"
  have sh: "va + 1 + of_nat i = va + of_nat (Suc i)" for i by simp
  have D: "PGROUNDDOWN (?a va) \<notin> tabs (mem s) 2 pt" "\<And>j. j < n \<Longrightarrow> ?a va \<noteq> ?a (va + of_nat (Suc j))"
    using private_bufD(2) [OF buf, of 0] private_bufD(3) [OF buf, of 0 "Suc j" for j] ok by (force simp del: of_nat_Suc)+
  have keep: "mem u x = mem s x" if "PGROUNDDOWN x \<in> tabs (mem s) 2 pt" for x using that D(1) mu by auto
  note ku = table_kept [OF tab keep]
  have ml: "mapped_len (mem s) pt (va + 1) n g" using d by (auto simp: delivered_def mapped_len_def all_user_def ku(4))
  then have g: "g \<le> n" "\<And>i. i < g \<Longrightarrow> user_ok (mem s) pt (va + of_nat (Suc i))" by (auto simp: mapped_len_def all_user_def add.assoc)
  have fr: "mem t x = mem u x" if "\<forall>i<g. x \<noteq> ?a (va + of_nat (Suc i))" for x
    using that d by (simp add: delivered_def ku(3) sh del: of_nat_Suc)
  have keep': "mem t x = mem s x" if "PGROUNDDOWN x \<in> tabs (mem s) 2 pt" for x
  proof -
    have "x \<noteq> ?a (va + of_nat (Suc i))" if "i < g" for i
      using that \<open>PGROUNDDOWN x \<in> tabs (mem s) 2 pt\<close> g(1) private_bufD(2) [OF buf _ g(2) [OF that]] by auto
    then show ?thesis using fr keep [OF that] by simp
  qed
  note kt = table_kept [OF tab keep']
  have "mem t (?a va) = c" using fr [of "?a va"] D(2) g(1) mu by (simp del: of_nat_Suc)
  then have "user_bytes (mem t) pt va (Suc g) = c # user_bytes (mem t) pt (va + 1) g"
    using user_bytes_append [of "mem t" pt va 1 g] by (simp add: user_bytes_def user_byte_addr kt(3))
  moreover have "mapped_len (mem s) pt va (Suc n) (Suc g)"
    using mapped_len_add [of "mem s" pt va 1 n g] ok ml by (simp add: all_user_def)
  moreover have "mem t x = mem s x" if "\<forall>i<Suc g. x \<noteq> ?a (va + of_nat i)" for x
  proof -
    have "x \<noteq> ?a va" "\<forall>i<g. x \<noteq> ?a (va + of_nat (Suc i))" using that [rule_format, of 0] that by auto
    then show ?thesis using fr mu by simp
  qed
  ultimately show ?thesis using d list by (auto simp: delivered_def)
qed

lemma piperead_loop_run:
  fixes s :: "'x fileS_scheme" and pp :: uint64
  defines "n \<equiv> \<lambda>k (s :: 'x fileS_scheme). min k (length (pipe_list (pipes s pp)))"
  assumes "pipe_ok (pipes s pp)" "cur s = Some pr" "p_pagetable (procs s pr) = pt"
    and "twf (mem s) 2 pt" "0 \<notin> tabs (mem s) 2 pt" "private_buf (mem s) pt (addr + of_nat i) (n k s)"
  shows "\<exists>g t. piperead_loop pp pr addr i k s = Ok (i + g) t \<and> delivered pp pt (addr + of_nat i) (n k s) g s t
    \<and> held t = held s \<and> cur t = cur s \<and> procs t = procs s"
  using assms(2-)
proof (induction k arbitrary: i s)
  case 0
  then show ?case by (auto simp: n_def delivered_def mapped_len_def)
next
  case (Suc k)
  let ?q = "pipes s pp" and ?va = "addr + of_nat i"
  show ?case
  proof (cases "pipe_list ?q")
    case Nil
    then show ?thesis using Suc.prems(1) by (auto simp: n_def pipe_empty_iff delivered_def mapped_len_def intro!: exI [of _ 0])
  next
    case (Cons c cs)
    let ?s = "s\<lparr>pipes := (pipes s)(pp := snd (pipe_get ?q))\<rparr>"
    have ne: "pipe_list ?q \<noteq> []" using Cons by simp
    have q: "fst (pipe_get ?q) = c" "pipe_list (snd (pipe_get ?q)) = cs" "pipe_ok (snd (pipe_get ?q))"
      using pipeq.get_first [OF Suc.prems(1) ne] pipeq.get_inv [OF Suc.prems(1) ne] Cons by simp_all
    have n: "n (Suc k) s = Suc (min k (length cs))" using Cons by (simp add: n_def)
    note buf = Suc.prems(6) [unfolded n]
    have out: "copyout pt ?va [c] ?s =
      (if user_ok (mem s) pt ?va then Ok 0 (?s\<lparr>mem := (mem s)(user_addr (mem s) pt ?va := c)\<rparr>) else Ok (-1) ?s)"
      using copyout_byte [of ?s pr pt ?va c] Suc.prems(2,4,5) private_bufD(1) [OF buf, of 0] by simp
    show ?thesis
    proof (cases "user_ok (mem s) pt ?va")
      case False
      then have "piperead_loop pp pr addr i (Suc k) s = Ok i ?s"
        using ne q out Suc.prems(3) by (simp add: pipe_empty_iff thn_Ok bnd_Ok)
      then show ?thesis using False q Cons n by (intro exI [of _ 0] exI [of _ ?s]) (simp add: delivered_def mapped_len_def)
    next
      case True
      let ?u = "?s\<lparr>mem := (mem s)(user_addr (mem s) pt ?va := c)\<rparr>"
      have run: "piperead_loop pp pr addr i (Suc k) s = piperead_loop pp pr addr (Suc i) k ?u"
        using ne q out True Suc.prems(3) by (simp add: pipe_empty_iff thn_Ok bnd_Ok)
      have keep: "mem ?u x = mem s x" if "PGROUNDDOWN x \<in> tabs (mem s) 2 pt" for x
        using that private_bufD(2) [OF buf, of 0] True by auto
      note ku = table_kept [OF Suc.prems(4,5) keep]
      have e: "addr + of_nat (Suc i) = ?va + 1" and nu: "n k ?u = min k (length cs)" using q by (simp_all add: n_def)
      obtain g t where gt: "piperead_loop pp pr addr (Suc i) k ?u = Ok (Suc i + g) t" "delivered pp pt (?va + 1) (min k (length cs)) g ?u t"
        "held t = held s" "cur t = cur s" "procs t = procs s"
        using Suc.IH [of ?u "Suc i"] q(3) Suc.prems(2,3) ku(1,2,5) private_buf_tl [OF buf] unfolding e nu by auto
      have "delivered pp pt ?va (n (Suc k) s) (Suc g) s t" unfolding n
        using delivered_step [OF Suc.prems(4,5) buf True Cons _ _ gt(2)] q(2) by simp
      then show ?thesis using run gt by auto
    qed
  qed
qed


section \<open>A state for examples\<close>

text \<open>The memory of theory \<open>Cow\<close>, process 1 running on its page table with a file and a working directory,
  process 5 waiting for the pipe in the page \<open>wpg 0\<close>, which is open at both ends.\<close>

definition wit_buf :: buf where
  "wit_buf = \<lparr>b_valid = False, b_dev = 0, b_blockno = 0, b_refcnt = 0, b_data = replicate BSIZE 0\<rparr>"

definition wit_inode :: inode where
  "wit_inode = \<lparr>i_dev = 0, i_inum = 0, i_ref = 0, i_valid = False, i_d = fresh_dinode 0\<rparr>"

definition wit_fileS :: fileS where
  "wit_fileS = \<lparr>mem = wit_mem, held = [], freelist = wpg 8, refcnt = wit_refs, kend = wpg 3,
     procs = wit_procs(1 := (wit_procs 1)\<lparr>p_pagetable := wpg 3, p_sz := 8192, p_name := replicate 16 0,
         p_ofile := [0 \<mapsto> 0], p_cwd := Some 0\<rparr>,
       5 := wit_proc\<lparr>p_state := SLEEPING, p_chan := ChPipeRead (wpg 0), p_pid := 5\<rparr>),
     cur = Some 1, initproc = Some 0, nextpid = 6, ticks = 100, kernel_pagetable = 0,
     sym_etext = 0x80008000, sym_trampoline = 0x80007000, sym_forkret = 0x80001000,
     uart_out = [], thr_room = 1, rx_fifo = [], uart_tx_buf = (\<lambda>_. 0), uart_tx_w = 0, uart_tx_r = 0,
     panicked = False, pr_locking = True, cons_buf = (\<lambda>_. 0), cons_r = 0, cons_w = 0, cons_e = 0,
     slocks = (\<lambda>_. \<lparr>sl_locked = False, sl_pid = 0\<rparr>),
     bufs = (\<lambda>_. wit_buf), lru = [0..<NBUF], disk = (\<lambda>_. replicate BSIZE 0), dwrites = [],
     lg = \<lparr>l_start = 2, l_size = 30, l_outstanding = 0, l_committing = False, l_dev = 1, lh_n = 0,
       lh_block = replicate LOGSIZE 0\<rparr>,
     fsb = \<lparr>sb_magic = FSMAGIC, sb_size = 2000, sb_nblocks = 1954, sb_ninodes = 200, sb_nlog = 30,
       sb_logstart = 2, sb_inodestart = 32, sb_bmapstart = 45\<rparr>,
     itable = (\<lambda>_. wit_inode)(0 := wit_inode\<lparr>i_dev := 1, i_inum := 1, i_ref := 1\<rparr>),
     ftable = (\<lambda>_. \<lparr>f_type = FD_NONE, f_ref = 0, f_readable = False, f_writable = False, f_pipe = 0,
         f_ip = None, f_off = 0, f_major = 0\<rparr>)
       (0 := \<lparr>f_type = FD_DEVICE, f_ref = 1, f_readable = True, f_writable = True, f_pipe = 0,
         f_ip = Some 0, f_off = 0, f_major = 1\<rparr>),
     pipes = (\<lambda>_. \<lparr>pi_data = (\<lambda>_. 0), pi_nread = 0, pi_nwrite = 0, pi_readopen = True, pi_writeopen = True\<rparr>),
     dev_read = (\<lambda>_. NullFn)(1 := ConsoleFn), dev_write = (\<lambda>_. NullFn)(1 := ConsoleFn), junk = (\<lambda>_. 0)\<rparr>"

lemma wit_fileS_simps [simp]:
  "mem wit_fileS = wit_mem" "held wit_fileS = []" "cur wit_fileS = Some 1" "panicked wit_fileS = False"
  "p_pagetable (procs wit_fileS (Suc 0)) = wpg 3" "p_killed (procs wit_fileS (Suc 0)) = 0" "procs_unlocked X wit_fileS"
  by (simp_all add: wit_fileS_def wit_procs_def wit_proc_def procs_unlocked_def)

lemma wit_pipe [simp]:
  "pipe_list (pipes wit_fileS pp) = []" "pipe_ok (pipes wit_fileS pp)"
  "pi_readopen (pipes wit_fileS pp)" "pi_writeopen (pipes wit_fileS pp)"
  by (simp_all add: wit_fileS_def pipe_list_def pipe_ok_def pipe_ring_def ring_list_def ring_ok_def)

lemma wit_all_user: "all_user wit_mem (wpg 3) 0 2"
proof -
  have pg: "PGROUNDDOWN 0 = 0" "PGROUNDDOWN 1 = 0" by (simp_all add: PGROUNDDOWN_def PGSIZE_def)
  show ?thesis
    using wpg_numeral [of 6] by (auto simp: all_user_def user_ok_def less_2_cases_iff pg wit_uaddr)
qed

section \<open>Properties of pipes\<close>

text \<open>
  C12. \<^verbatim>\<open>pipewrite\<close> of \<open>n\<close> bytes that lie in memory of the writer, into a pipe whose reader is open and that
  has room for them: it returns \<open>n\<close>, the pipe then holds what it held followed by exactly those bytes
  in their order (at most \<^verbatim>\<open>PIPESIZE\<close> in all, also when the indices wrap around), every process
  sleeping on the pipe for reading is made runnable and no lock stays held.
\<close>

theorem pipewrite_appends:
  fixes s :: "'x fileS_scheme"
  assumes "cur s = Some pr" and "held s = []" and "pipe_ok (pipes s pp)" and "pi_readopen (pipes s pp)"
    and "p_killed (procs s pr) = 0" and "0 \<le> sint n"
    and "length (pipe_list (pipes s pp)) + nat (sint n) \<le> PIPESIZE"
    and "all_user (mem s) (p_pagetable (procs s pr)) addr (nat (sint n))"
  shows "\<exists>t. pipewrite pp addr n s = Ok (sint n) t \<and> pipe_ok (pipes t pp) \<and> held t = []
    \<and> pipe_list (pipes t pp) = pipe_list (pipes s pp)
        @ user_bytes (mem s) (p_pagetable (procs s pr)) addr (nat (sint n))
    \<and> procs t = woken (ChPipeRead pp) (Some pr) (procs s)"
proof -
  let ?u = "user_bytes (mem s) (p_pagetable (procs s pr)) addr (nat (sint n))"
  let ?q = "fold pipe_put ?u (pipes s pp)"
  let ?s = "s\<lparr>held := [LPipe pp]\<rparr>"
  let ?t = "?s\<lparr>pipes := (pipes s)(pp := ?q)\<rparr>"
  have loop: "pipewrite_loop pp pr addr 0 (nat (sint n)) ?s = Ok (Some (nat (sint n))) ?t"
    using pipewrite_loop_run [of pp pr ?s "nat (sint n)" addr 0] assms by (simp add: can_write_def)
  have wake: "wakeup (ChPipeRead pp) ?t = Ok () (?t\<lparr>procs := woken (ChPipeRead pp) (Some pr) (procs s)\<rparr>)"
    using assms(1) by (simp add: wakeup_woken procs_unlocked_def)
  have "pipe_ok ?q \<and> pipe_list ?q = pipe_list (pipes s pp) @ ?u"
    using assms(3,7) by (intro pipeq.put_all) (simp_all add: user_bytes_def)
  moreover have "pipewrite pp addr n s = bnd (pipewrite_loop pp pr addr 0 (nat (sint n))) (\<lambda>r. case r of
        None \<Rightarrow> ret (-1)
      | Some i \<Rightarrow> thn (wakeup (ChPipeRead pp)) (thn (release (LPipe pp)) (ret (int i)))) ?s"
    using assms(1,2) by (simp add: pipewrite_def myproc_run bnd_Ok thn_Ok acquire_def)
  ultimately show ?thesis
    using loop wake assms(6) by (simp add: bnd_Ok thn_Ok release_def)
qed

theorem pipewrite_appends_witness:
  "\<exists>t. pipewrite (wpg 0) 0 2 wit_fileS = Ok 2 t \<and> p_state (procs t 5) = RUNNABLE
    \<and> pipe_list (pipes t (wpg 0)) = user_bytes wit_mem (wpg 3) 0 2"
proof -
  have "p_state (procs wit_fileS 5) = SLEEPING \<and> p_chan (procs wit_fileS 5) = ChPipeRead (wpg 0)"
    by (simp add: wit_fileS_def)
  moreover have "(sint (2 :: cint)) = 2" "nat (sint (2 :: cint)) = 2" by simp_all
  ultimately show ?thesis
    using pipewrite_appends [of wit_fileS 1 "wpg 0" 2 0] wit_all_user by (auto simp: NPROC_def PIPESIZE_def woken_def)
qed

text \<open>
  C35. \<^verbatim>\<open>piperead\<close> delivers the front of the pipe. With an empty pipe whose writer is open a killed reader gets -1 and
  any other sleeps. Else let \<open>m\<close> be the smaller of \<open>n\<close> and the number of bytes in the pipe, and \<open>g\<close> the number of bytes of the
  buffer before the first one among these \<open>m\<close> that is not mapped for the user. The call returns \<open>g\<close>; the buffer then holds the first \<open>g\<close> bytes of the pipe
  in their order and no other byte of the memory changed; the pipe has lost these \<open>g\<close> bytes and, exactly when \<open>g < m\<close>, also the
  byte whose \<^verbatim>\<open>copyout\<close> failed; the processes waiting for room are woken and no lock stays held. The buffer is not shared copy-on-write.
\<close>

theorem piperead_takes_front:
  fixes s :: "'x fileS_scheme" and n :: cint and pp :: uint64
  defines "m \<equiv> min (nat (sint n)) (length (pipe_list (pipes s pp)))"
  assumes "cur s = Some pr" and "held s = []" and "pipe_ok (pipes s pp)" and "p_pagetable (procs s pr) = pt"
    and "twf (mem s) 2 pt" and "0 \<notin> tabs (mem s) 2 pt" and "private_buf (mem s) pt addr (m)"
  shows "if pipe_list (pipes s pp) = [] \<and> pi_writeopen (pipes s pp) then
      piperead pp addr n s = (if p_killed (procs s pr) \<noteq> 0 then Ok (-1) s
        else Sleep (s\<lparr>held := [LProc pr], procs := (procs s)(pr := (procs s pr)\<lparr>p_chan := ChPipeRead pp, p_state := SLEEPING\<rparr>)\<rparr>))
    else \<exists>g t. piperead pp addr n s = Ok (int g) t
      \<and> g \<le> m \<and> all_user (mem s) pt addr g \<and> (g < m \<longrightarrow> \<not> user_ok (mem s) pt (addr + of_nat g))
      \<and> user_bytes (mem t) pt addr g = take g (pipe_list (pipes s pp))
      \<and> (\<forall>x. (\<forall>i<g. x \<noteq> user_addr (mem s) pt (addr + of_nat i)) \<longrightarrow> mem t x = mem s x)
      \<and> pipe_list (pipes t pp) = drop (if g < m then Suc g else g) (pipe_list (pipes s pp)) \<and> pipe_ok (pipes t pp)
      \<and> procs t = woken (ChPipeWrite pp) (Some pr) (procs s) \<and> held t = []"
proof -
  let ?s = "s\<lparr>held := [LPipe pp]\<rparr>"
  have body: "piperead pp addr n s = piperead_locked pp pr addr n ?s"
    using assms(2,3) by (simp add: piperead_def myproc_run bnd_Ok thn_Ok acquire_def)
  show ?thesis
  proof (cases "pipe_list (pipes s pp) = [] \<and> pi_writeopen (pipes s pp)")
    case True
    then show ?thesis unfolding body using assms(2,3)
      by (simp add: piperead_locked_def pipe_empty_iff killed_run bnd_Ok thn_Ok release_def sleep_def sched_def myproc_run acquire_def upd_proc_def)
  next
    case False
    obtain g t where g: "piperead_loop pp pr addr 0 (nat (sint n)) ?s = Ok g t" "delivered pp pt addr (m) g ?s t"
      "held t = [LPipe pp]" "cur t = Some pr" "procs t = procs s"
      using piperead_loop_run [of ?s pp pr pt addr 0 "nat (sint n)"] assms(2-) by (auto simp: m_def)
    let ?t = "t\<lparr>procs := woken (ChPipeWrite pp) (Some pr) (procs s), held := []\<rparr>"
    have "wakeup (ChPipeWrite pp) t = Ok () (t\<lparr>procs := woken (ChPipeWrite pp) (Some pr) (procs s)\<rparr>)"
      using g(3-5) by (simp add: wakeup_woken procs_unlocked_def)
    then have "piperead pp addr n s = Ok (int g) ?t"
      unfolding body using False g(1,3) by (auto simp: piperead_locked_def pipe_empty_iff bnd_Ok thn_Ok release_def)
    then show ?thesis
      unfolding if_not_P [OF False] using g(2) by (intro exI [of _ g] exI [of _ ?t]) (simp add: delivered_def mapped_len_def)
  qed
qed

text \<open>The example with two bytes in the pipe.\<close>

definition wit_two :: fileS where
  "wit_two = wit_fileS\<lparr>pipes := (pipes wit_fileS)(wpg 0 := \<lparr>pi_data = (\<lambda>_. 0)(0 := 104, 1 := 105), pi_nread = 0, pi_nwrite = 2,
     pi_readopen = True, pi_writeopen = True\<rparr>)\<rparr>"

lemma wit_two_simps [simp]:
  "pipe_list (pipes wit_two (wpg 0)) = [104, 105]" "pipe_ok (pipes wit_two (wpg 0))"
  "mem wit_two = wit_mem" "held wit_two = []" "cur wit_two = Some 1" "p_pagetable (procs wit_two (Suc 0)) = wpg 3"
  by (simp_all add: wit_two_def pipe_list_def pipe_ok_def pipe_ring_def ring_list_def ring_ok_def upt_rec)

lemma wit_private: "private_buf wit_mem (wpg 3) 0 2"
proof -
  have z: "PGROUNDDOWN (of_nat i) = 0" if "i < 2" for i using that by (auto simp: less_2_cases_iff PGROUNDDOWN_def PGSIZE_def)
  have p: "PGROUNDDOWN (wpg 6 + of_nat i) = wpg 6" if "i < 2" for i
    using that by (intro PGROUNDDOWN_add wpg_aligned) (auto simp: less_2_cases_iff)
  have u: "user_addr wit_mem (wpg 3) (of_nat i) = wpg 6 + of_nat i" if "i < 2" for i using z [OF that] by (simp add: user_addr_def wit_uaddr)
  have "leaf wit_mem 2 (wpg 3) 0 AND PTE_RSW = 0"
    using wit_leaf(1) unfolding flag_bits by (simp add: page_va_def bit_simps PA2PTE_def PTE_R_def PTE_W_def PTE_U_def PTE_V_def PTE_RSW_def)
  moreover have "of_nat j \<noteq> (of_nat i :: uint64)" if "i < 2" "j < 2" "j \<noteq> i" for i j using that by (auto simp: less_2_cases_iff)
  ultimately show ?thesis by (simp add: private_buf_def z p u wit_tabs wpg_inj)
qed

theorem piperead_takes_front_witness:
  "(\<exists>t. piperead (wpg 0) 0 5 wit_two = Ok 2 t \<and> user_bytes (mem t) (wpg 3) 0 2 = [104, 105] \<and> pipe_list (pipes t (wpg 0)) = [])
   \<and> (\<exists>t. piperead (wpg 0) MAXVA 1 wit_two = Ok 0 t \<and> mem t = wit_mem \<and> pipe_list (pipes t (wpg 0)) = [105])"
proof
  have t: "twf wit_mem 2 (wpg 3)" "0 \<notin> tabs wit_mem 2 (wpg 3)"
    using wit_trees by (auto simp: two_trees_def tree_ok_def wit_kmem_def)
  have no: "\<not> user_ok wit_mem (wpg 3) MAXVA" by (simp add: user_ok_def uaddr_def PGROUNDDOWN_def PGSIZE_def MAXVA_def)
  have au: "g = 2" if "g \<le> 2" "g < 2 \<longrightarrow> \<not> user_ok wit_mem (wpg 3) (of_nat g)" for g
    using that wit_all_user by (auto simp: all_user_def le_less)
  obtain g t where "piperead (wpg 0) 0 5 wit_two = Ok (int g) t" "g \<le> 2" "g < 2 \<longrightarrow> \<not> user_ok wit_mem (wpg 3) (of_nat g)"
    "user_bytes (mem t) (wpg 3) 0 g = take g [104, 105]" "pipe_list (pipes t (wpg 0)) = drop (if g < 2 then Suc g else g) [104, 105]"
    using piperead_takes_front [of wit_two 1 "wpg 0" "wpg 3" 0 5] t wit_private by (auto simp flip: numeral_2_eq_2)
  with au [of g] show "\<exists>t. piperead (wpg 0) 0 5 wit_two = Ok 2 t \<and> user_bytes (mem t) (wpg 3) 0 2 = [104, 105] \<and> pipe_list (pipes t (wpg 0)) = []"
    by auto
  have "private_buf wit_mem (wpg 3) MAXVA 1" using no by (simp add: private_buf_def)
  then obtain g t where g: "piperead (wpg 0) MAXVA 1 wit_two = Ok (int g) t" "g \<le> 1" "all_user wit_mem (wpg 3) MAXVA g"
    and "\<And>x. (\<forall>i<g. x \<noteq> user_addr wit_mem (wpg 3) (MAXVA + of_nat i)) \<Longrightarrow> mem t x = wit_mem x"
    "pipe_list (pipes t (wpg 0)) = drop (if g < 1 then Suc g else g) [104, 105]"
    using piperead_takes_front [of wit_two 1 "wpg 0" "wpg 3" MAXVA 1] t by auto
  moreover from g(2,3) no have "g = 0" by (auto simp: all_user_def le_Suc_eq)
  ultimately show "\<exists>t. piperead (wpg 0) MAXVA 1 wit_two = Ok 0 t \<and> mem t = wit_mem \<and> pipe_list (pipes t (wpg 0)) = [105]"
    by auto
qed

section \<open>Parts of a ring\<close>

lemma ring_split:
  fixes r w e :: "32 word"
  assumes "unat (w - r) + unat (e - w) = unat (e - r)"
  shows "ring_list N (b, r, e) = ring_list N (b, r, w) @ ring_list N (b, w, e)"
proof (rule nth_equalityI)
  show "length (ring_list N (b, r, e)) = length (ring_list N (b, r, w) @ ring_list N (b, w, e))" using assms by simp
  fix i
  assume i: "i < length (ring_list N (b, r, e))"
  have w: "w = r + of_nat (unat (w - r))" by simp
  have "r + of_nat i = w + of_nat (i - unat (w - r))" if "\<not> i < unat (w - r)"
  proof -
    from that have "i = unat (w - r) + (i - unat (w - r))" by simp
    then have "r + of_nat i = r + of_nat (unat (w - r)) + of_nat (i - unat (w - r))"
      by (metis add.assoc of_nat_add)
    then show ?thesis by simp
  qed
  then show "ring_list N (b, r, e) ! i = (ring_list N (b, r, w) @ ring_list N (b, w, e)) ! i"
    using i assms by (auto simp: ring_list_def nth_append add.commute)
qed

lemma ring_shrink:
  fixes w e :: "32 word"
  assumes "e \<noteq> w"
  shows "ring_list N (b, w, e - 1) = butlast (ring_list N (b, w, e))"
    and "last (ring_list N (b, w, e)) = b (unat (e - 1) mod N)" and "unat (e - w) = Suc (unat (e - 1 - w))"
proof -
  have "e - w \<noteq> 0" using assms by simp
  then show n: "unat (e - w) = Suc (unat (e - 1 - w))"
    using unat_minus_one [of "e - w"] by (simp add: unat_gt_0 algebra_simps flip: Suc_diff_1)
  show "ring_list N (b, w, e - 1) = butlast (ring_list N (b, w, e))" by (simp add: ring_list_def n)
  have "w + of_nat (unat (e - 1 - w)) = e - 1" by simp
  then show "last (ring_list N (b, w, e)) = b (unat (e - 1) mod N)" by (simp add: ring_list_def n)
qed

section \<open>Console input\<close>

definition cons_com :: "'x consS_scheme \<Rightarrow> bytes" where
  "cons_com s = ring_list 128 (cons_buf s, cons_r s, cons_w s)"

definition cons_pend :: "'x consS_scheme \<Rightarrow> bytes" where
  "cons_pend s = ring_list 128 (cons_buf s, cons_w s, cons_e s)"

text \<open>The indices are in order, the ring is not overfull, and the line being edited has no newline.\<close>

definition cons_ok :: "'x consS_scheme \<Rightarrow> bool" where
  "cons_ok s \<longleftrightarrow> unat (cons_w s - cons_r s) + unat (cons_e s - cons_w s) = unat (cons_e s - cons_r s)
     \<and> unat (cons_e s - cons_r s) \<le> 128 \<and> 10 \<notin> set (cons_pend s)"

text \<open>What a typed character does to the committed input and to the line being edited.\<close>

definition edit_line :: "uint8 \<Rightarrow> bytes \<times> bytes \<Rightarrow> bytes \<times> bytes" where
  "edit_line c = (\<lambda>(com, pend).
     if c = ctl (CHR ''U'') then (com, [])
     else if c = ctl (CHR ''H'') \<or> c = 0x7f then (com, butlast pend)
     else if c = 0 \<or> length com + length pend \<ge> 128 then (com, pend)
     else let c = (if c = 13 then 10 else c) in
       if c = 10 \<or> c = ctl (CHR ''D'') \<or> length com + length pend + 1 = 128 then (com @ pend @ [c], [])
       else (com, pend @ [c]))"

lemma consputc_run: "\<not> panicked s \<Longrightarrow> \<exists>out room. consputc c s = Ok () (s\<lparr>uart_out := out, thr_room := room\<rparr>)"
  by (auto simp: consputc_def uartputc_sync_def write_THR_def thn_def bnd_def)

lemma cons_prev_last: "cons_e s \<noteq> cons_w s \<Longrightarrow> cons_prev s = last (cons_pend s)"
  using ring_shrink(2) [of "cons_e s" "cons_w s" 128 "cons_buf s"] by (simp add: cons_prev_def cons_pend_def INPUT_BUF_SIZE_def)

lemma cons_pend_empty: "cons_pend s = [] \<longleftrightarrow> cons_e s = cons_w s"
  using ring_empty_iff [of 128 "cons_buf s" "cons_w s" "cons_e s"] by (auto simp: cons_pend_def)

lemma cons_lengths: "length (cons_com s) = unat (cons_w s - cons_r s)" "length (cons_pend s) = unat (cons_e s - cons_w s)"
  by (simp_all add: cons_com_def cons_pend_def)

lemma kill_line_run:
  "\<not> panicked s \<Longrightarrow> 10 \<notin> set (cons_pend s) \<Longrightarrow> n = unat (cons_e s - cons_w s) \<Longrightarrow>
    \<exists>out room. kill_line n s = Ok () (s\<lparr>uart_out := out, thr_room := room, cons_e := cons_w s\<rparr>)"
proof (induction n arbitrary: s)
  case 0
  then have "cons_e s = cons_w s" by (metis cons_lengths(2) cons_pend_empty length_0_conv)
  then show ?case by (intro exI [of _ "uart_out s"] exI [of _ "thr_room s"]) simp
next
  case (Suc n)
  then have ne: "cons_e s \<noteq> cons_w s" by auto
  then have "cons_pend s \<noteq> []" by (simp add: cons_pend_empty)
  then have "last (cons_pend s) \<in> set (cons_pend s)" by (rule last_in_set)
  then have prev: "cons_prev s \<noteq> 10" using Suc.prems(2) cons_prev_last [OF ne] by metis
  let ?s = "s\<lparr>cons_e := cons_e s - 1\<rparr>"
  obtain out room where o: "consputc BACKSPACE ?s = Ok () (?s\<lparr>uart_out := out, thr_room := room\<rparr>)"
    using consputc_run [of ?s BACKSPACE] Suc.prems(1) by auto
  let ?t = "?s\<lparr>uart_out := out, thr_room := room\<rparr>"
  have pend: "cons_pend ?t = butlast (cons_pend s)" using ring_shrink(1) [OF ne] by (simp add: cons_pend_def)
  have "\<exists>out room. kill_line n ?t = Ok () (?t\<lparr>uart_out := out, thr_room := room, cons_e := cons_w ?t\<rparr>)"
  proof (rule Suc.IH)
    show "\<not> panicked ?t" using Suc.prems(1) by simp
    show "10 \<notin> set (cons_pend ?t)" using Suc.prems(2) by (auto simp: pend dest: in_set_butlastD)
    show "n = unat (cons_e ?t - cons_w ?t)" using Suc.prems(3) ring_shrink(3) [OF ne] by simp
  qed
  then obtain out' room' where k: "kill_line n ?t = Ok () (?t\<lparr>uart_out := out', thr_room := room', cons_e := cons_w ?t\<rparr>)" by blast
  have "kill_line (Suc n) s = kill_line n ?t" using ne prev o by (simp add: thn_Ok)
  then show ?case using k by auto
qed

lemma cons_put:
  assumes ok: "cons_ok s" and room: "unat (cons_e s - cons_r s) < 128"
    and t: "cons_buf t = (cons_buf s)(unat (cons_e s) mod 128 := c)" "cons_r t = cons_r s" "cons_w t = cons_w s" "cons_e t = cons_e s + 1"
  shows "cons_com t = cons_com s" "cons_pend t = cons_pend s @ [c]"
    "unat (cons_w t - cons_r t) + unat (cons_e t - cons_w t) = unat (cons_e t - cons_r t)"
    "unat (cons_e t - cons_r t) = Suc (unat (cons_e s - cons_r s))"
proof -
  let ?b = "cons_buf s" and ?r = "cons_r s" and ?w = "cons_w s" and ?e = "cons_e s"
  have sum: "unat (?w - ?r) + unat (?e - ?w) = unat (?e - ?r)" using ok by (simp add: cons_ok_def)
  then have lt: "unat (?e - ?w) < 128" using room by linarith
  have g: "unat (?e + 1 - ?r) = Suc (unat (?e - ?r))" "unat (?e + 1 - ?w) = Suc (unat (?e - ?w))"
    using r128.unat_grow room lt by blast+
  then show sum': "unat (cons_w t - cons_r t) + unat (cons_e t - cons_w t) = unat (cons_e t - cons_r t)"
    and "unat (cons_e t - cons_r t) = Suc (unat (?e - ?r))" using sum by (simp_all add: t)
  have put: "ring_put 128 c (?b, x, ?e) = (cons_buf t, x, ?e + 1)" for x by (simp add: ring_put_def t)
  show "cons_pend t = cons_pend s @ [c]"
    using r128.put_list [OF lt, of c ?b] by (simp add: cons_pend_def put t)
  have "ring_list 128 (cons_buf t, ?r, ?e + 1) = ring_list 128 (?b, ?r, ?e) @ [c]"
    using r128.put_list [OF room, of c ?b] by (simp add: put)
  then have "cons_com t @ cons_pend t = cons_com s @ cons_pend s @ [c]"
    using ring_split [OF sum, of 128 ?b] ring_split [of ?w ?r "?e + 1" 128 "cons_buf t"] sum'
    by (simp add: t cons_com_def cons_pend_def)
  moreover have "length (cons_com t) = length (cons_com s)" by (simp add: cons_com_def t)
  ultimately show "cons_com t = cons_com s" by simp
qed

lemma cons_commit:
  assumes "unat (cons_w s - cons_r s) + unat (cons_e s - cons_w s) = unat (cons_e s - cons_r s)"
    and "cons_buf t = cons_buf s" "cons_r t = cons_r s" "cons_w t = cons_e s" "cons_e t = cons_e s"
  shows "cons_com t = cons_com s @ cons_pend s" "cons_pend t = []"
  using ring_split [OF assms(1), of 128 "cons_buf s"] assms(2-) by (simp_all add: cons_com_def cons_pend_def ring_list_def)


text \<open>The part of \<^verbatim>\<open>consoleintr\<close> for an ordinary character.\<close>

lemma cons_frame [simp]:
  "cons_com (s\<lparr>held := h\<rparr>) = cons_com s" "cons_com (s\<lparr>uart_out := u\<rparr>) = cons_com s"
  "cons_com (s\<lparr>thr_room := n\<rparr>) = cons_com s" "cons_com (s\<lparr>procs := f\<rparr>) = cons_com s"
  "cons_pend (s\<lparr>held := h\<rparr>) = cons_pend s" "cons_pend (s\<lparr>uart_out := u\<rparr>) = cons_pend s"
  "cons_pend (s\<lparr>thr_room := n\<rparr>) = cons_pend s" "cons_pend (s\<lparr>procs := f\<rparr>) = cons_pend s"
  "cons_ok (s\<lparr>held := h\<rparr>) = cons_ok s" "cons_ok (s\<lparr>uart_out := u\<rparr>) = cons_ok s"
  "cons_ok (s\<lparr>thr_room := n\<rparr>) = cons_ok s" "cons_ok (s\<lparr>procs := f\<rparr>) = cons_ok s"
  "cons_com (s\<lparr>cons_e := e\<rparr>) = cons_com s"
  by (simp_all add: cons_com_def cons_pend_def cons_ok_def ring_list_def)

definition typed :: "uint8 \<Rightarrow> 'x consS_scheme \<Rightarrow> 'x consS_scheme" where
  "typed c s = s\<lparr>cons_buf := (cons_buf s)(unat (cons_e s) mod 128 := c), cons_e := cons_e s + 1\<rparr>"

lemma typed_simps [simp]:
  "cons_buf (typed c s) = (cons_buf s)(unat (cons_e s) mod 128 := c)" "cons_e (typed c s) = cons_e s + 1"
  "cons_r (typed c s) = cons_r s" "cons_w (typed c s) = cons_w s" "held (typed c s) = held s"
  by (simp_all add: typed_def)

lemma cons_commit_run:
  fixes v :: "'x consS_scheme"
  assumes "held v = [LCons]"
  shows "thn (bnd (gets (\<lambda>s. d = 10 \<or> d = ctl (CHR ''D'') \<or> unat (cons_e s - cons_r s) = INPUT_BUF_SIZE))
      (\<lambda>line. whenM line (thn (modify (\<lambda>s. s\<lparr>cons_w := cons_e s\<rparr>)) (wakeup ChCons)))) (release LCons) v
    = Ok () ((if d = 10 \<or> d = ctl (CHR ''D'') \<or> unat (cons_e v - cons_r v) = 128
       then v\<lparr>cons_w := cons_e v, procs := woken ChCons (cur v) (procs v)\<rparr> else v)\<lparr>held := []\<rparr>)"
proof -
  have "wakeup ChCons (v\<lparr>cons_w := cons_e v\<rparr>) = Ok () (v\<lparr>cons_w := cons_e v, procs := woken ChCons (cur v) (procs v)\<rparr>)"
    using assms by (simp add: wakeup_woken procs_unlocked_def)
  then show ?thesis using assms by (auto simp: whenM_def thn_def bnd_def release_def INPUT_BUF_SIZE_def)
qed

text \<open>The three groups of characters. In each, \<open>edited c s t\<close> relates the states before and after.\<close>

definition edited :: "uint8 \<Rightarrow> 'x consS_scheme \<Rightarrow> 'x consS_scheme \<Rightarrow> bool" where
  "edited c s t \<longleftrightarrow> cons_ok t \<and> held t = [] \<and> (cons_com t, cons_pend t) = edit_line c (cons_com s, cons_pend s)"

lemma consoleintr_kill:
  fixes s :: "'x consS_scheme"
  assumes "held s = []" "\<not> panicked s" "cons_ok s" "c = ctl (CHR ''U'')" "c \<noteq> ctl (CHR ''P'')"
  shows "\<exists>t. consoleintr c s = Ok () t \<and> edited c s t"
proof -
  let ?s = "s\<lparr>held := [LCons]\<rparr>"
  obtain out room where k: "kill_line (unat (cons_e s - cons_w s)) ?s = Ok () (?s\<lparr>uart_out := out, thr_room := room, cons_e := cons_w s\<rparr>)"
    using kill_line_run [of ?s "unat (cons_e s - cons_w s)"] assms by (auto simp: cons_ok_def)
  let ?u = "?s\<lparr>uart_out := out, thr_room := room, cons_e := cons_w s\<rparr>"
  have "consoleintr c s = Ok () (?u\<lparr>held := []\<rparr>)"
    using assms k by (simp add: consoleintr_def thn_Ok acquire_def release_def)
  moreover have "cons_ok ?u" "cons_pend ?u = []"
    using assms(3) by (simp_all add: cons_ok_def cons_pend_def ring_list_def)
  ultimately show ?thesis using assms(4)
    by (intro exI [of _ "?u\<lparr>held := []\<rparr>"] conjI) (simp_all only: cons_frame edited_def edit_line_def, simp_all)
qed

lemma consoleintr_erase:
  fixes s :: "'x consS_scheme"
  assumes "held s = []" "\<not> panicked s" and ok: "cons_ok s"
    and c: "c = ctl (CHR ''H'') \<or> c = 0x7f" "c \<noteq> ctl (CHR ''P'')" "c \<noteq> ctl (CHR ''U'')"
  shows "\<exists>t. consoleintr c s = Ok () t \<and> edited c s t"
proof (cases "cons_e s = cons_w s")
  case True
  then have "consoleintr c s = Ok () s"
    using assms by (auto simp: consoleintr_def thn_Ok acquire_def release_def)
  then show ?thesis using assms True cons_pend_empty [of s] by (auto simp: edit_line_def edited_def)
next
  case ne: False
  let ?v = "s\<lparr>held := [LCons], cons_e := cons_e s - 1\<rparr>"
  obtain out room where o: "consputc BACKSPACE ?v = Ok () (?v\<lparr>uart_out := out, thr_room := room\<rparr>)"
    using consputc_run [of ?v BACKSPACE] assms(2) by auto
  let ?u = "?v\<lparr>uart_out := out, thr_room := room\<rparr>"
  have "consoleintr c s = Ok () (?u\<lparr>held := []\<rparr>)"
    using assms ne o by (auto simp: consoleintr_def thn_Ok acquire_def release_def)
  moreover have p: "cons_pend ?u = butlast (cons_pend s)" using ring_shrink(1) [OF ne] by (simp add: cons_pend_def)
  moreover have er: "cons_e s \<noteq> cons_r s" using ok ring_shrink(3) [OF ne] by (auto simp: cons_ok_def)
  moreover have "cons_ok ?u"
    using ok ring_shrink(3) [OF ne] ring_shrink(3) [OF er]
    unfolding cons_ok_def p by (auto dest: in_set_butlastD)
  ultimately show ?thesis using c
    by (intro exI [of _ "?u\<lparr>held := []\<rparr>"] conjI) (simp_all only: cons_frame edit_line_def edited_def, auto)
qed

lemma consoleintr_typed:
  fixes s :: "'x consS_scheme"
  assumes "held s = []" and ok: "cons_ok s" and room: "unat (cons_e s - cons_r s) < 128"
    and c: "c \<noteq> 0" "c \<noteq> ctl (CHR ''P'')" "c \<noteq> ctl (CHR ''U'')" "c \<noteq> ctl (CHR ''H'')" "c \<noteq> 0x7f"
    and o: "consputc (unat d) (s\<lparr>held := [LCons]\<rparr>) = Ok () (s\<lparr>held := [LCons], uart_out := out, thr_room := rm\<rparr>)"
    and d: "d = (if c = 13 then 10 else c)"
  shows "\<exists>t. consoleintr c s = Ok () t \<and> edited c s t"
proof -
  let ?v = "typed d (s\<lparr>held := [LCons], uart_out := out, thr_room := rm\<rparr>)"
  note v = cons_put [OF ok room, of ?v d, simplified]
  let ?line = "d = 10 \<or> d = ctl (CHR ''D'') \<or> unat (cons_e ?v - cons_r ?v) = 128"
  let ?u = "if ?line then ?v\<lparr>cons_w := cons_e ?v, procs := woken ChCons (cur s) (procs s)\<rparr> else ?v"
  have "consoleintr c s = thn (bnd (gets (\<lambda>s. d = 10 \<or> d = ctl (CHR ''D'') \<or> unat (cons_e s - cons_r s) = INPUT_BUF_SIZE))
      (\<lambda>line. whenM line (thn (modify (\<lambda>s. s\<lparr>cons_w := cons_e s\<rparr>)) (wakeup ChCons)))) (release LCons) ?v"
    using c assms(1) room o unfolding d
    by (simp only: consoleintr_def thn_Ok acquire_def if_False Let_def) (simp add: thn_def bnd_assoc bnd_Ok typed_def INPUT_BUF_SIZE_def Let_def)
  then have run: "consoleintr c s = Ok () (?u\<lparr>held := []\<rparr>)"
    by (subst (asm) cons_commit_run) (simp_all add: typed_def)
  have total: "length (cons_com s) + length (cons_pend s) = unat (cons_e s - cons_r s)"
    using ok by (simp add: cons_ok_def cons_lengths)
  have vt: "length (cons_com s) + length (cons_pend s) + 1 = unat (cons_e ?v - cons_r ?v)" using v(4) total by simp
  show ?thesis
  proof (cases ?line)
    case True
    have "cons_com ?u = cons_com s @ cons_pend s @ [d]" and pe: "cons_pend ?u = []"
      using True v cons_commit [of ?v ?u] by simp_all
    moreover have "cons_ok ?u" using True v(3,4) room pe by (simp add: cons_ok_def)
    moreover have "edit_line c (cons_com s, cons_pend s) = (cons_com s @ cons_pend s @ [d], [])"
      using c room True vt total unfolding d by (auto simp: edit_line_def Let_def)
    ultimately show ?thesis using run by (intro exI [of _ "?u\<lparr>held := []\<rparr>"]) (simp only: cons_frame edited_def, simp)
  next
    case False
    then have u: "?u = ?v" by simp
    have "cons_ok ?v" using False v(2-4) room ok by (auto simp: cons_ok_def)
    moreover have "edit_line c (cons_com s, cons_pend s) = (cons_com s, cons_pend s @ [d])"
      using c room False vt total unfolding d by (auto simp: edit_line_def Let_def)
    ultimately show ?thesis using run v(1,2) unfolding u by (intro exI [of _ "?v\<lparr>held := []\<rparr>"]) (simp only: cons_frame edited_def, simp)
  qed
qed

text \<open>
  C29. Line editing: for every byte but \<^verbatim>\<open>^P\<close>, \<^verbatim>\<open>consoleintr\<close> returns and does to the committed input and to the
  line being edited exactly what the editing rules say (erase, kill, newline and end-of-file,
  full buffer, ignored characters), keeps the three indices in order within the buffer, also
  when they wrap around, and leaves no lock held.
\<close>

theorem consoleintr_edits:
  fixes s :: "'x consS_scheme"
  assumes "held s = []" and "\<not> panicked s" and "cons_ok s" and "c \<noteq> ctl (CHR ''P'')"
  shows "\<exists>t. consoleintr c s = Ok () t \<and> cons_ok t \<and> held t = []
    \<and> (cons_com t, cons_pend t) = edit_line c (cons_com s, cons_pend s)"
proof -
  let ?d = "if c = 13 then 10 else c :: uint8"
  obtain out rm where o: "consputc (unat ?d) (s\<lparr>held := [LCons]\<rparr>) = Ok () (s\<lparr>held := [LCons], uart_out := out, thr_room := rm\<rparr>)"
    using consputc_run [of "s\<lparr>held := [LCons]\<rparr>" "unat ?d"] assms(2) by auto
  have "consoleintr c s = Ok () s \<and> edited c s s"
    if "c \<noteq> ctl (CHR ''U'')" "c \<noteq> ctl (CHR ''H'')" "c \<noteq> 0x7f" "c = 0 \<or> \<not> unat (cons_e s - cons_r s) < 128"
    using that assms by (auto simp: consoleintr_def thn_Ok acquire_def release_def INPUT_BUF_SIZE_def edited_def edit_line_def
        cons_ok_def cons_lengths)
  then have "\<exists>t. consoleintr c s = Ok () t \<and> edited c s t"
    using consoleintr_kill [of s c] consoleintr_erase [of s c] consoleintr_typed [OF assms(1,3) _ _ _ _ _ _ o refl] assms by blast
  then show ?thesis by (simp add: edited_def)
qed

theorem consoleintr_edits_witness:
  "\<exists>t. consoleintr 13 wit_fileS = Ok () t \<and> cons_com t = [10] \<and> cons_pend t = []"
proof -
  have e: "cons_com wit_fileS = []" "cons_pend wit_fileS = []" "cons_ok wit_fileS"
    by (simp_all add: wit_fileS_def cons_com_def cons_pend_def cons_ok_def ring_list_def)
  have "edit_line 13 ([], []) = ([10], [])"
    by (simp add: edit_line_def ctl_def chr_def of_char_def)
  then show ?thesis
    using consoleintr_edits [of wit_fileS 13] e by (simp add: ctl_def chr_def of_char_def) (metis Pair_inject)
qed

section \<open>The UART\<close>

definition uart_ring :: "'x consS_scheme \<Rightarrow> 64 ring" where
  "uart_ring s = (uart_tx_buf s, uart_tx_r s, uart_tx_w s)"

definition uart_list :: "'x consS_scheme \<Rightarrow> bytes" where
  "uart_list s = ring_list 32 (uart_ring s)"

definition uart_ok :: "'x consS_scheme \<Rightarrow> bool" where
  "uart_ok s \<longleftrightarrow> ring_ok 32 (uart_ring s)"

lemma uart_empty_iff: "uart_tx_w s = uart_tx_r s \<longleftrightarrow> uart_list s = []"
  using ring_empty_iff [of 32 "uart_tx_buf s" "uart_tx_r s" "uart_tx_w s"] by (auto simp: uart_list_def uart_ring_def)

text \<open>The state after \<^verbatim>\<open>uartstart\<close> has moved one byte to the device.\<close>

definition uart_sent :: "'x consS_scheme \<Rightarrow> 'x consS_scheme" where
  "uart_sent s = s\<lparr>uart_tx_r := uart_tx_r s + 1, procs := woken ChUart (cur s) (procs s),
     uart_out := uart_out s @ [hd (uart_list s)], thr_room := thr_room s - 1\<rparr>"

lemma uart_sent_ok:
  assumes "uart_ok s" and "uart_list s \<noteq> []"
  shows "uart_ok (uart_sent s)" "uart_out (uart_sent s) @ uart_list (uart_sent s) = uart_out s @ uart_list s"
    "uart_list (uart_sent s) = tl (uart_list s)"
proof -
  have g: "uart_ring (uart_sent s) = snd (ring_get 32 (uart_ring s))"
    by (simp add: uart_ring_def uart_sent_def ring_get_def)
  show "uart_ok (uart_sent s)"
    using r32.get_inv [of "uart_ring s"] assms by (simp add: uart_ok_def uart_list_def g)
  show tl: "uart_list (uart_sent s) = tl (uart_list s)"
    using r32.get_first [of "uart_ring s"] assms by (simp add: uart_ok_def uart_list_def g)
  show "uart_out (uart_sent s) @ uart_list (uart_sent s) = uart_out s @ uart_list s"
    using assms(2) unfolding tl by (simp add: uart_sent_def)
qed

lemma uartstart_step:
  assumes "uart_ok s" and "uart_list s \<noteq> []" and "procs_unlocked (set_option (cur s)) s"
  shows "uartstart_loop (Suc n) s = uartstart_loop n (uart_sent s)"
proof -
  have "hd (uart_list s) = uart_tx_buf s (unat (uart_tx_r s) mod 32)"
    using r32.get_first [of "uart_ring s"] assms(1,2) by (simp add: uart_ok_def uart_list_def uart_ring_def ring_get_def)
  moreover have "procs_unlocked (set_option (cur s)) (s\<lparr>uart_tx_r := r\<rparr>)" for r using assms(3) by (simp add: procs_unlocked_def)
  ultimately show ?thesis
    using assms(2) by (simp add: uart_empty_iff UART_TX_BUF_SIZE_def wakeup_woken thn_Ok write_THR_def uart_sent_def)
qed

text \<open>\<^verbatim>\<open>uartstart\<close> sends as many bytes as the device takes, in order, and the rest stays queued.\<close>

definition uart_flow :: "'x consS_scheme \<Rightarrow> 'x consS_scheme \<Rightarrow> bool" where
  "uart_flow s t \<longleftrightarrow> uart_ok t \<and> uart_out t @ uart_list t = uart_out s @ uart_list s \<and> held t = held s \<and> cur t = cur s"

lemma uartstart_loop_run:
  "uart_ok s \<Longrightarrow> procs_unlocked (set_option (cur s)) s \<Longrightarrow> n = thr_room s \<Longrightarrow>
    \<exists>t. uartstart_loop n s = Ok () t \<and> uart_flow s t \<and> (thr_room t = 0 \<or> uart_list t = [])"
proof (induction n arbitrary: s)
  case 0
  then show ?case by (simp add: uart_flow_def)
next
  case (Suc n)
  show ?case
  proof (cases "uart_list s = []")
    case True
    then have "uartstart_loop (Suc n) s = Ok () s" by (simp add: uart_empty_iff)
    then show ?thesis using True Suc.prems by (simp add: uart_flow_def)
  next
    case False
    let ?u = "uart_sent s"
    have u: "procs_unlocked (set_option (cur ?u)) ?u" "n = thr_room ?u" "held ?u = held s" "cur ?u = cur s"
      using Suc.prems by (simp_all add: uart_sent_def procs_unlocked_def)
    obtain t where "uartstart_loop n ?u = Ok () t" "uart_flow ?u t" "thr_room t = 0 \<or> uart_list t = []"
      using Suc.IH [OF uart_sent_ok(1) [OF Suc.prems(1) False] u(1,2)] by blast
    then show ?thesis
      using uartstart_step [OF Suc.prems(1) False Suc.prems(2)] uart_sent_ok(2) [OF Suc.prems(1) False] u
      by (auto simp: uart_flow_def)
  qed
qed

text \<open>
  Output order and progress: with room in the buffer, \<^verbatim>\<open>uartputc\<close> returns, and what the device has
  sent followed by what is queued has grown by exactly the new byte at its end: nothing is lost,
  duplicated or reordered, also when the indices wrap around. Afterwards the device is busy or
  the queue is empty. With a full buffer the caller sleeps and nothing has been queued.
\<close>

theorem uartputc_in_order:
  fixes s :: "'x consS_scheme"
  assumes "held s = []" and "cur s = Some p" and "\<not> panicked s" and "uart_ok s"
  shows "if length (uart_list s) < UART_TX_BUF_SIZE then
      \<exists>t. uartputc c s = Ok () t \<and> uart_out t @ uart_list t = uart_out s @ uart_list s @ [c]
        \<and> uart_ok t \<and> held t = [] \<and> (thr_room t = 0 \<or> uart_list t = [])
    else \<exists>t. uartputc c s = Sleep t \<and> uart_out t = uart_out s \<and> uart_list t = uart_list s
        \<and> p_chan (procs t p) = ChUart \<and> p_state (procs t p) = SLEEPING"
proof -
  have full: "uart_tx_w s = uart_tx_r s + 32 \<longleftrightarrow> \<not> length (uart_list s) < UART_TX_BUF_SIZE"
  proof -
    have "uart_tx_w s = uart_tx_r s + 32 \<longleftrightarrow> uart_tx_w s - uart_tx_r s = 32" by (metis add.commute diff_add_cancel add_diff_cancel_left')
    also have "\<dots> \<longleftrightarrow> unat (uart_tx_w s - uart_tx_r s) = 32" by (simp add: word_unat_eq_iff)
    finally show ?thesis using assms(4) by (auto simp: uart_list_def uart_ring_def uart_ok_def ring_ok_def UART_TX_BUF_SIZE_def)
  qed
  show ?thesis
  proof (cases "length (uart_list s) < UART_TX_BUF_SIZE")
    case True
    let ?u = "s\<lparr>held := [LUart], uart_tx_buf := (uart_tx_buf s)(unat (uart_tx_w s) mod 32 := c), uart_tx_w := uart_tx_w s + 1\<rparr>"
    have put: "uart_ring ?u = ring_put 32 c (uart_ring s)" by (simp add: uart_ring_def ring_put_def)
    have u: "uart_ok ?u" "uart_list ?u = uart_list s @ [c]"
      using r32.put_inv [of "uart_ring s"] r32.put_contents [of "uart_ring s"] assms(4) True
      by (simp_all add: uart_ok_def uart_list_def put UART_TX_BUF_SIZE_def)
    obtain t where t: "uartstart ?u = Ok () t" "uart_flow ?u t" "thr_room t = 0 \<or> uart_list t = []"
      using uartstart_loop_run [OF u(1) _ refl] by (auto simp: uartstart_def procs_unlocked_def)
    have "uartputc c s = Ok () (t\<lparr>held := []\<rparr>)"
      using assms True full t(1,2)
      by (simp add: uartputc_def thn_Ok acquire_def UART_TX_BUF_SIZE_def uart_flow_def release_def)
    moreover have "uart_list (t\<lparr>held := []\<rparr>) = uart_list t" "uart_ok (t\<lparr>held := []\<rparr>) = uart_ok t"
      by (simp_all add: uart_list_def uart_ring_def uart_ok_def)
    ultimately show ?thesis using True t(2,3) u(2) by (auto simp: uart_flow_def)
  next
    case False
    then show ?thesis
      using assms full by (simp add: uartputc_def thn_Ok bnd_Ok acquire_def release_def UART_TX_BUF_SIZE_def sleep_def sched_def
          myproc_run uart_list_def uart_ring_def)
  qed
qed

theorem uartputc_in_order_witness:
  "\<exists>t. uartputc 65 wit_fileS = Ok () t \<and> uart_out t @ uart_list t = [65]"
proof -
  have "uart_list wit_fileS = []" "uart_ok wit_fileS" "uart_out wit_fileS = []"
    by (simp_all add: wit_fileS_def uart_list_def uart_ring_def ring_list_def uart_ok_def ring_ok_def)
  then show ?thesis using uartputc_in_order [of wit_fileS 1 65] by (auto simp: UART_TX_BUF_SIZE_def)
qed

end
