(* ===== verification/SleepInv.thy ===== *)
theory SleepInv
  imports Queues
begin

text \<open>
  Properties of the sleep locks, and the runs of their routines that the buffer cache rests on.
\<close>

section \<open>Sleep locks\<close>

text \<open>The running process is \<open>p\<close>, with no spinlock held.\<close>

definition running :: "nat \<Rightarrow> 'x kern_scheme \<Rightarrow> bool" where
  "running p s \<longleftrightarrow> cur s = Some p \<and> held s = []"

abbreviation mine :: "nat \<Rightarrow> 'x kern_scheme \<Rightarrow> sleeplock" where
  "mine p s \<equiv> \<lparr>sl_locked = True, sl_pid = p_pid (procs s p)\<rparr>"

abbreviation unlocked :: sleeplock where
  "unlocked \<equiv> \<lparr>sl_locked = False, sl_pid = 0\<rparr>"

lemma sl_spin_proc [simp]: "sl_spin l \<noteq> LProc p" "LProc p \<noteq> sl_spin l"
  by (cases l; simp)+

lemma acquiresleep_free:
  "running p s \<Longrightarrow> \<not> sl_locked (slocks s l) \<Longrightarrow>
    acquiresleep l s = Ok () (s\<lparr>slocks := (slocks s)(l := mine p s)\<rparr>)"
  by (simp add: running_def acquiresleep_def acquiresleep_loop_def set_slock_def thn_Ok bnd_Ok acquire_def release_def myproc_run)

lemma holdingsleep_run:
  "running p s \<Longrightarrow> holdingsleep l s = Ok (sl_locked (slocks s l) \<and> sl_pid (slocks s l) = p_pid (procs s p)) s"
  by (simp add: running_def holdingsleep_def thn_Ok bnd_Ok acquire_def release_def myproc_run)

lemma releasesleep_run:
  "running p s \<Longrightarrow> releasesleep l s =
    Ok () (s\<lparr>slocks := (slocks s)(l := unlocked), procs := woken (sl_chan l) (Some p) (procs s)\<rparr>)"
  by (simp add: running_def releasesleep_def set_slock_def thn_Ok acquire_def release_def wakeup_woken procs_unlocked_def)

text \<open>
  C30. A sleep lock excludes other processes: \<^verbatim>\<open>acquiresleep\<close> returns iff the lock is free, and then
  the caller holds it as \<^verbatim>\<open>holdingsleep\<close> reports; while another process holds it the caller goes
  to sleep on the lock with the lock unchanged and only its own table entry lock held, so that
  \<^verbatim>\<open>releasesleep\<close> by the holder frees it and makes every process that waits for it runnable.
\<close>

theorem acquiresleep_excludes:
  assumes "running p s"
  shows "if sl_locked (slocks s l) then
      \<exists>t. acquiresleep l s = Sleep t \<and> slocks t = slocks s \<and> held t = [LProc p]
        \<and> p_state (procs t p) = SLEEPING \<and> p_chan (procs t p) = sl_chan l
    else \<exists>t. acquiresleep l s = Ok () t \<and> holdingsleep l t = Ok True t
        \<and> (\<exists>u. releasesleep l t = Ok () u \<and> \<not> sl_locked (slocks u l)
             \<and> procs u = woken (sl_chan l) (Some p) (procs s))"
proof (cases "sl_locked (slocks s l)")
  case True
  then show ?thesis
    using assms by (simp add: running_def acquiresleep_def acquiresleep_loop_def thn_Ok bnd_Ok acquire_def release_def
        sleep_def sched_def myproc_run)
next
  case False
  let ?t = "s\<lparr>slocks := (slocks s)(l := mine p s)\<rparr>"
  have "running p ?t" using assms by (simp add: running_def)
  then show ?thesis
    using False acquiresleep_free [OF assms False] by (simp add: holdingsleep_run [of p ?t] releasesleep_run [of p ?t])
qed

theorem acquiresleep_excludes_witness:
  "\<exists>t. acquiresleep (SInode 0) wit_fileS = Ok () t \<and> holdingsleep (SInode 0) t = Ok True t"
proof -
  have "running 1 wit_fileS" "\<not> sl_locked (slocks wit_fileS (SInode 0))" by (simp_all add: running_def) (simp add: wit_fileS_def)
  then show ?thesis using acquiresleep_excludes [of 1 wit_fileS "SInode 0"] by auto
qed

end
