(* ===== verification/BlockCache.thy ===== *)
theory BlockCache
  imports Machine
begin

text \<open>
  The contract of the buffer cache that the log relies on: what each routine of \<^verbatim>\<open>kernel/bio.c\<close> does to
  the content of the blocks as seen through the cache (\<open>view\<close>), to their reference counts (\<open>refs\<close>), to
  the number of buffers that nobody references (\<open>nfree\<close>), and to the disk (\<open>dsk\<close>) and the order of the
  writes that reach it (\<open>trace\<close>). \<open>rest\<close> is what the cache never touches, and \<open>inv L\<close> says that the
  caller has locked the buffers of \<open>L\<close>.
\<close>

locale block_cache =
  fixes inv :: "nat set \<Rightarrow> 's \<Rightarrow> bool" and blk :: "'s \<Rightarrow> nat \<Rightarrow> uint32"
    and view :: "'s \<Rightarrow> uint32 \<Rightarrow> bytes" and refs :: "'s \<Rightarrow> uint32 \<Rightarrow> nat" and nfree :: "'s \<Rightarrow> nat"
    and dsk :: "'s \<Rightarrow> uint32 \<Rightarrow> bytes" and trace :: "'s \<Rightarrow> (uint32 \<times> bytes) list" and rest :: "'s \<Rightarrow> 'r"
    and read :: "uint32 \<Rightarrow> ('s, nat) kmon" and getd :: "nat \<Rightarrow> ('s, bytes) kmon"
    and setd :: "nat \<Rightarrow> (bytes \<Rightarrow> bytes) \<Rightarrow> ('s, unit) kmon" and wr :: "nat \<Rightarrow> ('s, unit) kmon"
    and rel :: "nat \<Rightarrow> ('s, unit) kmon" and unpin :: "nat \<Rightarrow> ('s, unit) kmon"
  assumes read_law: "inv L s \<Longrightarrow> n \<notin> blk s ` L \<Longrightarrow> (refs s n = 0 \<Longrightarrow> 0 < nfree s) \<Longrightarrow> refs s n < 2 ^ 31 \<Longrightarrow>
      \<exists>i t. read n s = Ok i t \<and> i \<notin> L \<and> inv (insert i L) t \<and> blk t i = n \<and> (\<forall>j\<in>L. blk t j = blk s j)
        \<and> view t = view s \<and> refs t = (refs s)(n := Suc (refs s n)) \<and> nfree t + of_bool (refs s n = 0) = nfree s
        \<and> dsk t = dsk s \<and> trace t = trace s \<and> rest t = rest s"
    and getd_law: "inv L s \<Longrightarrow> i \<in> L \<Longrightarrow> getd i s = Ok (view s (blk s i)) s"
    and setd_law: "inv L s \<Longrightarrow> i \<in> L \<Longrightarrow> \<exists>t. setd i f s = Ok () t \<and> inv L t \<and> (\<forall>j. blk t j = blk s j)
        \<and> view t = (view s)(blk s i := f (view s (blk s i))) \<and> refs t = refs s \<and> nfree t = nfree s
        \<and> dsk t = dsk s \<and> trace t = trace s \<and> rest t = rest s"
    and wr_law: "inv L s \<Longrightarrow> i \<in> L \<Longrightarrow> \<exists>t. wr i s = Ok () t \<and> inv L t \<and> (\<forall>j. blk t j = blk s j)
        \<and> view t = view s \<and> refs t = refs s \<and> nfree t = nfree s \<and> dsk t = (dsk s)(blk s i := view s (blk s i))
        \<and> trace t = trace s @ [(blk s i, view s (blk s i))] \<and> rest t = rest s"
    and rel_law: "inv L s \<Longrightarrow> i \<in> L \<Longrightarrow> (refs s (blk s i) = 1 \<Longrightarrow> view s (blk s i) = dsk s (blk s i)) \<Longrightarrow>
      \<exists>t. rel i s = Ok () t \<and> inv (L - {i}) t \<and> (\<forall>j. blk t j = blk s j)
        \<and> view t = view s \<and> refs t = (refs s)(blk s i := refs s (blk s i) - 1)
        \<and> nfree t = nfree s + of_bool (refs s (blk s i) = 1) \<and> dsk t = dsk s \<and> trace t = trace s \<and> rest t = rest s"
    and unpin_law: "inv L s \<Longrightarrow> i \<in> L \<Longrightarrow> 2 \<le> refs s (blk s i) \<Longrightarrow> \<exists>t. unpin i s = Ok () t \<and> inv L t
        \<and> (\<forall>j. blk t j = blk s j) \<and> view t = view s \<and> refs t = (refs s)(blk s i := refs s (blk s i) - 1)
        \<and> nfree t = nfree s \<and> dsk t = dsk s \<and> trace t = trace s \<and> rest t = rest s"
    and clean: "inv L s \<Longrightarrow> refs s n = 0 \<Longrightarrow> view s n = dsk s n"
begin

text \<open>The effect of copying the content of block \<open>b\<close> to block \<open>a\<close> and writing it through, with \<open>k\<close> references
  to \<open>a\<close> dropped.\<close>

definition copied :: "nat \<Rightarrow> uint32 \<Rightarrow> bytes \<Rightarrow> 's \<Rightarrow> 's \<Rightarrow> bool" where
  "copied k a d s t \<longleftrightarrow> inv {} t \<and> view t = (view s)(a := d) \<and> refs t = (refs s)(a := refs s a - k)
     \<and> nfree s \<le> nfree t \<and> dsk t = (dsk s)(a := d) \<and> trace t = trace s @ [(a, d)] \<and> rest t = rest s"

text \<open>The destination is read first: \<^verbatim>\<open>write_log\<close>.\<close>

lemma copy_to:
  assumes "inv {} s" "a \<noteq> b" "refs s a < 2 ^ 31" "refs s b < 2 ^ 31" "of_bool (refs s a = 0) + of_bool (refs s b = 0) \<le> nfree s"
  obtains i t1 j t2 t3 t4 t5 t6 where "read a s = Ok i t1" "rest t1 = rest s" "read b t1 = Ok j t2" "rest t2 = rest s"
    "getd j t2 = Ok (view s b) t2" "setd i (\<lambda>_. view s b) t2 = Ok () t3" "wr i t3 = Ok () t4"
    "rel j t4 = Ok () t5" "rel i t5 = Ok () t6" "copied 0 a (view s b) s t6"
proof -
  have "refs s a = 0 \<Longrightarrow> 0 < nfree s" using assms(5) by simp
  then obtain i t1 where 1: "read a s = Ok i t1" "inv {i} t1" "blk t1 i = a" "view t1 = view s" "refs t1 = (refs s)(a := Suc (refs s a))"
    "nfree t1 + of_bool (refs s a = 0) = nfree s" "dsk t1 = dsk s" "trace t1 = trace s" "rest t1 = rest s"
    using read_law [of "{}" s a] assms by auto
  have "refs s b = 0 \<Longrightarrow> 0 < nfree t1" using 1(6) assms(5) by (simp add: of_bool_def split: if_splits)
  then obtain j t2 where 2: "read b t1 = Ok j t2" "j \<noteq> i" "inv {j, i} t2" "blk t2 j = b" "blk t2 i = a" "view t2 = view s"
    "refs t2 = (refs s)(a := Suc (refs s a), b := Suc (refs s b))"
    "nfree t2 + of_bool (refs s b = 0) = nfree t1" "dsk t2 = dsk s" "trace t2 = trace s" "rest t2 = rest s"
    using read_law [of "{i}" t1 b] assms 1 by auto
  have g: "getd j t2 = Ok (view s b) t2" using getd_law [OF 2(3), of j] 2(4,6) by simp
  obtain t3 where 3: "setd i (\<lambda>_. view s b) t2 = Ok () t3" "inv {j, i} t3" "blk t3 j = b" "blk t3 i = a"
    "view t3 = (view s)(a := view s b)" "refs t3 = refs t2" "nfree t3 = nfree t2" "dsk t3 = dsk s" "trace t3 = trace s" "rest t3 = rest s"
    using setd_law [OF 2(3), of i "\<lambda>_. view s b"] 2(4-11) by auto
  obtain t4 where 4: "wr i t3 = Ok () t4" "inv {j, i} t4" "blk t4 j = b" "blk t4 i = a" "view t4 = (view s)(a := view s b)"
    "refs t4 = refs t2" "nfree t4 = nfree t2" "dsk t4 = (dsk s)(a := view s b)" "trace t4 = trace s @ [(a, view s b)]" "rest t4 = rest s"
    using wr_law [OF 3(2), of i] 3(3-10) by auto
  have bb: "refs s b = 0 \<Longrightarrow> view s b = dsk s b" by (rule clean [OF assms(1)])
  have fu: "(refs s)(a := v, b := refs s b) = (refs s)(a := v)" for v using assms(2) by auto
  obtain t5 where 5: "rel j t4 = Ok () t5" "inv {i} t5" "blk t5 i = a" "view t5 = view t4" "refs t5 = (refs s)(a := Suc (refs s a))"
    "nfree t5 = nfree t4 + of_bool (refs s b = 0)" "dsk t5 = dsk t4" "trace t5 = trace t4" "rest t5 = rest s"
    using rel_law [OF 4(2), of j] 4(3-10) 2(7) assms(2) bb 2(2) by (auto simp: insert_Diff_if fu)
  obtain t6 where 6: "rel i t5 = Ok () t6" "inv {} t6" "view t6 = view t4" "refs t6 = refs s"
    "nfree t6 = nfree t5 + of_bool (refs s a = 0)" "dsk t6 = dsk t4" "trace t6 = trace t4" "rest t6 = rest s"
    using rel_law [OF 5(2), of i] 4(5,8) 5(3-9) by auto
  have "copied 0 a (view s b) s t6"
    using 6 4(5-9) 5(6) 2(8) 1(6) by (simp add: copied_def)
  then show ?thesis using 1(1,9) 2(1,11) g 3(1) 4(1) 5(1) 6(1) by (intro that)
qed

text \<open>The source is read first: \<^verbatim>\<open>install_trans\<close>, with \<open>k\<close> one where the home block is unpinned.\<close>

lemma copy_from:
  assumes "inv {} s" "a \<noteq> b" "refs s a < 2 ^ 31" "refs s b < 2 ^ 31" "of_bool (refs s a = 0) + of_bool (refs s b = 0) \<le> nfree s" "u \<longrightarrow> 0 < refs s a"
  obtains i t1 j t2 t3 t4 t5 t6 t7 where "read b s = Ok i t1" "rest t1 = rest s" "read a t1 = Ok j t2" "rest t2 = rest s"
    "getd i t2 = Ok (view s b) t2" "setd j (\<lambda>_. view s b) t2 = Ok () t3" "wr j t3 = Ok () t4"
    "whenM u (unpin j) t4 = Ok () t5" "rel i t5 = Ok () t6" "rel j t6 = Ok () t7" "copied (of_bool u) a (view s b) s t7"
proof -
  let ?R = "(refs s)(b := Suc (refs s b), a := Suc (refs s a))"
  have "refs s b = 0 \<Longrightarrow> 0 < nfree s" using assms(5) by simp
  then obtain i t1 where 1: "read b s = Ok i t1" "inv {i} t1" "blk t1 i = b" "view t1 = view s" "refs t1 = (refs s)(b := Suc (refs s b))"
    "nfree t1 + of_bool (refs s b = 0) = nfree s" "dsk t1 = dsk s" "trace t1 = trace s" "rest t1 = rest s"
    using read_law [of "{}" s b] assms by auto
  have "refs s a = 0 \<Longrightarrow> 0 < nfree t1" using 1(6) assms(5) by (simp add: of_bool_def split: if_splits)
  then obtain j t2 where 2: "read a t1 = Ok j t2" "j \<noteq> i" "inv {j, i} t2" "blk t2 j = a" "blk t2 i = b" "view t2 = view s"
    "refs t2 = ?R" "nfree t2 + of_bool (refs s a = 0) = nfree t1" "dsk t2 = dsk s" "trace t2 = trace s" "rest t2 = rest s"
    using read_law [of "{i}" t1 a] assms 1 by auto
  have g: "getd i t2 = Ok (view s b) t2" using getd_law [OF 2(3), of i] 2(5,6) by simp
  obtain t3 where 3: "setd j (\<lambda>_. view s b) t2 = Ok () t3" "inv {j, i} t3" "blk t3 j = a" "blk t3 i = b"
    "view t3 = (view s)(a := view s b)" "refs t3 = ?R" "nfree t3 = nfree t2" "dsk t3 = dsk s" "trace t3 = trace s" "rest t3 = rest s"
    using setd_law [OF 2(3), of j "\<lambda>_. view s b"] 2(4-11) by auto
  obtain t4 where 4: "wr j t3 = Ok () t4" "inv {j, i} t4" "blk t4 j = a" "blk t4 i = b" "view t4 = (view s)(a := view s b)"
    "refs t4 = ?R" "nfree t4 = nfree t2" "dsk t4 = (dsk s)(a := view s b)" "trace t4 = trace s @ [(a, view s b)]" "rest t4 = rest s"
    using wr_law [OF 3(2), of j] 3(3-10) by auto
  have "\<exists>t5. whenM u (unpin j) t4 = Ok () t5 \<and> inv {j, i} t5 \<and> blk t5 j = a \<and> blk t5 i = b \<and> view t5 = view t4
    \<and> refs t5 = ?R(a := Suc (refs s a) - of_bool u) \<and> nfree t5 = nfree t2 \<and> dsk t5 = dsk t4 \<and> trace t5 = trace t4 \<and> rest t5 = rest s"
    using unpin_law [OF 4(2), of j] 4 assms(6) by (cases u) (auto simp: whenM_def)
  then obtain t5 where 5: "whenM u (unpin j) t4 = Ok () t5" "inv {j, i} t5" "blk t5 j = a" "blk t5 i = b" "view t5 = view t4"
    "refs t5 = ?R(a := Suc (refs s a) - of_bool u)" "nfree t5 = nfree t2" "dsk t5 = dsk t4" "trace t5 = trace t4" "rest t5 = rest s"
    by blast
  have bb: "refs s b = 0 \<Longrightarrow> view s b = dsk s b" by (rule clean [OF assms(1)])
  have fu: "(refs s)(a := v, b := refs s b) = (refs s)(a := v)" for v using assms(2) by auto
  obtain t6 where 6: "rel i t5 = Ok () t6" "inv {j} t6" "blk t6 j = a" "view t6 = view t4" "refs t6 = (refs s)(a := Suc (refs s a) - of_bool u)"
    "nfree t6 = nfree t5 + of_bool (refs s b = 0)" "dsk t6 = dsk t4" "trace t6 = trace t4" "rest t6 = rest s"
    using rel_law [OF 5(2), of i] 4(5-8) 5(3-10) assms(2) bb 2(2) by (auto simp: insert_Diff_if fu)
  obtain t7 where 7: "rel j t6 = Ok () t7" "inv {} t7" "view t7 = view t4" "refs t7 = (refs s)(a := Suc (refs s a) - of_bool u - 1)"
    "nfree t7 = nfree t6 + of_bool (Suc (refs s a) - of_bool u = 1)" "dsk t7 = dsk t4" "trace t7 = trace t4" "rest t7 = rest s"
    using rel_law [OF 6(2), of j] 4(5,8) 6(3-9) by auto
  have "copied (of_bool u) a (view s b) s t7"
    using 7 4(5-9) 6(6) 5(7) 2(8) 1(6) assms(6) by (auto simp: copied_def of_bool_def split: if_splits)
  then show ?thesis using 1(1,9) 2(1,11) g 3(1) 4(1) 5(1) 6(1) 7(1) by (intro that)
qed

text \<open>A block is read, changed in place by a run that only sets its data, written and released.\<close>

definition editing :: "uint32 \<Rightarrow> nat \<Rightarrow> bytes \<Rightarrow> 's \<Rightarrow> 's \<Rightarrow> bool" where
  "editing a i d s t \<longleftrightarrow> inv {i} t \<and> blk t i = a \<and> view t = (view s)(a := d) \<and> refs t = (refs s)(a := Suc (refs s a))
     \<and> nfree t + of_bool (refs s a = 0) = nfree s \<and> dsk t = dsk s \<and> trace t = trace s \<and> rest t = rest s"

lemma edit_start:
  assumes "inv {} s" "refs s a < 2 ^ 31" "0 < nfree s"
  obtains i t where "read a s = Ok i t" "editing a i (view s a) s t"
  using read_law [of "{}" s a] assms that by (auto simp: editing_def)

lemma edit_step:
  assumes "editing a i d s t"
  obtains u where "setd i f t = Ok () u" "editing a i (f d) s u"
  using setd_law [of "{i}" t i f] assms that by (auto simp: editing_def)

lemma edit_get: "editing a i d s t \<Longrightarrow> getd i t = Ok d t"
  using getd_law [of "{i}" t i] by (simp add: editing_def)

lemma edit_rest: "editing a i d s t \<Longrightarrow> rest t = rest s"
  by (simp add: editing_def)

lemma edit_end:
  assumes "editing a i d s t"
  obtains u v where "wr i t = Ok () u" "rel i u = Ok () v" "copied 0 a d s v"
proof -
  obtain u where u: "wr i t = Ok () u" "inv {i} u" "blk u i = a" "view u = (view s)(a := d)" "refs u = (refs s)(a := Suc (refs s a))"
    "nfree u = nfree t" "dsk u = (dsk s)(a := d)" "trace u = trace s @ [(a, d)]" "rest u = rest s"
    using wr_law [of "{i}" t i] assms by (auto simp: editing_def)
  obtain v where v: "rel i u = Ok () v" "inv {} v" "view v = view u" "refs v = refs s" "nfree v = nfree u + of_bool (refs s a = 0)"
    "dsk v = dsk u" "trace v = trace u" "rest v = rest s"
    using rel_law [OF u(2), of i] u(3-9) by auto
  have "copied 0 a d s v" using u(4-9) v assms by (simp add: copied_def editing_def)
  then show ?thesis using u(1) v(1) that by blast
qed

lemma edit_abandon:
  assumes "inv {} s" "editing a i (view s a) s t"
  obtains u where "rel i t = Ok () u" "inv {} u" "view u = view s" "refs u = refs s" "nfree u = nfree s"
    "dsk u = dsk s" "trace u = trace s" "rest u = rest s"
  using rel_law [of "{i}" t i] assms clean [OF assms(1), of a] that by (auto simp: editing_def)

end

end
