(* ===== verification/BioInv.thy ===== *)
theory BioInv
  imports SleepInv BlockCache
begin

text \<open>
  Properties of the buffer cache: an invariant of its state, the law of each routine in terms of the
  content of the blocks, their references and the disk, and the interpretation of the contract
  \<open>block_cache\<close> on the model of \<^verbatim>\<open>kernel/bio.c\<close>.
\<close>

section \<open>The invariant\<close>

text \<open>
  \<open>bc_inv D p L\<close>: process \<open>p\<close> runs without spinlocks and has locked exactly the buffers of \<open>L\<close>; the list holds
  every buffer once; no two buffers hold the same block of device \<open>D\<close>; and a buffer that nobody
  references agrees with the disk.
\<close>

definition holds :: "uint32 \<Rightarrow> uint32 \<Rightarrow> buf \<Rightarrow> bool" where
  "holds D n b \<longleftrightarrow> b_dev b = D \<and> b_blockno b = n"

definition bc_inv :: "uint32 \<Rightarrow> nat \<Rightarrow> nat set \<Rightarrow> 'x bioS_scheme \<Rightarrow> bool" where
  "bc_inv D p L s \<longleftrightarrow> running p s \<and> distinct (lru s) \<and> set (lru s) = {..<NBUF}
     \<and> (\<forall>i<NBUF. \<forall>j<NBUF. \<forall>n. holds D n (bufs s i) \<and> holds D n (bufs s j) \<longrightarrow> i = j)
     \<and> (\<forall>i<NBUF. sl_locked (slocks s (SBuf i)) \<longleftrightarrow> i \<in> L)
     \<and> (\<forall>i\<in>L. i < NBUF \<and> slocks s (SBuf i) = mine p s \<and> b_dev (bufs s i) = D \<and> b_valid (bufs s i) \<and> b_refcnt (bufs s i) \<noteq> 0)
     \<and> (\<forall>i<NBUF. b_dev (bufs s i) = D \<and> b_valid (bufs s i) \<and> b_refcnt (bufs s i) = 0
          \<longrightarrow> b_data (bufs s i) = disk s (b_blockno (bufs s i)))"

text \<open>The buffer that holds a block; the content of a block as seen through the cache; its references; the
  number of buffers nobody references.\<close>

definition cached :: "uint32 \<Rightarrow> 'x bioS_scheme \<Rightarrow> uint32 \<Rightarrow> nat option" where
  "cached D s n = find (\<lambda>i. holds D n (bufs s i)) [0..<NBUF]"

definition bview :: "uint32 \<Rightarrow> 'x bioS_scheme \<Rightarrow> uint32 \<Rightarrow> bytes" where
  "bview D s n = (case cached D s n of
     Some i \<Rightarrow> if b_valid (bufs s i) then b_data (bufs s i) else disk s n
   | None \<Rightarrow> disk s n)"

definition brefs :: "uint32 \<Rightarrow> 'x bioS_scheme \<Rightarrow> uint32 \<Rightarrow> nat" where
  "brefs D s n = (case cached D s n of Some i \<Rightarrow> unat (b_refcnt (bufs s i)) | None \<Rightarrow> 0)"

definition bfrees :: "'x bioS_scheme \<Rightarrow> nat set" where
  "bfrees s = {i. i < NBUF \<and> b_refcnt (bufs s i) = 0}"

lemma bc_invD:
  assumes "bc_inv D p L s"
  shows "running p s" "distinct (lru s)" "set (lru s) = {..<NBUF}"
    "i < NBUF \<Longrightarrow> j < NBUF \<Longrightarrow> holds D n (bufs s i) \<Longrightarrow> holds D n (bufs s j) \<Longrightarrow> i = j"
    "i < NBUF \<Longrightarrow> sl_locked (slocks s (SBuf i)) \<longleftrightarrow> i \<in> L"
    "i \<in> L \<Longrightarrow> i < NBUF" "i \<in> L \<Longrightarrow> slocks s (SBuf i) = mine p s" "i \<in> L \<Longrightarrow> b_dev (bufs s i) = D"
    "i \<in> L \<Longrightarrow> b_valid (bufs s i)" "i \<in> L \<Longrightarrow> b_refcnt (bufs s i) \<noteq> 0"
    "i < NBUF \<Longrightarrow> b_dev (bufs s i) = D \<Longrightarrow> b_valid (bufs s i) \<Longrightarrow> b_refcnt (bufs s i) = 0 \<Longrightarrow>
       b_data (bufs s i) = disk s (b_blockno (bufs s i))"
  using assms unfolding bc_inv_def by blast+

lemma bc_invI:
  assumes "running p s" "distinct (lru s)" "set (lru s) = {..<NBUF}"
    and "\<And>i j n. i < NBUF \<Longrightarrow> j < NBUF \<Longrightarrow> holds D n (bufs s i) \<Longrightarrow> holds D n (bufs s j) \<Longrightarrow> i = j"
    and "\<And>i. i < NBUF \<Longrightarrow> sl_locked (slocks s (SBuf i)) \<longleftrightarrow> i \<in> L"
    and "\<And>i. i \<in> L \<Longrightarrow> i < NBUF" "\<And>i. i \<in> L \<Longrightarrow> slocks s (SBuf i) = mine p s" "\<And>i. i \<in> L \<Longrightarrow> b_dev (bufs s i) = D"
    and "\<And>i. i \<in> L \<Longrightarrow> b_valid (bufs s i)" "\<And>i. i \<in> L \<Longrightarrow> b_refcnt (bufs s i) \<noteq> 0"
    and "\<And>i. i < NBUF \<Longrightarrow> b_dev (bufs s i) = D \<Longrightarrow> b_valid (bufs s i) \<Longrightarrow> b_refcnt (bufs s i) = 0 \<Longrightarrow>
       b_data (bufs s i) = disk s (b_blockno (bufs s i))"
  shows "bc_inv D p L s"
  unfolding bc_inv_def using assms(1-3) by (intro conjI allI impI ballI) (assumption | (elim conjE)?, rule assms; assumption)+

lemma find_unique:
  "(\<And>x. x \<in> set xs \<Longrightarrow> P x \<longleftrightarrow> x = i) \<Longrightarrow> i \<in> set xs \<Longrightarrow> find P xs = Some i"
  by (induction xs) auto

lemma cached_Some: "cached D s n = Some i \<Longrightarrow> i < NBUF \<and> holds D n (bufs s i)"
  by (auto simp: cached_def find_Some_iff)

lemma cached_None: "cached D s n = None \<longleftrightarrow> (\<forall>i<NBUF. \<not> holds D n (bufs s i))"
  by (auto simp: cached_def find_None_iff)

lemma cachedI: "bc_inv D p L s \<Longrightarrow> i < NBUF \<Longrightarrow> holds D n (bufs s i) \<Longrightarrow> cached D s n = Some i"
  unfolding cached_def by (rule find_unique) (auto dest: bc_invD(4))

text \<open>The two searches of \<^verbatim>\<open>bget\<close>.\<close>

lemma find_cached:
  assumes "bc_inv D p L s"
  shows "find (\<lambda>i. b_dev (bufs s i) = D \<and> b_blockno (bufs s i) = n) (lru s) = cached D s n"
proof (cases "cached D s n")
  case None
  have "\<not> (\<exists>i. i \<in> set (lru s) \<and> holds D n (bufs s i))" using None bc_invD(3) [OF assms] by (simp add: cached_None)
  then have "find (\<lambda>i. holds D n (bufs s i)) (lru s) = None" by (simp add: find_None_iff)
  then show ?thesis unfolding None by (simp only: holds_def)
next
  case (Some i)
  then have i: "i < NBUF" "holds D n (bufs s i)" using cached_Some by blast+
  have "find (\<lambda>i. holds D n (bufs s i)) (lru s) = Some i"
  proof (rule find_unique)
    show "i \<in> set (lru s)" using i(1) bc_invD(3) [OF assms] by simp
    fix j
    assume "j \<in> set (lru s)"
    then have "j < NBUF" by (simp add: bc_invD(3) [OF assms])
    then show "holds D n (bufs s j) \<longleftrightarrow> j = i" using bc_invD(4) [OF assms _ i(1) _ i(2)] i(2) by blast
  qed
  then show ?thesis unfolding Some by (simp only: holds_def)
qed

lemma find_free:
  assumes "bc_inv D p L s" and "bfrees s \<noteq> {}"
  obtains i where "find (\<lambda>i. b_refcnt (bufs s i) = 0) (rev (lru s)) = Some i" and "i \<in> bfrees s"
proof -
  have "find (\<lambda>i. b_refcnt (bufs s i) = 0) (rev (lru s)) \<noteq> None"
    using assms bc_invD(3) [OF assms(1)] by (auto simp: find_None_iff bfrees_def)
  then obtain i where "find (\<lambda>i. b_refcnt (bufs s i) = 0) (rev (lru s)) = Some i" by blast
  moreover from this have "i \<in> bfrees s"
    using bc_invD(3) [OF assms(1)] by (auto simp: find_Some_iff bfrees_def) (metis in_set_conv_nth length_rev lessThan_iff nth_mem set_rev)
  ultimately show ?thesis using that by blast
qed

section \<open>The routines\<close>

text \<open>The state after a buffer has been taken and locked for a block.\<close>

definition got :: "nat \<Rightarrow> nat \<Rightarrow> buf \<Rightarrow> 'x bioS_scheme \<Rightarrow> 'x bioS_scheme" where
  "got p i b s = s\<lparr>bufs := (bufs s)(i := b), slocks := (slocks s)(SBuf i := mine p s)\<rparr>"

definition load :: "'x bioS_scheme \<Rightarrow> buf \<Rightarrow> buf" where
  "load s b = (if b_valid b then b else b\<lparr>b_data := disk s (b_blockno b), b_valid := True\<rparr>)"

lemma bread_tail:
  assumes "i < NBUF"
  shows "bnd (get_buf i b_valid) (\<lambda>v.
     thn (whenM (\<not> v) (thn (disk_rw i False) (upd_buf i (\<lambda>b. b\<lparr>b_valid := True\<rparr>)))) (ret i)) (got p i b s)
   = Ok i (got p i (load s b) s)"
  by (simp add: get_buf_def upd_buf_def disk_rw_def got_def load_def whenM_def thn_def bnd_def)

lemma running_upd [simp]: "running p (s\<lparr>bufs := f\<rparr>) = running p s" "running p (s\<lparr>slocks := g\<rparr>) = running p s"
  "running p (s\<lparr>disk := h\<rparr>) = running p s" "running p (s\<lparr>dwrites := w\<rparr>) = running p s" "running p (s\<lparr>procs := q\<rparr>) = running p s"
  "running p (s\<lparr>lru := l\<rparr>) = running p s"
  by (simp_all add: running_def)

lemma bufs_held: "held s = [] \<Longrightarrow> s\<lparr>bufs := f, held := []\<rparr> = s\<lparr>bufs := f\<rparr>" for s :: "'x bioS_scheme"
  by (rule bioS.equality) simp_all

lemma bread_cached:
  assumes inv: "bc_inv D p L s" and i: "cached D s n = Some i" "i \<notin> L"
  shows "bread D n s = Ok i (got p i (load s ((bufs s i)\<lparr>b_refcnt := b_refcnt (bufs s i) + 1\<rparr>)) s)"
proof -
  have i': "i < NBUF" using cached_Some [OF i(1)] by simp
  let ?b = "(bufs s i)\<lparr>b_refcnt := b_refcnt (bufs s i) + 1\<rparr>"
  let ?s = "s\<lparr>bufs := (bufs s)(i := ?b)\<rparr>"
  have run: "running p s" by (rule bc_invD(1) [OF inv])
  have sl: "acquiresleep (SBuf i) ?s = Ok () (got p i ?b s)"
    using acquiresleep_free [of p ?s "SBuf i"] run bc_invD(5) [OF inv i'] i(2) by (simp add: got_def)
  have "bget D n s = Ok i (got p i ?b s)"
    using run sl i find_cached [OF inv, of n]
    by (simp add: bget_def running_def thn_Ok acquire_def release_def upd_buf_def bufs_held)
  then show ?thesis unfolding bread_def using bread_tail [OF i', of p ?b s] by (simp add: bnd_Ok)
qed

lemma bread_uncached:
  assumes inv: "bc_inv D p L s" and n: "cached D s n = None" and free: "bfrees s \<noteq> {}"
  obtains i where "i \<in> bfrees s"
    "bread D n s = Ok i (got p i ((bufs s i)\<lparr>b_dev := D, b_blockno := n, b_refcnt := 1, b_data := disk s n, b_valid := True\<rparr>) s)"
proof -
  obtain i where f: "find (\<lambda>i. b_refcnt (bufs s i) = 0) (rev (lru s)) = Some i" and i: "i \<in> bfrees s"
    using inv free by (rule find_free)
  have i': "i < NBUF" "i \<notin> L" using i bc_invD(10) [OF inv] by (auto simp: bfrees_def)
  let ?b = "(bufs s i)\<lparr>b_dev := D, b_blockno := n, b_valid := False, b_refcnt := 1\<rparr>"
  let ?s = "s\<lparr>bufs := (bufs s)(i := ?b)\<rparr>"
  have run: "running p s" by (rule bc_invD(1) [OF inv])
  have sl: "acquiresleep (SBuf i) ?s = Ok () (got p i ?b s)"
    using acquiresleep_free [of p ?s "SBuf i"] run bc_invD(5) [OF inv i'(1)] i'(2) by (simp add: got_def)
  have "bget D n s = Ok i (got p i ?b s)"
    using run sl f n find_cached [OF inv, of n]
    by (simp add: bget_def running_def thn_Ok acquire_def release_def upd_buf_def bufs_held)
  then have "bread D n s = Ok i (got p i (load s ?b) s)"
    unfolding bread_def using bread_tail [OF i'(1), of p ?b s] by (simp add: bnd_Ok)
  then show ?thesis using that i by (simp add: load_def)
qed

section \<open>The laws of the cache\<close>

abbreviation blk :: "'x bioS_scheme \<Rightarrow> nat \<Rightarrow> uint32" where
  "blk s i \<equiv> b_blockno (bufs s i)"

text \<open>Nothing but the cache itself changes.\<close>

definition bc_frame :: "'x bioS_scheme \<Rightarrow> (uint32 \<Rightarrow> bytes) \<times> (uint32 \<times> bytes) list \<times> 'x" where
  "bc_frame s = (disk s, dwrites s, bioS.more s)"

lemma bc_frame_got [simp]: "bc_frame (got p i b s) = bc_frame s"
  by (simp add: bc_frame_def got_def)

lemma got_simps [simp]:
  "bufs (got p i b s) = (bufs s)(i := b)" "slocks (got p i b s) = (slocks s)(SBuf i := mine p s)"
  "procs (got p i b s) = procs s" "lru (got p i b s) = lru s" "disk (got p i b s) = disk s"
  "running p (got p i b s) = running p s"
  by (simp_all add: got_def)

lemma got_inv:
  assumes inv: "bc_inv D p L s" and i: "i < NBUF" "i \<notin> L"
    and b: "holds D n b" "b_valid b" "b_refcnt b \<noteq> 0" and uniq: "\<And>j. j < NBUF \<Longrightarrow> j \<noteq> i \<Longrightarrow> \<not> holds D n (bufs s j)"
  shows "bc_inv D p (insert i L) (got p i b s)"
proof (rule bc_invI)
  let ?t = "got p i b s"
  show "running p ?t" "distinct (lru ?t)" "set (lru ?t) = {..<NBUF}" using bc_invD(1-3) [OF inv] by simp_all
  show "j = k" if "j < NBUF" "k < NBUF" "holds D m (bufs ?t j)" "holds D m (bufs ?t k)" for j k m
    using that uniq b(1) bc_invD(4) [OF inv that(1,2), of m] by (auto simp: holds_def split: if_splits)
  show "sl_locked (slocks ?t (SBuf j)) \<longleftrightarrow> j \<in> insert i L" if "j < NBUF" for j
    using bc_invD(5) [OF inv that] by auto
  show "b_data (bufs ?t j) = disk ?t (b_blockno (bufs ?t j))"
    if "j < NBUF" "b_dev (bufs ?t j) = D" "b_valid (bufs ?t j)" "b_refcnt (bufs ?t j) = 0" for j
    using that b bc_invD(11) [OF inv, of j] by (auto split: if_splits)
  fix j
  assume j: "j \<in> insert i L"
  show "j < NBUF" using j i(1) bc_invD(6) [OF inv] by blast
  show "slocks ?t (SBuf j) = mine p ?t" "b_dev (bufs ?t j) = D" "b_valid (bufs ?t j)" "b_refcnt (bufs ?t j) \<noteq> 0"
    using j b bc_invD(7-10) [OF inv, of j] by (auto simp: holds_def)
qed

lemma bview_cached: "cached D s n = Some i \<Longrightarrow> b_valid (bufs s i) \<Longrightarrow> bview D s n = b_data (bufs s i)"
  by (simp add: bview_def)

text \<open>How the view and the references change when one buffer is given block \<open>n\<close>.\<close>

lemma buf_change:
  assumes inv: "bc_inv D p L s" and inv': "bc_inv D p L' t" and i: "i < NBUF" and b: "holds D n b" "b_valid b"
    and t: "bufs t = (bufs s)(i := b)" "disk t = disk s"
    and old: "holds D n (bufs s i) \<or> b_refcnt (bufs s i) = 0 \<and> (\<forall>j<NBUF. \<not> holds D n (bufs s j))"
  shows "bview D t = (bview D s)(n := b_data b)" "brefs D t = (brefs D s)(n := unat (b_refcnt b))"
proof -
  have n: "cached D t n = Some i" using b by (intro cachedI [OF inv' i]) (simp add: t)
  have other: "cached D t m = (if cached D s m = Some i then None else cached D s m)" if m: "m \<noteq> n" for m
  proof (cases "cached D s m")
    case None
    then have "\<forall>k<NBUF. \<not> holds D m (bufs t k)" using b(1) m by (auto simp: cached_None t holds_def)
    then have "cached D t m = None" by (simp add: cached_None)
    then show ?thesis using None by simp
  next
    case (Some j)
    then have j: "j < NBUF" "holds D m (bufs s j)" using cached_Some by blast+
    show ?thesis
    proof (cases "j = i")
      case True
      then have "\<not> holds D m (bufs t k)" if "k < NBUF" for k
        using that j m b(1) bc_invD(4) [OF inv that j(1), of m] by (auto simp: t holds_def split: if_splits)
      then show ?thesis using Some True by (simp add: cached_None)
    next
      case False
      then have "cached D t m = Some j" using j by (intro cachedI [OF inv' j(1)]) (simp add: t)
      then show ?thesis using Some False by simp
    qed
  qed
  have gone: "b_refcnt (bufs s i) = 0" "b_dev (bufs s i) = D" "b_blockno (bufs s i) = m" if "cached D s m = Some i" "m \<noteq> n" for m
    using that old cached_Some [OF that(1)] by (auto simp: holds_def)
  show "bview D t = (bview D s)(n := b_data b)"
  proof
    fix m
    show "bview D t m = ((bview D s)(n := b_data b)) m"
      using n b(2) other [of m] gone [of m] bc_invD(11) [OF inv i]
      by (cases "m = n"; cases "cached D s m = Some i") (auto simp: bview_def t split: option.splits)
  qed
  show "brefs D t = (brefs D s)(n := unat (b_refcnt b))"
  proof
    fix m
    show "brefs D t m = ((brefs D s)(n := unat (b_refcnt b))) m"
      using n other [of m] gone [of m]
      by (cases "m = n"; cases "cached D s m = Some i") (auto simp: brefs_def t split: option.splits)
  qed
qed

lemma finite_bfrees [simp]: "finite (bfrees s)"
  by (simp add: bfrees_def)

lemma bfrees_take: "i \<in> bfrees s \<Longrightarrow> Suc (card (bfrees s - {i})) = card (bfrees s)"
  by (rule card_Suc_Diff1) simp_all

lemma bfrees_change:
  "i < NBUF \<Longrightarrow> bufs t = (bufs s)(i := b) \<Longrightarrow> b_refcnt b \<noteq> 0 \<Longrightarrow> bfrees t = bfrees s - {i}"
  by (auto simp: bfrees_def split: if_splits)

lemma brefs_clean: "bc_inv D p L s \<Longrightarrow> brefs D s n = 0 \<Longrightarrow> bview D s n = disk s n"
  using cached_Some [of D s n] bc_invD(11) [of D p L s]
  by (auto simp: brefs_def bview_def holds_def unat_eq_0 split: option.splits)

lemma unat_Suc_cint: "unat x < 2 ^ 31 \<Longrightarrow> unat (x + 1 :: uint32) = Suc (unat x)"
  by (subst unat_add_small) simp_all

lemma bread_law:
  assumes inv: "bc_inv D p L s" and n: "n \<notin> blk s ` L" and room: "brefs D s n = 0 \<longrightarrow> bfrees s \<noteq> {}"
    and small: "brefs D s n < 2 ^ 31"
  shows "\<exists>i t. bread D n s = Ok i t \<and> i \<notin> L \<and> bc_inv D p (insert i L) t \<and> blk t i = n \<and> (\<forall>j\<in>L. blk t j = blk s j)
    \<and> bview D t = bview D s \<and> brefs D t = (brefs D s)(n := Suc (brefs D s n)) \<and> bc_frame t = bc_frame s
    \<and> card (bfrees t) + of_bool (brefs D s n = 0) = card (bfrees s)"
proof (cases "cached D s n")
  case (Some i)
  then have i: "i < NBUF" "holds D n (bufs s i)" using cached_Some by blast+
  then have iL: "i \<notin> L" using n by (auto simp: holds_def)
  let ?b = "load s ((bufs s i)\<lparr>b_refcnt := b_refcnt (bufs s i) + 1\<rparr>)"
  let ?t = "got p i ?b s"
  have r: "unat (b_refcnt (bufs s i)) = brefs D s n" by (simp add: brefs_def Some)
  have ur: "unat (b_refcnt ?b) = Suc (brefs D s n)" using small by (simp add: load_def unat_Suc_cint r)
  have b: "holds D n ?b" "b_valid ?b" "b_data ?b = bview D s n" using i by (auto simp: load_def holds_def bview_def Some)
  have rne: "b_refcnt ?b \<noteq> 0" using ur by auto
  have inv': "bc_inv D p (insert i L) ?t"
    using bc_invD(4) [OF inv _ i(1) _ i(2)] by (intro got_inv [OF inv i(1) iL b(1,2) rne]) blast
  have v: "bview D ?t = bview D s" "brefs D ?t = (brefs D s)(n := Suc (brefs D s n))"
    using buf_change [OF inv inv' i(1) b(1,2)] i(2) b(3) ur by auto
  have f: "bfrees ?t = bfrees s - {i}" using i(1) rne by (intro bfrees_change) auto
  have "i \<in> bfrees s \<longleftrightarrow> brefs D s n = 0" using i(1) r by (auto simp: bfrees_def unat_eq_0)
  then have "card (bfrees ?t) + of_bool (brefs D s n = 0) = card (bfrees s)"
    using bfrees_take [of i s] by (cases "brefs D s n = 0") (simp_all add: f)
  then show ?thesis
    using bread_cached [OF inv Some iL] inv' iL v b(1) by (intro exI [of _ i] exI [of _ ?t]) (auto simp: holds_def)
next
  case None
  then have r0: "brefs D s n = 0" by (simp add: brefs_def)
  obtain i where i: "i \<in> bfrees s" and run: "bread D n s = Ok i (got p i ((bufs s i)\<lparr>b_dev := D, b_blockno := n, b_refcnt := 1, b_data := disk s n, b_valid := True\<rparr>) s)"
    using bread_uncached [OF inv None] room r0 by blast
  let ?b = "(bufs s i)\<lparr>b_dev := D, b_blockno := n, b_refcnt := 1, b_data := disk s n, b_valid := True\<rparr>"
  let ?t = "got p i ?b s"
  have i': "i < NBUF" "b_refcnt (bufs s i) = 0" "i \<notin> L" using i bc_invD(10) [OF inv, of i] by (auto simp: bfrees_def)
  have b: "holds D n ?b" "b_valid ?b" "b_refcnt ?b \<noteq> 0" by (simp_all add: holds_def)
  have none: "\<forall>j<NBUF. \<not> holds D n (bufs s j)" using None by (simp add: cached_None)
  have inv': "bc_inv D p (insert i L) ?t" using none by (intro got_inv [OF inv i'(1,3) b]) blast
  have v: "bview D ?t = bview D s" "brefs D ?t = (brefs D s)(n := Suc (brefs D s n))"
    using buf_change [OF inv inv' i'(1) b(1,2)] i'(2) none r0 by (auto simp: bview_def None)
  have "bfrees ?t = bfrees s - {i}" using i'(1) by (intro bfrees_change) auto
  then have "card (bfrees ?t) + 1 = card (bfrees s)" using bfrees_take [OF i] by simp
  then show ?thesis
    using run inv' i'(3) v r0 by (intro exI [of _ i] exI [of _ ?t]) auto
qed

text \<open>A locked buffer is changed in place.\<close>

lemma locked_change:
  assumes inv: "bc_inv D p L s" and i: "i \<in> L" and b: "holds D (blk s i) b" "b_valid b" "b_refcnt b \<noteq> 0"
    and t: "t = s\<lparr>bufs := (bufs s)(i := b)\<rparr>"
  shows "bc_inv D p L t" and "bview D t = (bview D s)(blk s i := b_data b)"
    and "brefs D t = (brefs D s)(blk s i := unat (b_refcnt b))" and "bfrees t = bfrees s"
proof -
  have old: "holds D (blk s i) (bufs s i)" using bc_invD(8) [OF inv i] by (simp add: holds_def)
  have hb: "holds D m (bufs t j) \<longleftrightarrow> holds D m (bufs s j)" for m j using b(1) old by (auto simp: holds_def t)
  show inv': "bc_inv D p L t"
  proof (rule bc_invI)
    show "running p t" "distinct (lru t)" "set (lru t) = {..<NBUF}" using bc_invD(1-3) [OF inv] by (simp_all add: t)
    show "j = k" if "j < NBUF" "k < NBUF" "holds D m (bufs t j)" "holds D m (bufs t k)" for j k m
      using that(3,4) bc_invD(4) [OF inv that(1,2)] unfolding hb by blast
    show "sl_locked (slocks t (SBuf j)) \<longleftrightarrow> j \<in> L" if "j < NBUF" for j using bc_invD(5) [OF inv that] by (simp add: t)
    show "b_data (bufs t j) = disk t (blk t j)"
      if "j < NBUF" "b_dev (bufs t j) = D" "b_valid (bufs t j)" "b_refcnt (bufs t j) = 0" for j
      using that b bc_invD(11) [OF inv, of j] by (auto simp: t split: if_splits)
    fix j
    assume j: "j \<in> L"
    show "j < NBUF" by (rule bc_invD(6) [OF inv j])
    show "slocks t (SBuf j) = mine p t" "b_dev (bufs t j) = D" "b_valid (bufs t j)" "b_refcnt (bufs t j) \<noteq> 0"
      using j b bc_invD(7-10) [OF inv j] by (auto simp: holds_def t)
  qed
  show "bview D t = (bview D s)(blk s i := b_data b)" "brefs D t = (brefs D s)(blk s i := unat (b_refcnt b))"
    using buf_change [OF inv inv' bc_invD(6) [OF inv i] b(1,2)] old by (simp_all add: t)
  show "bfrees t = bfrees s" using b(3) bc_invD(10) [OF inv i] by (auto simp: bfrees_def t)
qed

lemma locked_cached: "bc_inv D p L s \<Longrightarrow> i \<in> L \<Longrightarrow> cached D s (blk s i) = Some i"
  by (rule cachedI) (auto simp: holds_def dest: bc_invD(6,8))

lemma locked_view: "bc_inv D p L s \<Longrightarrow> i \<in> L \<Longrightarrow> b_data (bufs s i) = bview D s (blk s i)"
  by (simp add: bview_def locked_cached bc_invD(9))

lemma locked_refs: "bc_inv D p L s \<Longrightarrow> i \<in> L \<Longrightarrow> unat (b_refcnt (bufs s i)) = brefs D s (blk s i)"
  by (simp add: brefs_def locked_cached)

lemma set_data_law:
  assumes inv: "bc_inv D p L s" and i: "i \<in> L"
  shows "\<exists>t. set_data i f s = Ok () t \<and> bc_inv D p L t \<and> (\<forall>j. blk t j = blk s j) \<and> brefs D t = brefs D s
    \<and> bview D t = (bview D s)(blk s i := f (bview D s (blk s i))) \<and> bc_frame t = bc_frame s \<and> bfrees t = bfrees s"
proof -
  let ?b = "(bufs s i)\<lparr>b_data := f (b_data (bufs s i))\<rparr>"
  have b: "holds D (blk s i) ?b" "b_valid ?b" "b_refcnt ?b \<noteq> 0" using bc_invD(8-10) [OF inv i] by (simp_all add: holds_def)
  show ?thesis
    using locked_change [OF inv i b refl] locked_refs [OF inv i] locked_view [OF inv i]
    by (auto simp: set_data_def upd_buf_def bc_frame_def fun_upd_idem_iff)
qed

lemma bunpin_law:
  assumes inv: "bc_inv D p L s" and i: "i \<in> L" and r: "2 \<le> brefs D s (blk s i)"
  shows "\<exists>t. bunpin i s = Ok () t \<and> bc_inv D p L t \<and> (\<forall>j. blk t j = blk s j)
    \<and> brefs D t = (brefs D s)(blk s i := brefs D s (blk s i) - 1)
    \<and> bview D t = bview D s \<and> bc_frame t = bc_frame s \<and> bfrees t = bfrees s"
proof -
  let ?b = "(bufs s i)\<lparr>b_refcnt := b_refcnt (bufs s i) - 1\<rparr>"
  have u: "unat (b_refcnt ?b) = brefs D s (blk s i) - 1"
    using unat_minus_one [OF bc_invD(10) [OF inv i]] locked_refs [OF inv i] by simp
  then have b: "holds D (blk s i) ?b" "b_valid ?b" "b_refcnt ?b \<noteq> 0"
    using bc_invD(8-10) [OF inv i] r by (auto simp: holds_def)
  have run: "bunpin i s = Ok () (s\<lparr>bufs := (bufs s)(i := ?b)\<rparr>)"
    using bc_invD(1) [OF inv] by (simp add: bunpin_def running_def thn_Ok acquire_def release_def upd_buf_def bufs_held)
  show ?thesis
    using run locked_change [OF inv i b refl] locked_view [OF inv i] u
    by (auto simp: bc_frame_def fun_upd_idem_iff)
qed

lemma bwrite_law:
  assumes inv: "bc_inv D p L s" and i: "i \<in> L"
  shows "\<exists>t. bwrite i s = Ok () t \<and> bc_inv D p L t \<and> (\<forall>j. blk t j = blk s j) \<and> brefs D t = brefs D s \<and> bview D t = bview D s
    \<and> disk t = (disk s)(blk s i := bview D s (blk s i)) \<and> dwrites t = dwrites s @ [(blk s i, bview D s (blk s i))]
    \<and> bioS.more t = bioS.more s \<and> bfrees t = bfrees s"
proof -
  let ?n = "blk s i"
  let ?t = "s\<lparr>disk := (disk s)(?n := bview D s ?n), dwrites := dwrites s @ [(?n, bview D s ?n)]\<rparr>"
  have "bwrite i s = Ok () ?t"
    using bc_invD(1) [OF inv] bc_invD(7) [OF inv i] locked_view [OF inv i]
    by (simp add: bwrite_def holdingsleep_run bnd_Ok disk_rw_def get_buf_def)
  moreover have "cached D ?t = cached D s" by (simp add: cached_def fun_eq_iff)
  moreover from this have "bview D ?t = bview D s" "brefs D ?t = brefs D s"
    using locked_cached [OF inv i] bc_invD(9) [OF inv i] by (auto simp: bview_def brefs_def fun_eq_iff split: option.splits)
  moreover have "bc_inv D p L ?t"
  proof (rule bc_invI)
    show "running p ?t" "distinct (lru ?t)" "set (lru ?t) = {..<NBUF}" using bc_invD(1-3) [OF inv] by simp_all
    show "j = k" if "j < NBUF" "k < NBUF" "holds D m (bufs ?t j)" "holds D m (bufs ?t k)" for j k m
      using that bc_invD(4) [OF inv that(1,2)] by simp
    show "sl_locked (slocks ?t (SBuf j)) \<longleftrightarrow> j \<in> L" if "j < NBUF" for j using bc_invD(5) [OF inv that] by simp
    show "b_data (bufs ?t j) = disk ?t (blk ?t j)"
      if "j < NBUF" "b_dev (bufs ?t j) = D" "b_valid (bufs ?t j)" "b_refcnt (bufs ?t j) = 0" for j
      using that bc_invD(11) [OF inv, of j] bc_invD(8,10) [OF inv i] bc_invD(4) [OF inv that(1) bc_invD(6) [OF inv i], of ?n]
      by (auto simp: holds_def)
    show "j < NBUF" if "j \<in> L" for j using that by (rule bc_invD(6) [OF inv])
    show "slocks ?t (SBuf j) = mine p ?t" "b_dev (bufs ?t j) = D" "b_valid (bufs ?t j)" "b_refcnt (bufs ?t j) \<noteq> 0" if "j \<in> L" for j
      using bc_invD(7-10) [OF inv that] by simp_all
  qed
  ultimately show ?thesis by (intro exI [of _ ?t]) (simp add: bfrees_def)
qed

lemma bpin_law:
  assumes inv: "bc_inv D p L s" and i: "i \<in> L" and small: "brefs D s (blk s i) < 2 ^ 31"
  shows "\<exists>t. bpin i s = Ok () t \<and> bc_inv D p L t \<and> (\<forall>j. blk t j = blk s j)
    \<and> brefs D t = (brefs D s)(blk s i := Suc (brefs D s (blk s i)))
    \<and> bview D t = bview D s \<and> bc_frame t = bc_frame s \<and> bfrees t = bfrees s"
proof -
  let ?b = "(bufs s i)\<lparr>b_refcnt := b_refcnt (bufs s i) + 1\<rparr>"
  have u: "unat (b_refcnt ?b) = Suc (brefs D s (blk s i))"
    using unat_Suc_cint [of "b_refcnt (bufs s i)"] locked_refs [OF inv i] small by simp
  then have "b_refcnt ?b \<noteq> 0" by auto
  then have b: "holds D (blk s i) ?b" "b_valid ?b" "b_refcnt ?b \<noteq> 0"
    using bc_invD(8-9) [OF inv i] by (auto simp: holds_def)
  have run: "bpin i s = Ok () (s\<lparr>bufs := (bufs s)(i := ?b)\<rparr>)"
    using bc_invD(1) [OF inv] by (simp add: bpin_def running_def thn_Ok acquire_def release_def upd_buf_def bufs_held)
  show ?thesis
    using run locked_change [OF inv i b refl] locked_view [OF inv i] u
    by (auto simp: bc_frame_def fun_upd_idem_iff)
qed

text \<open>A locked buffer is let go.\<close>

lemma brelse_run:
  assumes inv: "bc_inv D p L s" and i: "i \<in> L"
  shows "\<exists>t. brelse i s = Ok () t \<and> running p t \<and> distinct (lru t) \<and> set (lru t) = {..<NBUF}
    \<and> bufs t = (bufs s)(i := (bufs s i)\<lparr>b_refcnt := b_refcnt (bufs s i) - 1\<rparr>)
    \<and> slocks t = (slocks s)(SBuf i := unlocked) \<and> p_pid (procs t p) = p_pid (procs s p) \<and> bc_frame t = bc_frame s"
proof -
  have run: "cur s = Some p" "held s = []" and r: "running p s" using bc_invD(1) [OF inv] by (simp_all add: running_def)
  have "i \<in> set (lru s)" using bc_invD(3,6) [OF inv] i by blast
  then have l: "distinct (lru s)" "set (lru s) = {..<NBUF}" "i \<notin> set (remove1 i (lru s))" "distinct (remove1 i (lru s))"
    "insert i (set (remove1 i (lru s))) = {..<NBUF}"
    using bc_invD(2,3) [OF inv] by auto
  show ?thesis
    using holdingsleep_run [OF r, of "SBuf i"] releasesleep_run [OF r, of "SBuf i"] bc_invD(7) [OF inv i] run l
    by (cases "b_refcnt (bufs s i) - 1 = 0")
      (simp_all add: brelse_def bnd_Ok thn_Ok acquire_def release_def upd_buf_def get_buf_def whenM_def running_def bc_frame_def)
qed

lemma brelse_law:
  assumes inv: "bc_inv D p L s" and i: "i \<in> L" and clean: "brefs D s (blk s i) = 1 \<longrightarrow> bview D s (blk s i) = disk s (blk s i)"
  shows "\<exists>t. brelse i s = Ok () t \<and> bc_inv D p (L - {i}) t \<and> (\<forall>j. blk t j = blk s j)
    \<and> brefs D t = (brefs D s)(blk s i := brefs D s (blk s i) - 1) \<and> bview D t = bview D s \<and> bc_frame t = bc_frame s
    \<and> card (bfrees t) = card (bfrees s) + of_bool (brefs D s (blk s i) = 1)"
proof -
  let ?b = "(bufs s i)\<lparr>b_refcnt := b_refcnt (bufs s i) - 1\<rparr>"
  obtain t where t: "brelse i s = Ok () t" "running p t" "distinct (lru t)" "set (lru t) = {..<NBUF}" "bufs t = (bufs s)(i := ?b)"
    "slocks t = (slocks s)(SBuf i := unlocked)" "p_pid (procs t p) = p_pid (procs s p)" "bc_frame t = bc_frame s"
    using brelse_run [OF inv i] by blast
  have d: "disk t = disk s" using t(8) by (simp add: bc_frame_def)
  have u: "unat (b_refcnt ?b) = brefs D s (blk s i) - 1"
    using unat_minus_one [OF bc_invD(10) [OF inv i]] locked_refs [OF inv i] by simp
  have pos: "0 < brefs D s (blk s i)" using bc_invD(10) [OF inv i] by (simp add: locked_refs [OF inv i, symmetric] unat_gt_0)
  have z: "b_refcnt ?b = 0 \<longleftrightarrow> brefs D s (blk s i) = 1" using u pos by (metis One_nat_def Suc_pred diff_self_eq_0 unat_0 unat_eq_0)
  have b: "holds D (blk s i) ?b" "holds D (blk s i) (bufs s i)" "b_valid ?b" using bc_invD(8,9) [OF inv i] by (simp_all add: holds_def)
  have hb: "holds D m (bufs t j) \<longleftrightarrow> holds D m (bufs s j)" for m j by (simp add: holds_def t(5))
  have inv': "bc_inv D p (L - {i}) t"
  proof (rule bc_invI)
    show "running p t" "distinct (lru t)" "set (lru t) = {..<NBUF}" by fact+
    show "j = k" if "j < NBUF" "k < NBUF" "holds D m (bufs t j)" "holds D m (bufs t k)" for j k m
      using that(3,4) bc_invD(4) [OF inv that(1,2)] unfolding hb by blast
    show "sl_locked (slocks t (SBuf j)) \<longleftrightarrow> j \<in> L - {i}" if "j < NBUF" for j using bc_invD(5) [OF inv that] by (simp add: t(6))
    show "b_data (bufs t j) = disk t (blk t j)"
      if "j < NBUF" "b_dev (bufs t j) = D" "b_valid (bufs t j)" "b_refcnt (bufs t j) = 0" for j
      using that z clean locked_view [OF inv i] bc_invD(11) [OF inv, of j] by (auto simp: t(5) d split: if_splits)
    fix j
    assume j: "j \<in> L - {i}"
    then show "j < NBUF" using bc_invD(6) [OF inv] by blast
    show "slocks t (SBuf j) = mine p t" "b_dev (bufs t j) = D" "b_valid (bufs t j)" "b_refcnt (bufs t j) \<noteq> 0"
      using j bc_invD(7-10) [OF inv, of j] by (auto simp: t(5-7))
  qed
  have v: "bview D t = bview D s" "brefs D t = (brefs D s)(blk s i := brefs D s (blk s i) - 1)"
    using buf_change [OF inv inv' bc_invD(6) [OF inv i] b(1,3) t(5) d] b(2) locked_view [OF inv i] u by auto
  have "i \<notin> bfrees s" using bc_invD(10) [OF inv i] by (simp add: bfrees_def)
  moreover have "bfrees t = (if brefs D s (blk s i) = 1 then insert i (bfrees s) else bfrees s)"
    using z bc_invD(6,10) [OF inv i] by (auto simp: bfrees_def t(5))
  ultimately have "card (bfrees t) = card (bfrees s) + of_bool (brefs D s (blk s i) = 1)" by simp
  then show ?thesis using t(1,5,8) inv' v by auto
qed

section \<open>The contract\<close>

lemma card_bfrees: "0 < card (bfrees s) \<longleftrightarrow> bfrees s \<noteq> {}"
  by (simp add: card_gt_0_iff)

interpretation bc: block_cache "bc_inv D p" blk "bview D" "brefs D" "\<lambda>s. card (bfrees s)" disk dwrites bioS.more
  "bread D" "\<lambda>i. get_buf i b_data" set_data bwrite brelse bunpin for D p
proof unfold_locales
  fix L and s :: "'a bioS_scheme" and n i f
  assume inv: "bc_inv D p L s"
  show "\<exists>i t. bread D n s = Ok i t \<and> i \<notin> L \<and> bc_inv D p (insert i L) t \<and> blk t i = n \<and> (\<forall>j\<in>L. blk t j = blk s j)
        \<and> bview D t = bview D s \<and> brefs D t = (brefs D s)(n := Suc (brefs D s n))
        \<and> card (bfrees t) + of_bool (brefs D s n = 0) = card (bfrees s)
        \<and> disk t = disk s \<and> dwrites t = dwrites s \<and> bioS.more t = bioS.more s"
    if "n \<notin> blk s ` L" "brefs D s n = 0 \<Longrightarrow> 0 < card (bfrees s)" "brefs D s n < 2 ^ 31"
    using bread_law [OF inv that(1) _ that(3)] that(2) unfolding card_bfrees bc_frame_def by fastforce
  show "bview D s n = disk s n" if "brefs D s n = 0" using inv that by (rule brefs_clean)
  assume i: "i \<in> L"
  show "get_buf i b_data s = Ok (bview D s (blk s i)) s" using locked_view [OF inv i] by (simp add: get_buf_def)
  show "\<exists>t. set_data i f s = Ok () t \<and> bc_inv D p L t \<and> (\<forall>j. blk t j = blk s j)
        \<and> bview D t = (bview D s)(blk s i := f (bview D s (blk s i))) \<and> brefs D t = brefs D s
        \<and> card (bfrees t) = card (bfrees s) \<and> disk t = disk s \<and> dwrites t = dwrites s \<and> bioS.more t = bioS.more s"
    using set_data_law [OF inv i, of f] unfolding bc_frame_def by fastforce
  show "\<exists>t. bwrite i s = Ok () t \<and> bc_inv D p L t \<and> (\<forall>j. blk t j = blk s j) \<and> bview D t = bview D s \<and> brefs D t = brefs D s
        \<and> card (bfrees t) = card (bfrees s) \<and> disk t = (disk s)(blk s i := bview D s (blk s i))
        \<and> dwrites t = dwrites s @ [(blk s i, bview D s (blk s i))] \<and> bioS.more t = bioS.more s"
    using bwrite_law [OF inv i] by fastforce
  show "\<exists>t. brelse i s = Ok () t \<and> bc_inv D p (L - {i}) t \<and> (\<forall>j. blk t j = blk s j) \<and> bview D t = bview D s
        \<and> brefs D t = (brefs D s)(blk s i := brefs D s (blk s i) - 1)
        \<and> card (bfrees t) = card (bfrees s) + of_bool (brefs D s (blk s i) = 1)
        \<and> disk t = disk s \<and> dwrites t = dwrites s \<and> bioS.more t = bioS.more s"
    if "brefs D s (blk s i) = 1 \<Longrightarrow> bview D s (blk s i) = disk s (blk s i)"
    using brelse_law [OF inv i] that unfolding bc_frame_def by fastforce
  show "\<exists>t. bunpin i s = Ok () t \<and> bc_inv D p L t \<and> (\<forall>j. blk t j = blk s j) \<and> bview D t = bview D s
        \<and> brefs D t = (brefs D s)(blk s i := brefs D s (blk s i) - 1)
        \<and> card (bfrees t) = card (bfrees s) \<and> disk t = disk s \<and> dwrites t = dwrites s \<and> bioS.more t = bioS.more s"
    if "2 \<le> brefs D s (blk s i)"
    using bunpin_law [OF inv i that] unfolding bc_frame_def by fastforce
qed

text \<open>
  C13. The cache is coherent: reading an unlocked block returns a locked buffer with the current content
  of the block, taking one of the buffers that nobody references if the block is not cached; the
  content of every block as seen through the cache, the disk and the writes to it stay as they are;
  writing the buffer puts that content on the disk as one more write; and releasing it
  afterwards restores the reference counts, the locks and the number of free buffers.
\<close>

theorem bread_bwrite_brelse:
  assumes "bc_inv D p L s" and "n \<notin> blk s ` L" and "bfrees s \<noteq> {}" and "brefs D s n < 2 ^ 31"
  shows "\<exists>i t u v. bread D n s = Ok i t \<and> i \<notin> L \<and> b_data (bufs t i) = bview D s n \<and> holdingsleep (SBuf i) t = Ok True t
    \<and> bwrite i t = Ok () u \<and> disk u = (disk s)(n := bview D s n) \<and> dwrites u = dwrites s @ [(n, bview D s n)]
    \<and> brelse i u = Ok () v \<and> bc_inv D p L v \<and> bview D v = bview D s \<and> brefs D v = brefs D s
    \<and> disk v = disk u \<and> dwrites v = dwrites u \<and> card (bfrees v) = card (bfrees s)"
proof -
  obtain i t where t: "bread D n s = Ok i t" "i \<notin> L" "bc_inv D p (insert i L) t" "blk t i = n" "bview D t = bview D s"
    "brefs D t = (brefs D s)(n := Suc (brefs D s n))" "card (bfrees t) + of_bool (brefs D s n = 0) = card (bfrees s)"
    "disk t = disk s" "dwrites t = dwrites s"
    using bc.read_law [OF assms(1,2) _ assms(4)] assms(3) unfolding card_bfrees by blast
  have i: "i \<in> insert i L" by simp
  have h: "holdingsleep (SBuf i) t = Ok True t"
    using holdingsleep_run [OF bc_invD(1) [OF t(3)]] bc_invD(7) [OF t(3) i] by simp
  obtain u where u: "bwrite i t = Ok () u" "bc_inv D p (insert i L) u" "blk u i = n" "bview D u = bview D s" "brefs D u = brefs D t"
    "card (bfrees u) = card (bfrees t)" "disk u = (disk s)(n := bview D s n)" "dwrites u = dwrites s @ [(n, bview D s n)]"
    using bc.wr_law [OF t(3) i] t(4-9) by auto
  obtain v where v: "brelse i u = Ok () v" "bc_inv D p (insert i L - {i}) v" "bview D v = bview D s"
    "brefs D v = (brefs D u)(n := brefs D u n - 1)" "card (bfrees v) = card (bfrees u) + of_bool (brefs D u n = 1)"
    "disk v = disk u" "dwrites v = dwrites u"
    using bc.rel_law [OF u(2) i] u(3-8) by auto
  have "brefs D v = brefs D s" "card (bfrees v) = card (bfrees s)" using v(4,5) u(5,6) t(6,7) by auto
  then show ?thesis
    using t(1,2,4,5) h u(1,7,8) v locked_view [OF t(3) i] by (intro exI [of _ i] exI [of _ t] exI [of _ u] exI [of _ v]) simp
qed

lemma wit_bc:
  "bc_inv 1 1 {} wit_fileS" "bfrees wit_fileS = {..<NBUF}" "brefs 1 wit_fileS n = 0" "bview 1 wit_fileS n = replicate BSIZE 0"
  "disk wit_fileS n = replicate BSIZE 0" "dwrites wit_fileS = []"
proof -
  have b: "bufs wit_fileS i = wit_buf" "lru wit_fileS = [0..<NBUF]" "slocks wit_fileS l = unlocked" for i l
    by (simp_all add: wit_fileS_def)
  have h: "\<not> holds 1 n wit_buf" for n by (simp add: holds_def wit_buf_def)
  have c: "cached 1 wit_fileS n = None" by (simp add: cached_None b h)
  show d: "disk wit_fileS n = replicate BSIZE 0" "dwrites wit_fileS = []" by (simp_all add: wit_fileS_def)
  show "bc_inv 1 1 {} wit_fileS"
    unfolding bc_inv_def b by (intro conjI allI impI ballI) (simp_all add: running_def holds_def wit_buf_def atLeast0LessThan)
  show "bfrees wit_fileS = {..<NBUF}" by (auto simp: bfrees_def b wit_buf_def)
  show "brefs 1 wit_fileS n = 0" "bview 1 wit_fileS n = replicate BSIZE 0" by (simp_all add: brefs_def bview_def c d)
qed

lemma NBUF_pos [simp]: "NBUF \<noteq> 0" "0 < NBUF"
  by (simp_all add: NBUF_def MAXOPBLOCKS_def)

theorem bread_bwrite_brelse_witness:
  "\<exists>i t u. bread 1 7 wit_fileS = Ok i t \<and> b_data (bufs t i) = replicate BSIZE 0 \<and> bwrite i t = Ok () u
    \<and> dwrites u = [(7, replicate BSIZE 0)]"
  using bread_bwrite_brelse [OF wit_bc(1), of 7] by (auto simp: wit_bc(2-6) lessThan_empty_iff)

text \<open>
  \<^verbatim>\<open>bread\<close> of a block that is not in the cache while every buffer is referenced panics with
  \<^verbatim>\<open>bget: no buffers\<close>: it takes no buffer away from those who hold one.
\<close>

theorem bread_no_buffers:
  assumes "bc_inv D p L s" and "cached D s n = None" and "bfrees s = {}"
  shows "bread D n s = Panic ''bget: no buffers''"
proof -
  have "cur s = Some p" "held s = []" using bc_invD(1) [OF assms(1)] by (simp_all add: running_def)
  moreover have "find (\<lambda>i. b_refcnt (bufs s i) = 0) (rev (lru s)) = None"
    using assms(3) bc_invD(3) [OF assms(1)] by (auto simp: find_None_iff bfrees_def)
  ultimately show ?thesis
    using find_cached [OF assms(1), of n] assms(2)
    by (simp add: bread_def bget_def thn_Ok bnd_def acquire_def panic_def)
qed

theorem bread_no_buffers_witness:
  "bread 1 7 (wit_fileS\<lparr>bufs := \<lambda>_. wit_buf\<lparr>b_refcnt := 1\<rparr>\<rparr>) = Panic ''bget: no buffers''"
proof -
  let ?s = "wit_fileS\<lparr>bufs := \<lambda>_. wit_buf\<lparr>b_refcnt := 1\<rparr>\<rparr>"
  have b: "lru ?s = [0..<NBUF]" "slocks ?s l = unlocked" for l by (simp_all add: wit_fileS_def)
  have h: "\<not> holds 1 n (wit_buf\<lparr>b_refcnt := 1\<rparr>)" for n by (simp add: holds_def wit_buf_def)
  have "bc_inv 1 1 {} ?s"
    unfolding bc_inv_def b by (intro conjI allI impI ballI) (simp_all add: running_def holds_def wit_buf_def atLeast0LessThan)
  moreover have "cached 1 ?s 7 = None" "bfrees ?s = {}" by (simp_all add: cached_None h bfrees_def)
  ultimately show ?thesis by (rule bread_no_buffers)
qed

end
