(* ===== verification/LogInv.thy ===== *)
theory LogInv
  imports LogSpec BioInv
begin

text \<open>
  Properties of the log: its routines, run on the contract of the buffer cache, carry out the specification of
  \<open>LogSpec\<close>; commits are atomic, recovery installs what was committed, and transactions are accounted for.
\<close>

section \<open>The routines\<close>

text \<open>
  \<open>ran D p ws R l s t\<close>: from \<open>s\<close>, with no buffer locked, a run that wrote \<open>ws\<close> has reached \<open>t\<close>, where the blocks have
  the references \<open>R\<close> and the in-memory log is \<open>l\<close>.
\<close>

definition ran :: "uint32 \<Rightarrow> nat \<Rightarrow> (uint32 \<times> bytes) list \<Rightarrow> (uint32 \<Rightarrow> nat) \<Rightarrow> logrec \<Rightarrow> 'x logS_scheme \<Rightarrow> 'x logS_scheme \<Rightarrow> bool" where
  "ran D p ws R l s t \<longleftrightarrow> bc_inv D p {} t \<and> bview D t = put_disk ws (bview D s) \<and> disk t = put_disk ws (disk s)
     \<and> dwrites t = dwrites s @ ws \<and> brefs D t = R \<and> lg t = l \<and> card (bfrees s) \<le> card (bfrees t)"

lemma lg_more: "bioS.more t = bioS.more s \<Longrightarrow> lg t = lg s" for s t :: "'x logS_scheme"
  by (cases s; cases t) simp

lemma ran_refl: "bc_inv D p {} s \<Longrightarrow> ran D p [] (brefs D s) (lg s) s s"
  by (simp add: ran_def)

lemma ran_trans: "ran D p ws R l s t \<Longrightarrow> ran D p ws' R' l' t u \<Longrightarrow> ran D p (ws @ ws') R' l' s u"
  by (simp add: ran_def)

lemma ran_copied: "bc.copied D p k a d s t \<Longrightarrow> ran D p [(a, d)] ((brefs D s)(a := brefs D s a - k)) (lg s) s t"
  using lg_more [of t s] by (simp add: ran_def bc.copied_def)

lemma lg_upd [simp]:
  "bc_inv D p L (s\<lparr>lg := l\<rparr>) = bc_inv D p L s" "bview D (s\<lparr>lg := l\<rparr>) = bview D s" "brefs D (s\<lparr>lg := l\<rparr>) = brefs D s"
  "bfrees (s\<lparr>lg := l\<rparr>) = bfrees s"
proof -
  have c: "cached D (s\<lparr>lg := l\<rparr>) = cached D s" by (simp add: cached_def fun_eq_iff)
  show "bc_inv D p L (s\<lparr>lg := l\<rparr>) = bc_inv D p L s" by (simp add: bc_inv_def running_def)
  show "bview D (s\<lparr>lg := l\<rparr>) = bview D s" "brefs D (s\<lparr>lg := l\<rparr>) = brefs D s" by (auto simp: bview_def brefs_def c fun_eq_iff split: option.splits)
  show "bfrees (s\<lparr>lg := l\<rparr>) = bfrees s" by (simp add: bfrees_def)
qed

lemma ran_upd: "ran D p ws R l s t \<Longrightarrow> ran D p ws R l' s (t\<lparr>lg := l'\<rparr>)"
  by (simp add: ran_def)

text \<open>The home blocks of the log in memory.\<close>

definition log_list :: "logrec \<Rightarrow> uint32 list" where
  "log_list l = take (nat (sint (lh_n l))) (lh_block l)"

text \<open>The number of blocks the log can hold: one less than its size on the disk, for the header, and no more than the
  array in memory has entries.\<close>

definition log_cap :: "logrec \<Rightarrow> nat" where
  "log_cap l = min LOGSIZE (nat (sint (l_size l - 1)))"

abbreviation in_area :: "logrec \<Rightarrow> uint32 \<Rightarrow> bool" where
  "in_area l \<equiv> in_log (l_start l) (log_cap l)"

text \<open>Well-formedness of the log in memory: the count is within the log, and the home blocks are outside
  the log area.\<close>

definition log_wf :: "logrec \<Rightarrow> bool" where
  "log_wf l \<longleftrightarrow> length (lh_block l) = LOGSIZE \<and> 0 \<le> sint (lh_n l) \<and> sint (lh_n l) \<le> int (log_cap l)
     \<and> (\<forall>b\<in>set (log_list l). \<not> in_area l b)"

lemma log_cap_le: "log_cap l \<le> LOGSIZE"
  by (simp add: log_cap_def)

lemma log_cap_upd [simp]:
  "log_cap (l\<lparr>l_outstanding := a\<rparr>) = log_cap l" "log_cap (l\<lparr>l_committing := c\<rparr>) = log_cap l"
  "log_cap (l\<lparr>lh_n := n\<rparr>) = log_cap l" "log_cap (l\<lparr>lh_block := bs\<rparr>) = log_cap l"
  by (simp_all add: log_cap_def)

lemma log_wfD:
  assumes "log_wf l"
  shows "length (log_list l) = nat (sint (lh_n l))" "length (log_list l) \<le> log_cap l" "length (lh_block l) = LOGSIZE"
    "of_nat (length (log_list l)) = lh_n l" "i < length (log_list l) \<Longrightarrow> lh_block l ! i = log_list l ! i"
    "i < length (log_list l) \<Longrightarrow> \<not> in_area l (log_list l ! i)"
    "length (log_list l) \<le> LOGSIZE"
proof -
  show n: "length (log_list l) = nat (sint (lh_n l))" using assms by (auto simp: log_wf_def log_list_def log_cap_def)
  then show "length (log_list l) \<le> log_cap l" "length (lh_block l) = LOGSIZE" "length (log_list l) \<le> LOGSIZE"
    using assms by (auto simp: log_wf_def log_cap_def)
  have "of_int (sint (lh_n l)) = lh_n l" by simp
  then show "of_nat (length (log_list l)) = lh_n l"
    unfolding n using assms by (simp add: log_wf_def of_nat_nat)
  show "i < length (log_list l) \<Longrightarrow> lh_block l ! i = log_list l ! i" by (simp add: log_list_def)
  show "i < length (log_list l) \<Longrightarrow> \<not> in_area l (log_list l ! i)" using assms by (auto simp: log_wf_def)
qed

lemma get_log_run [simp]: "get_log f s = Ok (f (lg s)) s"
  by (simp add: get_log_def)

lemma lh_get_run: "i < LOGSIZE \<Longrightarrow> lh_get i s = Ok (lh_block (lg s) ! i) s"
  by (simp add: lh_get_def)

lemma write_log_one_run:
  assumes inv: "bc_inv (l_dev l) p {} s" and l: "lg s = l" "log_wf l" and i: "i < length (log_list l)"
    and r: "brefs (l_dev l) s (log_blk (l_start l) i) < 2 ^ 31" "brefs (l_dev l) s (log_list l ! i) < 2 ^ 31" and f: "of_bool (brefs (l_dev l) s (log_blk (l_start l) i) = 0) + of_bool (brefs (l_dev l) s (log_list l ! i) = 0) \<le> card (bfrees s)"
  shows "\<exists>t. write_log_one i s = Ok () t
    \<and> ran (l_dev l) p [(log_blk (l_start l) i, bview (l_dev l) s (log_list l ! i))] (brefs (l_dev l) s) l s t"
proof -
  have iL: "i < LOGSIZE" "i < log_cap l" using i log_wfD(2,7) [OF l(2)] by simp_all
  have ne: "log_blk (l_start l) i \<noteq> log_list l ! i" using log_wfD(6) [OF l(2) i] in_logI(2) [OF iL(2), of "l_start l"] by auto
  obtain b t1 c t2 t3 t4 t5 t6 where t: "bread (l_dev l) (log_blk (l_start l) i) s = Ok b t1" "bioS.more t1 = bioS.more s"
    "bread (l_dev l) (log_list l ! i) t1 = Ok c t2" "bioS.more t2 = bioS.more s"
    "get_buf c b_data t2 = Ok (bview (l_dev l) s (log_list l ! i)) t2"
    "set_data b (\<lambda>_. bview (l_dev l) s (log_list l ! i)) t2 = Ok () t3" "bwrite b t3 = Ok () t4"
    "brelse c t4 = Ok () t5" "brelse b t5 = Ok () t6"
    and cp: "bc.copied (l_dev l) p 0 (log_blk (l_start l) i) (bview (l_dev l) s (log_list l ! i)) s t6"
    by (rule bc.copy_to [OF inv ne r f])
  have "lh_get i t1 = Ok (log_list l ! i) t1"
    using lh_get_run [OF iL(1), of t1] lg_more [OF t(2)] l log_wfD(5) [OF l(2) i] by simp
  then have "write_log_one i s = Ok () t6"
    using t l(1) by (simp add: write_log_one_def bnd_Ok thn_Ok log_blk_def)
  then show ?thesis using ran_copied [OF cp] l(1) by simp
qed

lemma install_one_run:
  assumes inv: "bc_inv (l_dev l) p {} s" and l: "lg s = l" "log_wf l" and i: "i < length (log_list l)"
    and r: "brefs (l_dev l) s (log_list l ! i) < 2 ^ 31" "brefs (l_dev l) s (log_blk (l_start l) i) < 2 ^ 31"
    and f: "of_bool (brefs (l_dev l) s (log_list l ! i) = 0) + of_bool (brefs (l_dev l) s (log_blk (l_start l) i) = 0) \<le> card (bfrees s)"
    and pin: "\<not> rec \<longrightarrow> 0 < brefs (l_dev l) s (log_list l ! i)"
  shows "\<exists>t. install_one rec i s = Ok () t
    \<and> ran (l_dev l) p [(log_list l ! i, bview (l_dev l) s (log_blk (l_start l) i))]
        ((brefs (l_dev l) s)(log_list l ! i := brefs (l_dev l) s (log_list l ! i) - of_bool (\<not> rec))) l s t"
proof -
  have iL: "i < LOGSIZE" "i < log_cap l" using i log_wfD(2,7) [OF l(2)] by simp_all
  have ne: "log_list l ! i \<noteq> log_blk (l_start l) i" using log_wfD(6) [OF l(2) i] in_logI(2) [OF iL(2), of "l_start l"] by auto
  obtain b t1 c t2 t3 t4 t5 t6 t7 where t: "bread (l_dev l) (log_blk (l_start l) i) s = Ok b t1" "bioS.more t1 = bioS.more s"
    "bread (l_dev l) (log_list l ! i) t1 = Ok c t2" "bioS.more t2 = bioS.more s"
    "get_buf b b_data t2 = Ok (bview (l_dev l) s (log_blk (l_start l) i)) t2"
    "set_data c (\<lambda>_. bview (l_dev l) s (log_blk (l_start l) i)) t2 = Ok () t3" "bwrite c t3 = Ok () t4"
    "whenM (\<not> rec) (bunpin c) t4 = Ok () t5" "brelse b t5 = Ok () t6" "brelse c t6 = Ok () t7"
    and cp: "bc.copied (l_dev l) p (of_bool (\<not> rec)) (log_list l ! i) (bview (l_dev l) s (log_blk (l_start l) i)) s t7"
    by (rule bc.copy_from [OF inv ne r f pin])
  have "lh_get i t1 = Ok (log_list l ! i) t1"
    using lh_get_run [OF iL(1), of t1] lg_more [OF t(2)] l log_wfD(5) [OF l(2) i] by simp
  then have "install_one rec i s = Ok () t7"
    using t l(1) by (simp add: install_one_def bnd_Ok thn_Ok log_blk_def)
  then show ?thesis using ran_copied [OF cp] l(1) by simp
qed

lemma put_words_snoc: "i < length bs \<Longrightarrow> put_words d b (take (Suc i) bs) = put32 (put_words d b (take i bs)) (b + 4 * i) (bs ! i)"
  by (simp add: take_Suc_conv_app_nth put_words_simps)

lemma write_head_run:
  assumes inv: "bc_inv (l_dev l) p {} s" and l: "lg s = l" "log_wf l"
    and r: "brefs (l_dev l) s (l_start l) < 2 ^ 31" and f: "0 < card (bfrees s)"
  shows "\<exists>t. write_head s = Ok () t
    \<and> ran (l_dev l) p [(l_start l, head_of (log_list l) (bview (l_dev l) s (l_start l)))] (brefs (l_dev l) s) l s t"
proof -
  let ?V = "bview (l_dev l) s (l_start l)" and ?n = "length (log_list l)"
  obtain b t where t: "bread (l_dev l) (l_start l) s = Ok b t" "bc.editing (l_dev l) p (l_start l) b ?V s t"
    by (rule bc.edit_start [OF inv r f])
  have lgt: "lg t = l" using lg_more [OF bc.edit_rest [OF t(2)]] l(1) by simp
  obtain u where u: "set_data b (\<lambda>d. put32 d 0 (lh_n l)) t = Ok () u"
    "bc.editing (l_dev l) p (l_start l) b (put32 ?V 0 (lh_n l)) s u"
    by (rule bc.edit_step [OF t(2)])
  let ?P = "\<lambda>i. bc.editing (l_dev l) p (l_start l) b (put_words (put32 ?V 0 (lh_n l)) 4 (take i (log_list l))) s"
  let ?f = "\<lambda>i. bnd (lh_get i) (\<lambda>v. set_data b (\<lambda>d. put32 d (4 + 4 * i) v))"
  have "\<exists>w. for_each [0..<?n] ?f u = Ok () w \<and> ?P ?n w"
  proof (rule for_each_upt)
    show "?P 0 u" using u(2) by (simp add: put_words_simps)
    fix i v
    assume i: "i < ?n" and P: "?P i v"
    have lgv: "lg v = l" using lg_more [OF bc.edit_rest [OF P]] l(1) by simp
    have g: "lh_get i v = Ok (log_list l ! i) v"
      using lh_get_run [of i v] i lgv log_wfD(5,7) [OF l(2)] by simp
    obtain w where w: "set_data b (\<lambda>d. put32 d (4 + 4 * i) (log_list l ! i)) v = Ok () w"
      "bc.editing (l_dev l) p (l_start l) b (put32 (put_words (put32 ?V 0 (lh_n l)) 4 (take i (log_list l))) (4 + 4 * i) (log_list l ! i)) s w"
      by (rule bc.edit_step [OF P])
    then show "\<exists>w. ?f i v = Ok () w \<and> ?P (Suc i) w" using g i by (simp add: bnd_Ok put_words_snoc)
  qed simp
  then obtain w where w: "for_each [0..<?n] ?f u = Ok () w" "bc.editing (l_dev l) p (l_start l) b (head_of (log_list l) ?V) s w"
    by (auto simp: head_of_def log_wfD(4) [OF l(2)])
  obtain x y where xy: "bwrite b w = Ok () x" "brelse b x = Ok () y"
    and cp: "bc.copied (l_dev l) p 0 (l_start l) (head_of (log_list l) ?V) s y"
    by (rule bc.edit_end [OF w(2)])
  have "write_head s = Ok () y"
    using t(1) u(1) w(1) xy l(1) lgt log_wfD(1) [OF l(2)] by (simp add: write_head_def bnd_Ok thn_Ok)
  then show ?thesis using ran_copied [OF cp] l(1) by simp
qed

lemma take_snoc: "i < length xs \<Longrightarrow> take (Suc i) xs = take i xs @ [xs ! i]"
  by (rule take_Suc_conv_app_nth)

lemma write_log_run:
  assumes inv: "bc_inv (l_dev l) p {} s" and l: "lg s = l" "log_wf l"
    and r: "\<forall>x. brefs (l_dev l) s x < 2 ^ 31" and f: "0 < card (bfrees s)"
    and pin: "\<forall>b\<in>set (log_list l). 0 < brefs (l_dev l) s b"
  shows "\<exists>t. write_log s = Ok () t
    \<and> ran (l_dev l) p (log_writes (l_start l) (log_list l) (bview (l_dev l) s)) (brefs (l_dev l) s) l s t"
proof -
  let ?bs = "log_list l" and ?V = "bview (l_dev l) s"
  let ?W = "log_writes (l_start l) ?bs ?V"
  have len: "length ?W = length ?bs" by (simp add: log_writes_def)
  let ?P = "\<lambda>i. ran (l_dev l) p (take i ?W) (brefs (l_dev l) s) l s"
  have "\<exists>t. for_each [0..<length ?bs] write_log_one s = Ok () t \<and> ?P (length ?bs) t"
  proof (rule for_each_upt)
    show "?P 0 s" using ran_refl [OF inv] l(1) by simp
    fix i t
    assume i: "i < length ?bs" and P: "?P i t"
    have t: "bc_inv (l_dev l) p {} t" "lg t = l" "brefs (l_dev l) t = brefs (l_dev l) s" "0 < card (bfrees t)"
      "bview (l_dev l) t = put_disk (take i ?W) ?V" using P f by (simp_all add: ran_def)
    have v: "bview (l_dev l) t (?bs ! i) = ?V (?bs ! i)"
      unfolding t(5) using log_wfD(6) [OF l(2) i] by (intro log_writes_other [OF log_wfD(2) [OF l(2)] log_cap_le _ set_take_subset]) simp
    have W: "take (Suc i) ?W = take i ?W @ [(log_blk (l_start l) i, ?V (?bs ! i))]"
      using i by (simp add: take_snoc len) (simp add: log_writes_def)
    have fr: "of_bool (brefs (l_dev l) t (log_blk (l_start l) i) = 0) + of_bool (brefs (l_dev l) t (?bs ! i) = 0) \<le> card (bfrees t)"
      using bspec [OF pin nth_mem [OF i]] t(4) by (auto simp: t(3) of_bool_def)
    obtain u where "write_log_one i t = Ok () u"
      "ran (l_dev l) p [(log_blk (l_start l) i, ?V (?bs ! i))] (brefs (l_dev l) s) l t u"
      using write_log_one_run [OF t(1,2) l(2) i _ _ fr] r unfolding v t(3) by blast
    then show "\<exists>u. write_log_one i t = Ok () u \<and> ?P (Suc i) u" using ran_trans [OF P] unfolding W by blast
  qed simp
  then show ?thesis using l(1) log_wfD(1) [OF l(2)] by (simp add: write_log_def bnd_Ok len)
qed

lemma install_trans_run:
  assumes inv: "bc_inv (l_dev l) p {} s" and l: "lg s = l" "log_wf l"
    and r: "\<forall>x. brefs (l_dev l) s x < 2 ^ 31" and f: "1 + of_bool rec \<le> card (bfrees s)"
    and pin: "\<not> rec \<Longrightarrow> distinct (log_list l)" "\<not> rec \<Longrightarrow> \<forall>b\<in>set (log_list l). 0 < brefs (l_dev l) s b"
  shows "\<exists>t. install_trans rec s = Ok () t
    \<and> ran (l_dev l) p (map (\<lambda>i. (log_list l ! i, bview (l_dev l) s (log_blk (l_start l) i))) [0..<length (log_list l)])
        (\<lambda>x. brefs (l_dev l) s x - of_bool (\<not> rec \<and> x \<in> set (log_list l))) l s t"
proof -
  let ?bs = "log_list l" and ?V = "bview (l_dev l) s"
  let ?W = "\<lambda>m. map (\<lambda>i. (?bs ! i, ?V (log_blk (l_start l) i))) [0..<m]"
  let ?R = "\<lambda>i x. brefs (l_dev l) s x - of_bool (\<not> rec \<and> x \<in> set (take i ?bs))"
  let ?P = "\<lambda>i. ran (l_dev l) p (?W i) (?R i) l s"
  have "\<exists>t. for_each [0..<length ?bs] (install_one rec) s = Ok () t \<and> ?P (length ?bs) t"
  proof (rule for_each_upt)
    show "?P 0 s" using ran_refl [OF inv] l(1) by simp
    fix i t
    assume i: "i < length ?bs" and P: "?P i t"
    have t: "bc_inv (l_dev l) p {} t" "lg t = l" "brefs (l_dev l) t = ?R i" "1 + of_bool rec \<le> card (bfrees t)"
      "bview (l_dev l) t = put_disk (?W i) ?V" using P f by (simp_all add: ran_def)
    have iL: "in_area l (log_blk (l_start l) i)" using i log_wfD(2) [OF l(2)] by simp
    have v: "bview (l_dev l) t (log_blk (l_start l) i) = ?V (log_blk (l_start l) i)"
      unfolding t(5) using log_wfD(6) [OF l(2)] iL i by (intro put_disk_other) force
    have r': "brefs (l_dev l) t x < 2 ^ 31" for x using r unfolding t(3) by (meson diff_le_self le_less_trans)
    have ri: "brefs (l_dev l) t (?bs ! i) = brefs (l_dev l) s (?bs ! i)"
      using pin(1) i by (auto simp: t(3) distinct_conv_nth in_set_conv_nth)
    have R: "(?R i)(?bs ! i := brefs (l_dev l) s (?bs ! i) - of_bool (\<not> rec)) = ?R (Suc i)"
      using ri i by (auto simp: t(3) fun_eq_iff take_snoc)
    have p: "\<not> rec \<longrightarrow> 0 < brefs (l_dev l) t (?bs ! i)" using pin(2) i unfolding ri by simp
    have fr: "of_bool (brefs (l_dev l) t (?bs ! i) = 0) + of_bool (brefs (l_dev l) t (log_blk (l_start l) i) = 0) \<le> card (bfrees t)"
      using p t(4) by (cases rec) (auto simp: of_bool_def)
    obtain u where u: "install_one rec i t = Ok () u"
      "ran (l_dev l) p [(?bs ! i, ?V (log_blk (l_start l) i))] (?R (Suc i)) l t u"
      using install_one_run [OF t(1,2) l(2) i r' r' fr p] unfolding v ri unfolding t(3) R by auto
    have W: "?W (Suc i) = ?W i @ [(?bs ! i, ?V (log_blk (l_start l) i))]" by simp
    have "?P (Suc i) u" unfolding W by (rule ran_trans [OF P u(2)])
    then show "\<exists>u. install_one rec i t = Ok () u \<and> ?P (Suc i) u" using u(1) by blast
  qed simp
  then show ?thesis using l(1) log_wfD(1) [OF l(2)] by (simp add: install_trans_def bnd_Ok)
qed

text \<open>A log that is ready to be committed.\<close>

definition log_ready :: "nat \<Rightarrow> 'x logS_scheme \<Rightarrow> bool" where
  "log_ready p s \<longleftrightarrow> (let l = lg s; D = l_dev l in
     bc_inv D p {} s \<and> log_wf l \<and> distinct (log_list l) \<and> 0 < card (bfrees s)
     \<and> (\<forall>x. brefs D s x < 2 ^ 31) \<and> (\<forall>b\<in>set (log_list l). 0 < brefs D s b) \<and> brefs D s (l_start l) = 0
     \<and> get32 (disk s (l_start l)) 0 = 0 \<and> length (disk s (l_start l)) = BSIZE)"

lemma log_readyD:
  assumes "log_ready p s"
  shows "bc_inv (l_dev (lg s)) p {} s" "log_wf (lg s)" "distinct (log_list (lg s))" "0 < card (bfrees s)"
    "\<forall>x. brefs (l_dev (lg s)) s x < 2 ^ 31" "\<forall>b\<in>set (log_list (lg s)). 0 < brefs (l_dev (lg s)) s b"
    "bview (l_dev (lg s)) s (l_start (lg s)) = disk s (l_start (lg s))"
    "get32 (disk s (l_start (lg s))) 0 = 0" "length (disk s (l_start (lg s))) = BSIZE"
  using assms brefs_clean [of "l_dev (lg s)" p "{}" s "l_start (lg s)"] unfolding log_ready_def Let_def by blast+

lemma log_list_reset [simp]: "log_list (l\<lparr>lh_n := 0\<rparr>) = []"
  by (simp add: log_list_def)

lemma log_wf_reset: "log_wf l \<Longrightarrow> log_wf (l\<lparr>lh_n := 0\<rparr>)"
  by (simp add: log_wf_def)

lemma commit_run:
  assumes "log_ready p s" "0 < sint (lh_n (lg s))"
  shows "\<exists>t. commit s = Ok () t
    \<and> ran (l_dev (lg s)) p (commit_writes (l_start (lg s)) (log_list (lg s)) (bview (l_dev (lg s)) s))
        (\<lambda>x. brefs (l_dev (lg s)) s x - of_bool (x \<in> set (log_list (lg s)))) ((lg s)\<lparr>lh_n := 0\<rparr>) s t"
proof -
  define l where "l = lg s"
  note s = log_readyD [OF assms(1), folded l_def]
  let ?bs = "log_list l" and ?st = "l_start l" and ?D = "l_dev l" and ?V = "bview (l_dev l) s"
  let ?h = "head_of ?bs (?V ?st)" and ?W = "log_writes ?st ?bs ?V"
  have out: "\<not> in_area l (?bs ! i)" if "i < length ?bs" for i using log_wfD(6) [OF s(2)] that by blast
  obtain t1 where 1: "write_log s = Ok () t1" "ran ?D p ?W (brefs ?D s) l s t1"
    using write_log_run [OF s(1) l_def [symmetric] s(2,5,4,6)] by blast
  have t1: "bc_inv ?D p {} t1" "lg t1 = l" "brefs ?D t1 = brefs ?D s" "0 < card (bfrees t1)" "bview ?D t1 = put_disk ?W ?V"
    using 1(2) s(4) by (simp_all add: ran_def)
  have v1: "bview ?D t1 ?st = ?V ?st" unfolding t1(5) by (intro log_writes_other [OF log_wfD(2) [OF s(2)] log_cap_le]) auto
  obtain t2 where 2: "write_head t1 = Ok () t2" "ran ?D p [(?st, ?h)] (brefs ?D s) l t1 t2"
    using write_head_run [OF t1(1,2) s(2) _ t1(4)] t1(3) s(5) unfolding v1 by auto
  have t2: "bc_inv ?D p {} t2" "lg t2 = l" "brefs ?D t2 = brefs ?D s" "0 < card (bfrees t2)"
    "bview ?D t2 = (put_disk ?W ?V)(?st := ?h)" using 2(2) t1 by (simp_all add: ran_def)
  have v2: "bview ?D t2 (log_blk ?st i) = ?V (?bs ! i)" if "i < length ?bs" for i
    using that log_writes_at [OF log_wfD(7) [OF s(2)] that] log_blk_ne [of i ?st] log_wfD(7) [OF s(2)] by (simp add: t2(5))
  have H: "map (\<lambda>i. (?bs ! i, bview ?D t2 (log_blk ?st i))) [0..<length ?bs] = home_writes ?bs ?V"
    unfolding home_writes_def using v2 by (intro nth_equalityI) simp_all
  let ?R = "\<lambda>x. brefs ?D s x - of_bool (x \<in> set ?bs)"
  obtain t3 where 3: "install_trans False t2 = Ok () t3" "ran ?D p (home_writes ?bs ?V) ?R l t2 t3"
    using install_trans_run [OF t2(1,2) s(2), of False] t2(3,4) s(3,5,6) unfolding H by auto
  let ?t3 = "t3\<lparr>lg := l\<lparr>lh_n := 0\<rparr>\<rparr>"
  have r3: "ran ?D p (home_writes ?bs ?V) ?R (l\<lparr>lh_n := 0\<rparr>) t2 ?t3" by (rule ran_upd [OF 3(2)])
  have st: "?st \<notin> set ?bs" using out by (metis in_set_conv_nth in_logI(1))
  have t3: "bc_inv ?D p {} ?t3" "brefs ?D ?t3 = ?R" "0 < card (bfrees ?t3)" "bview ?D ?t3 ?st = ?h"
    using r3 t2(4,5) home_writes_other [OF subset_refl st, of ?V "bview ?D t2"] by (simp_all add: ran_def)
  obtain t4 where 4: "write_head ?t3 = Ok () t4" "ran ?D p [(?st, put32 ?h 0 0)] ?R (l\<lparr>lh_n := 0\<rparr>) ?t3 t4"
    using write_head_run [of "l\<lparr>lh_n := 0\<rparr>" p ?t3] log_wf_reset [OF s(2)] t3 s(5)
    by (auto simp: head_of_def put_words_simps intro: le_less_trans diff_le_self)
  have "ran ?D p (commit_writes ?st ?bs ?V) ?R (l\<lparr>lh_n := 0\<rparr>) s t4"
    using ran_trans [OF ran_trans [OF ran_trans [OF 1(2) 2(2)] r3] 4(2)] by (simp add: commit_writes_def)
  moreover have "lg t3 = l" using 3(2) by (simp add: ran_def)
  then have "commit s = Ok () t4"
    using 1(1) 2(1) 3(1) 4(1) assms(2) by (simp add: commit_def bnd_Ok thn_Ok upd_log_def whenM_def)
  ultimately show ?thesis unfolding l_def by blast
qed

section \<open>Crash safety\<close>

lemma commit_writes_home:
  assumes n: "length bs \<le> m" "m \<le> LOGSIZE" and x: "\<not> in_log st m x"
  shows "put_disk (commit_writes st bs V) f x = (if x \<in> set bs then V x else f x)"
proof -
  let ?e = "(put_disk (log_writes st bs V) f)(st := head_of bs (V st))"
  have xst: "x \<noteq> st" using x by auto
  have "put_disk (commit_writes st bs V) f x = put_disk (home_writes bs V) ?e x" using xst by (simp add: commit_writes_def)
  also have "\<dots> = (if x \<in> set bs then V x else ?e x)" by (rule home_writes_at) (auto simp: home_writes_def image_image)
  also have "?e x = f x" using log_writes_other [OF n _ subset_refl, of x st V f] x xst by simp
  finally show ?thesis .
qed

text \<open>A commit with nothing logged writes nothing.\<close>

definition commit_trace :: "logrec \<Rightarrow> (uint32 \<Rightarrow> bytes) \<Rightarrow> (uint32 \<times> bytes) list" where
  "commit_trace l V = (if log_list l = [] then [] else commit_writes (l_start l) (log_list l) V)"

lemma commit_effect:
  assumes "log_ready p s"
  shows "\<exists>t. commit s = Ok () t \<and> ran (l_dev (lg s)) p (commit_trace (lg s) (bview (l_dev (lg s)) s))
    (\<lambda>x. brefs (l_dev (lg s)) s x - of_bool (x \<in> set (log_list (lg s)))) ((lg s)\<lparr>lh_n := 0\<rparr>) s t"
proof (cases "0 < sint (lh_n (lg s))")
  case True
  then have "log_list (lg s) \<noteq> []" using log_wfD(1) [OF log_readyD(2) [OF assms]] by auto
  then show ?thesis using commit_run [OF assms True] by (simp add: commit_trace_def)
next
  case False
  have "sint (lh_n (lg s)) = 0" using False log_readyD(2) [OF assms] by (simp add: log_wf_def)
  moreover have "of_int (sint (lh_n (lg s))) = lh_n (lg s)" by simp
  ultimately have z: "lh_n (lg s) = 0" "log_list (lg s) = []" by (auto simp: log_list_def simp del: of_int_sint)
  then have l0: "(lg s)\<lparr>lh_n := 0\<rparr> = lg s" by simp
  show ?thesis
    using False z ran_refl [OF log_readyD(1) [OF assms]] by (simp add: commit_def whenM_def bnd_Ok commit_trace_def l0)
qed

lemma commit_trace_disk:
  assumes "log_ready p s" "f = disk s"
  shows "\<not> in_area (lg s) x \<Longrightarrow> put_disk (commit_trace (lg s) (bview (l_dev (lg s)) s)) f x
      = (if x \<in> set (log_list (lg s)) then bview (l_dev (lg s)) s x else f x)"
    and "get32 (put_disk (commit_trace (lg s) (bview (l_dev (lg s)) s)) f (l_start (lg s))) 0 = 0"
proof -
  note n = log_wfD(2,7) [OF log_readyD(2) [OF assms(1)]]
  show "\<not> in_area (lg s) x \<Longrightarrow> put_disk (commit_trace (lg s) (bview (l_dev (lg s)) s)) f x
      = (if x \<in> set (log_list (lg s)) then bview (l_dev (lg s)) s x else f x)"
    using commit_writes_home [OF n(1) log_cap_le] by (simp add: commit_trace_def)
  show "get32 (put_disk (commit_trace (lg s) (bview (l_dev (lg s)) s)) f (l_start (lg s))) 0 = 0"
    using head_roundtrip(2) [OF n(2), of "bview (l_dev (lg s)) s (l_start (lg s))"] log_readyD(7-9) [OF assms(1)]
    by (simp add: commit_trace_def commit_writes_def get32_put32 BSIZE_def assms(2))
qed

text \<open>
  C3. A commit is atomic with respect to crashes. From a log that is ready to be committed, \<^verbatim>\<open>commit\<close>
  returns after some writes \<open>ws\<close>. If the machine stops after any \<open>k\<close> of them, recovery from the disk as it is
  then gives every home block outside the log area its old content, when \<open>k\<close> is at most the number of logged blocks,
  and otherwise the new content to all the logged blocks and the old one to the others. After the commit the
  home blocks hold the new content, the log on the disk is empty, and every logged block is unpinned.
\<close>

theorem commit_atomic:
  assumes "log_ready p s"
  shows "\<exists>t ws. commit s = Ok () t \<and> dwrites t = dwrites s @ ws \<and> disk t = put_disk ws (disk s)
    \<and> (\<forall>k x. \<not> in_area (lg s) x \<longrightarrow>
         recover_disk (l_start (lg s)) (put_disk (take k ws) (disk s)) x
         = (if length (log_list (lg s)) < k \<and> x \<in> set (log_list (lg s)) then bview (l_dev (lg s)) s x else disk s x))
    \<and> (\<forall>x. \<not> in_area (lg s) x \<longrightarrow>
         disk t x = (if x \<in> set (log_list (lg s)) then bview (l_dev (lg s)) s x else disk s x))
    \<and> get32 (disk t (l_start (lg s))) 0 = 0 \<and> lh_n (lg t) = 0 \<and> bc_inv (l_dev (lg s)) p {} t
    \<and> brefs (l_dev (lg s)) t = (\<lambda>x. brefs (l_dev (lg s)) s x - of_bool (x \<in> set (log_list (lg s))))"
proof -
  let ?l = "lg s"
  let ?st = "l_start ?l" and ?bs = "log_list ?l" and ?V = "bview (l_dev ?l) s"
  let ?ws = "commit_trace ?l ?V"
  obtain t where t: "commit s = Ok () t"
    "ran (l_dev ?l) p ?ws (\<lambda>x. brefs (l_dev ?l) s x - of_bool (x \<in> set ?bs)) (?l\<lparr>lh_n := 0\<rparr>) s t"
    using commit_effect [OF assms] by blast
  note n = log_wfD(2) [OF log_readyD(2) [OF assms]]
  have out: "\<forall>b\<in>set ?bs. \<not> in_area ?l b" using log_readyD(2) [OF assms] by (simp add: log_wf_def)
  have ne: "\<not> in_area ?l x \<Longrightarrow> x \<noteq> ?st" for x by auto
  note rec = recover_prefix [where V = ?V and f = "disk s" and bs = ?bs and st = ?st, OF n log_cap_le out log_readyD(8,9,7) [OF assms]]
  have "recover_disk ?st (put_disk (take k ?ws) (disk s)) x = (if length ?bs < k \<and> x \<in> set ?bs then ?V x else disk s x)"
    if "\<not> in_area ?l x" for k x
    using rec [OF that] ne [OF that] log_readyD(8) [OF assms] by (simp add: commit_trace_def recover_disk_def head_list_0)
  then show ?thesis
    using t commit_trace_disk [OF assms refl] by (intro exI [of _ t] exI [of _ ?ws]) (simp add: ran_def)
qed

section \<open>Recovery\<close>

lemma lh_set_run: "i < LOGSIZE \<Longrightarrow> lh_set i v s = Ok () (s\<lparr>lg := (lg s)\<lparr>lh_block := (lh_block (lg s))[i := v]\<rparr>\<rparr>)"
  by (simp add: lh_set_def upd_log_def)

lemma lh_fill:
  assumes "n \<le> LOGSIZE" "length (lh_block (lg s)) = LOGSIZE"
  shows "for_each [0..<n] (\<lambda>i. lh_set i (g i)) s
    = Ok () (s\<lparr>lg := (lg s)\<lparr>lh_block := map g [0..<n] @ drop n (lh_block (lg s))\<rparr>\<rparr>)"
proof -
  let ?t = "\<lambda>i. s\<lparr>lg := (lg s)\<lparr>lh_block := map g [0..<i] @ drop i (lh_block (lg s))\<rparr>\<rparr>"
  have "\<exists>t. for_each [0..<n] (\<lambda>i. lh_set i (g i)) s = Ok () t \<and> t = ?t n"
  proof (rule for_each_upt)
    fix i t
    assume i: "i < n" and t: "t = ?t i"
    have "(map g [0..<i] @ drop i (lh_block (lg s)))[i := g i] = map g [0..<Suc i] @ drop (Suc i) (lh_block (lg s))"
      using i assms by (subst Cons_nth_drop_Suc [symmetric]) (simp_all add: list_update_append)
    then show "\<exists>u. lh_set i (g i) t = Ok () u \<and> u = ?t (Suc i)" using i assms(1) unfolding t by (simp add: lh_set_run)
  qed simp_all
  then show ?thesis by blast
qed

lemma read_head_run:
  assumes inv: "bc_inv (l_dev l) p {} s" and l: "lg s = l" "length (lh_block l) = LOGSIZE"
    and r: "brefs (l_dev l) s (l_start l) = 0" and f: "0 < card (bfrees s)"
    and n: "sint (get32 (disk s (l_start l)) 0) \<le> int LOGSIZE"
  shows "\<exists>t l'. read_head s = Ok () t \<and> ran (l_dev l) p [] (brefs (l_dev l) s) l' s t \<and> length (lh_block l') = LOGSIZE
    \<and> l_dev l' = l_dev l \<and> l_start l' = l_start l \<and> l_size l' = l_size l \<and> lh_n l' = get32 (disk s (l_start l)) 0 \<and> log_list l' = head_list (disk s (l_start l))"
proof -
  let ?D = "l_dev l" and ?st = "l_start l"
  let ?d = "disk s ?st"
  let ?n = "nat (sint (get32 ?d 0))"
  have V: "bview ?D s ?st = ?d" using brefs_clean [OF inv r] .
  obtain b t where t: "bread ?D ?st s = Ok b t" "bc.editing ?D p ?st b ?d s t"
    using bc.edit_start [OF inv _ f, of ?st] r unfolding V by auto
  have lgt: "lg t = l" using lg_more [OF bc.edit_rest [OF t(2)]] l(1) by simp
  have g: "get_buf b b_data t = Ok ?d t" by (rule bc.edit_get [OF t(2)])
  let ?l = "l\<lparr>lh_n := get32 ?d 0, lh_block := map (\<lambda>i. get32 ?d (4 + 4 * i)) [0..<?n] @ drop ?n (lh_block l)\<rparr>"
  let ?t = "t\<lparr>lg := ?l\<rparr>"
  have nL: "?n \<le> LOGSIZE" using n by simp
  have fill: "for_each [0..<?n] (\<lambda>i. lh_set i (get32 ?d (4 + 4 * i))) (t\<lparr>lg := l\<lparr>lh_n := get32 ?d 0\<rparr>\<rparr>) = Ok () ?t"
    using lh_fill [OF nL, of "t\<lparr>lg := l\<lparr>lh_n := get32 ?d 0\<rparr>\<rparr>" "\<lambda>i. get32 ?d (4 + 4 * i)"] l(2) by simp
  have e: "bc_inv ?D p {b} ?t" "blk ?t b = ?st" "bview ?D ?t = bview ?D s" "brefs ?D ?t = (brefs ?D s)(?st := 1)"
    "card (bfrees ?t) + 1 = card (bfrees s)" "disk ?t = disk s" "dwrites ?t = dwrites s"
    using t(2) r V by (simp_all add: bc.editing_def fun_upd_idem_iff)
  obtain u where u: "brelse b ?t = Ok () u" "bc_inv ?D p {} u" "bview ?D u = bview ?D s" "brefs ?D u = (brefs ?D s)(?st := 0)"
    "card (bfrees u) = card (bfrees s)" "disk u = disk s" "dwrites u = dwrites s" "bioS.more u = bioS.more ?t"
    using bc.rel_law [OF e(1), of b] e V by auto
  have "lg u = ?l" using lg_more [OF u(8)] by simp
  then have "ran ?D p [] (brefs ?D s) ?l s u" using u r by (simp add: ran_def fun_upd_idem_iff)
  moreover have "read_head s = Ok () u"
    using t(1) g fill u(1) l(1) lgt by (simp add: read_head_def bnd_Ok thn_Ok upd_log_def)
  moreover have "log_list ?l = head_list ?d" by (simp add: log_list_def head_list_def)
  ultimately show ?thesis using l(2) nL by (intro exI [of _ u] exI [of _ ?l]) simp
qed

text \<open>
  C6. Recovery at start-up does what the specification \<open>recover_disk\<close> says: with an unused cache and a sane header on
  the disk, \<^verbatim>\<open>recover_from_log\<close> returns with the logged blocks copied to their homes and then the log
  emptied, on the disk and in memory, and no buffer referenced.
\<close>

theorem recover_from_log_installs:
  assumes "bc_inv (l_dev (lg s)) p {} s" and "length (lh_block (lg s)) = LOGSIZE" and "2 \<le> card (bfrees s)"
    and "\<forall>x. brefs (l_dev (lg s)) s x = 0"
    and "0 \<le> sint (get32 (disk s (l_start (lg s))) 0)" "sint (get32 (disk s (l_start (lg s))) 0) \<le> int (log_cap (lg s))"
    and "\<forall>b\<in>set (head_list (disk s (l_start (lg s)))). \<not> in_area (lg s) b"
  shows "\<exists>t. recover_from_log s = Ok () t \<and> disk t = recover_disk (l_start (lg s)) (disk s) \<and> lh_n (lg t) = 0
    \<and> bc_inv (l_dev (lg s)) p {} t \<and> (\<forall>x. brefs (l_dev (lg s)) t x = 0)"
proof -
  let ?D = "l_dev (lg s)" and ?st = "l_start (lg s)"
  let ?bs = "head_list (disk s ?st)"
  have z: "brefs ?D s = (\<lambda>_. 0)" using assms(4) by (simp add: fun_eq_iff)
  have V: "bview ?D s = disk s" using brefs_clean [OF assms(1)] assms(4) by (simp add: fun_eq_iff)
  obtain t1 l where 1: "read_head s = Ok () t1" "ran ?D p [] (brefs ?D s) l s t1" "length (lh_block l) = LOGSIZE"
    "l_dev l = ?D" "l_start l = ?st" "lh_n l = get32 (disk s ?st) 0" "log_list l = ?bs" "l_size l = l_size (lg s)"
    using read_head_run [OF assms(1) refl assms(2)] assms(3-6) log_cap_le [of "lg s"] by auto
  have wf: "log_wf l" using 1(3,5-8) assms(5-7) by (simp add: log_wf_def log_cap_def)
  have t1: "bc_inv ?D p {} t1" "lg t1 = l" "brefs ?D t1 = brefs ?D s" "bview ?D t1 = disk s" "2 \<le> card (bfrees t1)"
    using 1(2) assms(3) V by (simp_all add: ran_def)
  let ?W = "map (\<lambda>i. (?bs ! i, disk s (log_blk ?st i))) [0..<length ?bs]"
  obtain t2 where 2: "install_trans True t1 = Ok () t2" "ran ?D p ?W (brefs ?D s) l t1 t2"
    using install_trans_run [of l p t1 True] t1 wf z 1(4,5,7) by auto
  let ?t2 = "t2\<lparr>lg := l\<lparr>lh_n := 0\<rparr>\<rparr>"
  have r2: "ran ?D p ?W (brefs ?D s) (l\<lparr>lh_n := 0\<rparr>) t1 ?t2" by (rule ran_upd [OF 2(2)])
  have st: "?st \<notin> set ?bs" using assms(7) by auto
  have "put_disk ?W (disk s) ?st = disk s ?st" using st by (intro put_disk_other) (auto simp: in_set_conv_nth)
  then have t2: "bc_inv ?D p {} ?t2" "brefs ?D ?t2 = brefs ?D s" "0 < card (bfrees ?t2)" "bview ?D ?t2 ?st = disk s ?st" "lg t2 = l"
    using r2 2(2) t1(4,5) by (simp_all add: ran_def)
  obtain t3 where 3: "write_head ?t2 = Ok () t3" "ran ?D p [(?st, put32 (disk s ?st) 0 0)] (brefs ?D s) (l\<lparr>lh_n := 0\<rparr>) ?t2 t3"
    using write_head_run [of "l\<lparr>lh_n := 0\<rparr>" p ?t2] log_wf_reset [OF wf] t2 assms(4) 1(4,5) by (auto simp: head_of_def put_words_simps)
  have "recover_from_log s = Ok () t3"
    using 1(1) 2(1) 3(1) t2(5) by (simp add: recover_from_log_def thn_Ok upd_log_def)
  moreover have "ran ?D p (?W @ [(?st, put32 (disk s ?st) 0 0)]) (brefs ?D s) (l\<lparr>lh_n := 0\<rparr>) s t3"
    using ran_trans [OF ran_trans [OF 1(2) r2] 3(2)] by simp
  ultimately show ?thesis using assms(4) by (auto simp: ran_def recover_disk_def install_disk_def)
qed

section \<open>Example: one logged block\<close>

definition wit_logged :: buf where
  "wit_logged = \<lparr>b_valid = True, b_dev = 1, b_blockno = 100, b_refcnt = 1, b_data = replicate BSIZE 7\<rparr>"

definition wit_log :: fileS where
  "wit_log = wit_fileS\<lparr>bufs := (\<lambda>_. wit_buf)(0 := wit_logged),
     lg := (lg wit_fileS)\<lparr>lh_n := 1, lh_block := 100 # replicate 29 0\<rparr>\<rparr>"

lemma wit_log_simps:
  "bufs wit_log = (\<lambda>_. wit_buf)(0 := wit_logged)" "disk wit_log x = replicate BSIZE 0" "lru wit_log = [0..<NBUF]"
  "slocks wit_log l = unlocked" "running 1 wit_log" "l_start (lg wit_log) = 2" "l_dev (lg wit_log) = 1" "l_size (lg wit_log) = 30"
  "log_list (lg wit_log) = [100]" "lh_n (lg wit_log) = 1" "length (lh_block (lg wit_log)) = LOGSIZE"
  by (simp_all add: wit_log_def wit_fileS_def running_def log_list_def params)

lemma wit_in_log: "m \<le> LOGSIZE \<Longrightarrow> \<not> in_log 2 m 100" "m \<le> LOGSIZE \<Longrightarrow> \<not> in_log 2 m 46"
proof -
  have ne: "log_blk 2 i \<noteq> of_nat n" if "i < LOGSIZE" "40 < n" "n < 2 ^ 32" for i n
  proof
    assume "log_blk 2 i = of_nat n"
    then have "(of_nat (i + 3) :: uint32) = of_nat n" by (simp add: log_blk_def add.commute)
    then have "i + 3 = n" using that by (simp add: word_of_nat_eq_iff take_bit_nat_eq_self params del: of_nat_add)
    then show False using that by (simp add: params)
  qed
  show "m \<le> LOGSIZE \<Longrightarrow> \<not> in_log 2 m 100" "m \<le> LOGSIZE \<Longrightarrow> \<not> in_log 2 m 46" using ne [of _ 100] ne [of _ 46] by (auto simp: in_log_def)
qed

lemma get32_zero: "a + 3 < n \<Longrightarrow> get32 (replicate n 0) a = 0"
  by (simp add: get32_def)

lemma wit_log_cache:
  "bc_inv 1 1 {} wit_log" "bfrees wit_log = {1..<NBUF}" "brefs 1 wit_log x = of_bool (x = 100)"
  "bview 1 wit_log x = (if x = 100 then replicate BSIZE 7 else replicate BSIZE 0)"
proof -
  have h: "holds 1 n (bufs wit_log i) \<longleftrightarrow> i = 0 \<and> n = 100" for i n by (auto simp: holds_def wit_log_simps wit_buf_def wit_logged_def)
  have c: "cached 1 wit_log x = (if x = 100 then Some 0 else None)"
    by (auto simp: cached_None h) (auto simp: cached_def h find_Some_iff intro!: exI [of _ 0])
  show "bc_inv 1 1 {} wit_log"
    by (rule bc_invI) (auto simp: holds_def wit_log_simps [simplified] wit_buf_def wit_logged_def split: if_splits)
  show "bfrees wit_log = {1..<NBUF}" by (auto simp: bfrees_def wit_log_simps wit_buf_def wit_logged_def split: if_splits)
  show "brefs 1 wit_log x = of_bool (x = 100)" "bview 1 wit_log x = (if x = 100 then replicate BSIZE 7 else replicate BSIZE 0)"
    by (simp_all add: brefs_def bview_def c wit_log_simps wit_logged_def)
qed

lemma wit_log_ready: "log_ready 1 wit_log"
  unfolding log_ready_def Let_def wit_log_simps
  using wit_log_cache wit_in_log [OF log_cap_le [of "lg wit_log"]]
  by (simp add: log_wf_def wit_log_simps wit_log_cache(2) get32_zero BSIZE_def params) (simp add: log_cap_def wit_log_simps params)

theorem commit_atomic_witness:
  "\<exists>t ws. commit wit_log = Ok () t \<and> dwrites t = dwrites wit_log @ ws
    \<and> recover_disk 2 (put_disk (take 1 ws) (disk wit_log)) 100 = replicate BSIZE 0
    \<and> recover_disk 2 (put_disk (take 2 ws) (disk wit_log)) 100 = replicate BSIZE 7
    \<and> recover_disk 2 (put_disk (take 2 ws) (disk wit_log)) 46 = replicate BSIZE 0 \<and> disk t 100 = replicate BSIZE 7"
  using commit_atomic [OF wit_log_ready] wit_in_log [OF log_cap_le] unfolding wit_log_simps wit_log_cache(4) by fastforce

theorem recover_from_log_installs_witness:
  "\<exists>t. recover_from_log (wit_fileS\<lparr>disk := (disk wit_fileS)(2 := head_of [100] (replicate BSIZE 0), 3 := replicate BSIZE 7)\<rparr>) = Ok () t
    \<and> disk t 100 = replicate BSIZE 7"
proof -
  let ?h = "head_of [100] (replicate BSIZE 0)"
  let ?d = "(\<lambda>_. replicate BSIZE 0)(2 := ?h, 3 := replicate BSIZE 7)"
  let ?s = "wit_fileS\<lparr>disk := (disk wit_fileS)(2 := ?h, 3 := replicate BSIZE 7)\<rparr>"
  have s: "disk ?s = ?d" "l_start (lg ?s) = 2" "l_dev (lg ?s) = 1" "length (lh_block (lg ?s)) = LOGSIZE" "disk ?s 2 = ?h"
    by (simp_all add: wit_fileS_def)
  have b: "bufs ?s i = wit_buf" "lru ?s = [0..<NBUF]" "slocks ?s l = unlocked" "bfrees ?s = {..<NBUF}" for i l
    by (simp_all add: wit_fileS_def bfrees_def wit_buf_def lessThan_def)
  have h: "\<not> holds 1 n wit_buf" for n by (simp add: holds_def wit_buf_def)
  have inv: "bc_inv 1 1 {} ?s"
    unfolding bc_inv_def b by (intro conjI allI impI ballI) (simp_all add: running_def holds_def wit_buf_def atLeast0LessThan)
  have "cached 1 ?s x = None" for x unfolding cached_None b using h by blast
  then have r: "brefs 1 ?s x = 0" for x by (simp add: brefs_def)
  have hl: "head_list ?h = [100]" "length ?h = BSIZE" by (simp_all add: head_roundtrip params)
  have cap: "log_cap (lg ?s) = 29" by (simp add: log_cap_def wit_fileS_def params)
  have h0: "get32 ?h 0 = 1" by (simp add: head_of_def put_words_other get32_put32 BSIZE_def)
  have "\<exists>t. recover_from_log ?s = Ok () t \<and> disk t = recover_disk 2 ?d"
    using recover_from_log_installs [of ?s 1, unfolded s b] inv r wit_in_log(1) [OF log_cap_le [of "lg ?s"]] cap by (auto simp: hl h0 LOGSIZE_def NBUF_def MAXOPBLOCKS_def)
  moreover have "recover_disk 2 ?d 100 = replicate BSIZE 7" by (simp add: recover_disk_def hl install_disk_def log_blk_def)
  ultimately show ?thesis by auto
qed

section \<open>Transactions in memory\<close>

lemma absorb_index_hit:
  "i \<le> j \<Longrightarrow> j < i + k \<Longrightarrow> bs ! j = b \<Longrightarrow> absorb_index b bs i k < i + k \<and> bs ! absorb_index b bs i k = b"
  by (induction b bs i k rule: absorb_index.induct) (auto, (metis Suc_leI le_neq_implies_less)+)

lemma absorb_index_miss:
  "(\<And>j. i \<le> j \<Longrightarrow> j < i + k \<Longrightarrow> bs ! j \<noteq> b) \<Longrightarrow> absorb_index b bs i k = i + k"
  by (induction b bs i k rule: absorb_index.induct) (auto simp: Suc_le_eq)

text \<open>The block of a buffer enters the list of logged blocks once.\<close>

definition log_add :: "uint32 \<Rightarrow> uint32 list \<Rightarrow> uint32 list" where
  "log_add b bs = (if b \<in> set bs then bs else bs @ [b])"

lemma sint_Suc_cint: "0 \<le> sint n \<Longrightarrow> sint n < int LOGSIZE \<Longrightarrow> sint (n + 1 :: cint) = sint n + 1"
  by (simp add: sint_word_ariths(1) params signed_take_bit_int_eq_self)

lemmas log_write_steps = log_write_def thn_Ok bnd_Ok acquire_def release_def lh_set_def upd_log_def upd_buf_def bpin_def
  get_buf_def whenM_def Let_def

definition log_full :: "logrec \<Rightarrow> bool" where
  "log_full l \<longleftrightarrow> sint (lh_n l) \<ge> int LOGSIZE \<or> sint (lh_n l) \<ge> sint (l_size l - 1)"

lemma log_write_absorbed:
  assumes run: "running p s" and wf: "log_wf (lg s)" and ok: "\<not> log_full (lg s)" "\<not> sint (l_outstanding (lg s)) < 1"
    and old: "blk s i \<in> set (log_list (lg s))"
  shows "log_write i s = Ok () s"
proof -
  let ?l = "lg s" and ?b = "blk s i"
  let ?n = "nat (sint (lh_n ?l))"
  let ?j = "absorb_index ?b (lh_block ?l) 0 ?n"
  have len: "length (lh_block ?l) = LOGSIZE" "?n < LOGSIZE" using wf ok(1) by (auto simp: log_wf_def log_full_def log_cap_def)
  obtain j where "j < ?n" "lh_block ?l ! j = ?b" using old by (auto simp: log_list_def in_set_conv_nth)
  then have j: "?j < ?n" "lh_block ?l ! ?j = ?b" using absorb_index_hit [of 0 j ?n "lh_block ?l" ?b] by auto
  then have "(lh_block ?l)[?j := ?b] = lh_block ?l" by (simp add: list_update_same_conv len less_trans [OF _ len(2)])
  then show ?thesis
    using run ok j len(2) by (auto simp: running_def log_full_def log_write_steps intro!: logS.equality)
qed

lemma log_write_new:
  assumes run: "running p s" and wf: "log_wf (lg s)" and ok: "\<not> log_full (lg s)" "\<not> sint (l_outstanding (lg s)) < 1"
    and new: "blk s i \<notin> set (log_list (lg s))" and out: "\<not> in_area (lg s) (blk s i)"
  shows "\<exists>l. log_write i s = Ok () (s\<lparr>bufs := (bufs s)(i := (bufs s i)\<lparr>b_refcnt := b_refcnt (bufs s i) + 1\<rparr>)\<rparr>\<lparr>lg := l\<rparr>)
    \<and> log_list l = log_list (lg s) @ [blk s i] \<and> log_wf l"
proof -
  let ?l = "lg s" and ?b = "blk s i"
  let ?n = "nat (sint (lh_n ?l))"
  let ?l' = "?l\<lparr>lh_block := (lh_block ?l)[?n := ?b], lh_n := lh_n ?l + 1\<rparr>"
  have len: "length (lh_block ?l) = LOGSIZE" "?n < LOGSIZE" "0 \<le> sint (lh_n ?l)" "sint (lh_n ?l) < int LOGSIZE" "sint (lh_n ?l) < int (log_cap ?l)"
    using wf ok(1) by (auto simp: log_wf_def log_full_def log_cap_def)
  have "absorb_index ?b (lh_block ?l) 0 ?n = 0 + ?n"
    using new len by (intro absorb_index_miss) (auto simp: log_list_def in_set_conv_nth)
  then have "log_write i s = Ok () (s\<lparr>bufs := (bufs s)(i := (bufs s i)\<lparr>b_refcnt := b_refcnt (bufs s i) + 1\<rparr>)\<rparr>\<lparr>lg := ?l'\<rparr>)"
    using run ok len(2) by (auto simp: running_def log_full_def log_write_steps intro!: logS.equality)
  moreover have "log_list ?l' = log_list ?l @ [?b]"
    using len by (simp add: log_list_def sint_Suc_cint nat_add_distrib take_Suc_conv_app_nth)
  moreover from this have "log_wf ?l'" using wf out len by (auto simp: log_wf_def sint_Suc_cint log_cap_def)
  ultimately show ?thesis by blast
qed

text \<open>
  C21. \<^verbatim>\<open>log_write\<close> of a locked buffer, on every path: without room in the log or outside a transaction it panics;
  otherwise it records the home block, once however often it is written in the transaction, and pins the buffer of a
  newly recorded block with one more reference. Nothing reaches the disk, no content changes, and the log stays well-formed.
\<close>

theorem log_write_records:
  fixes s :: "'x logS_scheme"
  assumes inv: "bc_inv D p L s" and i: "i \<in> L" and wf: "log_wf (lg s)" and out: "\<not> in_area (lg s) (blk s i)"
    and small: "brefs D s (blk s i) < 2 ^ 31"
  shows "if log_full (lg s)
    then log_write i s = Panic ''too big a transaction''
    else if sint (l_outstanding (lg s)) < 1 then log_write i s = Panic ''log_write outside of trans''
    else \<exists>t. log_write i s = Ok () t \<and> log_list (lg t) = log_add (blk s i) (log_list (lg s)) \<and> log_wf (lg t)
      \<and> bc_inv D p L t \<and> bview D t = bview D s \<and> disk t = disk s \<and> dwrites t = dwrites s
      \<and> brefs D t = (brefs D s)(blk s i := brefs D s (blk s i) + of_bool (blk s i \<notin> set (log_list (lg s))))"
proof (cases "log_full (lg s) \<or> sint (l_outstanding (lg s)) < 1")
  case True
  then show ?thesis using bc_invD(1) [OF inv] by (auto simp: running_def log_full_def log_write_steps)
next
  case False
  show ?thesis
  proof (cases "blk s i \<in> set (log_list (lg s))")
    case True
    then show ?thesis using False log_write_absorbed [OF bc_invD(1) [OF inv] wf] inv wf by (simp add: log_add_def)
  next
    case new: False
    let ?u = "(bufs s i)\<lparr>b_refcnt := b_refcnt (bufs s i) + 1\<rparr>"
    have u: "unat (b_refcnt ?u) = Suc (brefs D s (blk s i))"
      using unat_Suc_cint [of "b_refcnt (bufs s i)"] locked_refs [OF inv i] small by simp
    then have ub: "holds D (blk s i) ?u" "b_valid ?u" "b_refcnt ?u \<noteq> 0"
      using bc_invD(8-9) [OF inv i] by (auto simp: holds_def)
    obtain l where "log_write i s = Ok () (s\<lparr>bufs := (bufs s)(i := ?u)\<rparr>\<lparr>lg := l\<rparr>)" "log_list l = log_list (lg s) @ [blk s i]" "log_wf l"
      using log_write_new [OF bc_invD(1) [OF inv] wf _ _ new out] False by auto
    then show ?thesis
      using False new u locked_change [OF inv i ub refl] locked_view [OF inv i] by (simp add: log_add_def)
  qed
qed

theorem log_write_records_witness:
  "\<exists>i t u. bread 1 46 (wit_log\<lparr>lg := (lg wit_log)\<lparr>l_outstanding := 1\<rparr>\<rparr>) = Ok i t \<and> log_write i t = Ok () u
    \<and> log_list (lg u) = [100, 46]"
proof -
  let ?s = "wit_log\<lparr>lg := (lg wit_log)\<lparr>l_outstanding := 1\<rparr>\<rparr>"
  have inv: "bc_inv 1 1 {} ?s" using wit_log_cache(1) by simp
  obtain i t where t: "bread 1 46 ?s = Ok i t" "bc_inv 1 1 {i} t" "blk t i = 46" "brefs 1 t 46 = 1" "bioS.more t = bioS.more ?s"
    using bc.read_law [OF inv, of 46] by (auto simp: wit_log_cache(2,3) params)
  have "lg t = (lg wit_log)\<lparr>l_outstanding := 1\<rparr>" using lg_more [OF t(5)] by simp
  moreover have "log_wf (lg wit_log)" using log_readyD(2) [OF wit_log_ready] .
  then have "log_wf ((lg wit_log)\<lparr>l_outstanding := 1\<rparr>)" "log_list ((lg wit_log)\<lparr>l_outstanding := 1\<rparr>) = [100]"
    using wit_log_simps(9) by (simp_all add: log_wf_def log_list_def)
  ultimately show ?thesis
    using t log_write_records [OF t(2), of i] wit_in_log(2) [OF log_cap_le [of "lg wit_log"]]
    by (auto simp: wit_log_simps log_add_def log_full_def LOGSIZE_def MAXOPBLOCKS_def)
qed

section \<open>Reservations\<close>

lemma end_op_last:
  assumes ready: "log_ready p s" and last: "l_outstanding (lg s) = 1" "\<not> l_committing (lg s)"
  shows "\<exists>t. end_op s = Ok () t \<and> lg t = (lg s)\<lparr>l_outstanding := 0, lh_n := 0\<rparr>
    \<and> (\<forall>b\<in>set (log_list (lg s)). disk t b = bview (l_dev (lg s)) s b) \<and> get32 (disk t (l_start (lg s))) 0 = 0
    \<and> (\<forall>q<NPROC. q \<noteq> p \<longrightarrow> \<not> (p_state (procs t q) = SLEEPING \<and> p_chan (procs t q) = ChLog))"
proof -
  let ?s = "s\<lparr>lg := (lg s)\<lparr>l_outstanding := 0, l_committing := True\<rparr>\<rparr>"
  have run: "cur s = Some p" "held s = []" using bc_invD(1) [OF log_readyD(1) [OF ready]] by (simp_all add: running_def)
  have ll: "log_list (lg ?s) = log_list (lg s)" by (simp add: log_list_def)
  have ready': "log_ready p ?s" using ready ll by (simp add: log_ready_def Let_def log_wf_def)
  obtain t where t: "commit ?s = Ok () t" "bc_inv (l_dev (lg s)) p {} t" "lg t = (lg ?s)\<lparr>lh_n := 0\<rparr>"
    "disk t = put_disk (commit_trace (lg ?s) (bview (l_dev (lg s)) s)) (disk s)"
    using commit_effect [OF ready'] by (auto simp: ran_def)
  have tr: "cur t = Some p" "held t = []" using bc_invD(1) [OF t(2)] by (simp_all add: running_def)
  note dk = commit_trace_disk [OF ready' refl]
  have out: "\<forall>b\<in>set (log_list (lg s)). \<not> in_area (lg s) b" using log_readyD(2) [OF ready] by (simp add: log_wf_def)
  have d: "disk t b = bview (l_dev (lg s)) s b" if "b \<in> set (log_list (lg s))" for b
    using dk(1) [of b] out that ll by (simp add: t(4))
  have z: "get32 (disk t (l_start (lg s))) 0 = 0" using dk(2) by (simp add: t(4))
  have s: "s\<lparr>lg := l, held := []\<rparr> = s\<lparr>lg := l\<rparr>" for l using run(2) by (intro logS.equality) simp_all
  show ?thesis
    using run t(1,3) tr last d z
    by (simp add: end_op_def thn_Ok bnd_Ok acquire_def release_def upd_log_def whenM_def s wakeup_woken procs_unlocked_def)
      (auto simp: woken_def)
qed

text \<open>
  The log in use. Every operation that has begun has a budget of \<^verbatim>\<open>MAXOPBLOCKS\<close> calls of \<^verbatim>\<open>log_write\<close>, what \<^verbatim>\<open>param.h\<close> says an operation
  writes at most; the list holds what is left of the budgets. The processes may take their steps in any order, and everything else in the
  kernel leaves the log alone.
\<close>

inductive log_used :: "'x logS_scheme \<Rightarrow> nat list \<Rightarrow> bool" where
  idle: "lh_n (lg s) = 0 \<Longrightarrow> l_outstanding (lg s) = 0 \<Longrightarrow> \<not> l_committing (lg s) \<Longrightarrow> log_used s []"
| begins: "log_used s bs \<Longrightarrow> begin_op s = Ok () t \<Longrightarrow> log_used t (MAXOPBLOCKS # bs)"
| writes: "log_used s bs \<Longrightarrow> log_write i s = Ok () t \<Longrightarrow> j < length bs \<Longrightarrow> 0 < bs ! j \<Longrightarrow> log_used t (bs[j := bs ! j - 1])"
| ends: "log_used s bs \<Longrightarrow> end_op s = Ok () t \<Longrightarrow> bs = xs @ b # ys \<Longrightarrow> xs @ ys \<noteq> [] \<Longrightarrow> log_used t (xs @ ys)"
| ends_last: "log_used s [b] \<Longrightarrow> log_ready p s \<Longrightarrow> end_op s = Ok () t \<Longrightarrow> log_used t []"
| other: "log_used s bs \<Longrightarrow> lg t = lg s \<Longrightarrow> log_used t bs"

definition reserved :: "logrec \<Rightarrow> nat list \<Rightarrow> bool" where
  "reserved l bs \<longleftrightarrow> 0 \<le> sint (lh_n l) \<and> sint (lh_n l) + int (sum_list bs) \<le> int LOGSIZE
     \<and> sint (l_outstanding l) = int (length bs) \<and> length bs \<le> 3 \<and> (\<forall>b\<in>set bs. b \<le> MAXOPBLOCKS) \<and> \<not> l_committing l"

lemma reservedD:
  assumes "reserved l bs"
  shows "0 \<le> sint (lh_n l)" "sint (lh_n l) \<le> 30" "sint (l_outstanding l) = int (length bs)" "length bs \<le> 3"
    and "sum_list bs \<le> 10 * length bs" "l_outstanding l = of_nat (length bs)" "\<not> l_committing l"
proof -
  show "0 \<le> sint (lh_n l)" "sint (lh_n l) \<le> 30" "sint (l_outstanding l) = int (length bs)" "length bs \<le> 3" "\<not> l_committing l"
    using assms by (auto simp: reserved_def params)
  then show "l_outstanding l = of_nat (length bs)" by (metis of_int_of_nat_eq scast_id scast_eq)
  have "(\<forall>b\<in>set bs. b \<le> 10) \<Longrightarrow> sum_list bs \<le> 10 * length bs" by (induction bs) auto
  then show "sum_list bs \<le> 10 * length bs" using assms by (simp add: reserved_def params)
qed

text \<open>In a log in use the test of \<^verbatim>\<open>begin_op\<close> does not wrap around.\<close>

lemma begin_op_test:
  assumes "reserved l bs"
  shows "sint (lh_n l + (l_outstanding l + 1) * of_nat MAXOPBLOCKS) = sint (lh_n l) + (int (length bs) + 1) * 10"
proof -
  note r = reservedD [OF assms]
  have "lh_n l + (l_outstanding l + 1) * of_nat MAXOPBLOCKS = of_int (sint (lh_n l) + (int (length bs) + 1) * 10)"
    by (simp add: r(6) params)
  moreover have "sint (of_int k :: cint) = k" if "0 \<le> k" "k \<le> 70" for k
    using that by (simp add: signed_of_int signed_take_bit_int_eq_self)
  moreover have "0 \<le> sint (lh_n l) + (int (length bs) + 1) * 10" "sint (lh_n l) + (int (length bs) + 1) * 10 \<le> 70"
    using r(1,2,4) by simp_all
  ultimately show ?thesis by metis
qed

lemma sint_out_cint: "n \<le> 3 \<Longrightarrow> sint (of_nat n + 1 :: cint) = int n + 1" "0 < n \<Longrightarrow> n \<le> 3 \<Longrightarrow> sint (of_nat n - 1 :: cint) = int n - 1"
  by (auto simp: le_Suc_eq numeral_3_eq_3)

lemma begin_op_run:
  assumes "running p s"
  shows "if l_committing (lg s) \<or> sint (lh_n (lg s) + (l_outstanding (lg s) + 1) * of_nat MAXOPBLOCKS) > int LOGSIZE
    then \<exists>t. begin_op s = Sleep t \<and> lg t = lg s \<and> p_state (procs t p) = SLEEPING \<and> p_chan (procs t p) = ChLog
    else \<exists>t. begin_op s = Ok () t \<and> lg t = (lg s)\<lparr>l_outstanding := l_outstanding (lg s) + 1\<rparr> \<and> running p t"
  using assms
  by (auto simp: running_def begin_op_def begin_op_loop_def thn_Ok bnd_Ok acquire_def release_def sleep_def sched_def myproc_run
      upd_log_def)

lemma absorb_index_le: "absorb_index b bs i k \<le> i + k"
  by (induction b bs i k rule: absorb_index.induct) auto

lemma log_write_run:
  assumes "running p s" "0 \<le> sint (lh_n (lg s))" "1 \<le> sint (l_outstanding (lg s))"
  shows "if log_full (lg s) then log_write i s = Panic ''too big a transaction'' else \<exists>t. log_write i s = Ok () t"
proof -
  have "absorb_index b bs 0 (nat (sint (lh_n (lg s)))) < LOGSIZE" if "\<not> log_full (lg s)" for b bs
    using that absorb_index_le [of b bs 0 "nat (sint (lh_n (lg s)))"] assms(2) by (auto simp: log_full_def)
  then show ?thesis using assms by (auto simp: running_def log_full_def log_write_steps)
qed

lemma begin_op_ok:
  assumes "begin_op s = Ok () t"
  shows "\<not> l_committing (lg s)" "\<not> sint (lh_n (lg s) + (l_outstanding (lg s) + 1) * of_nat MAXOPBLOCKS) > int LOGSIZE"
    "lg t = (lg s)\<lparr>l_outstanding := l_outstanding (lg s) + 1\<rparr>"
  using assms by (auto simp: begin_op_def begin_op_loop_def thn_def bnd_def acquire_def release_def sleep_def sched_def myproc_def upd_log_def
      upd_proc_def panic_def fault_def split: if_splits option.splits)

lemma log_write_ok:
  assumes "log_write i s = Ok () t"
  shows "lh_n (lg t) = lh_n (lg s) \<or> lh_n (lg t) = lh_n (lg s) + 1" "l_outstanding (lg t) = l_outstanding (lg s)"
    "l_committing (lg t) = l_committing (lg s)" "sint (lh_n (lg s)) < int LOGSIZE"
  using assms by (auto simp: log_write_def thn_def bnd_def acquire_def release_def lh_set_def upd_log_def upd_buf_def bpin_def
      get_buf_def whenM_def Let_def assert_else_def panic_def fault_def split: if_splits)

lemma end_op_more:
  assumes "end_op s = Ok () t" "l_outstanding (lg s) \<noteq> 1"
  shows "lg t = (lg s)\<lparr>l_outstanding := l_outstanding (lg s) - 1\<rparr>"
proof -
  have k: "keeps (\<lambda>s :: 'x logS_scheme. lg s) (wakeup ChLog)"
    unfolding wakeup_def with_lock_def
    by (intro keeps_intros) (auto simp: keeps_def acquire_def release_def split: if_splits)
  show ?thesis
    using assms by (auto simp: end_op_def acquire_def release_def upd_log_def whenM_def assert_else_def panic_def dest!: keepsD [OF k] split: if_splits
        elim!: thn_OkE bnd_OkE)
qed

lemma log_used_reserved: "log_used s bs \<Longrightarrow> reserved (lg s) bs"
proof (induction rule: log_used.induct)
  case (begins s bs t)
  then show ?case
    using reservedD [OF begins.IH] begin_op_ok [OF begins.hyps(2)] begin_op_test [OF begins.IH] sint_out_cint(1) [of "length bs"]
    by (auto simp: reserved_def params)
next
  case (writes s bs i t j)
  note w = log_write_ok [OF writes.hyps(2)] and r = reservedD [OF writes.IH]
  have "bs ! j \<le> sum_list bs" using writes.hyps(3) by (rule elem_le_sum_list)
  then have "Suc (sum_list (bs[j := bs ! j - 1])) = sum_list bs" using writes.hyps(3,4) by (simp add: sum_list_update)
  moreover have "b \<le> MAXOPBLOCKS" if "b \<in> set (bs[j := bs ! j - 1])" for b
  proof -
    have "b = bs ! j - 1 \<or> b \<in> set bs" using that set_update_subset_insert [of bs j "bs ! j - 1"] by blast
    moreover have "bs ! j \<in> set bs" using writes.hyps(3) by simp
    ultimately show ?thesis using writes.IH by (force simp: reserved_def)
  qed
  moreover have "sint (lh_n (lg s) + 1) = sint (lh_n (lg s)) + 1" using sint_Suc_cint r(1) w(4) by blast
  ultimately show ?case using writes.IH w(1-3) by (auto simp: reserved_def)
next
  case (ends s bs t xs b ys)
  note r = reservedD [OF ends.IH]
  have n: "2 \<le> length bs" using ends.hyps(3,4) by (auto simp: Suc_le_eq)
  have "l_outstanding (lg s) \<noteq> 1" using r(3) n by auto
  then have "lg t = (lg s)\<lparr>l_outstanding := l_outstanding (lg s) - 1\<rparr>" by (rule end_op_more [OF ends.hyps(2)])
  moreover have "sint (l_outstanding (lg s) - 1) = int (length bs) - 1" unfolding r(6) using r(4) n by (intro sint_out_cint(2)) auto
  ultimately show ?case using ends.IH ends.hyps(3) by (auto simp: reserved_def)
next
  case (ends_last s b p t)
  note r = reservedD [OF ends_last.IH]
  have "lg t = (lg s)\<lparr>l_outstanding := 0, lh_n := 0\<rparr>"
    using end_op_last [OF ends_last.hyps(2)] r(6,7) ends_last.hyps(3) by auto
  then show ?case using r(7) by (simp add: reserved_def)
qed (auto simp: reserved_def)

text \<open>
  C34. The reservations of \<^verbatim>\<open>begin_op\<close> keep the log from overflowing. Whenever the log is in use by operations that
  each stay within \<^verbatim>\<open>MAXOPBLOCKS\<close> calls of \<^verbatim>\<open>log_write\<close>, in any interleaving: the blocks logged and what is left of the budgets of all
  operations together fit into \<^verbatim>\<open>LOGSIZE\<close> blocks, and at most three operations are outstanding. \<^verbatim>\<open>begin_op\<close> returns iff a full budget for every outstanding operation
  and for this one fits beside the blocks logged, as integers, and else the caller sleeps on the log, which is unchanged. A \<^verbatim>\<open>log_write\<close> within a budget
  returns if the log has more than \<^verbatim>\<open>LOGSIZE\<close> blocks, header included. With \<^verbatim>\<open>LOGSIZE\<close> blocks, as \<^verbatim>\<open>mkfs\<close> makes it, it returns too, except that it
  panics for the last block of all budgets together when 29 blocks are logged.
\<close>

theorem begin_op_reserves:
  assumes "log_used s bs"
  shows "0 \<le> sint (lh_n (lg s)) \<and> sint (lh_n (lg s)) + int (sum_list bs) \<le> int LOGSIZE
    \<and> sint (l_outstanding (lg s)) = int (length bs) \<and> length bs \<le> 3
    \<and> (running p s \<longrightarrow>
        (if sint (lh_n (lg s)) + (int (length bs) + 1) * int MAXOPBLOCKS \<le> int LOGSIZE
         then \<exists>t. begin_op s = Ok () t \<and> lg t = (lg s)\<lparr>l_outstanding := l_outstanding (lg s) + 1\<rparr> \<and> running p t
         else \<exists>t. begin_op s = Sleep t \<and> lg t = lg s \<and> p_state (procs t p) = SLEEPING \<and> p_chan (procs t p) = ChLog)
        \<and> (j < length bs \<and> 0 < bs ! j \<longrightarrow>
            (sint (l_size (lg s)) > int LOGSIZE \<longrightarrow> (\<exists>t. log_write i s = Ok () t))
          \<and> (l_size (lg s) = of_nat LOGSIZE \<longrightarrow>
               (if sint (lh_n (lg s)) = 29 then sum_list bs = 1 \<and> log_write i s = Panic ''too big a transaction''
                else \<exists>t. log_write i s = Ok () t))))"
proof -
  note u = log_used_reserved [OF assms]
  note r = reservedD [OF u] and test = begin_op_test [OF u]
  have "sint (lh_n (lg s)) + int (sum_list bs) \<le> 30" using u by (simp add: reserved_def params)
  moreover have "1 \<le> sum_list bs" if "j < length bs" "0 < bs ! j" using elem_le_sum_list [OF that(1)] that(2) by simp
  moreover have "sint (l - 1) = sint l - 1" if "sint l > 30" for l :: cint
    using that sint_lt [of l] by (simp add: sint_word_ariths(2) signed_take_bit_int_eq_self)
  ultimately have full: "sint (l_size (lg s)) > 30 \<Longrightarrow> \<not> log_full (lg s)"
    "l_size (lg s) = 30 \<Longrightarrow> log_full (lg s) \<longleftrightarrow> sint (lh_n (lg s)) = 29" "sint (lh_n (lg s)) = 29 \<Longrightarrow> sum_list bs = 1"
    if "j < length bs" "0 < bs ! j"
    using that by (force simp: log_full_def params)+
  have "1 \<le> sint (l_outstanding (lg s))" if "j < length bs" using that r(3) by simp
  then have wr: "if log_full (lg s) then log_write i s = Panic ''too big a transaction'' else \<exists>t. log_write i s = Ok () t"
    if "running p s" "j < length bs" using log_write_run [OF that(1) r(1)] that(2) by blast
  have bg: "if sint (lh_n (lg s)) + (int (length bs) + 1) * int MAXOPBLOCKS \<le> int LOGSIZE
      then \<exists>t. begin_op s = Ok () t \<and> lg t = (lg s)\<lparr>l_outstanding := l_outstanding (lg s) + 1\<rparr> \<and> running p t
      else \<exists>t. begin_op s = Sleep t \<and> lg t = lg s \<and> p_state (procs t p) = SLEEPING \<and> p_chan (procs t p) = ChLog" if "running p s"
    using begin_op_run [OF that] r(7) unfolding test by (simp add: params not_less split: if_splits)
  have base: "0 \<le> sint (lh_n (lg s)) \<and> sint (lh_n (lg s)) + int (sum_list bs) \<le> int LOGSIZE
    \<and> sint (l_outstanding (lg s)) = int (length bs) \<and> length bs \<le> 3" using u by (simp add: reserved_def)
  have wk: "(sint (l_size (lg s)) > int LOGSIZE \<longrightarrow> (\<exists>t. log_write i s = Ok () t))
          \<and> (l_size (lg s) = of_nat LOGSIZE \<longrightarrow>
               (if sint (lh_n (lg s)) = 29 then sum_list bs = 1 \<and> log_write i s = Panic ''too big a transaction''
                else \<exists>t. log_write i s = Ok () t))" if "running p s" "j < length bs" "0 < bs ! j"
    using wr [OF that(1,2)] full [OF that(2,3)] by (auto simp: params split: if_splits)
  show ?thesis using base bg wk by blast
qed

theorem begin_op_reserves_witness:
  "\<exists>t u v. begin_op wit_fileS = Ok () t \<and> begin_op t = Ok () u \<and> log_write 0 u = Ok () v \<and> l_outstanding (lg u) = 2"
proof -
  have w: "running 1 wit_fileS" by (simp add: running_def)
  have l: "lh_n (lg wit_fileS) = 0" "l_outstanding (lg wit_fileS) = 0" "\<not> l_committing (lg wit_fileS)" "l_size (lg wit_fileS) = 30"
    by (simp_all add: wit_fileS_def)
  have u0: "log_used wit_fileS []" using l by (intro log_used.idle)
  obtain t where t: "begin_op wit_fileS = Ok () t" "lg t = (lg wit_fileS)\<lparr>l_outstanding := 1\<rparr>" "running 1 t"
    using begin_op_reserves [OF u0, of 1] w l by (auto simp: params)
  have u1: "log_used t [10]" using log_used.begins [OF u0 t(1)] by (simp add: params)
  obtain u where u: "begin_op t = Ok () u" "lg u = (lg wit_fileS)\<lparr>l_outstanding := 2\<rparr>" "running 1 u"
    using begin_op_reserves [OF u1, of 1] t l by (auto simp: params)
  have "log_used u [10, 10]" using log_used.begins [OF u1 u(1)] by (simp add: params)
  then have "\<exists>v. log_write 0 u = Ok () v" using begin_op_reserves [of u "[10, 10]" 1 0 0] u l by (auto simp: params)
  then show ?thesis using t(1) u by auto
qed

text \<open>
  C22. \<^verbatim>\<open>end_op\<close> of the last outstanding operation commits: it returns with the content of every logged block on the
  disk at its home, the log empty and open for new operations, and no other process left asleep waiting for the log.
\<close>

theorem end_op_commits:
  assumes ready: "log_ready p s" and last: "l_outstanding (lg s) = 1" "\<not> l_committing (lg s)"
  shows "\<exists>t. end_op s = Ok () t \<and> lh_n (lg t) = 0 \<and> l_outstanding (lg t) = 0 \<and> \<not> l_committing (lg t)
    \<and> (\<forall>b\<in>set (log_list (lg s)). disk t b = bview (l_dev (lg s)) s b) \<and> get32 (disk t (l_start (lg s))) 0 = 0
    \<and> (\<forall>q<NPROC. q \<noteq> p \<longrightarrow> \<not> (p_state (procs t q) = SLEEPING \<and> p_chan (procs t q) = ChLog))"
  using end_op_last [OF assms] last(2) by auto

theorem end_op_commits_witness:
  "\<exists>t. end_op (wit_log\<lparr>lg := (lg wit_log)\<lparr>l_outstanding := 1\<rparr>\<rparr>) = Ok () t \<and> disk t 100 = replicate BSIZE 7"
proof -
  let ?s = "wit_log\<lparr>lg := (lg wit_log)\<lparr>l_outstanding := 1\<rparr>\<rparr>"
  have ll: "log_list (lg ?s) = log_list (lg wit_log)" by (simp add: log_list_def)
  then have "log_ready 1 ?s" using wit_log_ready by (simp add: log_ready_def Let_def log_wf_def)
  moreover have "\<not> l_committing (lg ?s)" by (simp add: wit_log_def wit_fileS_def)
  ultimately show ?thesis
    using end_op_commits [of 1 ?s] ll by (auto simp: wit_log_simps wit_log_cache(4))
qed

end
