(* ===== verification/Virtio.thy ===== *)
theory Virtio
  imports Bio Proc
begin

text \<open>
  \<^verbatim>\<open>kernel/virtio_disk.c\<close>: the disk driver after its initialisation. The driver puts requests, each a chain of three
  descriptors, into the \<^verbatim>\<open>avail\<close> ring; the device answers in the \<^verbatim>\<open>used\<close> ring and interrupts. The addresses that the
  driver gives to the device point at a request header, at the data of a buffer or at a status byte, and are values of
  a type of their own. A process that waits for the device sleeps, and goes on in \<open>virtio_resume\<close>.
\<close>

section \<open>State\<close>

definition NUM :: nat where "NUM = 8"
definition VRING_DESC_F_NEXT :: uint16 where "VRING_DESC_F_NEXT = 1"
definition VRING_DESC_F_WRITE :: uint16 where "VRING_DESC_F_WRITE = 2"
definition VIRTIO_BLK_T_IN :: uint32 where "VIRTIO_BLK_T_IN = 0"
definition VIRTIO_BLK_T_OUT :: uint32 where "VIRTIO_BLK_T_OUT = 1"

datatype dma = DmaNull | DmaOp nat | DmaData nat | DmaStatus nat

record virtq_desc =
  d_addr :: dma
  d_len :: uint32
  d_flags :: uint16
  d_next :: uint16

record virtio_blk_req =
  r_type :: uint32
  r_reserved :: uint32
  r_sector :: uint64

text \<open>The fields of \<^verbatim>\<open>struct disk\<close>: descriptors, the two rings (\<open>v_used_idx\<close> is the index that the device writes, \<open>v_seen\<close> the
  \<^verbatim>\<open>used_idx\<close> of the driver), free flags, the buffer and the status byte of each request in flight, the request headers;
  the flag \<^verbatim>\<open>b->disk\<close> of each buffer; and the device registers the driver uses after initialisation.\<close>

record vdiskS = bioS +
  v_desc :: "nat \<Rightarrow> virtq_desc"
  v_avail_idx :: uint16
  v_avail_ring :: "nat \<Rightarrow> uint16"
  v_used_idx :: uint16
  v_used_ring :: "nat \<Rightarrow> uint32"
  v_free :: "nat \<Rightarrow> bool"
  v_seen :: uint16
  v_info :: "nat \<Rightarrow> nat option"
  v_status :: "nat \<Rightarrow> uint8"
  v_ops :: "nat \<Rightarrow> virtio_blk_req"
  v_disk :: "nat \<Rightarrow> bool"
  v_notify :: nat
  v_intr_status :: uint32
  v_intr_ack :: uint32

definition set_desc :: "nat \<Rightarrow> virtq_desc \<Rightarrow> ('x vdiskS_scheme, unit) kmon" where
  "set_desc i d = modify (\<lambda>s. s\<lparr>v_desc := (v_desc s)(i := d)\<rparr>)"

section \<open>Descriptors\<close>

text \<open>None is the result -1.\<close>

definition alloc_desc :: "('x vdiskS_scheme, nat option) kmon" where
  "alloc_desc =
     bnd (gets (\<lambda>s. find (v_free s) [0..<NUM])) (\<lambda>r.
     case r of
       None \<Rightarrow> ret None
     | Some i \<Rightarrow> thn (modify (\<lambda>s. s\<lparr>v_free := (v_free s)(i := False)\<rparr>)) (ret (Some i)))"

definition free_desc :: "nat \<Rightarrow> ('x vdiskS_scheme, unit) kmon" where
  "free_desc i =
     thn (assert_else (i < NUM) ''free_desc 1'')
     (bnd (gets (\<lambda>s. v_free s i)) (\<lambda>f.
     thn (assert_else (\<not> f) ''free_desc 2'')
     (thn (set_desc i \<lparr>d_addr = DmaNull, d_len = 0, d_flags = 0, d_next = 0\<rparr>)
     (thn (modify (\<lambda>s. s\<lparr>v_free := (v_free s)(i := True)\<rparr>))
     (wakeup ChFree)))))"

text \<open>The loop frees a descriptor that was not free each time, so that \<open>NUM + 1\<close> rounds are enough: one more free panics.\<close>

fun free_chain_loop :: "nat \<Rightarrow> nat \<Rightarrow> ('x vdiskS_scheme, unit) kmon" where
  "free_chain_loop 0 i = fault ''free_chain''"
| "free_chain_loop (Suc k) i =
     bnd (gets (\<lambda>s. v_desc s i)) (\<lambda>d.
     thn (free_desc i)
     (if d_flags d AND VRING_DESC_F_NEXT \<noteq> 0 then free_chain_loop k (unat (d_next d)) else ret ()))"

definition free_chain :: "nat \<Rightarrow> ('x vdiskS_scheme, unit) kmon" where
  "free_chain i = free_chain_loop (NUM + 1) i"

fun alloc3_loop :: "nat list \<Rightarrow> nat \<Rightarrow> ('x vdiskS_scheme, nat list option) kmon" where
  "alloc3_loop idx 0 = ret (Some idx)"
| "alloc3_loop idx (Suc k) =
     bnd alloc_desc (\<lambda>r.
     case r of
       None \<Rightarrow> thn (for_each idx free_desc) (ret None)
     | Some i \<Rightarrow> alloc3_loop (idx @ [i]) k)"

definition alloc3_desc :: "('x vdiskS_scheme, nat list option) kmon" where
  "alloc3_desc = alloc3_loop [] 3"

section \<open>A request\<close>

text \<open>The sector is computed in 32 bits and then widened.\<close>

definition sector_of :: "uint32 \<Rightarrow> uint64" where
  "sector_of blockno = ucast (blockno * word_of_nat (BSIZE div 512))"

definition virtio_submit :: "nat \<Rightarrow> bool \<Rightarrow> nat list \<Rightarrow> ('x vdiskS_scheme, unit) kmon" where
  "virtio_submit b write idx =
     (let i0 = idx ! 0; i1 = idx ! 1; i2 = idx ! 2 in
      bnd (get_buf b b_blockno) (\<lambda>blockno.
      thn (modify (\<lambda>s. s\<lparr>v_ops := (v_ops s)(i0 := \<lparr>r_type = (if write then VIRTIO_BLK_T_OUT else VIRTIO_BLK_T_IN),
        r_reserved = 0, r_sector = sector_of blockno\<rparr>)\<rparr>))
      (thn (set_desc i0 \<lparr>d_addr = DmaOp i0, d_len = 16, d_flags = VRING_DESC_F_NEXT, d_next = word_of_nat i1\<rparr>)
      (thn (set_desc i1 \<lparr>d_addr = DmaData b, d_len = word_of_nat BSIZE,
        d_flags = (if write then 0 else VRING_DESC_F_WRITE) OR VRING_DESC_F_NEXT, d_next = word_of_nat i2\<rparr>)
      (thn (modify (\<lambda>s. s\<lparr>v_status := (v_status s)(i0 := 0xff)\<rparr>))
      (thn (set_desc i2 \<lparr>d_addr = DmaStatus i0, d_len = 1, d_flags = VRING_DESC_F_WRITE, d_next = 0\<rparr>)
      (thn (modify (\<lambda>s. s\<lparr>v_disk := (v_disk s)(b := True)\<rparr>))
      (thn (modify (\<lambda>s. s\<lparr>v_info := (v_info s)(i0 := Some b)\<rparr>))
      (thn (modify (\<lambda>s. s\<lparr>v_avail_ring := (v_avail_ring s)(unat (v_avail_idx s) mod NUM := word_of_nat i0)\<rparr>))
      (thn (modify (\<lambda>s. s\<lparr>v_avail_idx := v_avail_idx s + 1\<rparr>))
      (modify (\<lambda>s. s\<lparr>v_notify := v_notify s + 1\<rparr>))))))))))))"

definition virtio_wait :: "nat \<Rightarrow> ('x vdiskS_scheme, unit) kmon" where
  "virtio_wait b = bnd (gets (\<lambda>s. v_disk s b)) (\<lambda>d. if d then sleep (ChDisk b) LDisk else ret ())"

definition virtio_finish :: "nat list \<Rightarrow> ('x vdiskS_scheme, unit) kmon" where
  "virtio_finish idx =
     thn (modify (\<lambda>s. s\<lparr>v_info := (v_info s)(idx ! 0 := None)\<rparr>))
     (thn (free_chain (idx ! 0)) (release LDisk))"

definition virtio_disk_rw :: "nat \<Rightarrow> bool \<Rightarrow> ('x vdiskS_scheme, unit) kmon" where
  "virtio_disk_rw b write =
     thn (acquire LDisk)
     (bnd alloc3_desc (\<lambda>r.
     case r of
       None \<Rightarrow> sleep ChFree LDisk
     | Some idx \<Rightarrow> thn (virtio_submit b write idx) (thn (virtio_wait b) (virtio_finish idx))))"

text \<open>What the process \<open>p\<close> does when it runs again after sleeping on the buffer.\<close>

definition virtio_resume :: "nat \<Rightarrow> nat \<Rightarrow> nat list \<Rightarrow> ('x vdiskS_scheme, unit) kmon" where
  "virtio_resume p b idx = thn (sleep_resume p LDisk) (thn (virtio_wait b) (virtio_finish idx))"

section \<open>The interrupt\<close>

text \<open>The rounds of the loop are at most the distance of two 16-bit counters.\<close>

fun intr_loop :: "nat \<Rightarrow> ('x vdiskS_scheme, unit) kmon" where
  "intr_loop 0 = bnd (gets (\<lambda>s. v_seen s = v_used_idx s)) (\<lambda>e. if e then ret () else fault ''virtio_disk_intr'')"
| "intr_loop (Suc k) =
     bnd (gets (\<lambda>s. v_seen s = v_used_idx s)) (\<lambda>e.
     if e then ret ()
     else
       bnd (gets (\<lambda>s. unat (v_used_ring s (unat (v_seen s) mod NUM)))) (\<lambda>i.
       bnd (gets (\<lambda>s. (v_status s i, v_info s i))) (\<lambda>(st, ob).
       thn (assert_else (st = 0) ''virtio_disk_intr status'')
       (case ob of
          None \<Rightarrow> fault ''virtio_disk_intr: no buffer''
        | Some b \<Rightarrow>
            thn (modify (\<lambda>s. s\<lparr>v_disk := (v_disk s)(b := False)\<rparr>))
            (thn (wakeup (ChDisk b))
            (thn (modify (\<lambda>s. s\<lparr>v_seen := v_seen s + 1\<rparr>))
            (intr_loop k)))))))"

definition virtio_disk_intr :: "('x vdiskS_scheme, unit) kmon" where
  "virtio_disk_intr =
     thn (acquire LDisk)
     (thn (modify (\<lambda>s. s\<lparr>v_intr_ack := v_intr_status s AND 3\<rparr>))
     (thn (intr_loop 65536)
     (release LDisk)))"

end
