(* ===== verification/VirtioInv.thy ===== *)
theory VirtioInv
  imports Virtio SleepInv
begin

text \<open>
  The correctness of the disk driver: allocation of descriptors, the layout of a request, and the refinement of the
  completed disk access of the buffer cache by a request, an interrupt and a return.
\<close>

section \<open>Descriptors\<close>

lemma alloc_desc_run:
  "alloc_desc s = (case find (v_free s) [0..<NUM] of None \<Rightarrow> Ok None s | Some i \<Rightarrow> Ok (Some i) (s\<lparr>v_free := (v_free s)(i := False)\<rparr>))"
  by (simp add: alloc_desc_def thn_Ok split: option.split)

lemma find_upt: "find P [0..<n] = Some i \<Longrightarrow> i < n \<and> P i"
  by (auto simp: find_Some_iff)

definition free_set :: "'x vdiskS_scheme \<Rightarrow> nat set" where
  "free_set s = {i. i < NUM \<and> v_free s i}"

lemma free_desc_run:
  "i < NUM \<Longrightarrow> \<not> v_free s i \<Longrightarrow> procs_unlocked (set_option (cur s)) s \<Longrightarrow>
    free_desc i s = Ok () (s\<lparr>v_desc := (v_desc s)(i := \<lparr>d_addr = DmaNull, d_len = 0, d_flags = 0, d_next = 0\<rparr>),
      v_free := (v_free s)(i := True), procs := woken ChFree (cur s) (procs s)\<rparr>)"
  by (simp add: free_desc_def set_desc_def thn_Ok assert_else_def wakeup_woken procs_unlocked_def)

lemma alloc3_loop_ok:
  "k \<le> card (free_set s) \<Longrightarrow> \<exists>new. alloc3_loop idx k s = Ok (Some (idx @ new)) (s\<lparr>v_free := (\<lambda>i. v_free s i \<and> i \<notin> set new)\<rparr>)
     \<and> length new = k \<and> distinct new \<and> set new \<subseteq> free_set s"
proof (induction k arbitrary: idx s)
  case (Suc k)
  have "free_set s \<noteq> {}" using Suc.prems by auto
  then obtain i where i: "find (v_free s) [0..<NUM] = Some i"
    by (cases "find (v_free s) [0..<NUM]") (auto simp: free_set_def find_None_iff)
  let ?s = "s\<lparr>v_free := (v_free s)(i := False)\<rparr>"
  have in_free: "i \<in> free_set s" using find_upt [OF i] by (simp add: free_set_def)
  have fs: "free_set ?s = free_set s - {i}" by (auto simp: free_set_def)
  have "finite (free_set s)" by (simp add: free_set_def)
  then have "k \<le> card (free_set ?s)" using Suc.prems in_free by (simp add: fs)
  then obtain new where new: "alloc3_loop (idx @ [i]) k ?s = Ok (Some ((idx @ [i]) @ new)) (?s\<lparr>v_free := (\<lambda>j. v_free ?s j \<and> j \<notin> set new)\<rparr>)"
    "length new = k" "distinct new" "set new \<subseteq> free_set ?s" using Suc.IH [of ?s "idx @ [i]"] by blast
  have eq: "(\<lambda>j. v_free ?s j \<and> j \<notin> set new) = (\<lambda>j. v_free s j \<and> j \<notin> set (i # new))" by auto
  have "alloc3_loop idx (Suc k) s = Ok (Some (idx @ i # new)) (s\<lparr>v_free := (\<lambda>j. v_free s j \<and> j \<notin> set (i # new))\<rparr>)"
    using new(1) unfolding eq by (simp add: bnd_def alloc_desc_run i)
  then show ?case using new(2-4) in_free fs by (intro exI [of _ "i # new"]) auto
next
  case 0
  show ?case by (intro exI [of _ "[]"]) simp
qed

lemma free_each:
  "distinct idx \<Longrightarrow> set idx \<subseteq> {i. i < NUM \<and> \<not> v_free s i} \<Longrightarrow> procs_unlocked (set_option (cur s)) s \<Longrightarrow>
    \<exists>s'. for_each idx free_desc s = Ok () s' \<and> free_set s' = free_set s \<union> set idx
      \<and> held s' = held s \<and> cur s' = cur s \<and> procs s' = (if idx = [] then procs s else woken ChFree (cur s) (procs s))"
proof (induction idx arbitrary: s)
  case (Cons i idx)
  let ?s = "s\<lparr>v_desc := (v_desc s)(i := \<lparr>d_addr = DmaNull, d_len = 0, d_flags = 0, d_next = 0\<rparr>),
      v_free := (v_free s)(i := True), procs := woken ChFree (cur s) (procs s)\<rparr>"
  have r: "free_desc i s = Ok () ?s" using Cons.prems by (intro free_desc_run) auto
  have "\<exists>s'. for_each idx free_desc ?s = Ok () s' \<and> free_set s' = free_set ?s \<union> set idx
      \<and> held s' = held ?s \<and> cur s' = cur ?s \<and> procs s' = (if idx = [] then procs ?s else woken ChFree (cur ?s) (procs ?s))"
    using Cons.prems by (intro Cons.IH) (auto simp: procs_unlocked_def)
  moreover have "free_set ?s = insert i (free_set s)" using Cons.prems by (auto simp: free_set_def)
  moreover have "woken ChFree c (woken ChFree c f) = woken ChFree c f" for c f by (auto simp: woken_def fun_eq_iff)
  ultimately show ?case using r by (auto simp: thn_def bnd_def)
qed simp

lemma alloc3_loop_fail:
  "card (free_set s) < k \<Longrightarrow> distinct idx \<Longrightarrow> set idx \<subseteq> {i. i < NUM \<and> \<not> v_free s i} \<Longrightarrow> procs_unlocked (set_option (cur s)) s \<Longrightarrow>
    \<exists>s'. alloc3_loop idx k s = Ok None s' \<and> free_set s' = free_set s \<union> set idx \<and> held s' = held s \<and> cur s' = cur s"
proof (induction k arbitrary: idx s)
  case (Suc k)
  show ?case
  proof (cases "find (v_free s) [0..<NUM]")
    case None
    then show ?thesis using free_each [OF Suc.prems(2-4)] by (auto simp: bnd_def thn_def alloc_desc_run)
  next
    case (Some i)
    let ?s = "s\<lparr>v_free := (v_free s)(i := False)\<rparr>"
    have i: "i < NUM" "v_free s i" using find_upt [OF Some] by auto
    have fs: "free_set s = insert i (free_set ?s)" "i \<notin> free_set ?s" using i by (auto simp: free_set_def)
    have "finite (free_set ?s)" by (simp add: free_set_def)
    then have "card (free_set ?s) < k" using Suc.prems(1) fs by simp
    then have "\<exists>s'. alloc3_loop (idx @ [i]) k ?s = Ok None s' \<and> free_set s' = free_set ?s \<union> set (idx @ [i]) \<and> held s' = held ?s \<and> cur s' = cur ?s"
      using Suc.prems i by (intro Suc.IH) (auto simp: procs_unlocked_def)
    then show ?thesis using fs by (auto simp: bnd_def alloc_desc_run Some)
  qed
qed simp

text \<open>
  \<^verbatim>\<open>alloc3_desc\<close> gives all or nothing: with three free descriptors or more it returns three different ones that were free and
  marks exactly these as used; with fewer it returns -1 and the same descriptors are free as before.
\<close>

theorem alloc3_desc_all_or_nothing:
  assumes "procs_unlocked (set_option (cur s)) s"
  shows "if 3 \<le> card (free_set s) then
      \<exists>idx s'. alloc3_desc s = Ok (Some idx) s' \<and> length idx = 3 \<and> distinct idx \<and> set idx \<subseteq> free_set s \<and> free_set s' = free_set s - set idx
    else \<exists>s'. alloc3_desc s = Ok None s' \<and> free_set s' = free_set s"
proof (cases "3 \<le> card (free_set s)")
  case True
  then show ?thesis using alloc3_loop_ok [OF True, of "[]"] by (fastforce simp: alloc3_desc_def free_set_def)
next
  case False
  then show ?thesis using alloc3_loop_fail [of s 3 "[]"] assms by (auto simp: alloc3_desc_def)
qed

section \<open>A request from the call to the return\<close>

text \<open>The request that the device finds at the head \<open>h\<close>, as section 5.2 of the virtio specification lays it out: a header, the
  block, and a status byte.\<close>

definition request_at :: "'x vdiskS_scheme \<Rightarrow> nat \<Rightarrow> nat \<Rightarrow> bool \<Rightarrow> uint64 \<Rightarrow> bool" where
  "request_at s h b w sec \<longleftrightarrow>
     (let d0 = v_desc s h; i1 = unat (d_next d0); d1 = v_desc s i1; i2 = unat (d_next d1); d2 = v_desc s i2 in
      i1 < NUM \<and> i2 < NUM \<and> distinct [h, i1, i2]
      \<and> d_addr d0 = DmaOp h \<and> d_len d0 = 16 \<and> d_flags d0 = VRING_DESC_F_NEXT
      \<and> v_ops s h = \<lparr>r_type = (if w then VIRTIO_BLK_T_OUT else VIRTIO_BLK_T_IN), r_reserved = 0, r_sector = sec\<rparr>
      \<and> d_addr d1 = DmaData b \<and> d_len d1 = 1024 \<and> d_flags d1 = (if w then 0 else VRING_DESC_F_WRITE) OR VRING_DESC_F_NEXT
      \<and> d_addr d2 = DmaStatus h \<and> d_len d2 = 1 \<and> d_flags d2 = VRING_DESC_F_WRITE)"

text \<open>The answer: the block goes from the buffer to the disk or from the disk to the buffer, the status becomes 0, and the head is
  put into the \<^verbatim>\<open>used\<close> ring.\<close>

definition disk_answer :: "nat \<Rightarrow> nat \<Rightarrow> bool \<Rightarrow> uint32 \<Rightarrow> 'x vdiskS_scheme \<Rightarrow> 'x vdiskS_scheme" where
  "disk_answer h b w n s =
     (if w then s\<lparr>disk := (disk s)(n := b_data (bufs s b)), dwrites := dwrites s @ [(n, b_data (bufs s b))]\<rparr>
      else s\<lparr>bufs := (bufs s)(b := (bufs s b)\<lparr>b_data := disk s n\<rparr>)\<rparr>)
     \<lparr>v_status := (v_status s)(h := 0), v_used_ring := (v_used_ring s)(unat (v_used_idx s) mod NUM := word_of_nat h),
      v_used_idx := v_used_idx s + 1\<rparr>"

text \<open>What the driver relies on: the device answers the newest request in the \<^verbatim>\<open>avail\<close> ring. A block is two sectors of 512 bytes.\<close>

definition virtio_device :: "('x vdiskS_scheme \<Rightarrow> 'x vdiskS_scheme) \<Rightarrow> bool" where
  "virtio_device dev \<longleftrightarrow> (\<forall>s h b w n. h < NUM \<longrightarrow> v_avail_ring s (unat (v_avail_idx s - 1) mod NUM) = word_of_nat h \<longrightarrow>
     request_at s h b w (2 * ucast n) \<longrightarrow> dev s = disk_answer h b w n s)"

lemma sector_of_block: "n < 2 ^ 31 \<Longrightarrow> sector_of n = 2 * ucast n"
proof -
  assume "n < 2 ^ 31"
  then have "unat n < 2 ^ 31" by (simp add: word_less_nat_alt)
  then have "unat (ucast (n * 2) :: uint64) = unat (2 * ucast n :: uint64)"
    by (simp add: unat_word_ariths(2) unsigned_ucast_eq take_bit_nat_eq_self mult.commute)
  then show ?thesis by (simp add: sector_of_def BSIZE_def word_unat_eq_iff)
qed

lemma index_word [simp]: "i < NUM \<Longrightarrow> unat (word_of_nat i :: uint16) = i" "i < NUM \<Longrightarrow> unat (word_of_nat i :: uint32) = i"
  by (simp_all add: NUM_def unat_of_nat)

lemma thn_Sleep: "m s = Sleep s' \<Longrightarrow> thn m k s = Sleep s'"
  by (simp add: thn_def bnd_def)

lemma virtio_wait_sleeps:
  "v_disk s b \<Longrightarrow> cur s = Some p \<Longrightarrow> held s = [LDisk] \<Longrightarrow> virtio_wait b s = Sleep (s\<lparr>held := [LProc p],
     procs := (procs s)(p := (procs s p)\<lparr>p_chan := ChDisk b, p_state := SLEEPING\<rparr>)\<rparr>)"
  by (simp add: virtio_wait_def sleep_def sched_def acquire_def release_def myproc_run thn_Ok bnd_Ok)

text \<open>The call puts the request into the ring and sleeps.\<close>

lemma rw_sleeps:
  assumes run: "running p s" and free: "3 \<le> card (free_set s)" and n: "b_blockno (bufs s b) < 2 ^ 31"
  shows "\<exists>idx s1. virtio_disk_rw b w s = Sleep s1 \<and> length idx = 3 \<and> distinct idx \<and> set idx \<subseteq> free_set s
    \<and> held s1 = [LProc p] \<and> procs s1 = (procs s)(p := (procs s p)\<lparr>p_chan := ChDisk b, p_state := SLEEPING\<rparr>)
    \<and> bufs s1 = bufs s \<and> disk s1 = disk s \<and> dwrites s1 = dwrites s
    \<and> v_free s1 = (\<lambda>i. v_free s i \<and> i \<notin> set idx) \<and> v_seen s1 = v_seen s \<and> v_used_idx s1 = v_used_idx s
    \<and> v_info s1 (idx ! 0) = Some b \<and> d_next (v_desc s1 (idx ! 0)) = word_of_nat (idx ! 1) \<and> d_next (v_desc s1 (idx ! 1)) = word_of_nat (idx ! 2)
    \<and> v_avail_ring s1 (unat (v_avail_idx s1 - 1) mod NUM) = word_of_nat (idx ! 0)
    \<and> request_at s1 (idx ! 0) b w (2 * ucast (b_blockno (bufs s b)))"
proof -
  let ?s = "s\<lparr>held := [LDisk]\<rparr>"
  have "3 \<le> card (free_set ?s)" using free by (simp add: free_set_def)
  then obtain idx where a: "alloc3_desc ?s = Ok (Some idx) (?s\<lparr>v_free := (\<lambda>i. v_free s i \<and> i \<notin> set idx)\<rparr>)"
    "length idx = 3" "distinct idx" "set idx \<subseteq> free_set s"
    using alloc3_loop_ok [of 3 ?s "[]"] by (auto simp: alloc3_desc_def free_set_def)
  obtain i0 i1 i2 where idx: "idx = [i0, i1, i2]" using a(2) by (auto simp: length_Suc_conv numeral_3_eq_3)
  have lt: "i0 < NUM" "i1 < NUM" "i2 < NUM" using a(4) by (auto simp: idx free_set_def)
  have "\<exists>s1. virtio_disk_rw b w s = Sleep s1 \<and> held s1 = [LProc p] \<and> procs s1 = (procs s)(p := (procs s p)\<lparr>p_chan := ChDisk b, p_state := SLEEPING\<rparr>)
    \<and> bufs s1 = bufs s \<and> disk s1 = disk s \<and> dwrites s1 = dwrites s
    \<and> v_free s1 = (\<lambda>i. v_free s i \<and> i \<notin> set idx) \<and> v_seen s1 = v_seen s \<and> v_used_idx s1 = v_used_idx s
    \<and> v_info s1 (idx ! 0) = Some b \<and> d_next (v_desc s1 (idx ! 0)) = word_of_nat (idx ! 1) \<and> d_next (v_desc s1 (idx ! 1)) = word_of_nat (idx ! 2)
    \<and> v_avail_ring s1 (unat (v_avail_idx s1 - 1) mod NUM) = word_of_nat (idx ! 0)
    \<and> request_at s1 (idx ! 0) b w (2 * ucast (b_blockno (bufs s b)))"
    using run a(1,3) lt
    by (simp add: running_def virtio_disk_rw_def acquire_def thn_Ok bnd_Ok virtio_submit_def set_desc_def get_buf_def
        thn_Sleep virtio_wait_sleeps idx request_at_def BSIZE_def sector_of_block [OF n])
  then show ?thesis using a(2-4) by blast
qed

lemma intr_loop_end: "v_seen s = v_used_idx s \<Longrightarrow> intr_loop k s = Ok () s"
  by (cases k) simp_all

text \<open>The interrupt for one answered request.\<close>

lemma intr_one:
  assumes "v_used_idx s = v_seen s + 1" "v_used_ring s (unat (v_seen s) mod NUM) = word_of_nat h" "h < NUM"
    and "v_status s h = 0" "v_info s h = Some b" "held s = []" "cur s = None"
  shows "virtio_disk_intr s = Ok () (s\<lparr>v_intr_ack := v_intr_status s AND 3, v_disk := (v_disk s)(b := False), v_seen := v_seen s + 1,
      procs := woken (ChDisk b) None (procs s)\<rparr>)"
proof -
  let ?s = "s\<lparr>held := [LDisk], v_intr_ack := v_intr_status s AND 3\<rparr>"
  have "intr_loop (Suc k) ?s = Ok () (?s\<lparr>v_disk := (v_disk s)(b := False), v_seen := v_seen s + 1, procs := woken (ChDisk b) None (procs s)\<rparr>)" for k
    using assms by (simp add: assert_else_def thn_Ok wakeup_woken procs_unlocked_def intr_loop_end)
  from this [of 65535] show ?thesis using assms by (simp add: virtio_disk_intr_def acquire_def release_def thn_Ok)
qed

text \<open>The chain of three descriptors is freed.\<close>

lemma free_chain_three:
  assumes "distinct [i0, i1, i2]" "i0 < NUM" "i1 < NUM" "i2 < NUM" "\<not> v_free s i0" "\<not> v_free s i1" "\<not> v_free s i2"
    and "procs_unlocked (set_option (cur s)) s"
    and "d_flags (v_desc s i0) AND VRING_DESC_F_NEXT \<noteq> 0" "d_flags (v_desc s i1) AND VRING_DESC_F_NEXT \<noteq> 0"
    and "d_flags (v_desc s i2) AND VRING_DESC_F_NEXT = 0"
    and "d_next (v_desc s i0) = word_of_nat i1" "d_next (v_desc s i1) = word_of_nat i2"
  shows "\<exists>s'. free_chain i0 s = Ok () s' \<and> v_free s' = (v_free s)(i0 := True, i1 := True, i2 := True) \<and> bufs s' = bufs s
    \<and> disk s' = disk s \<and> dwrites s' = dwrites s \<and> held s' = held s \<and> cur s' = cur s \<and> v_disk s' = v_disk s"
proof -
  have "\<exists>s'. free_chain_loop (Suc (Suc (Suc k))) i0 s = Ok () s' \<and> v_free s' = (v_free s)(i0 := True, i1 := True, i2 := True) \<and> bufs s' = bufs s
    \<and> disk s' = disk s \<and> dwrites s' = dwrites s \<and> held s' = held s \<and> cur s' = cur s \<and> v_disk s' = v_disk s" for k
    using assms by (simp add: thn_Ok free_desc_run procs_unlocked_def)
  from this [of 6] show ?thesis by (simp add: free_chain_def NUM_def)
qed

text \<open>The scheduler takes the sleeping process off the processor, and puts it on again.\<close>

definition switch_out :: "'x kern_scheme \<Rightarrow> 'x kern_scheme" where
  "switch_out s = s\<lparr>held := [], cur := None\<rparr>"

definition switch_in :: "nat \<Rightarrow> 'x kern_scheme \<Rightarrow> 'x kern_scheme" where
  "switch_in p s = s\<lparr>held := [LProc p], cur := Some p, procs := (procs s)(p := (procs s p)\<lparr>p_state := RUNNING\<rparr>)\<rparr>"

lemma resume_returns:
  assumes "\<not> v_disk s b" "length idx = 3" "distinct idx" "set idx \<subseteq> {i. i < NUM \<and> \<not> v_free s i}"
    and "request_at s (idx ! 0) b w sec" "d_next (v_desc s (idx ! 0)) = word_of_nat (idx ! 1)" "d_next (v_desc s (idx ! 1)) = word_of_nat (idx ! 2)"
  shows "\<exists>s'. virtio_resume p b idx (switch_in p s) = Ok () s' \<and> v_free s' = (\<lambda>i. v_free s i \<or> i \<in> set idx) \<and> bufs s' = bufs s
    \<and> disk s' = disk s \<and> dwrites s' = dwrites s \<and> held s' = [] \<and> cur s' = Some p"
proof -
  obtain i0 i1 i2 where idx: "idx = [i0, i1, i2]" using assms(2) by (auto simp: length_Suc_conv numeral_3_eq_3)
  let ?t = "s\<lparr>cur := Some p, procs := (procs s)(p := (procs s p)\<lparr>p_state := RUNNING, p_chan := NoChan\<rparr>), held := [LDisk], v_info := (v_info s)(i0 := None)\<rparr>"
  have "\<exists>s'. free_chain i0 ?t = Ok () s' \<and> v_free s' = (v_free ?t)(i0 := True, i1 := True, i2 := True) \<and> bufs s' = bufs ?t
    \<and> disk s' = disk ?t \<and> dwrites s' = dwrites ?t \<and> held s' = held ?t \<and> cur s' = cur ?t \<and> v_disk s' = v_disk ?t"
    using assms(3-) by (intro free_chain_three)
      (auto simp: idx switch_in_def procs_unlocked_def request_at_def Let_def VRING_DESC_F_NEXT_def VRING_DESC_F_WRITE_def)
  then obtain s' where s': "free_chain i0 ?t = Ok () s'" "v_free s' = (v_free s)(i0 := True, i1 := True, i2 := True)" "bufs s' = bufs s"
    "disk s' = disk s" "dwrites s' = dwrites s" "held s' = [LDisk]" "cur s' = Some p" by auto
  have "virtio_resume p b idx (switch_in p s) = Ok () (s'\<lparr>held := []\<rparr>)"
    using assms(1) s'(1,6) by (simp add: virtio_resume_def sleep_resume_def release_def acquire_def switch_in_def thn_Ok virtio_wait_def virtio_finish_def idx)
  then show ?thesis using s' by (auto simp: idx fun_eq_iff)
qed

lemma disk_answer_rw:
  assumes "bufs s1 = bufs s" "disk s1 = disk s" "dwrites s1 = dwrites s"
  shows "\<exists>t. disk_rw b w s = Ok () t \<and> bufs t = bufs (disk_answer h b w (b_blockno (bufs s b)) s1)
    \<and> disk t = disk (disk_answer h b w (b_blockno (bufs s b)) s1) \<and> dwrites t = dwrites (disk_answer h b w (b_blockno (bufs s b)) s1)"
  using assms by (cases w) (simp_all add: disk_rw_def get_buf_def upd_buf_def disk_answer_def)

text \<open>
  C7. The interrupt-driven driver implements the disk access that the buffer cache is built on. A call of \<^verbatim>\<open>virtio_disk_rw\<close> with
  three free descriptors, no answer outstanding and a block number below $2^{31}$ puts one well-formed request into the ring and
  goes to sleep; when the device has answered, \<^verbatim>\<open>virtio_disk_intr\<close> returns and makes the caller runnable; when the caller runs
  again it returns, with no lock held, the same descriptors free as before the call, and the buffers, the disk and the order
  of the writes as a completed access in one step, \<^verbatim>\<open>disk_rw\<close> of the buffer cache, leaves them.
\<close>

theorem virtio_disk_rw_refines:
  assumes "running p s" "p < NPROC" "3 \<le> card (free_set s)" "b_blockno (bufs s b) < 2 ^ 31" "v_seen s = v_used_idx s"
    and "virtio_device dev"
  shows "\<exists>idx s1 s2 s3 t. virtio_disk_rw b w s = Sleep s1
    \<and> virtio_disk_intr (switch_out (dev s1)) = Ok () s2 \<and> p_state (procs s2 p) = RUNNABLE
    \<and> virtio_resume p b idx (switch_in p s2) = Ok () s3 \<and> held s3 = [] \<and> free_set s3 = free_set s
    \<and> disk_rw b w s = Ok () t \<and> bufs s3 = bufs t \<and> disk s3 = disk t \<and> dwrites s3 = dwrites t"
proof -
  let ?n = "b_blockno (bufs s b)"
  obtain idx s1 where 1: "virtio_disk_rw b w s = Sleep s1" and idx: "length idx = 3" "distinct idx" "set idx \<subseteq> free_set s"
    and p1: "procs s1 = (procs s)(p := (procs s p)\<lparr>p_chan := ChDisk b, p_state := SLEEPING\<rparr>)"
    and same: "bufs s1 = bufs s" "disk s1 = disk s" "dwrites s1 = dwrites s" "v_free s1 = (\<lambda>i. v_free s i \<and> i \<notin> set idx)"
      "v_seen s1 = v_seen s" "v_used_idx s1 = v_used_idx s"
    and req: "v_info s1 (idx ! 0) = Some b" "d_next (v_desc s1 (idx ! 0)) = word_of_nat (idx ! 1)" "d_next (v_desc s1 (idx ! 1)) = word_of_nat (idx ! 2)"
      "v_avail_ring s1 (unat (v_avail_idx s1 - 1) mod NUM) = word_of_nat (idx ! 0)" "request_at s1 (idx ! 0) b w (2 * ucast ?n)"
    using rw_sleeps [OF assms(1,3,4), of w] by blast
  let ?h = "idx ! 0"
  have "?h \<in> set idx" using idx(1) by (intro nth_mem) simp
  then have h: "?h < NUM" using idx(3) by (auto simp: free_set_def)
  let ?d = "switch_out (disk_answer ?h b w ?n s1)"
  let ?s2 = "?d\<lparr>v_intr_ack := v_intr_status ?d AND 3, v_disk := (v_disk ?d)(b := False), v_seen := v_seen ?d + 1,
      procs := woken (ChDisk b) None (procs ?d)\<rparr>"
  have dev: "dev s1 = disk_answer ?h b w ?n s1" using assms(6) h req(4,5) unfolding virtio_device_def by blast
  have 2: "virtio_disk_intr ?d = Ok () ?s2"
    using assms(5) h req(1) same(5,6) by (intro intr_one) (simp_all add: switch_out_def disk_answer_def)
  have run: "p_state (procs ?s2 p) = RUNNABLE" using assms(2) p1 by (simp add: woken_def switch_out_def disk_answer_def)
  have "set idx \<subseteq> {i. i < NUM \<and> \<not> v_free ?s2 i}" using idx(3) same(4) by (auto simp: switch_out_def disk_answer_def free_set_def)
  then have "\<exists>s3. virtio_resume p b idx (switch_in p ?s2) = Ok () s3 \<and> v_free s3 = (\<lambda>i. v_free ?s2 i \<or> i \<in> set idx) \<and> bufs s3 = bufs ?s2
    \<and> disk s3 = disk ?s2 \<and> dwrites s3 = dwrites ?s2 \<and> held s3 = [] \<and> cur s3 = Some p"
    using idx req by (intro resume_returns [where w = w and sec = "2 * ucast ?n"]) (simp_all add: switch_out_def disk_answer_def request_at_def Let_def)
  then obtain s3 where 3: "virtio_resume p b idx (switch_in p ?s2) = Ok () s3" "v_free s3 = (\<lambda>i. v_free s1 i \<or> i \<in> set idx)"
    "bufs s3 = bufs ?s2" "disk s3 = disk ?s2" "dwrites s3 = dwrites ?s2" "held s3 = []" by (auto simp: switch_out_def disk_answer_def)
  have free: "free_set s3 = free_set s" using 3(2) same(4) idx(3) by (auto simp: free_set_def)
  obtain t where t: "disk_rw b w s = Ok () t" "bufs t = bufs ?s2" "disk t = disk ?s2" "dwrites t = dwrites ?s2"
    using disk_answer_rw [OF same(1-3), of b w ?h] by (auto simp: switch_out_def)
  show ?thesis
    by (intro exI [of _ idx] exI [of _ s1] exI [of _ ?s2] exI [of _ s3] exI [of _ t]) (use 1 2 run 3 t free dev in simp)
qed

text \<open>A device that answers at once, and a state with every descriptor free.\<close>

definition wit_device :: "'x vdiskS_scheme \<Rightarrow> 'x vdiskS_scheme" where
  "wit_device s = (let h = unat (v_avail_ring s (unat (v_avail_idx s - 1) mod NUM)) in
     case d_addr (v_desc s (unat (d_next (v_desc s h)))) of
       DmaData b \<Rightarrow> disk_answer h b (r_type (v_ops s h) = VIRTIO_BLK_T_OUT) (ucast (r_sector (v_ops s h) div 2)) s
     | _ \<Rightarrow> s)"

lemma sector_block: "ucast ((2 * ucast n :: uint64) div 2) = (n :: uint32)"
proof -
  have lt: "unat n < 2 ^ 32" by (rule order_less_le_trans [OF unsigned_less]) simp
  have "unat (2 * ucast n :: uint64) = 2 * unat n"
    using lt by (simp add: unat_word_ariths(2) unsigned_ucast_eq take_bit_nat_eq_self)
  then have "unat ((2 * ucast n :: uint64) div 2) = unat n" by (simp add: unat_div)
  then show ?thesis by (simp add: word_unat_eq_iff unsigned_ucast_eq take_bit_nat_eq_self [OF lt])
qed

lemma wit_device_ok: "virtio_device wit_device"
  by (auto simp: virtio_device_def wit_device_def request_at_def Let_def sector_block VIRTIO_BLK_T_IN_def VIRTIO_BLK_T_OUT_def)

definition wit_vdisk :: vdiskS where
  "wit_vdisk = bioS.extend (bioS.truncate wit_fileS) (vdiskS.fields (\<lambda>_. \<lparr>d_addr = DmaNull, d_len = 0, d_flags = 0, d_next = 0\<rparr>) 0 (\<lambda>_. 0)
     0 (\<lambda>_. 0) (\<lambda>_. True) 0 (\<lambda>_. None) (\<lambda>_. 0) (\<lambda>_. \<lparr>r_type = 0, r_reserved = 0, r_sector = 0\<rparr>) (\<lambda>_. False) 0 0 0)"

lemma wit_vdisk_facts:
  "running 1 wit_vdisk" "free_set wit_vdisk = {0..<NUM}" "v_seen wit_vdisk = v_used_idx wit_vdisk" "b_blockno (bufs wit_vdisk 0) < 2 ^ 31"
proof -
  have w: "cur wit_fileS = Some 1" "held wit_fileS = []" by (simp_all add: wit_fileS_def)
  show "running 1 wit_vdisk" using w by (simp add: running_def wit_vdisk_def bioS.extend_def bioS.truncate_def vdiskS.fields_def)
  show "free_set wit_vdisk = {0..<NUM}" "v_seen wit_vdisk = v_used_idx wit_vdisk"
    by (auto simp: free_set_def wit_vdisk_def bioS.extend_def vdiskS.fields_def)
  show "b_blockno (bufs wit_vdisk 0) < 2 ^ 31"
    by (simp add: wit_vdisk_def bioS.extend_def bioS.truncate_def vdiskS.fields_def wit_fileS_def wit_buf_def)
qed

theorem alloc3_desc_all_or_nothing_witness:
  "\<exists>idx s'. alloc3_desc wit_vdisk = Ok (Some idx) s' \<and> length idx = 3 \<and> distinct idx \<and> free_set s' = free_set wit_vdisk - set idx"
proof -
  have "procs_unlocked (set_option (cur wit_vdisk)) wit_vdisk" using wit_vdisk_facts(1) by (simp add: running_def procs_unlocked_def)
  moreover have "3 \<le> card (free_set wit_vdisk)" by (simp add: wit_vdisk_facts NUM_def)
  ultimately show ?thesis using alloc3_desc_all_or_nothing [of wit_vdisk] by auto
qed

theorem virtio_disk_rw_refines_witness:
  "\<exists>idx s1 s2 s3 t. virtio_disk_rw 0 True wit_vdisk = Sleep s1 \<and> virtio_disk_intr (switch_out (wit_device s1)) = Ok () s2
     \<and> virtio_resume 1 0 idx (switch_in 1 s2) = Ok () s3 \<and> disk_rw 0 True wit_vdisk = Ok () t \<and> disk s3 = disk t"
proof -
  have "3 \<le> card (free_set wit_vdisk)" "(1 :: nat) < NPROC" by (simp_all add: wit_vdisk_facts NUM_def NPROC_def)
  then show ?thesis
    using virtio_disk_rw_refines [OF wit_vdisk_facts(1) _ _ wit_vdisk_facts(4,3) wit_device_ok, of True] by blast
qed

end
