(* ===== verification/Grep.thy ===== *)
theory Grep
  imports Console
begin

text \<open>
  \<^verbatim>\<open>user/grep.c\<close>: the regular-expression matcher of Kernighan and Pike and the loop that reads a file
  through a buffer of 1024 bytes. A C string is the list of its bytes before the NUL, so that the end of
  the list is the NUL the code tests for.
\<close>

section \<open>The matcher\<close>

function matchhere :: "bytes \<Rightarrow> bytes \<Rightarrow> bool" and matchstar :: "uint8 \<Rightarrow> bytes \<Rightarrow> bytes \<Rightarrow> bool" where
  "matchhere re str =
     (case re of
        [] \<Rightarrow> True
      | c # re' \<Rightarrow>
          if re' \<noteq> [] \<and> hd re' = chr CHR ''*'' then matchstar c (tl re') str
          else if c = chr CHR ''$'' \<and> re' = [] then str = []
          else if str \<noteq> [] \<and> (c = chr CHR ''.'' \<or> c = hd str) then matchhere re' (tl str)
          else False)"
| "matchstar c re str =
     (if matchhere re str then True
      else if str \<noteq> [] \<and> (hd str = c \<or> c = chr CHR ''.'') then matchstar c re (tl str)
      else False)"
  by pat_completeness auto
termination
proof (relation "inv_image (less_than <*lex*> less_than <*lex*> less_than)
    (\<lambda>x. case x of Inl (re, str) \<Rightarrow> (length re, length str, 0 :: nat) | Inr (c, re, str) \<Rightarrow> (length re, length str, 1))", goal_cases)
qed (auto simp: less_Suc_eq)

declare matchhere.simps [simp del] matchstar.simps [simp del]

text \<open>The loop of \<^verbatim>\<open>match\<close> for a pattern that is not anchored.\<close>

fun match_from :: "bytes \<Rightarrow> bytes \<Rightarrow> bool" where
  "match_from re [] = matchhere re []"
| "match_from re (t # str) = (matchhere re (t # str) \<or> match_from re str)"

definition match :: "bytes \<Rightarrow> bytes \<Rightarrow> bool" where
  "match re str = (if re \<noteq> [] \<and> hd re = chr CHR ''^'' then matchhere (tl re) str else match_from re str)"

section \<open>Reading lines\<close>

definition GREPBUF :: nat where "GREPBUF = 1024"

text \<open>\<^verbatim>\<open>strchr\<close> from index \<open>p\<close> of a buffer: it stops at the first NUL.\<close>

definition strchr_at :: "bytes \<Rightarrow> nat \<Rightarrow> uint8 \<Rightarrow> nat option" where
  "strchr_at buf p c = map_option (\<lambda>i. p + i) (find (\<lambda>i. buf ! (p + i) = c) [0..<length (cstr (drop p buf))])"

lemma strchr_at_bound: "strchr_at buf p c = Some q \<Longrightarrow> p \<le> q \<and> q < length buf"
proof -
  assume "strchr_at buf p c = Some q"
  then obtain i where "q = p + i" "i < length (cstr (drop p buf))"
    by (auto simp: strchr_at_def find_Some_iff)
  moreover have "length (cstr (drop p buf)) \<le> length (drop p buf)" unfolding cstr_def by (rule length_takeWhile_le)
  ultimately show ?thesis by simp
qed

text \<open>The inner loop: the lines that end in the buffer, from \<open>p\<close>; the result has what is written.\<close>

function grep_lines :: "bytes \<Rightarrow> bytes \<Rightarrow> nat \<Rightarrow> bytes \<times> nat \<times> bytes" where
  "grep_lines pattern buf p =
     (case strchr_at buf p (chr CHR 0x0A) of
        None \<Rightarrow> (buf, p, [])
      | Some q \<Rightarrow>
          let buf0 = buf[q := 0] in
          if match pattern (cstr (drop p buf0)) then
            let buf1 = buf0[q := chr CHR 0x0A];
                (buf2, p2, out) = grep_lines pattern buf1 (q + 1) in
            (buf2, p2, take (q + 1 - p) (drop p buf1) @ out)
          else grep_lines pattern buf0 (q + 1))"
  by pat_completeness auto
termination
  by (relation "measure (\<lambda>(pattern, buf, p). length buf - p)") (auto dest!: strchr_at_bound)

declare grep_lines.simps [simp del]

text \<open>
  A file gives its bytes in pieces: \<^verbatim>\<open>read\<close> returns at most as many as asked for, of the next piece, and
  an empty piece or the end of the list is a return of 0 or less.
\<close>

fun read_piece :: "nat \<Rightarrow> bytes list \<Rightarrow> bytes \<times> bytes list" where
  "read_piece k [] = ([], [])"
| "read_piece k (c # cs) = (take k c, if length c \<le> k then cs else drop k c # cs)"

lemma read_piece_bytes: "read_piece k cs = (bs, cs') \<Longrightarrow> bs @ concat cs' = concat cs \<and> length bs \<le> k"
  by (cases cs) auto

function grep :: "bytes \<Rightarrow> bytes list \<Rightarrow> bytes \<Rightarrow> nat \<Rightarrow> bytes" where
  "grep pattern cs buf m =
     (let (bs, cs') = read_piece (GREPBUF - m - 1) cs; n = length bs in
      if n > 0 then
        let buf1 = take m buf @ bs @ drop (m + n) buf;
            m1 = m + n;
            buf2 = buf1[m1 := 0];
            (buf3, p, out) = grep_lines pattern buf2 0;
            m2 = m1 - p;
            buf4 = (if m1 > 0 then take m2 (drop p buf3) @ drop m2 buf3 else buf3) in
        out @ grep pattern cs' buf4 (if m1 > 0 then m2 else m1)
      else [])"
  by pat_completeness auto
termination
proof (relation "measure (\<lambda>(pattern, cs, buf, m). length (concat cs))", goal_cases)
  case (2 pattern cs buf m x bs cs')
  then have "length (bs @ concat cs') = length (concat cs)" using read_piece_bytes [of _ cs bs cs'] by auto
  then show ?case using 2 by (cases bs) auto
qed simp

declare grep.simps [simp del]

section \<open>What a pattern means\<close>

text \<open>
  A pattern is a list of items, each a byte or the dot, once or any number of times, with an anchor at
  the end if it ends in a dollar sign. A text fits the items if it can be cut into pieces that fit them
  one by one, with nothing left over if the pattern is anchored at the end.
\<close>

datatype item = One uint8 | Star uint8

fun pattern_items :: "bytes \<Rightarrow> item list \<times> bool" where
  "pattern_items [] = ([], False)"
| "pattern_items [c] = (if c = chr CHR ''$'' then ([], True) else ([One c], False))"
| "pattern_items (c # d # re) =
     (if d = chr CHR ''*'' then apfst (Cons (Star c)) (pattern_items re) else apfst (Cons (One c)) (pattern_items (d # re)))"

definition accepts :: "uint8 \<Rightarrow> uint8 \<Rightarrow> bool" where
  "accepts c t \<longleftrightarrow> c = chr CHR ''.'' \<or> c = t"

fun fits :: "item \<Rightarrow> bytes \<Rightarrow> bool" where
  "fits (One c) u \<longleftrightarrow> length u = 1 \<and> accepts c (hd u)"
| "fits (Star c) u \<longleftrightarrow> list_all (accepts c) u"

definition matches :: "item list \<times> bool \<Rightarrow> bytes \<Rightarrow> bool" where
  "matches P str \<longleftrightarrow> (\<exists>us v. str = concat us @ v \<and> list_all2 fits (fst P) us \<and> (snd P \<longrightarrow> v = []))"

lemma matches_Nil: "matches ([], e) str \<longleftrightarrow> (e \<longrightarrow> str = [])"
  by (simp add: matches_def)

lemma matches_Cons: "matches (apfst (Cons i) P) str \<longleftrightarrow> (\<exists>u v. str = u @ v \<and> fits i u \<and> matches P v)"
proof
  assume "matches (apfst (Cons i) P) str"
  then obtain us v where *: "str = concat us @ v" "list_all2 fits (i # fst P) us" "snd P \<longrightarrow> v = []" by (auto simp: matches_def)
  then obtain u us' where "us = u # us'" "fits i u" "list_all2 fits (fst P) us'" by (auto simp: list_all2_Cons1)
  then show "\<exists>u v. str = u @ v \<and> fits i u \<and> matches P v"
    using * by (intro exI [of _ u] exI [of _ "concat us' @ v"]) (auto simp: matches_def)
next
  assume "\<exists>u v. str = u @ v \<and> fits i u \<and> matches P v"
  then obtain u v us w where "str = u @ v" "fits i u" "v = concat us @ w" "list_all2 fits (fst P) us" "snd P \<longrightarrow> w = []"
    by (auto simp: matches_def)
  then show "matches (apfst (Cons i) P) str"
    unfolding matches_def by (intro exI [of _ "u # us"] exI [of _ w]) auto
qed

lemma ex_cut_Cons: "(\<exists>u v. t # ts = u @ v \<and> Q u v) \<longleftrightarrow> Q [] (t # ts) \<or> (\<exists>u v. ts = u @ v \<and> Q (t # u) v)" (is "?L = ?R")
proof
  assume ?L
  then obtain u v where "t # ts = u @ v" "Q u v" by blast
  then show ?R by (cases u) auto
next
  assume ?R
  then show ?L by (metis append_Cons append_Nil)
qed

lemma matches_One: "matches (apfst (Cons (One c)) P) str \<longleftrightarrow> str \<noteq> [] \<and> accepts c (hd str) \<and> matches P (tl str)"
proof (cases str)
  case (Cons t ts)
  have "(\<exists>u v. t # ts = u @ v \<and> fits (One c) u \<and> matches P v) \<longleftrightarrow> accepts c t \<and> matches P ts"
    unfolding ex_cut_Cons by auto
  then show ?thesis using Cons by (simp add: matches_Cons)
qed (auto simp: matches_Cons)

lemma matches_Star:
  "matches (apfst (Cons (Star c)) P) str \<longleftrightarrow>
     matches P str \<or> str \<noteq> [] \<and> accepts c (hd str) \<and> matches (apfst (Cons (Star c)) P) (tl str)"
proof (cases str)
  case (Cons t ts)
  have "(\<exists>u v. t # ts = u @ v \<and> fits (Star c) u \<and> matches P v) \<longleftrightarrow>
      matches P (t # ts) \<or> accepts c t \<and> (\<exists>u v. ts = u @ v \<and> fits (Star c) u \<and> matches P v)"
    unfolding ex_cut_Cons by auto
  then show ?thesis using Cons by (simp add: matches_Cons)
qed (auto simp: matches_Cons)

lemma matcher_spec:
  "matchhere re str \<longleftrightarrow> matches (pattern_items re) str"
  "matchstar c re str \<longleftrightarrow> matches (apfst (Cons (Star c)) (pattern_items re)) str"
proof (induction re str and c re str rule: matchhere_matchstar.induct)
  case (1 re str)
  show ?case
  proof (cases re rule: pattern_items.cases)
    case 1
    then show ?thesis by (simp add: matchhere.simps matches_Nil)
  next
    case (2 c)
    then show ?thesis using "1.IH"(2) [of c "[]"] by (auto simp: matchhere.simps matches_Nil matches_One [where P = "([], False)", simplified] accepts_def)
  next
    case (3 c d re')
    then show ?thesis using "1.IH"(1) [of c "d # re'"] "1.IH"(2) [of c "d # re'"]
      by (auto simp: matchhere.simps [of "c # d # re'"] matches_One accepts_def)
  qed
next
  case (2 c re str)
  then show ?case by (subst matchstar.simps, subst matches_Star) (auto simp: accepts_def)
qed

lemma match_from_spec: "match_from re str \<longleftrightarrow> (\<exists>pre rest. str = pre @ rest \<and> matchhere re rest)"
proof (induction str)
  case (Cons t str)
  have "(\<exists>pre rest. t # str = pre @ rest \<and> matchhere re rest) \<longleftrightarrow>
      matchhere re (t # str) \<or> (\<exists>pre rest. str = pre @ rest \<and> matchhere re rest)"
    unfolding ex_cut_Cons by auto
  then show ?case using Cons by simp
qed simp

text \<open>
  C19. The matcher decides the meaning of patterns: for every pattern and every text \<^verbatim>\<open>match\<close> returns, and
  returns true exactly if a part of the text, at its beginning if the pattern starts with a caret, fits the
  items of the pattern, up to the end of the text if the pattern ends with a dollar sign.
\<close>

theorem match_meaning:
  "match re str \<longleftrightarrow>
     (let anchored = re \<noteq> [] \<and> hd re = chr CHR ''^''; P = pattern_items (if anchored then tl re else re) in
      \<exists>pre rest. str = pre @ rest \<and> (anchored \<longrightarrow> pre = []) \<and> matches P rest)"
  by (auto simp: match_def Let_def match_from_spec matcher_spec)

theorem match_meaning_witness:
  "match (cbytes ''b.*d$'') (cbytes ''abcd'') \<and> (\<exists>pre rest. cbytes ''abcd'' = pre @ rest \<and> matches (pattern_items (cbytes ''b.*d$'')) rest)"
proof -
  have "match (cbytes ''b.*d$'') (cbytes ''abcd'')"
    by (simp add: match_def cbytes_def chr_def of_char_def matchhere.simps matchstar.simps)
  then show ?thesis using match_meaning [of "cbytes ''b.*d$''" "cbytes ''abcd''"] by (simp add: cbytes_def chr_def of_char_def)
qed

section \<open>The lines of a file\<close>

abbreviation nl :: uint8 where "nl \<equiv> chr CHR 0x0A"

lemma nl_nonzero [simp]: "nl \<noteq> 0" "0 \<noteq> nl"
  by (simp_all add: chr_def of_char_def)

text \<open>The lines that end in a newline, without it, and what follows the last one; \<open>acc\<close> is the part of the
  current line that has been seen.\<close>

fun cut_lines :: "bytes \<Rightarrow> bytes \<Rightarrow> bytes list \<times> bytes" where
  "cut_lines acc [] = ([], acc)"
| "cut_lines acc (c # cs) = (if c = nl then apfst (Cons acc) (cut_lines [] cs) else cut_lines (acc @ [c]) cs)"

definition print_lines :: "bytes \<Rightarrow> bytes list \<Rightarrow> bytes" where
  "print_lines pattern ls = concat (map (\<lambda>l. l @ [nl]) (filter (match pattern) ls))"

lemma print_lines_simps [simp]:
  "print_lines re [] = []" "print_lines re (l # ls) = (if match re l then l @ [nl] else []) @ print_lines re ls"
  "print_lines re (ls @ ls') = print_lines re ls @ print_lines re ls'"
  by (simp_all add: print_lines_def)

lemma apfst_append_Nil [simp]: "apfst (append []) x = x"
  by (cases x) simp

lemma cut_lines_append: "cut_lines acc (xs @ ys) = apfst (append (fst (cut_lines acc xs))) (cut_lines (snd (cut_lines acc xs)) ys)"
  by (induction acc xs rule: cut_lines.induct) (auto simp: apfst_def map_prod_def split: prod.splits)

lemma cut_lines_none: "nl \<notin> set xs \<Longrightarrow> cut_lines acc xs = ([], acc @ xs)"
  by (induction xs arbitrary: acc) auto

lemma cut_lines_tail: "nl \<notin> set acc \<Longrightarrow> nl \<notin> set (snd (cut_lines acc xs))"
  by (induction acc xs rule: cut_lines.induct) auto

lemma cut_lines_bytes:
  "set (snd (cut_lines acc xs)) \<subseteq> set acc \<union> set xs"
  "length (snd (cut_lines acc xs)) \<le> length acc + length xs"
  "l \<in> set (fst (cut_lines acc xs)) \<Longrightarrow> length l < length acc + length xs"
  by (induction acc xs rule: cut_lines.induct) (auto split: if_splits)

lemma cut_lines_first: "fst (cut_lines acc xs) = l # ls \<Longrightarrow> length acc \<le> length l"
  by (induction acc xs rule: cut_lines.induct) (auto split: if_splits)

lemma cut_lines_acc: "nl \<notin> set acc \<Longrightarrow> cut_lines [] (acc @ xs) = cut_lines acc xs"
  by (simp add: cut_lines_append cut_lines_none)

lemma cstr_no_nul: "0 \<notin> set D \<Longrightarrow> cstr (D @ 0 # Z) = D"
  by (induction D) auto

lemma strchr_at_none: "0 \<notin> set D \<Longrightarrow> c \<notin> set D \<Longrightarrow> strchr_at (A @ D @ 0 # Z) (length A) c = None"
  by (auto simp: strchr_at_def cstr_no_nul find_None_iff nth_append)

lemma strchr_at_first:
  assumes "0 \<notin> set l" "0 \<notin> set D" "c \<notin> set l" "c \<noteq> 0"
  shows "strchr_at (A @ l @ c # D @ 0 # Z) (length A) c = Some (length A + length l)"
proof -
  have "cstr (l @ c # D @ 0 # Z) = l @ c # D" using cstr_no_nul [of "l @ c # D" Z] assms by auto
  moreover have "find (\<lambda>i. (l @ c # D @ 0 # Z) ! i = c) [0..<length (l @ c # D)] = Some (length l)"
    using assms(3) by (auto simp: find_Some_iff nth_append intro!: exI [of _ "length l"])
  ultimately show ?thesis by (simp add: strchr_at_def nth_append)
qed

lemma grep_lines_spec:
  "0 \<notin> set D \<Longrightarrow> \<exists>A'. grep_lines re (A @ D @ 0 # Z) (length A)
     = (A' @ snd (cut_lines [] D) @ 0 # Z, length A', print_lines re (fst (cut_lines [] D)))
   \<and> length A' + length (snd (cut_lines [] D)) = length A + length D"
proof (induction D arbitrary: A rule: length_induct)
  case (1 D)
  show ?case
  proof (cases "nl \<in> set D")
    case False
    then show ?thesis using 1(2) by (subst grep_lines.simps) (auto simp: strchr_at_none cut_lines_none)
  next
    case True
    then obtain l D' where D: "D = l @ nl # D'" "nl \<notin> set l" by (metis split_list_first)
    have z: "0 \<notin> set l" "0 \<notin> set D'" using 1(2) D(1) by auto
    let ?A = "A @ l @ [if match re l then nl else 0]"
    have c: "cut_lines [] D = apfst (Cons l) (cut_lines [] D')" using D by (simp add: cut_lines_append cut_lines_none)
    have s: "strchr_at (A @ D @ 0 # Z) (length A) nl = Some (length A + length l)"
      using strchr_at_first [OF z D(2)] by (simp add: D(1))
    obtain A' where A': "grep_lines re (?A @ D' @ 0 # Z) (length ?A)
        = (A' @ snd (cut_lines [] D') @ 0 # Z, length A', print_lines re (fst (cut_lines [] D')))"
      "length A' + length (snd (cut_lines [] D')) = length ?A + length D'"
      using 1(1) [rule_format, OF _ z(2), of ?A] by (auto simp: D(1))
    have u: "(A @ l @ b # D' @ 0 # Z)[length A + length l := c] = A @ l @ c # D' @ 0 # Z" for b c by (simp add: list_update_append)
    have d: "cstr (l @ 0 # D' @ 0 # Z) = l" by (rule cstr_no_nul [OF z(1)])
    have D': "A @ D @ 0 # Z = A @ l @ nl # D' @ 0 # Z" by (simp add: D(1))
    have "grep_lines re (A @ D @ 0 # Z) (length A)
      = (A' @ snd (cut_lines [] D') @ 0 # Z, length A', (if match re l then l @ [nl] else []) @ print_lines re (fst (cut_lines [] D')))"
      using A'(1) s unfolding D' by (subst grep_lines.simps, cases "match re l") (simp_all add: u d Let_def)
    then show ?thesis using A'(2) unfolding c by (intro exI [of _ A']) (simp add: D(1))
  qed
qed

lemma grep_step:
  "read_piece (GREPBUF - m - 1) cs = (bs, cs') \<Longrightarrow> bs \<noteq> [] \<Longrightarrow>
    grep_lines re ((take m buf @ bs @ drop (m + length bs) buf)[m + length bs := 0]) 0 = (buf3, p, out) \<Longrightarrow> m + length bs - p = k \<Longrightarrow>
    grep re cs buf m = out @ grep re cs' (take k (drop p buf3) @ drop k buf3) k"
  by (subst grep.simps) (auto simp: Let_def)

text \<open>The output for a file, from a buffer that holds the beginning \<open>T\<close> of a line.\<close>

lemma grep_spec:
  assumes "0 \<notin> set (concat cs)" "[] \<notin> set cs" "0 \<notin> set T" "nl \<notin> set T" "length T < GREPBUF" "length (T @ Z) = GREPBUF"
  shows "grep re cs (T @ Z) (length T) = print_lines re (takeWhile (\<lambda>l. length l < GREPBUF - 1) (fst (cut_lines T (concat cs))))"
  using assms
proof (induction "length (concat cs)" arbitrary: cs T Z rule: less_induct)
  case less
  let ?short = "\<lambda>l :: bytes. length l < GREPBUF - 1"
  let ?k = "GREPBUF - length T - 1"
  obtain bs cs' where r: "read_piece ?k cs = (bs, cs')" by force
  have b: "bs @ concat cs' = concat cs" "length bs \<le> ?k" using read_piece_bytes [OF r] by simp_all
  show ?case
  proof (cases "bs = []")
    case True
    then have "grep re cs (T @ Z) (length T) = []" by (subst grep.simps) (simp add: r [simplified])
    moreover have "takeWhile ?short (fst (cut_lines T (concat cs))) = []"
    proof (cases cs)
      case (Cons c cs1)
      then have "?k = 0" using r True less.prems(2) by auto
      then have "GREPBUF - 1 \<le> length T" by simp
      then show ?thesis using cut_lines_first [of T "concat cs"] by (cases "fst (cut_lines T (concat cs))") fastforce+
    qed simp
    ultimately show ?thesis by simp
  next
    case False
    let ?r = "snd (cut_lines T bs)" and ?ls = "fst (cut_lines T bs)"
    let ?Z = "drop (length bs) Z"
    have n: "length bs < length Z" using b(2) less.prems(5,6) by simp
    then have Z: "?Z = hd ?Z # tl ?Z" by (cases ?Z) auto
    have z: "0 \<notin> set (T @ bs)" "0 \<notin> set (concat cs')" "0 \<notin> set bs" using less.prems(1,3) b(1) by (metis Un_iff set_append)+
    have c: "cut_lines [] (T @ bs) = cut_lines T bs" by (rule cut_lines_acc [OF less.prems(4)])
    obtain A where A: "grep_lines re (T @ bs @ 0 # tl ?Z) 0 = (A @ ?r @ 0 # tl ?Z, length A, print_lines re ?ls)"
      "length A + length ?r = length T + length bs"
      using grep_lines_spec [of "T @ bs" re "[]" "tl ?Z"] z(1) c by auto
    have buf: "(T @ bs @ ?Z)[length T + length bs := 0] = T @ bs @ 0 # tl ?Z" using Z by (metis append_assoc length_append list_update_length)
    let ?Z4 = "drop (length ?r) (A @ ?r @ 0 # tl ?Z)"
    have "grep re cs (T @ Z) (length T) = print_lines re ?ls @ grep re cs' (take (length ?r) (drop (length A) (A @ ?r @ 0 # tl ?Z)) @ ?Z4) (length ?r)"
      using A buf by (intro grep_step [OF r False]) auto
    also have "take (length ?r) (drop (length A) (A @ ?r @ 0 # tl ?Z)) = ?r" by simp
    also have "grep re cs' (?r @ ?Z4) (length ?r) = print_lines re (takeWhile ?short (fst (cut_lines ?r (concat cs'))))"
    proof (rule less.hyps)
      show "length (concat cs') < length (concat cs)" using b(1) False by (metis length_append length_greater_0_conv less_add_same_cancel2)
      show "0 \<notin> set (concat cs')" by (rule z(2))
      show "[] \<notin> set cs'" using r less.prems(2) by (cases cs) (auto split: if_splits)
      show "0 \<notin> set ?r" using cut_lines_bytes(1) [of T bs] z by auto
      show "nl \<notin> set ?r" by (rule cut_lines_tail [OF less.prems(4)])
      show "length ?r < GREPBUF" using cut_lines_bytes(2) [of T bs] b(2) less.prems(5) by simp
      have "length (tl ?Z) + 1 = length Z - length bs" using n by simp
      then show "length (?r @ ?Z4) = GREPBUF" using A(2) n less.prems(6) by simp
    qed
    also have "print_lines re ?ls @ \<dots> = print_lines re (takeWhile ?short (?ls @ fst (cut_lines ?r (concat cs'))))"
    proof -
      have "?short l" if "l \<in> set ?ls" for l using cut_lines_bytes(3) [OF that] b(2) less.prems(5) by simp
      then show ?thesis by simp
    qed
    also have "?ls @ fst (cut_lines ?r (concat cs')) = fst (cut_lines T (concat cs))" by (simp add: cut_lines_append flip: b(1))
    finally show ?thesis .
  qed
qed

text \<open>
  C26. \<^verbatim>\<open>grep\<close> prints the matching lines: however \<^verbatim>\<open>read\<close> cuts the file into pieces, and whatever the buffer held before,
  the output is the lines of the file that match the pattern, in order and unchanged, up to the first line
  that does not fit the buffer of 1024 bytes; from there on nothing is printed, nor is a last line without newline.
\<close>

theorem grep_prints_matches:
  assumes "0 \<notin> set (concat cs)" and "[] \<notin> set cs" and "length buf = GREPBUF"
  shows "grep re cs buf 0
    = print_lines re (takeWhile (\<lambda>l. length l < GREPBUF - 1) (fst (cut_lines [] (concat cs))))"
  using grep_spec [of cs "[]" buf re] assms by (simp add: GREPBUF_def)

theorem grep_prints_matches_witness:
  "grep (cbytes ''b'') [cbytes ''a'', [10, 98], [10, 99]] (replicate GREPBUF 0) 0 = [98, 10]"
proof -
  have b: "match [98] [98]" "\<not> match [98] [97]"
    by (simp_all add: match_def chr_def of_char_def matchhere.simps)
  have "print_lines [98] (takeWhile (\<lambda>l. length l < GREPBUF - 1) (fst (cut_lines [] [97, 10, 98, 10, 99]))) = [98, 10]"
    using b by (simp add: GREPBUF_def chr_def of_char_def)
  then show ?thesis
    using grep_prints_matches [of "[cbytes ''a'', [10, 98], [10, 99]]" "replicate GREPBUF 0" "[98]"]
    by (simp add: cbytes_def chr_def of_char_def)
qed

end
