(* ===== verification/Sh.thy ===== *)
theory Sh
  imports Console Sysfile
begin

text \<open>
  \<^verbatim>\<open>user/sh.c\<close>: the command parser of the shell. The line is a buffer of bytes before its NUL, and the pointers of
  the source are indices into it: \<^verbatim>\<open>es\<close> is its length, where the NUL is read. A command refers to words as
  pairs of indices, the start \<^verbatim>\<open>q\<close> and the end \<^verbatim>\<open>eq\<close> of the word, until \<^verbatim>\<open>nulterminate\<close> has cut them off in the buffer.
\<close>

section \<open>Commands\<close>

datatype 'w cmd =
    EXEC "'w list"
  | REDIR "'w cmd" (redir_file: 'w) nat nat
  | PIPE "'w cmd" "'w cmd"
  | LIST "'w cmd" "'w cmd"
  | BACK "'w cmd"

type_synonym span = "nat \<times> nat"

definition MAXARGS :: nat where "MAXARGS = 10"

text \<open>A \<^verbatim>\<open>panic\<close> ends the process that parses; running out of fuel stands for a parser that does not return.\<close>

datatype sh_error = ShPanic string | NoFuel

type_synonym 'a parse = "sh_error + 'a \<times> nat"

definition sh_bind :: "'a parse \<Rightarrow> ('a \<Rightarrow> nat \<Rightarrow> 'b parse) \<Rightarrow> 'b parse" where
  "sh_bind m f = (case m of Inl e \<Rightarrow> Inl e | Inr (a, p) \<Rightarrow> f a p)"

section \<open>Tokens\<close>

text \<open>The strings \<^verbatim>\<open>whitespace\<close> (space, tab, return, newline, vertical tab) and \<^verbatim>\<open>symbols\<close>.\<close>

definition sh_whitespace :: bytes where "sh_whitespace = [32, 9, 13, 10, 11]"
definition sh_symbols :: bytes where "sh_symbols = cbytes ''<|>&;()''"

text \<open>The byte at an index, the NUL at the end.\<close>

definition at :: "bytes \<Rightarrow> nat \<Rightarrow> uint8" where
  "at buf s = (if s < length buf then buf ! s else 0)"

function scan :: "(uint8 \<Rightarrow> bool) \<Rightarrow> bytes \<Rightarrow> nat \<Rightarrow> nat" where
  "scan P buf s = (if s < length buf \<and> P (buf ! s) then scan P buf (s + 1) else s)"
  by pat_completeness auto
termination
  by (relation "measure (\<lambda>(P, buf, s). length buf - s)") auto

declare scan.simps [simp del]

abbreviation skip_ws :: "bytes \<Rightarrow> nat \<Rightarrow> nat" where
  "skip_ws \<equiv> scan (\<lambda>c. c \<in> set sh_whitespace)"

text \<open>The switch of \<^verbatim>\<open>gettoken\<close> on the first byte: the kind of the token and its end.\<close>

definition token_at :: "bytes \<Rightarrow> nat \<Rightarrow> uint8 \<times> nat" where
  "token_at buf s =
     (let c = at buf s in
      if c = 0 then (c, s)
      else if c \<in> set (cbytes ''|();&<'') then (c, s + 1)
      else if c = chr CHR ''>'' then
        (if at buf (s + 1) = chr CHR ''>'' then (chr CHR ''+'', s + 2) else (c, s + 1))
      else (chr CHR ''a'', scan (\<lambda>c. c \<notin> set sh_whitespace \<and> c \<notin> set sh_symbols) buf s))"

text \<open>\<^verbatim>\<open>gettoken\<close> returns the kind of the token, its span and the new position.\<close>

definition gettoken :: "bytes \<Rightarrow> nat \<Rightarrow> uint8 \<times> span \<times> nat" where
  "gettoken buf p = (let q = skip_ws buf p; (tok, s) = token_at buf q in (tok, (q, s), skip_ws buf s))"

definition peek :: "bytes \<Rightarrow> nat \<Rightarrow> bytes \<Rightarrow> bool \<times> nat" where
  "peek buf p toks = (let s = skip_ws buf p in (at buf s \<noteq> 0 \<and> at buf s \<in> set toks, s))"

section \<open>The parser\<close>

text \<open>The switch of \<^verbatim>\<open>parseredirs\<close> on the kind of redirection.\<close>

definition redircmd :: "uint8 \<Rightarrow> 'w cmd \<Rightarrow> 'w \<Rightarrow> 'w cmd" where
  "redircmd tok c w =
     (if tok = chr CHR ''<'' then REDIR c w (unat O_RDONLY) 0
      else if tok = chr CHR ''>'' then REDIR c w (unat (O_WRONLY OR O_CREATE OR O_TRUNC)) 1
      else REDIR c w (unat (O_WRONLY OR O_CREATE)) 1)"

fun parseredirs :: "nat \<Rightarrow> bytes \<Rightarrow> span cmd \<Rightarrow> nat \<Rightarrow> span cmd parse" where
  "parseredirs 0 buf c p = Inl NoFuel"
| "parseredirs (Suc k) buf c p =
     (let (r, p) = peek buf p (cbytes ''<>'') in
      if r then
        let (tok, _, p) = gettoken buf p; (tok2, w, p) = gettoken buf p in
        if tok2 \<noteq> chr CHR ''a'' then Inl (ShPanic ''missing file for redirection'')
        else parseredirs k buf (redircmd tok c w) p
      else Inr (c, p))"

text \<open>The \<^verbatim>\<open>execcmd\<close> of \<^verbatim>\<open>parseexec\<close> is filled in place while redirections are wrapped around it.\<close>

fun add_arg :: "'w \<Rightarrow> 'w cmd \<Rightarrow> 'w cmd" where
  "add_arg w (EXEC ws) = EXEC (ws @ [w])"
| "add_arg w (REDIR c f m d) = REDIR (add_arg w c) f m d"
| "add_arg w c = c"

fun parseargs :: "nat \<Rightarrow> bytes \<Rightarrow> span cmd \<Rightarrow> nat \<Rightarrow> nat \<Rightarrow> span cmd parse" where
  "parseargs 0 buf cm argc p = Inl NoFuel"
| "parseargs (Suc k) buf cm argc p =
     (let (r, p) = peek buf p (cbytes ''|)&;'') in
      if r then Inr (cm, p)
      else
        let (tok, w, p) = gettoken buf p in
        if tok = 0 then Inr (cm, p)
        else if tok \<noteq> chr CHR ''a'' then Inl (ShPanic ''syntax'')
        else if argc + 1 \<ge> MAXARGS then Inl (ShPanic ''too many args'')
        else sh_bind (parseredirs k buf (add_arg w cm) p) (\<lambda>cm p. parseargs k buf cm (argc + 1) p))"

text \<open>The loop of \<^verbatim>\<open>parseline\<close> over ampersands.\<close>

fun parseback :: "nat \<Rightarrow> bytes \<Rightarrow> span cmd \<Rightarrow> nat \<Rightarrow> span cmd parse" where
  "parseback 0 buf c p = Inl NoFuel"
| "parseback (Suc k) buf c p =
     (let (r, p) = peek buf p (cbytes ''&'') in
      if r then let (_, _, p) = gettoken buf p in parseback k buf (BACK c) p else Inr (c, p))"

fun parseline :: "nat \<Rightarrow> bytes \<Rightarrow> nat \<Rightarrow> span cmd parse"
  and parsepipe :: "nat \<Rightarrow> bytes \<Rightarrow> nat \<Rightarrow> span cmd parse"
  and parseblock :: "nat \<Rightarrow> bytes \<Rightarrow> nat \<Rightarrow> span cmd parse"
  and parseexec :: "nat \<Rightarrow> bytes \<Rightarrow> nat \<Rightarrow> span cmd parse" where
  "parseline 0 buf p = Inl NoFuel"
| "parseline (Suc k) buf p =
     sh_bind (parsepipe k buf p) (\<lambda>c p.
     sh_bind (parseback k buf c p) (\<lambda>c p.
     let (r, p) = peek buf p (cbytes '';'') in
     if r then
       let (_, _, p) = gettoken buf p in
       sh_bind (parseline k buf p) (\<lambda>d p. Inr (LIST c d, p))
     else Inr (c, p)))"
| "parsepipe 0 buf p = Inl NoFuel"
| "parsepipe (Suc k) buf p =
     sh_bind (parseexec k buf p) (\<lambda>c p.
     let (r, p) = peek buf p (cbytes ''|'') in
     if r then
       let (_, _, p) = gettoken buf p in
       sh_bind (parsepipe k buf p) (\<lambda>d p. Inr (PIPE c d, p))
     else Inr (c, p))"
| "parseblock 0 buf p = Inl NoFuel"
| "parseblock (Suc k) buf p =
     (let (r, p) = peek buf p (cbytes ''('') in
      if \<not> r then Inl (ShPanic ''parseblock'')
      else
        let (_, _, p) = gettoken buf p in
        sh_bind (parseline k buf p) (\<lambda>c p.
        let (r, p) = peek buf p (cbytes '')'') in
        if \<not> r then Inl (ShPanic ''syntax - missing )'')
        else let (_, _, p) = gettoken buf p in parseredirs k buf c p))"
| "parseexec 0 buf p = Inl NoFuel"
| "parseexec (Suc k) buf p =
     (let (r, p) = peek buf p (cbytes ''('') in
      if r then parseblock k buf p
      else sh_bind (parseredirs k buf (EXEC []) p) (\<lambda>cm p. parseargs k buf cm 0 p))"

section \<open>Cutting off the words\<close>

text \<open>A NUL stored at the end of a word; at the end of the line it is there already.\<close>

definition put_nul :: "nat \<Rightarrow> bytes \<Rightarrow> bytes" where
  "put_nul i buf = buf[i := 0]"

fun nulterminate :: "span cmd \<Rightarrow> bytes \<Rightarrow> bytes" where
  "nulterminate (EXEC ws) buf = fold (\<lambda>w buf. put_nul (snd w) buf) ws buf"
| "nulterminate (REDIR c w m d) buf = put_nul (snd w) (nulterminate c buf)"
| "nulterminate (PIPE c d) buf = nulterminate d (nulterminate c buf)"
| "nulterminate (LIST c d) buf = nulterminate d (nulterminate c buf)"
| "nulterminate (BACK c) buf = nulterminate c buf"

text \<open>The fuel covers the deepest nesting the line can have.\<close>

definition sh_fuel :: "bytes \<Rightarrow> nat" where
  "sh_fuel buf = 4 * length buf + 8"

text \<open>A line that is not used up is the error \<^verbatim>\<open>syntax\<close>; the line printed before it, with the leftover text, is not kept.\<close>

definition parsecmd :: "bytes \<Rightarrow> sh_error + span cmd \<times> bytes" where
  "parsecmd buf =
     (case parseline (sh_fuel buf) buf 0 of
        Inl e \<Rightarrow> Inl e
      | Inr (c, p) \<Rightarrow>
          let (_, p) = peek buf p [] in
          if p \<noteq> length buf then Inl (ShPanic ''syntax'')
          else Inr (c, nulterminate c buf))"

end
