(* ===== verification/ShInv.thy ===== *)
theory ShInv
  imports Sh
begin

text \<open>
  The correctness of the parser of \<^verbatim>\<open>user/sh.c\<close>: it returns on every line, what it accepts is a well-formed command, and it
  reads back every well-formed command that is printed with parentheses where the grammar needs them.
\<close>

section \<open>Every line is parsed or refused\<close>

definition plain :: "uint8 \<Rightarrow> bool" where
  "plain c \<longleftrightarrow> c \<notin> set sh_whitespace \<and> c \<notin> set sh_symbols"

text \<open>A word of the buffer: plain bytes, followed by another kind of byte or by the end of the line.\<close>

definition good_span :: "bytes \<Rightarrow> span \<Rightarrow> bool" where
  "good_span buf w \<longleftrightarrow> fst w < snd w \<and> snd w \<le> length buf \<and> (\<forall>i. fst w \<le> i \<and> i < snd w \<longrightarrow> plain (buf ! i))
     \<and> (snd w < length buf \<longrightarrow> \<not> plain (buf ! snd w))"

definition redir_modes :: "(nat \<times> nat) set" where
  "redir_modes = {(unat O_RDONLY, 0), (unat (O_WRONLY OR O_CREATE OR O_TRUNC), 1), (unat (O_WRONLY OR O_CREATE), 1)}"

text \<open>The commands the parser builds: room for the final null pointer in each argument vector, and one of
  the three kinds of redirection.\<close>

fun shape :: "'w cmd \<Rightarrow> bool" where
  "shape (EXEC ws) \<longleftrightarrow> length ws < MAXARGS"
| "shape (REDIR c f m d) \<longleftrightarrow> shape c \<and> (m, d) \<in> redir_modes"
| "shape (PIPE c d) \<longleftrightarrow> shape c \<and> shape d"
| "shape (LIST c d) \<longleftrightarrow> shape c \<and> shape d"
| "shape (BACK c) \<longleftrightarrow> shape c"

definition parsed :: "bytes \<Rightarrow> nat \<Rightarrow> span cmd parse \<Rightarrow> bool" where
  "parsed buf p r \<longleftrightarrow> (case r of Inl e \<Rightarrow> e \<noteq> NoFuel
     | Inr (c, p') \<Rightarrow> p \<le> p' \<and> p' \<le> length buf \<and> shape c \<and> (\<forall>w\<in>set_cmd c. good_span buf w))"

lemma parsed_simps [simp]:
  "parsed buf p (Inl e) \<longleftrightarrow> e \<noteq> NoFuel"
  "parsed buf p (Inr (c, p')) \<longleftrightarrow> p \<le> p' \<and> p' \<le> length buf \<and> shape c \<and> (\<forall>w\<in>set_cmd c. good_span buf w)"
  by (simp_all add: parsed_def)

lemma parsed_mono: "parsed buf p' r \<Longrightarrow> p \<le> p' \<Longrightarrow> parsed buf p r"
  by (auto simp: parsed_def split: sum.splits)

lemma parsed_bind:
  assumes "parsed buf p m"
    and "\<And>c p'. m = Inr (c, p') \<Longrightarrow> p \<le> p' \<Longrightarrow> p' \<le> length buf \<Longrightarrow> shape c \<Longrightarrow> \<forall>w\<in>set_cmd c. good_span buf w \<Longrightarrow> parsed buf p' (f c p')"
  shows "parsed buf p (sh_bind m f)"
  using assms by (auto simp: sh_bind_def parsed_def [of buf p m] split: sum.splits intro: parsed_mono)

lemma scan_spec:
  "s \<le> scan P buf s" "s \<le> length buf \<Longrightarrow> scan P buf s \<le> length buf" "s \<le> i \<Longrightarrow> i < scan P buf s \<Longrightarrow> P (buf ! i)"
  "scan P buf s < length buf \<Longrightarrow> \<not> P (buf ! scan P buf s)"
proof -
  show "s \<le> scan P buf s" by (induction P buf s rule: scan.induct) (subst scan.simps, auto)
  show "s \<le> length buf \<Longrightarrow> scan P buf s \<le> length buf" by (induction P buf s rule: scan.induct) (subst scan.simps, auto)
  show "s \<le> i \<Longrightarrow> i < scan P buf s \<Longrightarrow> P (buf ! i)"
    by (induction P buf s rule: scan.induct) (metis (full_types) Suc_eq_plus1 le_antisym not_less_eq_eq scan.simps linorder_not_less)
  show "scan P buf s < length buf \<Longrightarrow> \<not> P (buf ! scan P buf s)"
    by (induction P buf s rule: scan.induct) (metis scan.simps)
qed

lemma byte_values:
  "chr CHR ''a'' = 97" "chr CHR ''>'' = 62" "chr CHR ''<'' = 60" "chr CHR ''+'' = 43"
  "sh_whitespace = [32, 9, 13, 10, 11]" "sh_symbols = [60, 124, 62, 38, 59, 40, 41]"
  "cbytes ''|();&<'' = [124, 40, 41, 59, 38, 60]"
  by (simp_all add: chr_def of_char_def sh_whitespace_def sh_symbols_def cbytes_def)

lemma peek_spec:
  assumes "peek buf p toks = (r, p')" "p \<le> length buf"
  shows "p \<le> p'" "p' \<le> length buf" "r \<longleftrightarrow> at buf p' \<noteq> 0 \<and> at buf p' \<in> set toks" "p' < length buf \<Longrightarrow> buf ! p' \<notin> set sh_whitespace"
  using assms scan_spec [where s = p and P = "\<lambda>c. c \<in> set sh_whitespace" and buf = buf] by (auto simp: peek_def Let_def)

lemma at_nonzero: "at buf s \<noteq> 0 \<Longrightarrow> s < length buf"
  by (simp add: at_def split: if_splits)

lemma token_at_spec:
  assumes t: "token_at buf s = (tok, e)" and s: "s \<le> length buf" "s < length buf \<Longrightarrow> buf ! s \<notin> set sh_whitespace"
  shows "s \<le> e" "e \<le> length buf" "tok \<noteq> 0 \<Longrightarrow> s < e" "tok = chr CHR ''a'' \<Longrightarrow> good_span buf (s, e)"
proof -
  let ?word = "scan (\<lambda>c. c \<notin> set sh_whitespace \<and> c \<notin> set sh_symbols) buf s"
  note wd = scan_spec [where s = s and P = "\<lambda>c. c \<notin> set sh_whitespace \<and> c \<notin> set sh_symbols" and buf = buf]
  have word: "s < ?word" if "at buf s \<noteq> 0" "at buf s \<notin> set (cbytes ''|();&<'')" "at buf s \<noteq> chr CHR ''>''"
  proof -
    have b: "s < length buf" by (rule at_nonzero [OF that(1)])
    then have "buf ! s \<notin> set sh_symbols" using that by (auto simp: byte_values at_def)
    then show ?thesis
      using s(2) [OF b] b scan_spec(1) [where s = "s + 1" and P = "\<lambda>c. c \<notin> set sh_whitespace \<and> c \<notin> set sh_symbols" and buf = buf]
      by (subst scan.simps) auto
  qed
  show "s \<le> e" "e \<le> length buf" "tok \<noteq> 0 \<Longrightarrow> s < e"
    using t s(1) wd(1,2) word at_nonzero [of buf s] at_nonzero [of buf "s + 1"]
    by (auto simp: token_at_def Let_def byte_values split: if_splits)
  show "good_span buf (s, e)" if "tok = chr CHR ''a''"
  proof -
    have "e = ?word" "s < ?word" using that t word by (auto simp: token_at_def Let_def byte_values split: if_splits)
    then show ?thesis using wd s(1) by (auto simp: good_span_def plain_def)
  qed
qed

lemma gettoken_spec:
  assumes g: "gettoken buf p = (tok, w, p')" and p: "p \<le> length buf"
  shows "p \<le> p'" "p' \<le> length buf" "tok \<noteq> 0 \<Longrightarrow> p < p'" "tok = chr CHR ''a'' \<Longrightarrow> good_span buf w"
proof -
  note s = scan_spec [where s = p and P = "\<lambda>c. c \<in> set sh_whitespace" and buf = buf]
  obtain e where e: "token_at buf (skip_ws buf p) = (tok, e)" "w = (skip_ws buf p, e)" "p' = skip_ws buf e"
    using g by (auto simp: gettoken_def Let_def split: prod.splits)
  have t: "skip_ws buf p \<le> e" "e \<le> length buf" "tok \<noteq> 0 \<Longrightarrow> skip_ws buf p < e" "tok = chr CHR ''a'' \<Longrightarrow> good_span buf (skip_ws buf p, e)"
    using token_at_spec [OF e(1) s(2) [OF p]] s(4) by auto
  note k = scan_spec(1,2) [where s = e and P = "\<lambda>c. c \<in> set sh_whitespace" and buf = buf]
  show "p \<le> p'" "p' \<le> length buf" "tok \<noteq> 0 \<Longrightarrow> p < p'" "tok = chr CHR ''a'' \<Longrightarrow> good_span buf w"
    using s(1) t k e(2,3) by (auto intro: le_trans)
qed

text \<open>After a successful \<^verbatim>\<open>peek\<close> the token that follows is consumed.\<close>

lemma peek_gettoken:
  assumes "peek buf p toks = (True, p')" "gettoken buf p' = (tok, w, p'')" "p \<le> length buf"
  shows "p < p''" "p'' \<le> length buf"
proof -
  note pk = peek_spec [OF assms(1,3)]
  have "skip_ws buf p' = p'" using pk(2-4) at_nonzero [of buf p'] by (subst scan.simps) auto
  moreover have "fst (token_at buf p') \<noteq> 0" using pk(3) by (auto simp: token_at_def Let_def byte_values)
  ultimately have "tok \<noteq> 0" using assms(2) by (auto simp: gettoken_def Let_def split: prod.splits)
  then show "p < p''" "p'' \<le> length buf" using gettoken_spec [OF assms(2) pk(2)] pk(1) by auto
qed

lemma redircmd_shape: "shape c \<Longrightarrow> shape (redircmd tok c w)" "set_cmd (redircmd tok c w) = insert w (set_cmd c)"
  by (auto simp: redircmd_def redir_modes_def)

lemma parseredirs_parsed:
  "length buf - p < k \<Longrightarrow> p \<le> length buf \<Longrightarrow> shape c \<Longrightarrow> \<forall>w\<in>set_cmd c. good_span buf w \<Longrightarrow> parsed buf p (parseredirs k buf c p)"
proof (induction k arbitrary: c p)
  case (Suc k)
  obtain r p1 where pk: "peek buf p (cbytes ''<>'') = (r, p1)" by force
  obtain tok w0 p2 where g1: "gettoken buf p1 = (tok, w0, p2)" by (metis surj_pair)
  obtain tok2 w p3 where g2: "gettoken buf p2 = (tok2, w, p3)" by (metis surj_pair)
  show ?case
  proof (cases "r \<and> tok2 = chr CHR ''a''")
    case True
    have p2: "p < p2" "p2 \<le> length buf" using peek_gettoken [OF _ g1 Suc.prems(2)] pk True by auto
    note G = gettoken_spec [OF g2 p2(2)]
    have "parsed buf p3 (parseredirs k buf (redircmd tok c w) p3)"
      using p2 G True Suc.prems by (intro Suc.IH) (auto simp: redircmd_shape)
    then show ?thesis using pk True g1 g2 p2 G by (auto intro: parsed_mono)
  next
    case False
    then show ?thesis using pk g1 g2 peek_spec [OF pk Suc.prems(2)] Suc.prems by auto
  qed
qed simp

fun arg_count :: "'w cmd \<Rightarrow> nat" where
  "arg_count (EXEC ws) = length ws"
| "arg_count (REDIR c f m d) = arg_count c"
| "arg_count c = 0"

fun is_exec :: "'w cmd \<Rightarrow> bool" where
  "is_exec (EXEC ws) = True"
| "is_exec (REDIR c f m d) = is_exec c"
| "is_exec c = False"

lemma redircmd_exec: "arg_count (redircmd tok c w) = arg_count c" "is_exec (redircmd tok c w) = is_exec c"
  by (simp_all add: redircmd_def)

lemma parseredirs_exec:
  "parseredirs k buf c p = Inr (c', p') \<Longrightarrow> arg_count c' = arg_count c \<and> is_exec c' = is_exec c"
proof (induction k arbitrary: c p)
  case (Suc k)
  obtain r p1 where pk: "peek buf p (cbytes ''<>'') = (r, p1)" by force
  obtain tok w0 p2 where g1: "gettoken buf p1 = (tok, w0, p2)" by (metis surj_pair)
  obtain tok2 w p3 where g2: "gettoken buf p2 = (tok2, w, p3)" by (metis surj_pair)
  show ?case using Suc.prems Suc.IH [of "redircmd tok c w" p3] by (simp add: pk g1 g2 redircmd_exec split: if_splits)
qed simp

lemma add_arg_spec:
  "is_exec c \<Longrightarrow> arg_count (add_arg w c) = Suc (arg_count c)" "is_exec (add_arg w c) = is_exec c"
  "is_exec c \<Longrightarrow> set_cmd (add_arg w c) = insert w (set_cmd c)"
  "shape c \<Longrightarrow> Suc (arg_count c) < MAXARGS \<Longrightarrow> shape (add_arg w c)"
  by (induction c) auto

lemma parseargs_parsed:
  "length buf - p < k \<Longrightarrow> p \<le> length buf \<Longrightarrow> shape c \<Longrightarrow> is_exec c \<Longrightarrow> arg_count c = n \<Longrightarrow> \<forall>w\<in>set_cmd c. good_span buf w \<Longrightarrow>
    parsed buf p (parseargs k buf c n p)"
proof (induction k arbitrary: c n p)
  case (Suc k)
  obtain r p1 where pk: "peek buf p (cbytes ''|)&;'') = (r, p1)" by force
  obtain tok w p2 where g: "gettoken buf p1 = (tok, w, p2)" by (metis surj_pair)
  note P = peek_spec [OF pk Suc.prems(2)]
  note G = gettoken_spec [OF g P(2)]
  show ?case
  proof (cases "\<not> r \<and> tok = chr CHR ''a'' \<and> n + 1 < MAXARGS")
    case True
    let ?c = "add_arg w c"
    have tok: "tok \<noteq> 0" using True by (simp add: byte_values)
    have c: "shape ?c" "is_exec ?c" "arg_count ?c = n + 1" "\<forall>w\<in>set_cmd ?c. good_span buf w"
      using add_arg_spec [where c = c and w = w] Suc.prems True G(4) by auto
    have "parsed buf p2 (sh_bind (parseredirs k buf ?c p2) (\<lambda>c p. parseargs k buf c (n + 1) p))"
    proof (rule parsed_bind)
      show "parsed buf p2 (parseredirs k buf ?c p2)" using Suc.prems(1) P G(2,3) tok c by (intro parseredirs_parsed) auto
      fix c' p'
      assume "parseredirs k buf ?c p2 = Inr (c', p')" "p2 \<le> p'" "p' \<le> length buf" "shape c'" "\<forall>w\<in>set_cmd c'. good_span buf w"
      then show "parsed buf p' (parseargs k buf c' (n + 1) p')"
        using Suc.prems(1) P G(3) tok c parseredirs_exec [of k buf ?c p2 c' p'] by (intro Suc.IH) auto
    qed
    then show ?thesis using True tok pk g P G by (auto simp: byte_values intro: parsed_mono)
  next
    case False
    then show ?thesis using pk g P G Suc.prems by auto
  qed
qed simp

lemma parseback_parsed:
  "length buf - p < k \<Longrightarrow> p \<le> length buf \<Longrightarrow> shape c \<Longrightarrow> \<forall>w\<in>set_cmd c. good_span buf w \<Longrightarrow> parsed buf p (parseback k buf c p)"
proof (induction k arbitrary: c p)
  case (Suc k)
  obtain r p1 where pk: "peek buf p (cbytes ''&'') = (r, p1)" by force
  obtain tok w p2 where g: "gettoken buf p1 = (tok, w, p2)" by (metis surj_pair)
  show ?case
  proof (cases r)
    case True
    have p2: "p < p2" "p2 \<le> length buf" using peek_gettoken [OF _ g Suc.prems(2)] pk True by auto
    have "parsed buf p2 (parseback k buf (BACK c) p2)" using p2 Suc.prems by (intro Suc.IH) auto
    then show ?thesis using pk g True p2 by (auto intro: parsed_mono)
  qed (use pk peek_spec [OF pk Suc.prems(2)] Suc.prems in auto)
qed simp

text \<open>What follows a command in \<^verbatim>\<open>parsepipe\<close>, \<^verbatim>\<open>parseline\<close> and \<^verbatim>\<open>parseblock\<close>.\<close>

definition pipe_rest :: "nat \<Rightarrow> bytes \<Rightarrow> span cmd \<Rightarrow> nat \<Rightarrow> span cmd parse" where
  "pipe_rest k buf c p = (let (r, p) = peek buf p (cbytes ''|'') in
     if r then let (_, _, p) = gettoken buf p in sh_bind (parsepipe k buf p) (\<lambda>d p. Inr (PIPE c d, p)) else Inr (c, p))"

definition line_rest :: "nat \<Rightarrow> bytes \<Rightarrow> span cmd \<Rightarrow> nat \<Rightarrow> span cmd parse" where
  "line_rest k buf c p = (let (r, p) = peek buf p (cbytes '';'') in
     if r then let (_, _, p) = gettoken buf p in sh_bind (parseline k buf p) (\<lambda>d p. Inr (LIST c d, p)) else Inr (c, p))"

definition block_rest :: "nat \<Rightarrow> bytes \<Rightarrow> span cmd \<Rightarrow> nat \<Rightarrow> span cmd parse" where
  "block_rest k buf c p = (let (r, p) = peek buf p (cbytes '')'') in
     if \<not> r then Inl (ShPanic ''syntax - missing )'') else let (_, _, p) = gettoken buf p in parseredirs k buf c p)"

lemma parsepipe_rest: "parsepipe (Suc k) buf p = sh_bind (parseexec k buf p) (pipe_rest k buf)"
  unfolding parsepipe.simps pipe_rest_def [abs_def] by (rule refl)

lemma parseline_rest: "parseline (Suc k) buf p = sh_bind (parsepipe k buf p) (\<lambda>c p. sh_bind (parseback k buf c p) (line_rest k buf))"
  unfolding parseline.simps line_rest_def [abs_def] by (rule refl)

lemma parseblock_rest:
  "parseblock (Suc k) buf p = (let (r, p) = peek buf p (cbytes ''('') in if \<not> r then Inl (ShPanic ''parseblock'')
     else let (_, _, p) = gettoken buf p in sh_bind (parseline k buf p) (block_rest k buf))"
  unfolding parseblock.simps block_rest_def [abs_def] by (rule refl)

lemmas parse_rest = parsepipe_rest parseline_rest parseblock_rest

lemma parsed_peek:
  assumes "p \<le> length buf"
    and "\<And>q. p < q \<Longrightarrow> q \<le> length buf \<Longrightarrow> parsed buf q (g q)"
    and "\<And>q. p \<le> q \<Longrightarrow> q \<le> length buf \<Longrightarrow> parsed buf q (h q)"
  shows "parsed buf p (let (r, p) = peek buf p cs in if r then let (_, _, p) = gettoken buf p in g p else h p)"
    and "parsed buf p (let (r, p) = peek buf p cs in if \<not> r then h p else let (_, _, p) = gettoken buf p in g p)"
proof -
  obtain r p1 where pk: "peek buf p cs = (r, p1)" by force
  obtain tok w p2 where g: "gettoken buf p1 = (tok, w, p2)" by (metis surj_pair)
  note P = peek_spec [OF pk assms(1)]
  have G: "p < p2 \<and> p2 \<le> length buf" if r using peek_gettoken [OF _ g assms(1)] pk that by auto
  have "parsed buf p (if r then g p2 else h p1)"
    using P G parsed_mono [OF assms(2), of p2 p] parsed_mono [OF assms(3), of p1 p] by (auto intro: less_imp_le)
  then show "parsed buf p (let (r, p) = peek buf p cs in if r then let (_, _, p) = gettoken buf p in g p else h p)"
    "parsed buf p (let (r, p) = peek buf p cs in if \<not> r then h p else let (_, _, p) = gettoken buf p in g p)"
    by (simp_all add: pk g split: if_splits)
qed

text \<open>One level of the grammar, given the levels it calls.\<close>

lemma pipe_parsed:
  assumes "p \<le> length buf" "parsed buf p (parseexec k buf p)" "\<And>q. p < q \<Longrightarrow> q \<le> length buf \<Longrightarrow> parsed buf q (parsepipe k buf q)"
  shows "parsed buf p (parsepipe (Suc k) buf p)"
  unfolding parse_rest
proof (rule parsed_bind [OF assms(2)])
  fix c q
  assume c: "p \<le> q" "q \<le> length buf" "shape c" "\<forall>w\<in>set_cmd c. good_span buf w"
  then show "parsed buf q (pipe_rest k buf c q)"
    unfolding pipe_rest_def by (intro parsed_peek parsed_bind [OF assms(3)]) auto
qed

lemma line_parsed:
  assumes "p \<le> length buf" "length buf - p < k" "parsed buf p (parsepipe k buf p)"
    and "\<And>q. p < q \<Longrightarrow> q \<le> length buf \<Longrightarrow> parsed buf q (parseline k buf q)"
  shows "parsed buf p (parseline (Suc k) buf p)"
  unfolding parse_rest
proof (intro parsed_bind [OF assms(3)] parsed_bind [OF parseback_parsed])
  fix c q d q'
  assume "p \<le> q" "q \<le> q'" "q' \<le> length buf" "shape d" "\<forall>w\<in>set_cmd d. good_span buf w"
  then show "parsed buf q' (line_rest k buf d q')"
    unfolding line_rest_def by (intro parsed_peek parsed_bind [OF assms(4)]) auto
qed (use assms(2) in auto)

lemma block_parsed:
  assumes "p \<le> length buf" "length buf - p \<le> k" "\<And>q. p < q \<Longrightarrow> q \<le> length buf \<Longrightarrow> parsed buf q (parseline k buf q)"
  shows "parsed buf p (parseblock (Suc k) buf p)"
  unfolding parse_rest
proof (intro parsed_peek [OF assms(1)] parsed_bind [OF assms(3)])
  fix q c q'
  assume "p < q" "q \<le> q'" "q' \<le> length buf" "shape c" "\<forall>w\<in>set_cmd c. good_span buf w"
  then show "parsed buf q' (block_rest k buf c q')"
    using assms(2) unfolding block_rest_def by (intro parsed_peek parseredirs_parsed) auto
qed auto

lemma exec_parsed:
  assumes "p \<le> length buf" "length buf - p < k" "\<And>q. p \<le> q \<Longrightarrow> q \<le> length buf \<Longrightarrow> parsed buf q (parseblock k buf q)"
  shows "parsed buf p (parseexec (Suc k) buf p)"
proof -
  obtain r p1 where pk: "peek buf p (cbytes ''('') = (r, p1)" by force
  note P = peek_spec [OF pk assms(1)]
  have "parsed buf p1 (sh_bind (parseredirs k buf (EXEC []) p1) (\<lambda>cm p. parseargs k buf cm 0 p))"
  proof (rule parsed_bind)
    show "parsed buf p1 (parseredirs k buf (EXEC []) p1)" using assms(2) P by (intro parseredirs_parsed) (auto simp: MAXARGS_def)
    fix c p2
    assume "parseredirs k buf (EXEC []) p1 = Inr (c, p2)" "p1 \<le> p2" "p2 \<le> length buf" "shape c" "\<forall>w\<in>set_cmd c. good_span buf w"
    then show "parsed buf p2 (parseargs k buf c 0 p2)"
      using assms(2) P parseredirs_exec [of k buf "EXEC []" p1 c p2] by (intro parseargs_parsed) auto
  qed
  then show ?thesis using assms(3) [of p1] pk P by (auto intro: parsed_mono)
qed

lemma parse_parsed:
  "p \<le> length buf \<Longrightarrow>
    (4 * (length buf - p) + 4 \<le> k \<longrightarrow> parsed buf p (parseline k buf p))
  \<and> (4 * (length buf - p) + 3 \<le> k \<longrightarrow> parsed buf p (parsepipe k buf p))
  \<and> (4 * (length buf - p) + 2 \<le> k \<longrightarrow> parsed buf p (parseexec k buf p))
  \<and> (4 * (length buf - p) + 1 \<le> k \<longrightarrow> parsed buf p (parseblock k buf p))"
proof (induction k arbitrary: p)
  case (Suc k)
  note IH = Suc.IH [THEN conjunct1, rule_format] Suc.IH [THEN conjunct2, THEN conjunct1, rule_format]
    Suc.IH [THEN conjunct2, THEN conjunct2, THEN conjunct1, rule_format] Suc.IH [THEN conjunct2, THEN conjunct2, THEN conjunct2, rule_format]
  show ?case
    using Suc.prems by (intro conjI impI line_parsed pipe_parsed exec_parsed block_parsed IH) auto
qed simp

section \<open>The words after the terminators are stored\<close>

definition word_at :: "bytes \<Rightarrow> span \<Rightarrow> bytes" where
  "word_at buf w = cstr (drop (fst w) buf)"

definition slice :: "bytes \<Rightarrow> span \<Rightarrow> bytes" where
  "slice buf w = take (snd w - fst w) (drop (fst w) buf)"

definition ends :: "span cmd \<Rightarrow> nat set" where
  "ends c = snd ` set_cmd c"

lemma nulterminate_nth:
  "length (nulterminate c buf) = length buf"
  "i < length buf \<Longrightarrow> nulterminate c buf ! i = (if i \<in> ends c then 0 else buf ! i)"
proof -
  have f: "length (fold (\<lambda>w. put_nul (snd w)) ws b) = length b"
    "i < length b \<Longrightarrow> fold (\<lambda>w. put_nul (snd w)) ws b ! i = (if i \<in> snd ` set ws then 0 else b ! i)" for ws b i
    by (induction ws arbitrary: b) (auto simp: put_nul_def nth_list_update)
  have len: "length (nulterminate c b) = length b" for c b by (induction c arbitrary: b) (auto simp: f put_nul_def)
  show "length (nulterminate c buf) = length buf" by (rule len)
  show "i < length buf \<Longrightarrow> nulterminate c buf ! i = (if i \<in> ends c then 0 else buf ! i)"
  proof (induction c arbitrary: buf)
    case (REDIR c w m d)
    then show ?case by (cases "i = snd w") (simp_all add: len put_nul_def ends_def)
  qed (simp_all add: f len ends_def image_Un)
qed

lemma good_span_end: "good_span buf w \<Longrightarrow> good_span buf v \<Longrightarrow> fst v \<le> i \<Longrightarrow> i < snd v \<Longrightarrow> i \<noteq> snd w"
  by (auto simp: good_span_def)

lemma cstr_prefix: "0 \<notin> set u \<Longrightarrow> v = [] \<or> hd v = 0 \<Longrightarrow> cstr (u @ v) = u"
  by (induction u) (cases v; auto)+

lemma word_at_slice:
  assumes "\<forall>w\<in>set_cmd c. good_span buf w" "w \<in> set_cmd c" "0 \<notin> set buf"
  shows "word_at (nulterminate c buf) w = slice buf w"
proof -
  let ?b = "nulterminate c buf"
  have w: "good_span buf w" using assms by blast
  then have le: "fst w < snd w" "snd w \<le> length buf" by (simp_all add: good_span_def)
  have same: "take (snd w - fst w) (drop (fst w) ?b) = slice buf w"
  proof (rule nth_equalityI)
    fix i
    assume "i < length (take (snd w - fst w) (drop (fst w) ?b))"
    then have i: "fst w + i < snd w" by auto
    then have "fst w + i \<notin> ends c" using good_span_end [OF _ w, of _ "fst w + i"] assms(1) by (auto simp: ends_def)
    then show "take (snd w - fst w) (drop (fst w) ?b) ! i = slice buf w ! i"
      using i le by (simp add: slice_def nulterminate_nth)
  qed (simp add: slice_def nulterminate_nth)
  have "drop (fst w) ?b = slice buf w @ drop (snd w) ?b"
    using append_take_drop_id [of "snd w - fst w" "drop (fst w) ?b"] le same by simp
  moreover have "0 \<notin> set (slice buf w)" using assms(3) by (auto simp: slice_def dest: in_set_takeD in_set_dropD)
  moreover have "drop (snd w) ?b = [] \<or> hd (drop (snd w) ?b) = 0"
    using assms(2) by (cases "snd w < length buf") (auto simp: hd_drop_conv_nth nulterminate_nth ends_def)
  ultimately show ?thesis unfolding word_at_def by (metis cstr_prefix)
qed

text \<open>The words a line can hold.\<close>

definition good_word :: "bytes \<Rightarrow> bool" where
  "good_word w \<longleftrightarrow> w \<noteq> [] \<and> list_all plain w \<and> 0 \<notin> set w"

lemma good_slice: "good_span buf w \<Longrightarrow> 0 \<notin> set buf \<Longrightarrow> good_word (slice buf w)"
  by (auto simp: good_word_def slice_def good_span_def list_all_length dest: in_set_takeD in_set_dropD)

lemma shape_map [simp]: "shape (map_cmd f c) = shape c"
  by (induction c) auto

definition wf_cmd :: "bytes cmd \<Rightarrow> bool" where
  "wf_cmd c \<longleftrightarrow> shape c \<and> pred_cmd good_word c"

lemma parsecmd_words:
  assumes "parsecmd buf = Inr (c, buf')" "0 \<notin> set buf"
  shows "map_cmd (word_at buf') c = map_cmd (slice buf) c" "wf_cmd (map_cmd (slice buf) c)"
proof -
  have P: "parsed buf 0 (parseline (sh_fuel buf) buf 0)" using parse_parsed [of 0 buf "sh_fuel buf"] by (simp add: sh_fuel_def)
  obtain p where c: "parseline (sh_fuel buf) buf 0 = Inr (c, p)" "buf' = nulterminate c buf"
    using assms(1) by (auto simp: parsecmd_def Let_def split: sum.splits prod.splits if_splits)
  then have g: "shape c" "\<forall>w\<in>set_cmd c. good_span buf w" using P by auto
  show "map_cmd (word_at buf') c = map_cmd (slice buf) c"
    unfolding c(2) by (rule cmd.map_cong [OF refl]) (rule word_at_slice [OF g(2) _ assms(2)])
  show "wf_cmd (map_cmd (slice buf) c)"
    using g good_slice [OF _ assms(2)] by (auto simp: wf_cmd_def cmd.pred_set cmd.set_map)
qed

text \<open>
  C23. The shell parses every line or refuses it: for every line without a NUL, \<^verbatim>\<open>parsecmd\<close> returns with a panic of the
  parser, or with a command in which every argument vector has room for its null pointer, every redirection is one of
  the three kinds, and every word, as the C string that is found at its pointer after the terminators have been
  stored in the line, is a non-empty string without blanks and symbols.
\<close>

theorem parsecmd_well_formed:
  assumes "0 \<notin> set buf"
  shows "case parsecmd buf of Inl e \<Rightarrow> e \<noteq> NoFuel | Inr (c, buf') \<Rightarrow> wf_cmd (map_cmd (word_at buf') c)"
proof (cases "parsecmd buf")
  case (Inl e)
  have "parsed buf 0 (parseline (sh_fuel buf) buf 0)" using parse_parsed [of 0 buf "sh_fuel buf"] by (simp add: sh_fuel_def)
  then have "e \<noteq> NoFuel" using Inl by (auto simp: parsecmd_def Let_def parsed_def split: sum.splits prod.splits if_splits)
  then show ?thesis by (simp add: Inl)
next
  case (Inr r)
  then show ?thesis using parsecmd_words [OF _ assms] by (cases r) simp
qed

theorem parsecmd_well_formed_witness:
  "\<exists>c buf'. parsecmd (cbytes ''ls >f'') = Inr (c, buf') \<and> wf_cmd (map_cmd (word_at buf') c)"
proof -
  have z: "0 \<notin> set (cbytes ''ls >f'')" by (simp add: cbytes_def chr_def of_char_def)
  have "\<not> isl (parsecmd (cbytes ''ls >f''))" by code_simp
  then obtain c buf' where "parsecmd (cbytes ''ls >f'') = Inr (c, buf')"
    by (cases "parsecmd (cbytes ''ls >f'')") auto
  then show ?thesis using parsecmd_well_formed [OF z] by auto
qed

section \<open>Printing commands\<close>

datatype tok = Sym uint8 | App | Word bytes

fun tok_bytes :: "tok \<Rightarrow> bytes" where
  "tok_bytes (Sym c) = [c]"
| "tok_bytes App = [62, 62]"
| "tok_bytes (Word w) = w"

fun tok_kind :: "tok \<Rightarrow> uint8" where
  "tok_kind (Sym c) = c"
| "tok_kind App = 43"
| "tok_kind (Word w) = 97"

fun good_tok :: "tok \<Rightarrow> bool" where
  "good_tok (Sym c) \<longleftrightarrow> c \<in> set sh_symbols"
| "good_tok App \<longleftrightarrow> True"
| "good_tok (Word w) \<longleftrightarrow> good_word w"

definition render :: "tok list \<Rightarrow> bytes" where
  "render ts = concat (map (\<lambda>t. tok_bytes t @ [32]) ts)"

definition mode_tok :: "nat \<Rightarrow> nat \<Rightarrow> tok" where
  "mode_tok m d = (if (m, d) = (unat O_RDONLY, 0) then Sym 60
     else if (m, d) = (unat (O_WRONLY OR O_CREATE OR O_TRUNC), 1) then Sym 62 else App)"

definition paren :: "bool \<Rightarrow> tok list \<Rightarrow> tok list" where
  "paren b ts = (if b then [Sym 40] @ ts @ [Sym 41] else ts)"

text \<open>A command as tokens, with parentheses where the level of the grammar needs them: 0 for a list, 1 for a command
  with ampersands, 2 for a pipeline, 3 for a command with redirections.\<close>

fun print_cmd :: "nat \<Rightarrow> bytes cmd \<Rightarrow> tok list" where
  "print_cmd l (EXEC ws) = map Word ws"
| "print_cmd l (REDIR c w m d) = print_cmd 3 c @ [mode_tok m d, Word w]"
| "print_cmd l (PIPE c d) = paren (l > 2) (print_cmd 3 c @ [Sym 124] @ print_cmd 2 d)"
| "print_cmd l (BACK c) = paren (l > 1) (print_cmd 1 c @ [Sym 38])"
| "print_cmd l (LIST c d) = paren (l > 0) (print_cmd 1 c @ [Sym 59] @ print_cmd 0 d)"

lemma redircmd_mode: "(m, d) \<in> redir_modes \<Longrightarrow> redircmd (tok_kind (mode_tok m d)) c w = REDIR c w m d"
  by (auto simp: redir_modes_def mode_tok_def redircmd_def byte_values O_RDONLY_def O_WRONLY_def O_CREATE_def O_TRUNC_def)

section \<open>Reading tokens back\<close>

lemma scan_drop: "scan P buf p = p + length (takeWhile P (drop p buf))"
proof (induction P buf p rule: scan.induct)
  case (1 P buf p)
  show ?case
  proof (cases "p < length buf")
    case True
    then have "drop p buf = buf ! p # drop (Suc p) buf" by (simp add: Cons_nth_drop_Suc)
    then show ?thesis using 1 True by (subst scan.simps) simp
  qed (subst scan.simps, simp)
qed

lemma drop_scan: "drop (scan P buf p) buf = dropWhile P (drop p buf)"
  by (simp add: scan_drop dropWhile_eq_drop add.commute)

lemma at_drop: "at buf s = (case drop s buf of [] \<Rightarrow> 0 | c # _ \<Rightarrow> c)"
  by (auto simp: at_def Cons_nth_drop_Suc [symmetric] not_less)

definition sees :: "bytes \<Rightarrow> nat \<Rightarrow> tok list \<Rightarrow> bool" where
  "sees buf p ts \<longleftrightarrow> list_all good_tok ts \<and> dropWhile (\<lambda>c. c \<in> set sh_whitespace) (drop p buf) = render ts"

definition starts :: "tok list \<Rightarrow> bytes \<Rightarrow> bool" where
  "starts ts cs \<longleftrightarrow> ts \<noteq> [] \<and> hd (tok_bytes (hd ts)) \<in> set cs"

lemma render_simps [simp]: "render [] = []" "render (t # ts) = tok_bytes t @ 32 # render ts" "render (ts @ ts') = render ts @ render ts'"
  by (simp_all add: render_def)

lemma good_tok_hd: "good_tok t \<Longrightarrow> tok_bytes t \<noteq> [] \<and> hd (tok_bytes t) \<notin> set sh_whitespace \<and> hd (tok_bytes t) \<noteq> 0"
proof (cases t)
  case (Word w)
  assume "good_tok t"
  then show ?thesis using Word by (cases w) (auto simp: good_word_def plain_def)
qed (auto simp: byte_values)

lemma dropWhile_render: "list_all good_tok ts \<Longrightarrow> dropWhile (\<lambda>c. c \<in> set sh_whitespace) (render ts) = render ts"
proof (cases ts)
  case (Cons t ts')
  assume "list_all good_tok ts"
  then show ?thesis using Cons good_tok_hd [of t] by (cases "tok_bytes t") auto
qed simp

lemma peek_sees:
  assumes "sees buf p ts"
  shows "\<exists>p'. peek buf p cs = (starts ts cs, p') \<and> sees buf p' ts"
proof -
  have d: "drop (skip_ws buf p) buf = render ts" "list_all good_tok ts" using assms by (simp_all add: drop_scan sees_def)
  have "peek buf p cs = (starts ts cs, skip_ws buf p)"
  proof (cases ts)
    case (Cons t ts')
    then show ?thesis using d good_tok_hd [of t] by (cases "tok_bytes t") (auto simp: peek_def Let_def at_drop starts_def)
  qed (use d in \<open>simp add: peek_def Let_def at_drop starts_def\<close>)
  moreover have "sees buf (skip_ws buf p) ts" using d by (simp add: sees_def dropWhile_render)
  ultimately show ?thesis by blast
qed

lemma gettoken_sees_end:
  assumes "sees buf p []"
  shows "\<exists>w p'. gettoken buf p = (0, w, p') \<and> sees buf p' []"
proof -
  have d: "drop (skip_ws buf p) buf = []" using assms by (simp add: drop_scan sees_def)
  then have t: "token_at buf (skip_ws buf p) = (0, skip_ws buf p)" by (simp add: token_at_def at_drop)
  have "sees buf (skip_ws buf (skip_ws buf p)) []" using d by (simp add: sees_def drop_scan)
  then show ?thesis using t by (simp add: gettoken_def Let_def)
qed

lemma takeWhile_word: "list_all P w \<Longrightarrow> \<not> P c \<Longrightarrow> takeWhile P (w @ c # r) = w"
  by (induction w) auto

lemma token_at_sees:
  assumes "drop s buf = tok_bytes t @ 32 # r" "good_tok t"
  shows "token_at buf s = (tok_kind t, s + length (tok_bytes t))"
proof (cases t)
  case (Sym c)
  have "drop (s + 1) buf = 32 # r" using assms(1) Sym drop_drop [of 1 s buf] by (simp add: add.commute)
  then show ?thesis using assms Sym by (auto simp: token_at_def at_drop Let_def byte_values split: list.splits)
next
  case App
  have "drop (s + 1) buf = 62 # 32 # r" using assms(1) App drop_drop [of 1 s buf] by (simp add: add.commute)
  then show ?thesis using assms App by (simp add: token_at_def at_drop Let_def byte_values)
next
  case (Word w)
  have g: "list_all plain w" "w \<noteq> []" "hd w \<noteq> 0" "plain (hd w)"
    using assms(2) Word by (auto simp: good_word_def neq_Nil_conv)
  have a: "at buf s = hd w" using assms(1) Word g(2) by (auto simp: at_drop neq_Nil_conv)
  have pl: "(\<lambda>c. c \<notin> set sh_whitespace \<and> c \<notin> set sh_symbols) = plain" by (simp add: fun_eq_iff plain_def)
  have "\<not> plain 32" by (simp add: plain_def byte_values)
  then have "scan plain buf s = s + length w" using assms(1) Word takeWhile_word [OF g(1)] by (simp add: scan_drop)
  moreover have "hd w \<notin> set (cbytes ''|();&<'')" "hd w \<noteq> chr CHR ''>''" using g(4) by (auto simp: plain_def byte_values)
  ultimately show ?thesis using a g(3) Word by (simp add: token_at_def Let_def pl byte_values(1))
qed

lemma gettoken_sees:
  assumes "sees buf p (t # ts)"
  shows "\<exists>w p'. gettoken buf p = (tok_kind t, w, p') \<and> slice buf w = tok_bytes t \<and> sees buf p' ts"
proof -
  let ?s = "skip_ws buf p"
  let ?e = "?s + length (tok_bytes t)"
  have d: "drop ?s buf = tok_bytes t @ 32 # render ts" "good_tok t" "list_all good_tok ts" using assms by (simp_all add: drop_scan sees_def)
  have "gettoken buf p = (tok_kind t, (?s, ?e), skip_ws buf ?e)" using token_at_sees [OF d(1,2)] by (simp add: gettoken_def Let_def)
  moreover have "slice buf (?s, ?e) = tok_bytes t" using d(1) by (simp add: slice_def)
  moreover have "drop ?e buf = 32 # render ts" using d(1) drop_drop [of "length (tok_bytes t)" ?s buf] by (simp add: add.commute)
  then have "drop (skip_ws buf ?e) buf = render ts" using dropWhile_render [OF d(3)] by (simp add: drop_scan byte_values)
  then have "sees buf (skip_ws buf ?e) ts" using d(3) by (simp add: sees_def dropWhile_render)
  ultimately show ?thesis by blast
qed

section \<open>Parsing what was printed\<close>

definition yields :: "bytes \<Rightarrow> span cmd parse \<Rightarrow> bytes cmd \<Rightarrow> tok list \<Rightarrow> bool" where
  "yields buf r c ts \<longleftrightarrow> (\<exists>c' p. r = Inr (c', p) \<and> map_cmd (slice buf) c' = c \<and> sees buf p ts)"

lemma yieldsI: "map_cmd (slice buf) c' = c \<Longrightarrow> sees buf p ts \<Longrightarrow> yields buf (Inr (c', p)) c ts"
  by (auto simp: yields_def)

lemma yields_bind:
  assumes "yields buf m c ts"
    and "\<And>c' p. map_cmd (slice buf) c' = c \<Longrightarrow> sees buf p ts \<Longrightarrow> yields buf (f c' p) d ts'"
  shows "yields buf (sh_bind m f) d ts'"
  using assms by (auto simp: yields_def [of buf m] sh_bind_def)

type_synonym redirs = "(tok \<times> bytes) list"

definition redir_toks :: "redirs \<Rightarrow> tok list" where
  "redir_toks rs = concat (map (\<lambda>(k, w). [k, Word w]) rs)"

definition wrap :: "redirs \<Rightarrow> bytes cmd \<Rightarrow> bytes cmd" where
  "wrap rs c = foldl (\<lambda>c (k, w). redircmd (tok_kind k) c w) c rs"

definition good_redirs :: "redirs \<Rightarrow> bool" where
  "good_redirs rs \<longleftrightarrow> list_all (\<lambda>(k, w). k \<in> {Sym 60, Sym 62, App}) rs"

lemma redir_simps [simp]:
  "redir_toks [] = []" "redir_toks ((k, w) # rs) = k # Word w # redir_toks rs"
  "wrap [] c = c" "wrap ((k, w) # rs) c = wrap rs (redircmd (tok_kind k) c w)"
  "good_redirs []" "good_redirs ((k, w) # rs) \<longleftrightarrow> k \<in> {Sym 60, Sym 62, App} \<and> good_redirs rs"
  by (simp_all add: redir_toks_def wrap_def good_redirs_def)

lemma map_redircmd: "map_cmd f (redircmd k c w) = redircmd k (map_cmd f c) (f w)"
  by (simp add: redircmd_def)

lemma starts_simps [simp]:
  "\<not> starts [] cs" "starts (Sym c # ts) cs \<longleftrightarrow> c \<in> set cs" "starts (App # ts) cs \<longleftrightarrow> 62 \<in> set cs"
  by (simp_all add: starts_def)

lemma starts_word: "good_word w \<Longrightarrow> set cs \<subseteq> set sh_symbols \<Longrightarrow> \<not> starts (Word w # ts) cs"
  by (cases w) (auto simp: starts_def good_word_def plain_def)

lemma sym_bytes:
  "cbytes ''<>'' = [60, 62]" "cbytes ''|)&;'' = [124, 41, 38, 59]" "cbytes ''&'' = [38]" "cbytes '';'' = [59]" "cbytes ''|'' = [124]"
  "cbytes ''('' = [40]" "cbytes '')'' = [41]"
  by (simp_all add: cbytes_def chr_def of_char_def)

lemma sees_good: "sees buf p ts \<Longrightarrow> list_all good_tok ts"
  by (simp add: sees_def)

lemma parseredirs_sees:
  "sees buf p (redir_toks rs @ ts) \<Longrightarrow> good_redirs rs \<Longrightarrow> \<not> starts ts [60, 62] \<Longrightarrow> length rs < k \<Longrightarrow>
    yields buf (parseredirs k buf c' p) (wrap rs (map_cmd (slice buf) c')) ts"
proof (induction rs arbitrary: k c' p)
  case Nil
  then obtain j where k: "k = Suc j" by (cases k) auto
  obtain p1 where "peek buf p [60, 62] = (starts ts [60, 62], p1)" "sees buf p1 ts" using peek_sees [OF Nil.prems(1)] by auto
  then show ?case using Nil.prems(3) by (simp add: k sym_bytes yieldsI)
next
  case (Cons r rs)
  obtain t w where r: "r = (t, w)" by force
  obtain j where k: "k = Suc j" using Cons.prems(4) by (cases k) auto
  obtain p1 where 1: "peek buf p [60, 62] = (starts (redir_toks (r # rs) @ ts) [60, 62], p1)" "sees buf p1 (t # Word w # redir_toks rs @ ts)"
    using peek_sees [OF Cons.prems(1)] by (auto simp: r)
  obtain w1 p2 where 2: "gettoken buf p1 = (tok_kind t, w1, p2)" "sees buf p2 (Word w # redir_toks rs @ ts)"
    using gettoken_sees [OF 1(2)] by blast
  obtain w2 p3 where 3: "gettoken buf p2 = (97, w2, p3)" "slice buf w2 = w" "sees buf p3 (redir_toks rs @ ts)"
    using gettoken_sees [OF 2(2)] by auto
  have "yields buf (parseredirs j buf (redircmd (tok_kind t) c' w2) p3) (wrap rs (map_cmd (slice buf) (redircmd (tok_kind t) c' w2))) ts"
    using 3(3) Cons.prems by (intro Cons.IH) (auto simp: k r)
  moreover have "starts (redir_toks (r # rs) @ ts) [60, 62]" using Cons.prems(2) by (auto simp: r)
  ultimately show ?case using 1(1) 2(1) 3(1,2) by (simp add: k sym_bytes byte_values(1) r map_redircmd)
qed

lemma map_add_arg: "map_cmd f (add_arg w c) = add_arg (f w) (map_cmd f c)"
  by (induction c) auto

abbreviation stops :: "tok list \<Rightarrow> bytes \<Rightarrow> bool" where
  "stops ts cs \<equiv> ts = [] \<or> starts ts cs"

lemma parseargs_end:
  assumes "sees buf p ts" "stops ts [124, 41, 38, 59]" "0 < k"
  shows "yields buf (parseargs k buf c' n p) (map_cmd (slice buf) c') ts"
proof -
  obtain j where k: "k = Suc j" using assms(3) by (cases k) auto
  obtain p1 where 1: "peek buf p [124, 41, 38, 59] = (starts ts [124, 41, 38, 59], p1)" "sees buf p1 ts"
    using peek_sees [OF assms(1)] by blast
  show ?thesis
  proof (cases "ts = []")
    case True
    obtain w p2 where "gettoken buf p1 = (0, w, p2)" "sees buf p2 []" using gettoken_sees_end 1(2) True by blast
    then show ?thesis using 1 True by (simp add: k sym_bytes yieldsI)
  next
    case False
    then show ?thesis using 1 assms(2) by (simp add: k sym_bytes yieldsI)
  qed
qed

lemma parseargs_sees:
  "sees buf p (map Word ws @ redir_toks rs @ ts) \<Longrightarrow> ws \<noteq> [] \<Longrightarrow> good_redirs rs \<Longrightarrow> stops ts [124, 41, 38, 59] \<Longrightarrow>
    n + length ws < MAXARGS \<Longrightarrow> length ws + length rs < k \<Longrightarrow>
    yields buf (parseargs k buf c' n p) (wrap rs (foldl (\<lambda>c w. add_arg w c) (map_cmd (slice buf) c') ws)) ts"
proof (induction ws arbitrary: k c' n p)
  case (Cons w ws)
  obtain j where k: "k = Suc j" using Cons.prems(6) by (cases k) auto
  have g: "good_word w" "list_all good_tok (map Word ws)" using sees_good [OF Cons.prems(1)] by simp_all
  obtain p1 where 1: "peek buf p [124, 41, 38, 59] = (False, p1)" "sees buf p1 (map Word (w # ws) @ redir_toks rs @ ts)"
    using peek_sees [OF Cons.prems(1), of "[124, 41, 38, 59]"] starts_word [OF g(1), of "[124, 41, 38, 59]"]
    by (auto simp: byte_values)
  obtain v p2 where 2: "gettoken buf p1 = (97, v, p2)" "slice buf v = w" "sees buf p2 (map Word ws @ redir_toks rs @ ts)"
    using gettoken_sees [of buf p1 "Word w" "map Word ws @ redir_toks rs @ ts"] 1(2) by auto
  let ?c = "add_arg v c'"
  have "yields buf (sh_bind (parseredirs j buf ?c p2) (\<lambda>cm p. parseargs j buf cm (n + 1) p))
      (wrap rs (foldl (\<lambda>c w. add_arg w c) (map_cmd (slice buf) ?c) ws)) ts"
  proof (cases "ws = []")
    case True
    have "\<not> starts ts [60, 62]" using Cons.prems(4) by (auto simp: starts_def)
    then have "yields buf (parseredirs j buf ?c p2) (wrap rs (map_cmd (slice buf) ?c)) ts"
      using 2(3) Cons.prems True by (intro parseredirs_sees) (auto simp: k)
    then show ?thesis
    proof (rule yields_bind)
      fix c'' p
      assume "map_cmd (slice buf) c'' = wrap rs (map_cmd (slice buf) ?c)" "sees buf p ts"
      then show "yields buf (parseargs j buf c'' (n + 1) p) (wrap rs (foldl (\<lambda>c w. add_arg w c) (map_cmd (slice buf) ?c) ws)) ts"
        using parseargs_end [of buf p ts j c'' "n + 1"] Cons.prems(4,6) True by (simp add: k)
    qed
  next
    case False
    then have ns: "\<not> starts (map Word ws @ redir_toks rs @ ts) [60, 62]"
      using g(2) starts_word [of "hd ws" "[60, 62]"] by (cases ws) (auto simp: byte_values)
    have "yields buf (parseredirs j buf ?c p2) (wrap [] (map_cmd (slice buf) ?c)) (map Word ws @ redir_toks rs @ ts)"
      using 2(3) ns Cons.prems(6) by (intro parseredirs_sees) (auto simp: k)
    then show ?thesis
    proof (rule yields_bind)
      fix c'' p
      assume c: "map_cmd (slice buf) c'' = wrap [] (map_cmd (slice buf) ?c)" and "sees buf p (map Word ws @ redir_toks rs @ ts)"
      then have "yields buf (parseargs j buf c'' (n + 1) p) (wrap rs (foldl (\<lambda>c w. add_arg w c) (map_cmd (slice buf) c'') ws)) ts"
        using False Cons.prems by (intro Cons.IH) (auto simp: k)
      then show "yields buf (parseargs j buf c'' (n + 1) p) (wrap rs (foldl (\<lambda>c w. add_arg w c) (map_cmd (slice buf) ?c) ws)) ts"
        using c by simp
    qed
  qed
  then show ?case using 1(1) 2(1,2) Cons.prems(5) by (simp add: k sym_bytes byte_values(1) map_add_arg)
qed simp

lemma foldl_add_arg: "foldl (\<lambda>c w. add_arg w c) (EXEC vs) ws = EXEC (vs @ ws)"
  by (induction ws arbitrary: vs) auto

text \<open>With enough fuel, the routine \<open>f\<close> reads the tokens \<open>us\<close> as the command \<open>c\<close>, wherever they are, if what follows them is one
  of the symbols \<open>cs\<close> or the end of the line.\<close>

definition reads :: "bytes \<Rightarrow> (nat \<Rightarrow> nat \<Rightarrow> span cmd parse) \<Rightarrow> tok list \<Rightarrow> bytes \<Rightarrow> bytes cmd \<Rightarrow> bool" where
  "reads buf f us cs c \<longleftrightarrow> (\<exists>K. \<forall>k\<ge>K. \<forall>p ts. sees buf p (us @ ts) \<longrightarrow> stops ts cs \<longrightarrow> yields buf (f k p) c ts)"

text \<open>The parser at each level of the grammar: the command may be followed by redirections, or by ampersands.\<close>

definition reads_exec :: "bytes \<Rightarrow> bytes cmd \<Rightarrow> bool" where
  "reads_exec buf c \<longleftrightarrow> (\<forall>rs. good_redirs rs \<longrightarrow>
     reads buf (\<lambda>k. parseexec k buf) (print_cmd 3 c @ redir_toks rs) [124, 41, 38, 59] (wrap rs c))"

definition reads_pipe :: "bytes \<Rightarrow> bytes cmd \<Rightarrow> bool" where
  "reads_pipe buf c \<longleftrightarrow> reads buf (\<lambda>k. parsepipe k buf) (print_cmd 2 c) [41, 38, 59] c"

definition reads_back :: "bytes \<Rightarrow> bytes cmd \<Rightarrow> bool" where
  "reads_back buf c \<longleftrightarrow> (\<forall>n. reads buf (\<lambda>k p. sh_bind (parsepipe k buf p) (parseback k buf))
     (print_cmd 1 c @ replicate n (Sym 38)) [41, 59] ((BACK ^^ n) c))"

definition reads_line :: "bytes \<Rightarrow> bytes cmd \<Rightarrow> bool" where
  "reads_line buf c \<longleftrightarrow> reads buf (\<lambda>k. parseline k buf) (print_cmd 0 c) [41] c"

lemma readsI:
  "(\<And>k p ts. K \<le> k \<Longrightarrow> sees buf p (us @ ts) \<Longrightarrow> stops ts cs \<Longrightarrow> yields buf (f k p) c ts) \<Longrightarrow> reads buf f us cs c"
  by (auto simp: reads_def)

lemma reads_SucI:
  "(\<And>k p ts. K \<le> k \<Longrightarrow> sees buf p (us @ ts) \<Longrightarrow> stops ts cs \<Longrightarrow> yields buf (f (Suc k) p) c ts) \<Longrightarrow> reads buf f us cs c"
  by (rule readsI [of "Suc K"]) (metis Suc_le_D Suc_le_mono)

lemma readsD:
  assumes "reads buf f us cs c"
  obtains K where "\<And>k p ts. K \<le> k \<Longrightarrow> sees buf p (us @ ts) \<Longrightarrow> stops ts cs \<Longrightarrow> yields buf (f k p) c ts"
  using assms by (auto simp: reads_def)

lemma sh_bind_assoc: "sh_bind (sh_bind m f) g = sh_bind m (\<lambda>a p. sh_bind (f a p) g)"
  by (auto simp: sh_bind_def split: sum.split)

lemma sees_symbol:
  assumes "sees buf p (Sym c # ts)" "c \<in> set cs"
  shows "\<exists>p1 w p2. peek buf p cs = (True, p1) \<and> gettoken buf p1 = (c, w, p2) \<and> sees buf p2 ts"
proof -
  obtain p1 where 1: "peek buf p cs = (True, p1)" "sees buf p1 (Sym c # ts)"
    using peek_sees [OF assms(1), of cs] assms(2) by auto
  obtain w p2 where "gettoken buf p1 = (c, w, p2)" "sees buf p2 ts" using gettoken_sees [OF 1(2)] by auto
  then show ?thesis using 1(1) by blast
qed

lemma stops_other: "stops ts cs \<Longrightarrow> set cs \<inter> set ds = {} \<Longrightarrow> \<not> starts ts ds"
  by (auto simp: starts_def)

lemma stops_more: "stops ts cs \<Longrightarrow> set cs \<subseteq> set ds \<Longrightarrow> stops ts ds"
  by (auto simp: starts_def)

lemma parseback_sees:
  "sees buf p (replicate n (Sym 38) @ ts) \<Longrightarrow> \<not> starts ts [38] \<Longrightarrow> n < k \<Longrightarrow>
    yields buf (parseback k buf c' p) ((BACK ^^ n) (map_cmd (slice buf) c')) ts"
proof (induction n arbitrary: k c' p)
  case 0
  then obtain j where k: "k = Suc j" by (cases k) auto
  obtain p1 where "peek buf p [38] = (starts ts [38], p1)" "sees buf p1 ts" using peek_sees [OF 0(1)] by auto
  then show ?case using 0(2) by (simp add: k sym_bytes yieldsI)
next
  case (Suc n)
  then obtain j where k: "k = Suc j" "n < j" by (cases k) auto
  obtain p1 w p2 where 1: "peek buf p [38] = (True, p1)" "gettoken buf p1 = (38, w, p2)" "sees buf p2 (replicate n (Sym 38) @ ts)"
    using sees_symbol [of buf p 38 "replicate n (Sym 38) @ ts" "[38]"] Suc.prems(1) by auto
  show ?case using Suc.IH [OF 1(3) Suc.prems(2) k(2), of "BACK c'"] 1(1,2) by (simp add: k(1) sym_bytes funpow_swap1)
qed

lemma pipe_rest_end: "sees buf p ts \<Longrightarrow> \<not> starts ts [124] \<Longrightarrow> yields buf (pipe_rest k buf c' p) (map_cmd (slice buf) c') ts"
  using peek_sees [of buf p ts "[124]"] by (auto simp: pipe_rest_def sym_bytes yieldsI)

lemma line_rest_end: "sees buf p ts \<Longrightarrow> \<not> starts ts [59] \<Longrightarrow> yields buf (line_rest k buf c' p) (map_cmd (slice buf) c') ts"
  using peek_sees [of buf p ts "[59]"] by (auto simp: line_rest_def sym_bytes yieldsI)

lemma exec_pipe:
  assumes "reads_exec buf c" "print_cmd 2 c = print_cmd 3 c"
  shows "reads_pipe buf c"
proof -
  have "reads buf (\<lambda>k. parseexec k buf) (print_cmd 2 c) [124, 41, 38, 59] c"
    using assms(1) [unfolded reads_exec_def, rule_format, of "[]"] by (simp add: assms(2))
  then obtain K where K: "\<And>k p ts. K \<le> k \<Longrightarrow> sees buf p (print_cmd 2 c @ ts) \<Longrightarrow> stops ts [124, 41, 38, 59] \<Longrightarrow> yields buf (parseexec k buf p) c ts"
    by (rule readsD) blast
  show ?thesis
    unfolding reads_pipe_def
  proof (rule reads_SucI [of K])
    fix k p ts
    assume k: "K \<le> k" "sees buf p (print_cmd 2 c @ ts)" and stop: "stops ts [41, 38, 59]"
    have "yields buf (parseexec k buf p) c ts" using K [OF k] stops_more [OF stop] by simp
    then show "yields buf (parsepipe (Suc k) buf p) c ts"
      unfolding parse_rest using pipe_rest_end stops_other [OF stop, of "[124]"] by (elim yields_bind) auto
  qed
qed

lemma pipe_back:
  assumes "reads_pipe buf c" "print_cmd 1 c = print_cmd 2 c"
  shows "reads_back buf c"
  unfolding reads_back_def
proof
  fix n
  obtain K where K: "\<And>k p ts. K \<le> k \<Longrightarrow> sees buf p (print_cmd 2 c @ ts) \<Longrightarrow> stops ts [41, 38, 59] \<Longrightarrow> yields buf (parsepipe k buf p) c ts"
    using assms(1) unfolding reads_pipe_def by (rule readsD) blast
  show "reads buf (\<lambda>k p. sh_bind (parsepipe k buf p) (parseback k buf)) (print_cmd 1 c @ replicate n (Sym 38)) [41, 59] ((BACK ^^ n) c)"
  proof (rule readsI [of "max K (Suc n)"])
    fix k p ts
    assume k: "max K (Suc n) \<le> k" and s: "sees buf p ((print_cmd 1 c @ replicate n (Sym 38)) @ ts)" and stop: "stops ts [41, 59]"
    have "stops (replicate n (Sym 38) @ ts) [41, 38, 59]" using stops_more [OF stop] by (cases n) auto
    then have "yields buf (parsepipe k buf p) c (replicate n (Sym 38) @ ts)" using K k s unfolding assms(2) by simp
    then show "yields buf (sh_bind (parsepipe k buf p) (parseback k buf)) ((BACK ^^ n) c) ts"
      using parseback_sees [of buf _ n ts k] stops_other [OF stop, of "[38]"] k by (elim yields_bind) auto
  qed
qed

lemma back_line:
  assumes "reads_back buf c" "print_cmd 0 c = print_cmd 1 c"
  shows "reads_line buf c"
proof -
  have "reads buf (\<lambda>k p. sh_bind (parsepipe k buf p) (parseback k buf)) (print_cmd 0 c) [41, 59] c"
    unfolding assms(2) using assms(1) [unfolded reads_back_def, rule_format, of 0] by simp
  then obtain K where K: "\<And>k p ts. K \<le> k \<Longrightarrow> sees buf p (print_cmd 0 c @ ts) \<Longrightarrow> stops ts [41, 59] \<Longrightarrow>
      yields buf (sh_bind (parsepipe k buf p) (parseback k buf)) c ts"
    by (rule readsD) blast
  show ?thesis
    unfolding reads_line_def
  proof (rule reads_SucI [of K])
    fix k p ts
    assume k: "K \<le> k" "sees buf p (print_cmd 0 c @ ts)" and stop: "stops ts [41]"
    have "yields buf (sh_bind (parsepipe k buf p) (parseback k buf)) c ts" using K [OF k] stops_more [OF stop] by simp
    then show "yields buf (parseline (Suc k) buf p) c ts"
      unfolding parse_rest sh_bind_assoc [symmetric] using line_rest_end stops_other [OF stop, of "[59]"] by (elim yields_bind) auto
  qed
qed

text \<open>A command in parentheses, with its redirections.\<close>

lemma block_rest_sees:
  assumes "sees buf p (Sym 41 # redir_toks rs @ ts)" "good_redirs rs" "\<not> starts ts [60, 62]" "length rs < k"
  shows "yields buf (block_rest k buf c' p) (wrap rs (map_cmd (slice buf) c')) ts"
proof -
  obtain p1 v p2 where "peek buf p [41] = (True, p1)" "gettoken buf p1 = (41, v, p2)" "sees buf p2 (redir_toks rs @ ts)"
    using sees_symbol [OF assms(1), of "[41]"] by auto
  then show ?thesis using parseredirs_sees [OF _ assms(2-4)] by (simp add: block_rest_def sym_bytes)
qed

lemma line_block:
  assumes "reads_line buf c" "good_redirs rs"
  shows "reads buf (\<lambda>k. parseblock k buf) (Sym 40 # print_cmd 0 c @ Sym 41 # redir_toks rs) [124, 41, 38, 59] (wrap rs c)"
proof -
  obtain K where K: "\<And>k p ts. K \<le> k \<Longrightarrow> sees buf p (print_cmd 0 c @ ts) \<Longrightarrow> stops ts [41] \<Longrightarrow> yields buf (parseline k buf p) c ts"
    using assms(1) unfolding reads_line_def by (rule readsD) blast
  show ?thesis
  proof (rule reads_SucI [of "max K (Suc (length rs))"])
    fix k p ts
    assume k: "max K (Suc (length rs)) \<le> k" and stop: "stops ts [124, 41, 38, 59]"
      and s: "sees buf p ((Sym 40 # print_cmd 0 c @ Sym 41 # redir_toks rs) @ ts)"
    have ns: "\<not> starts ts [60, 62]" using stop by (auto simp: starts_def)
    obtain p1 w p2 where 1: "peek buf p [40] = (True, p1)" "gettoken buf p1 = (40, w, p2)"
      "sees buf p2 (print_cmd 0 c @ Sym 41 # redir_toks rs @ ts)"
      using sees_symbol [of buf p 40 _ "[40]"] s by fastforce
    have "yields buf (parseline k buf p2) c (Sym 41 # redir_toks rs @ ts)" using K 1(3) k by simp
    then have "yields buf (sh_bind (parseline k buf p2) (block_rest k buf)) (wrap rs c) ts"
      by (rule yields_bind) (use block_rest_sees [OF _ assms(2) ns] k in auto)
    then show "yields buf (parseblock (Suc k) buf p) (wrap rs c) ts"
      unfolding parse_rest using 1(1,2) by (simp add: sym_bytes)
  qed
qed

lemma line_exec:
  assumes "reads_line buf c" "print_cmd 3 c = [Sym 40] @ print_cmd 0 c @ [Sym 41]"
  shows "reads_exec buf c"
  unfolding reads_exec_def
proof (intro allI impI)
  fix rs
  assume rs: "good_redirs rs"
  let ?us = "Sym 40 # print_cmd 0 c @ Sym 41 # redir_toks rs"
  obtain K where K: "\<And>k p ts. K \<le> k \<Longrightarrow> sees buf p (?us @ ts) \<Longrightarrow> stops ts [124, 41, 38, 59] \<Longrightarrow> yields buf (parseblock k buf p) (wrap rs c) ts"
    using line_block [OF assms(1) rs] by (rule readsD) blast
  show "reads buf (\<lambda>k. parseexec k buf) (print_cmd 3 c @ redir_toks rs) [124, 41, 38, 59] (wrap rs c)"
  proof (rule reads_SucI [of K])
    fix k p ts
    assume k: "K \<le> k" "sees buf p ((print_cmd 3 c @ redir_toks rs) @ ts)" "stops ts [124, 41, 38, 59]"
    obtain p1 where "peek buf p [40] = (True, p1)" "sees buf p1 (?us @ ts)"
      using peek_sees [OF k(2), of "[40]"] by (auto simp: assms(2))
    then show "yields buf (parseexec (Suc k) buf p) (wrap rs c) ts" using K k by (simp add: sym_bytes)
  qed
qed

lemma redirs_args_sees:
  assumes s: "sees buf p (map Word ws @ redir_toks rs @ ts)" and rs: "good_redirs rs" and stop: "stops ts [124, 41, 38, 59]"
    and ws: "length ws < MAXARGS" and k: "length ws + length rs < k"
  shows "yields buf (sh_bind (parseredirs k buf (EXEC []) p) (\<lambda>cm p. parseargs k buf cm 0 p)) (wrap rs (EXEC ws)) ts"
proof (cases "ws = []")
  case True
  have "\<not> starts ts [60, 62]" using stop by (auto simp: starts_def)
  then have "yields buf (parseredirs k buf (EXEC []) p) (wrap rs (EXEC [])) ts"
    using parseredirs_sees [OF _ rs, of buf p _ k "EXEC []"] s k True by simp
  then show ?thesis
  proof (rule yields_bind)
    fix c' q
    assume "map_cmd (slice buf) c' = wrap rs (EXEC [])" "sees buf q ts"
    then show "yields buf (parseargs k buf c' 0 q) (wrap rs (EXEC ws)) ts"
      using parseargs_end [of buf q ts k c' 0] stop k True by simp
  qed
next
  case False
  have "\<not> starts (map Word ws @ redir_toks rs @ ts) [60, 62]"
    using False sees_good [OF s] starts_word [of "hd ws" "[60, 62]"] by (cases ws) (auto simp: byte_values)
  then have "yields buf (parseredirs k buf (EXEC []) p) (wrap [] (EXEC [])) (map Word ws @ redir_toks rs @ ts)"
    using parseredirs_sees [of buf p "[]" _ k "EXEC []"] s k by simp
  then show ?thesis
  proof (rule yields_bind)
    fix c' p2
    assume c: "map_cmd (slice buf) c' = wrap [] (EXEC [])" and s2: "sees buf p2 (map Word ws @ redir_toks rs @ ts)"
    show "yields buf (parseargs k buf c' 0 p2) (wrap rs (EXEC ws)) ts"
      using parseargs_sees [OF s2 False rs stop, of 0 k c'] ws k c by (simp add: foldl_add_arg)
  qed
qed

lemma exec_words:
  assumes "length ws < MAXARGS"
  shows "reads_exec buf (EXEC ws)"
  unfolding reads_exec_def
proof (intro allI impI)
  fix rs
  assume rs: "good_redirs rs"
  show "reads buf (\<lambda>k. parseexec k buf) (print_cmd 3 (EXEC ws) @ redir_toks rs) [124, 41, 38, 59] (wrap rs (EXEC ws))"
  proof (rule reads_SucI [of "Suc (length ws + length rs)"])
    fix k p ts
    assume k: "Suc (length ws + length rs) \<le> k" and stop: "stops ts [124, 41, 38, 59]"
      and "sees buf p ((print_cmd 3 (EXEC ws) @ redir_toks rs) @ ts)"
    then have s: "sees buf p (map Word ws @ redir_toks rs @ ts)" by simp
    have "\<not> starts (map Word ws @ redir_toks rs @ ts) [40]"
    proof (cases ws)
      case Nil
      then show ?thesis using rs stop by (cases rs) (auto simp: starts_def)
    next
      case (Cons w ws')
      then show ?thesis using sees_good [OF s] starts_word [of w "[40]"] by (auto simp: byte_values)
    qed
    then obtain p1 where 1: "peek buf p [40] = (False, p1)" "sees buf p1 (map Word ws @ redir_toks rs @ ts)"
      using peek_sees [OF s, of "[40]"] by auto
    show "yields buf (parseexec (Suc k) buf p) (wrap rs (EXEC ws)) ts"
      using redirs_args_sees [OF 1(2) rs stop assms, of k] k 1(1) by (simp add: sym_bytes)
  qed
qed

lemma mode_tok_redir: "mode_tok m d \<in> {Sym 60, Sym 62, App}"
  by (simp add: mode_tok_def)

lemma exec_redir:
  assumes "reads_exec buf c" "(m, d) \<in> redir_modes"
  shows "reads_exec buf (REDIR c w m d)"
  unfolding reads_exec_def
proof (intro allI impI)
  fix rs
  assume "good_redirs rs"
  then show "reads buf (\<lambda>k. parseexec k buf) (print_cmd 3 (REDIR c w m d) @ redir_toks rs) [124, 41, 38, 59] (wrap rs (REDIR c w m d))"
    using assms(1) [unfolded reads_exec_def, rule_format, of "(mode_tok m d, w) # rs"] mode_tok_redir [of m d]
    by (simp add: redircmd_mode [OF assms(2)])
qed

lemma pipe_pipe:
  assumes "reads_exec buf c" "reads_pipe buf d"
  shows "reads_pipe buf (PIPE c d)"
proof -
  have "reads buf (\<lambda>k. parseexec k buf) (print_cmd 3 c) [124, 41, 38, 59] c"
    using assms(1) [unfolded reads_exec_def, rule_format, of "[]"] by simp
  then obtain K where K: "\<And>k p ts. K \<le> k \<Longrightarrow> sees buf p (print_cmd 3 c @ ts) \<Longrightarrow> stops ts [124, 41, 38, 59] \<Longrightarrow> yields buf (parseexec k buf p) c ts"
    by (rule readsD) blast
  obtain L where L: "\<And>k p ts. L \<le> k \<Longrightarrow> sees buf p (print_cmd 2 d @ ts) \<Longrightarrow> stops ts [41, 38, 59] \<Longrightarrow> yields buf (parsepipe k buf p) d ts"
    using assms(2) unfolding reads_pipe_def by (rule readsD) blast
  show ?thesis
    unfolding reads_pipe_def
  proof (rule reads_SucI [of "max K L"])
    fix k p ts
    assume k: "max K L \<le> k" and s: "sees buf p (print_cmd 2 (PIPE c d) @ ts)" and stop: "stops ts [41, 38, 59]"
    have "yields buf (parseexec k buf p) c (Sym 124 # print_cmd 2 d @ ts)" using K k s by (simp add: paren_def)
    then show "yields buf (parsepipe (Suc k) buf p) (PIPE c d) ts"
      unfolding parse_rest
    proof (rule yields_bind)
      fix c' q
      assume c: "map_cmd (slice buf) c' = c" and s': "sees buf q (Sym 124 # print_cmd 2 d @ ts)"
      obtain p1 w p2 where 1: "peek buf q [124] = (True, p1)" "gettoken buf p1 = (124, w, p2)" "sees buf p2 (print_cmd 2 d @ ts)"
        using sees_symbol [OF s', of "[124]"] by auto
      have "yields buf (parsepipe k buf p2) d ts" using L 1(3) stop k by simp
      then have "yields buf (sh_bind (parsepipe k buf p2) (\<lambda>d p. Inr (PIPE c' d, p))) (PIPE c d) ts"
        by (rule yields_bind) (simp add: yieldsI c)
      then show "yields buf (pipe_rest k buf c' q) (PIPE c d) ts" using 1 by (simp add: pipe_rest_def sym_bytes)
    qed
  qed
qed

lemma back_back:
  assumes "reads_back buf c"
  shows "reads_back buf (BACK c)"
  unfolding reads_back_def
proof
  fix n
  show "reads buf (\<lambda>k p. sh_bind (parsepipe k buf p) (parseback k buf)) (print_cmd 1 (BACK c) @ replicate n (Sym 38)) [41, 59] ((BACK ^^ n) (BACK c))"
    using assms [unfolded reads_back_def, rule_format, of "Suc n"] by (simp add: paren_def funpow_swap1)
qed

lemma list_line:
  assumes "reads_back buf c" "reads_line buf d"
  shows "reads_line buf (LIST c d)"
proof -
  have "reads buf (\<lambda>k p. sh_bind (parsepipe k buf p) (parseback k buf)) (print_cmd 1 c) [41, 59] c"
    using assms(1) [unfolded reads_back_def, rule_format, of 0] by simp
  then obtain K where K: "\<And>k p ts. K \<le> k \<Longrightarrow> sees buf p (print_cmd 1 c @ ts) \<Longrightarrow> stops ts [41, 59] \<Longrightarrow>
      yields buf (sh_bind (parsepipe k buf p) (parseback k buf)) c ts"
    by (rule readsD) blast
  obtain L where L: "\<And>k p ts. L \<le> k \<Longrightarrow> sees buf p (print_cmd 0 d @ ts) \<Longrightarrow> stops ts [41] \<Longrightarrow> yields buf (parseline k buf p) d ts"
    using assms(2) unfolding reads_line_def by (rule readsD) blast
  show ?thesis
    unfolding reads_line_def
  proof (rule reads_SucI [of "max K L"])
    fix k p ts
    assume k: "max K L \<le> k" and s: "sees buf p (print_cmd 0 (LIST c d) @ ts)" and stop: "stops ts [41]"
    have "yields buf (sh_bind (parsepipe k buf p) (parseback k buf)) c (Sym 59 # print_cmd 0 d @ ts)" using K k s by (simp add: paren_def)
    then show "yields buf (parseline (Suc k) buf p) (LIST c d) ts"
      unfolding parse_rest sh_bind_assoc [symmetric]
    proof (rule yields_bind)
      fix c' q
      assume c: "map_cmd (slice buf) c' = c" and s': "sees buf q (Sym 59 # print_cmd 0 d @ ts)"
      obtain p1 w p2 where 1: "peek buf q [59] = (True, p1)" "gettoken buf p1 = (59, w, p2)" "sees buf p2 (print_cmd 0 d @ ts)"
        using sees_symbol [OF s', of "[59]"] by auto
      have "yields buf (parseline k buf p2) d ts" using L 1(3) stop k by simp
      then have "yields buf (sh_bind (parseline k buf p2) (\<lambda>d p. Inr (LIST c' d, p))) (LIST c d) ts"
        by (rule yields_bind) (simp add: yieldsI c)
      then show "yields buf (line_rest k buf c' q) (LIST c d) ts" using 1 by (simp add: line_rest_def sym_bytes)
    qed
  qed
qed

text \<open>Every well-formed command is read back at every level.\<close>

lemma reads_cmd:
  "shape c \<Longrightarrow> reads_exec buf c \<and> reads_pipe buf c \<and> reads_back buf c \<and> reads_line buf c"
proof (induction c)
  case (EXEC ws)
  then show ?case using exec_words [of ws buf] by (simp add: exec_pipe pipe_back back_line)
next
  case (REDIR c w m d)
  then show ?case using exec_redir [of buf c m d w] by (simp add: exec_pipe pipe_back back_line)
next
  case (PIPE c d)
  then show ?case using pipe_pipe [of buf c d] by (simp add: pipe_back back_line line_exec paren_def)
next
  case (LIST c d)
  then have l: "reads_line buf (LIST c d)" using list_line by simp
  have e: "reads_exec buf (LIST c d)" using l by (rule line_exec) (simp add: paren_def)
  then show ?case using l by (simp add: exec_pipe pipe_back paren_def)
next
  case (BACK c)
  then have b: "reads_back buf (BACK c)" using back_back by simp
  then have l: "reads_line buf (BACK c)" by (rule back_line) (simp add: paren_def)
  then have "reads_exec buf (BACK c)" by (rule line_exec) (simp add: paren_def)
  then show ?case using b l by (simp add: exec_pipe paren_def)
qed

section \<open>More fuel\<close>

text \<open>A result that is not the lack of fuel stays the same with more fuel.\<close>

definition fuel_le :: "'a parse \<Rightarrow> 'a parse \<Rightarrow> bool" where
  "fuel_le r r' \<longleftrightarrow> r = Inl NoFuel \<or> r' = r"

lemma fuel_le_refl [simp, intro]: "fuel_le r r" "fuel_le (Inl NoFuel) r"
  by (simp_all add: fuel_le_def)

lemma fuel_le_bind: "fuel_le m m' \<Longrightarrow> (\<And>a p. fuel_le (f a p) (f' a p)) \<Longrightarrow> fuel_le (sh_bind m f) (sh_bind m' f')"
  by (fastforce simp: fuel_le_def sh_bind_def split: sum.split)

lemma fuel_le_peek:
  assumes "\<And>p. fuel_le (g p) (g' p)" "\<And>p. fuel_le (h p) (h' p)"
  shows "fuel_le (let (r, p) = peek buf p cs in if r then let (_, _, p) = gettoken buf p in g p else h p)
     (let (r, p) = peek buf p cs in if r then let (_, _, p) = gettoken buf p in g' p else h' p)"
    "fuel_le (let (r, p) = peek buf p cs in if \<not> r then h p else let (_, _, p) = gettoken buf p in g p)
     (let (r, p) = peek buf p cs in if \<not> r then h' p else let (_, _, p) = gettoken buf p in g' p)"
  using assms by (auto simp: Let_def split: prod.split)

lemma parseredirs_fuel: "k \<le> k' \<Longrightarrow> fuel_le (parseredirs k buf c p) (parseredirs k' buf c p)"
proof (induction k arbitrary: c p k')
  case (Suc k)
  then obtain j where j: "k' = Suc j" "k \<le> j" by (cases k') auto
  show ?case using Suc.IH [OF j(2)] by (auto simp: j(1) Let_def split: prod.split)
qed simp

lemma parseargs_fuel: "k \<le> k' \<Longrightarrow> fuel_le (parseargs k buf c n p) (parseargs k' buf c n p)"
proof (induction k arbitrary: c n p k')
  case (Suc k)
  then obtain j where j: "k' = Suc j" "k \<le> j" by (cases k') auto
  show ?case using Suc.IH [OF j(2)] parseredirs_fuel [OF j(2)] by (auto simp: j(1) Let_def intro!: fuel_le_bind split: prod.split)
qed simp

lemma parseback_fuel: "k \<le> k' \<Longrightarrow> fuel_le (parseback k buf c p) (parseback k' buf c p)"
proof (induction k arbitrary: c p k')
  case (Suc k)
  then obtain j where j: "k' = Suc j" "k \<le> j" by (cases k') auto
  show ?case using Suc.IH [OF j(2)] by (auto simp: j(1) Let_def split: prod.split)
qed simp

lemma parse_fuel:
  "k \<le> k' \<Longrightarrow> fuel_le (parseline k buf p) (parseline k' buf p) \<and> fuel_le (parsepipe k buf p) (parsepipe k' buf p)
     \<and> fuel_le (parseblock k buf p) (parseblock k' buf p) \<and> fuel_le (parseexec k buf p) (parseexec k' buf p)"
proof (induction k arbitrary: p k')
  case (Suc k)
  then obtain j where j: "k' = Suc j" "k \<le> j" by (cases k') auto
  note IH = Suc.IH [OF j(2), THEN conjunct1] Suc.IH [OF j(2), THEN conjunct2, THEN conjunct1]
    Suc.IH [OF j(2), THEN conjunct2, THEN conjunct2, THEN conjunct1] Suc.IH [OF j(2), THEN conjunct2, THEN conjunct2, THEN conjunct2]
  note lower = parseback_fuel [OF j(2)] parseredirs_fuel [OF j(2)] parseargs_fuel [OF j(2)]
  have "fuel_le (parseline (Suc k) buf p) (parseline (Suc j) buf p)" "fuel_le (parsepipe (Suc k) buf p) (parsepipe (Suc j) buf p)"
    "fuel_le (parseblock (Suc k) buf p) (parseblock (Suc j) buf p)"
    unfolding parseline.simps parsepipe.simps parseblock.simps by (intro fuel_le_bind fuel_le_peek IH lower fuel_le_refl)+
  moreover have "fuel_le (parseexec (Suc k) buf p) (parseexec (Suc j) buf p)"
    using IH(3) lower by (auto simp: Let_def intro!: fuel_le_bind split: prod.split)
  ultimately show ?case unfolding j(1) by blast
qed simp

lemma parseline_enough:
  assumes "parseline k buf p \<noteq> Inl NoFuel" "k \<le> k'"
  shows "parseline k' buf p = parseline k buf p"
  using parse_fuel [OF assms(2), THEN conjunct1, of buf p] assms(1) by (auto simp: fuel_le_def)

section \<open>The round trip\<close>

lemma print_good: "shape c \<Longrightarrow> pred_cmd good_word c \<Longrightarrow> list_all good_tok (print_cmd l c)"
proof (induction c arbitrary: l)
  case (EXEC ws)
  then show ?case by (simp add: list_all_iff)
next
  case (REDIR c w m d)
  then show ?case using mode_tok_redir [of m d] by (auto simp: byte_values)
qed (auto simp: paren_def byte_values)

lemma render_no_nul: "list_all good_tok ts \<Longrightarrow> 0 \<notin> set (render ts)"
proof (induction ts)
  case (Cons t ts)
  then show ?case by (cases t) (auto simp: byte_values good_word_def)
qed simp

lemma sees_end: "sees buf p [] \<Longrightarrow> p \<le> length buf \<Longrightarrow> snd (peek buf p cs) = length buf"
  using scan_spec(2) [of p buf "\<lambda>c. c \<in> set sh_whitespace"] drop_scan [of "\<lambda>c. c \<in> set sh_whitespace" buf p]
  by (simp add: sees_def peek_def Let_def del: dropWhile_eq_Nil_conv)

lemma parsecmd_reads:
  assumes "wf_cmd c"
  defines "buf \<equiv> render (print_cmd 0 c)"
  shows "\<exists>c'. parsecmd buf = Inr (c', nulterminate c' buf) \<and> map_cmd (slice buf) c' = c"
proof -
  have g: "list_all good_tok (print_cmd 0 c)" and sh: "shape c" using assms(1) print_good [of c] by (simp_all add: wf_cmd_def)
  obtain K where K: "\<And>k p ts. K \<le> k \<Longrightarrow> sees buf p (print_cmd 0 c @ ts) \<Longrightarrow> stops ts [41] \<Longrightarrow> yields buf (parseline k buf p) c ts"
    using reads_cmd [OF sh, of buf] unfolding reads_line_def by (metis readsD)
  let ?k = "max K (sh_fuel buf)"
  have P: "parsed buf 0 (parseline (sh_fuel buf) buf 0)" using parse_parsed [of 0 buf "sh_fuel buf"] by (simp add: sh_fuel_def)
  then have "parseline ?k buf 0 = parseline (sh_fuel buf) buf 0" by (intro parseline_enough) auto
  moreover have "yields buf (parseline ?k buf 0) c []" using K [of ?k 0 "[]"] g dropWhile_render [OF g] by (simp add: sees_def buf_def)
  ultimately obtain c' p where c: "parseline (sh_fuel buf) buf 0 = Inr (c', p)" "map_cmd (slice buf) c' = c" "sees buf p []"
    by (auto simp: yields_def)
  have "snd (peek buf p []) = length buf" using c(1) P by (intro sees_end c(3)) auto
  then show ?thesis using c(1,2) by (auto simp: parsecmd_def Let_def split: prod.split)
qed

text \<open>
  C17. The parser of the shell inverts the printer of commands. Every well-formed command (argument vectors with room for the
  null pointer, the three kinds of redirection, non-empty words without blanks and symbols) is printed with parentheses
  where the grammar needs them: around lists, background commands and pipelines that stand inside a pipeline or under a
  redirection, and so on. The line that results is accepted, and the command that \<^verbatim>\<open>parsecmd\<close> builds is the one printed, when
  each pointer in it is read as the C string in the line after \<^verbatim>\<open>nulterminate\<close> has cut off the words.
\<close>

theorem parsecmd_roundtrip:
  assumes "wf_cmd c"
  shows "\<exists>c' buf'. parsecmd (render (print_cmd 0 c)) = Inr (c', buf') \<and> map_cmd (word_at buf') c' = c"
proof -
  let ?buf = "render (print_cmd 0 c)"
  have z: "0 \<notin> set ?buf" using assms print_good [of c] by (intro render_no_nul) (simp add: wf_cmd_def)
  obtain c' where c: "parsecmd ?buf = Inr (c', nulterminate c' ?buf)" "map_cmd (slice ?buf) c' = c" using parsecmd_reads [OF assms] by blast
  then show ?thesis using parsecmd_words(1) [OF c(1) z] by auto
qed

theorem parsecmd_roundtrip_witness:
  "\<exists>c' buf'. parsecmd (render (print_cmd 0 (PIPE (EXEC [[108, 115]]) (LIST (EXEC [[119]]) (EXEC [[120]]))))) = Inr (c', buf')
     \<and> map_cmd (word_at buf') c' = PIPE (EXEC [[108, 115]]) (LIST (EXEC [[119]]) (EXEC [[120]]))"
  by (rule parsecmd_roundtrip) (simp add: wf_cmd_def MAXARGS_def good_word_def plain_def byte_values)

end
