(* ===== verification/Ulib.thy ===== *)
theory Ulib
  imports Grep ConsoleInv
begin

text \<open>
  The library of the user programs: the strings of \<^verbatim>\<open>user/ulib.c\<close> and the formatted output of \<^verbatim>\<open>user/printf.c\<close>. As in
  \<open>KString\<close>, routines on C strings work on buffers and \<^const>\<open>None\<close> is a read past the end of one; routines that copy bytes
  work on the memory of the process. A program writes to its descriptors with the system call \<^verbatim>\<open>write\<close>, which is a field of
  the state, as are the files the program can open.
\<close>

section \<open>Strings and memory (user/ulib.c)\<close>

text \<open>\<^verbatim>\<open>strcpy\<close> copies through memory until it has copied a NUL; it may run for ever, or over what it copies.\<close>

partial_function (option) ustrcpy :: "memory \<Rightarrow> uint64 \<Rightarrow> uint64 \<Rightarrow> memory option" where
  "ustrcpy m s t = (let c = m t; m' = m(s := c) in if c \<noteq> 0 then ustrcpy m' (s + 1) (t + 1) else Some m')"

fun ustrcmp :: "bytes \<Rightarrow> bytes \<Rightarrow> int option" where
  "ustrcmp (p # ps) (q # qs) = (if p \<noteq> 0 \<and> p = q then ustrcmp ps qs else Some (uint p - uint q))"
| "ustrcmp ps qs = None"

fun ustrlen_loop :: "bytes \<Rightarrow> cint \<Rightarrow> cint option" where
  "ustrlen_loop [] n = None"
| "ustrlen_loop (c # s) n = (if c \<noteq> 0 then ustrlen_loop s (n + 1) else Some n)"

definition ustrlen :: "bytes \<Rightarrow> uint32 option" where
  "ustrlen s = ustrlen_loop s 0"

definition umemset :: "memory \<Rightarrow> uint64 \<Rightarrow> cint \<Rightarrow> uint32 \<Rightarrow> memory" where
  "umemset m dst c n = memset_loop m dst (ucast c) (unat n)"

text \<open>\<^verbatim>\<open>strchr\<close> returns the rest of the buffer from the byte it found, or 0.\<close>

fun ustrchr :: "bytes \<Rightarrow> uint8 \<Rightarrow> bytes option option" where
  "ustrchr [] c = None"
| "ustrchr (b # s) c = (if b = 0 then Some None else if b = c then Some (Some (b # s)) else ustrchr s c)"

text \<open>
  \<^verbatim>\<open>gets\<close> reads byte by byte from the standard input, here the bytes that are still to come; the first component of the result is
  what it stores. With \<^verbatim>\<open>max\<close> less than 2 it stores the NUL alone.
\<close>

fun gets_loop :: "nat \<Rightarrow> bytes \<Rightarrow> bytes \<times> bytes" where
  "gets_loop 0 inp = ([], inp)"
| "gets_loop (Suc k) [] = ([], [])"
| "gets_loop (Suc k) (c # inp) =
     (if c = chr CHR 0x0A \<or> c = chr CHR 0x0D then ([c], inp) else case gets_loop k inp of (l, r) \<Rightarrow> (c # l, r))"

definition ugets :: "cint \<Rightarrow> bytes \<Rightarrow> bytes \<times> bytes" where
  "ugets mx inp = (case gets_loop (nat (sint mx - 1)) inp of (l, r) \<Rightarrow> (l @ [0], r))"

fun atoi_loop :: "bytes \<Rightarrow> cint \<Rightarrow> cint option" where
  "atoi_loop [] n = None"
| "atoi_loop (c # s) n =
     (if chr CHR ''0'' \<le> c \<and> c \<le> chr CHR ''9'' then atoi_loop s (n * 10 + ucast c - ucast (chr CHR ''0'')) else Some n)"

definition atoi :: "bytes \<Rightarrow> cint option" where
  "atoi s = atoi_loop s 0"

definition umemmove :: "memory \<Rightarrow> uint64 \<Rightarrow> uint64 \<Rightarrow> cint \<Rightarrow> memory" where
  "umemmove m vdst vsrc n =
     (if vsrc > vdst then copy_fwd m vdst vsrc (nat (sint n))
      else copy_bwd m (vdst + scast n) (vsrc + scast n) (nat (sint n)))"

fun umemcmp :: "bytes \<Rightarrow> bytes \<Rightarrow> nat \<Rightarrow> int option" where
  "umemcmp s1 s2 0 = Some 0"
| "umemcmp (a # s1) (b # s2) (Suc n) = (if a \<noteq> b then Some (uint a - uint b) else umemcmp s1 s2 n)"
| "umemcmp s1 s2 (Suc n) = None"

definition umemcpy :: "memory \<Rightarrow> uint64 \<Rightarrow> uint64 \<Rightarrow> uint32 \<Rightarrow> memory" where
  "umemcpy m dst src n = umemmove m dst src n"

section \<open>Formatted output (user/printf.c)\<close>

text \<open>
  The state of a user program that reads and writes files: what it has written to each descriptor, how the kernel answers a
  \<^verbatim>\<open>write\<close> (the number of bytes taken and the value returned), the files that \<^verbatim>\<open>open\<close> finds and the standard input. A file gives
  its bytes in pieces, after which \<^verbatim>\<open>read\<close> returns 0, or -1 if the flag is set.
\<close>

type_synonym ufile = "bytes list \<times> bool"

record userS =
  uout :: "nat \<Rightarrow> bytes"
  uwr :: "nat \<Rightarrow> bytes \<Rightarrow> nat \<times> cint"
  ufiles :: "bytes \<Rightarrow> ufile option"
  ustdin :: ufile

definition uwrite :: "nat \<Rightarrow> bytes \<Rightarrow> (userS, cint) kmon" where
  "uwrite fd bs = (\<lambda>s. case uwr s fd bs of (k, r) \<Rightarrow> Ok r (s\<lparr>uout := (uout s)(fd := uout s fd @ take k bs)\<rparr>))"

definition putc :: "nat \<Rightarrow> uint8 \<Rightarrow> (userS, unit) kmon" where
  "putc fd c = bnd (uwrite fd [c]) (\<lambda>_. ret ())"

definition udigits :: bytes where "udigits = cbytes ''0123456789ABCDEF''"

function uint_digits :: "nat \<Rightarrow> nat \<Rightarrow> bytes" where
  "uint_digits x base =
     udigits ! (x mod base) # (if x div base = 0 \<or> base \<le> 1 then [] else uint_digits (x div base) base)"
  by pat_completeness auto
termination
  by (relation "measure fst") (auto intro!: div_less_dividend simp: div_eq_0_iff)

declare uint_digits.simps [simp del]

text \<open>The negation of the smallest \<^verbatim>\<open>int\<close>, which C leaves undefined, is the wrap-around of the RISC-V instruction.\<close>

definition uprintint_buf :: "cint \<Rightarrow> nat \<Rightarrow> bool \<Rightarrow> bytes" where
  "uprintint_buf xx base sg =
     (let neg = sg \<and> sint xx < 0; x = (if neg then - xx else xx) in
      uint_digits (unat x) base @ (if neg then [chr CHR ''-''] else []))"

definition uprintint :: "nat \<Rightarrow> cint \<Rightarrow> nat \<Rightarrow> bool \<Rightarrow> (userS, unit) kmon" where
  "uprintint fd xx base sg =
     (let buf = uprintint_buf xx base sg in
      if length buf > 16 then fault ''printint: buffer'' else for_each (rev buf) (putc fd))"

fun uptr_digits :: "nat \<Rightarrow> uint64 \<Rightarrow> bytes" where
  "uptr_digits 0 x = []"
| "uptr_digits (Suc n) x = udigits ! unat (drop_bit 60 x) # uptr_digits n (push_bit 4 x)"

definition uprintptr :: "nat \<Rightarrow> uint64 \<Rightarrow> (userS, unit) kmon" where
  "uprintptr fd x = thn (putc fd (chr CHR ''0'')) (thn (putc fd (chr CHR ''x'')) (for_each (uptr_digits 16 x) (putc fd)))"

text \<open>The arguments of \<^verbatim>\<open>vprintf\<close>; one of the wrong type has no meaning in C.\<close>

datatype uarg = UInt cint | ULong uint64 | UStr "bytes option"

definition vprintf_arg :: "nat \<Rightarrow> uint8 \<Rightarrow> uarg list \<Rightarrow> (userS, uarg list) kmon" where
  "vprintf_arg fd c ap =
     (if c = chr CHR ''d'' then
        case ap of UInt i # r \<Rightarrow> thn (uprintint fd i 10 True) (ret r) | _ \<Rightarrow> fault ''va_arg''
      else if c = chr CHR ''l'' then
        case ap of ULong x # r \<Rightarrow> thn (uprintint fd (ucast x) 10 False) (ret r) | _ \<Rightarrow> fault ''va_arg''
      else if c = chr CHR ''x'' then
        case ap of UInt i # r \<Rightarrow> thn (uprintint fd i 16 False) (ret r) | _ \<Rightarrow> fault ''va_arg''
      else if c = chr CHR ''p'' then
        case ap of ULong x # r \<Rightarrow> thn (uprintptr fd x) (ret r) | _ \<Rightarrow> fault ''va_arg''
      else if c = chr CHR ''s'' then
        case ap of
          UStr (Some s) # r \<Rightarrow> thn (for_each (cstr s) (putc fd)) (ret r)
        | UStr None # r \<Rightarrow> thn (for_each (cbytes ''(null)'') (putc fd)) (ret r)
        | _ \<Rightarrow> fault ''va_arg''
      else if c = chr CHR ''c'' then
        case ap of UInt i # r \<Rightarrow> thn (putc fd (ucast i)) (ret r) | _ \<Rightarrow> fault ''va_arg''
      else if c = chr CHR ''%'' then thn (putc fd c) (ret ap)
      else thn (putc fd (chr CHR ''%'')) (thn (putc fd c) (ret ap)))"

text \<open>The loop over the format, with \<^verbatim>\<open>state\<close> as a flag for a per cent sign just read.\<close>

fun vprintf :: "nat \<Rightarrow> bytes \<Rightarrow> bool \<Rightarrow> uarg list \<Rightarrow> (userS, unit) kmon" where
  "vprintf fd [] st ap = ret ()"
| "vprintf fd (c # fmt) st ap =
     (if c = 0 then ret ()
      else if \<not> st then
        if c = chr CHR ''%'' then vprintf fd fmt True ap
        else thn (putc fd c) (vprintf fd fmt False ap)
      else bnd (vprintf_arg fd c ap) (vprintf fd fmt False))"

definition ufprintf :: "nat \<Rightarrow> bytes \<Rightarrow> uarg list \<Rightarrow> (userS, unit) kmon" where
  "ufprintf fd fmt ap = vprintf fd fmt False ap"

definition uprintf :: "bytes \<Rightarrow> uarg list \<Rightarrow> (userS, unit) kmon" where
  "uprintf fmt ap = vprintf 1 fmt False ap"

section \<open>What the string routines compute\<close>

lemma ustrcmp_lex:
  assumes "0 \<in> set p" "0 \<in> set q"
  shows "\<exists>r. ustrcmp p q = Some r \<and> (r = 0 \<longleftrightarrow> cstr p = cstr q) \<and> (r < 0 \<longleftrightarrow> (cstr p, cstr q) \<in> lexord {(a, b). a < b})"
  using assms by (induction p q rule: ustrcmp.induct) (auto simp: word_less_def word_uint_eq_iff order_less_le)

lemma ustrlen_loop_cstr: "0 \<in> set s \<Longrightarrow> ustrlen_loop s n = Some (n + of_nat (length (cstr s)))"
  by (induction s arbitrary: n) (auto simp: add.assoc)

lemma gets_loop_line:
  "gets_loop k inp = (l, r) \<Longrightarrow> l @ r = inp \<and> length l \<le> k \<and> (\<forall>c\<in>set (butlast l). c \<noteq> 10 \<and> c \<noteq> 13)"
proof (induction k inp arbitrary: l r rule: gets_loop.induct)
  case (3 k c inp)
  have nl: "chr CHR 0x0A = 10" "chr CHR 0x0D = 13" by (simp_all add: chr_def of_char_def)
  show ?case
  proof (cases "c = 10 \<or> c = 13")
    case True
    then show ?thesis using "3.prems" by (auto simp: nl)
  next
    case False
    obtain l' r' where lr: "gets_loop k inp = (l', r')" by force
    have l: "l = c # l'" "r = r'" using "3.prems" False lr by (simp_all add: nl)
    have "l' @ r' = inp \<and> length l' \<le> k \<and> (\<forall>c\<in>set (butlast l'). c \<noteq> 10 \<and> c \<noteq> 13)" using "3.IH" [OF _ lr] False by (simp add: nl)
    then show ?thesis using False by (auto simp: l)
  qed
qed simp_all

text \<open>\<^verbatim>\<open>memmove\<close> is right for overlapping ranges, and copies nothing for a negative length.\<close>

lemma umemmove_bytes:
  assumes "0 \<le> sint n" "unat src + unat n < 2 ^ 64" "unat dst + unat n < 2 ^ 64"
  shows "umemmove m dst src n = st_bytes m dst (ld_bytes m src (unat n))"
proof -
  have i: "sint n = int (unat n)" using uint_sint [of n] assms(1) by simp
  have n: "nat (sint n) = unat n" "(scast n :: uint64) = of_nat (unat n)" by (simp_all only: i scast_eq nat_int of_int_of_nat_eq)
  have le: "unat n \<le> 2 ^ 64" using unat_lt_32 [of n] by simp
  have off: "unat (a + of_nat i) = unat a + i" if "i < unat n" "unat a + unat n < 2 ^ 64" for i and a :: uint64
    using that by (subst unat_add_small) (simp_all add: unat_of_nat_small)
  show ?thesis
  proof (cases "src > dst")
    case True
    have "dst + of_nat i \<noteq> src + of_nat j" if "i < j" "j < unat n" for i j
      using off [of i dst] off [of j src] that assms True by (auto simp: word_less_nat_alt)
    then show ?thesis using copy_fwd_bytes [OF _ le, of dst src m] True n by (simp add: umemmove_def)
  next
    case False
    have "dst + of_nat j \<noteq> src + of_nat i" if "i < j" "j < unat n" for i j
      using off [of j dst] off [of i src] that assms False by (auto simp: word_less_nat_alt)
    then show ?thesis using copy_bwd_bytes [OF _ le, of dst src m] False n by (simp add: umemmove_def)
  qed
qed

section \<open>Numbers in decimal\<close>

text \<open>The decimal digits of a number, most significant first.\<close>

fun decimal :: "nat \<Rightarrow> bytes" where
  "decimal n = (if n < 10 then [] else decimal (n div 10)) @ [48 + of_nat (n mod 10)]"

declare decimal.simps [simp del]

lemma udigits_dec: "d < 10 \<Longrightarrow> udigits ! d = 48 + of_nat d"
proof -
  assume "d < 10"
  then have "d \<in> {0, 1, 2, 3, 4, 5, 6, 7, 8, 9}" by auto
  then show ?thesis by (auto simp: udigits_def cbytes_def chr_def of_char_def)
qed

lemma rev_uint_digits: "rev (uint_digits n 10) = decimal n"
proof (induction n rule: less_induct)
  case (less n)
  then show ?case by (subst uint_digits.simps, subst decimal.simps) (simp add: udigits_dec div_eq_0_iff)
qed

lemma length_decimal: "n < 10 ^ Suc k \<Longrightarrow> length (decimal n) \<le> Suc k"
proof (induction k arbitrary: n)
  case 0
  then show ?case by (subst decimal.simps) simp
next
  case (Suc k)
  then have "length (decimal (n div 10)) \<le> Suc k" by simp
  then show ?case by (subst decimal.simps) simp
qed

lemma atoi_digit: "unat d = 48 + r \<Longrightarrow> r < 10 \<Longrightarrow> atoi_loop (d # s) (of_nat k) = atoi_loop s (of_nat (k * 10 + r))"
proof -
  assume d: "unat d = 48 + r" "r < 10"
  have "(ucast d :: cint) = of_nat (48 + r)" using d(1) by (metis of_nat_unat)
  moreover have "48 \<le> d" "d \<le> 57" using d by (simp_all add: word_le_nat_alt)
  moreover have "chr CHR ''0'' = 48" "chr CHR ''9'' = 57" by (simp_all add: chr_def of_char_def)
  ultimately show ?thesis by simp
qed

lemma atoi_decimal: "atoi_loop (decimal n @ s) 0 = atoi_loop s (of_nat n)"
proof (induction n arbitrary: s rule: less_induct)
  case (less n)
  define d where "d = (48 + of_nat (n mod 10) :: uint8)"
  have "unat d = 48 + n mod 10" unfolding d_def by (subst unat_add_small) (simp_all add: unat_of_nat_small)
  then have step: "atoi_loop (d # s) (of_nat k) = atoi_loop s (of_nat (k * 10 + n mod 10))" for k by (rule atoi_digit) simp
  have dn: "decimal n = (if n < 10 then [] else decimal (n div 10)) @ [d]" by (simp add: decimal.simps [of n] d_def)
  show ?case
  proof (cases "n < 10")
    case True
    then show ?thesis using step [of 0] by (simp add: dn del: atoi_loop.simps)
  next
    case False
    then have "atoi_loop (decimal n @ s) 0 = atoi_loop (d # s) (of_nat (n div 10))"
      using less [of "n div 10" "d # s"] by (simp add: dn del: atoi_loop.simps)
    then show ?thesis using step [of "n div 10"] by (simp only: div_mult_mod_eq)
  qed
qed

section \<open>What printf writes\<close>

text \<open>Every \<^verbatim>\<open>write\<close> to the descriptor takes all bytes.\<close>

definition writes_all :: "nat \<Rightarrow> userS \<Rightarrow> bool" where
  "writes_all fd s \<longleftrightarrow> (\<forall>bs. uwr s fd bs = (length bs, of_nat (length bs)))"

definition written :: "nat \<Rightarrow> bytes \<Rightarrow> userS \<Rightarrow> userS" where
  "written fd bs s = s\<lparr>uout := (uout s)(fd := uout s fd @ bs)\<rparr>"

lemma written_simps [simp]:
  "writes_all fd' (written fd bs s) = writes_all fd' s" "written fd [] s = s" "written fd b (written fd a s) = written fd (a @ b) s"
  "ufiles (written fd bs s) = ufiles s" "ustdin (written fd bs s) = ustdin s" "uwr (written fd bs s) = uwr s"
  by (simp_all add: writes_all_def written_def)

lemma uwrite_all: "writes_all fd s \<Longrightarrow> uwrite fd bs s = Ok (of_nat (length bs)) (written fd bs s)"
  by (simp add: uwrite_def writes_all_def written_def)

lemma putc_all: "writes_all fd s \<Longrightarrow> putc fd c s = Ok () (written fd [c] s)"
  by (simp add: putc_def bnd_Ok [OF uwrite_all])

lemma putcs_all: "writes_all fd s \<Longrightarrow> for_each bs (putc fd) s = Ok () (written fd bs s)"
  by (induction bs arbitrary: s) (simp_all add: thn_Ok [OF putc_all])

lemma uprintint_all:
  assumes "writes_all fd s"
  shows "uprintint fd i 10 True s = Ok () (written fd ((if sint i < 0 then [45] else []) @ decimal (nat \<bar>sint i\<bar>)) s)"
proof -
  define x where "x = (if sint i < 0 then - i else i)"
  have "int (unat x) = \<bar>sint i\<bar>" using unat_neg_sint [of i] uint_sint [of i] by (cases "sint i < 0") (simp_all add: x_def)
  then have x: "unat x = nat \<bar>sint i\<bar>" by linarith
  have "unat x < 10 ^ Suc 9" using unat_lt_32 [of x] by simp
  then have "length (decimal (unat x)) \<le> 10" using length_decimal [of "unat x" 9] by simp
  then have "length (uint_digits (unat x) 10) \<le> 10" using rev_uint_digits [of "unat x"] by (metis length_rev)
  moreover have "uprintint_buf i 10 True = uint_digits (unat x) 10 @ (if sint i < 0 then [45] else [])"
    by (simp add: uprintint_buf_def x_def chr_def of_char_def)
  ultimately show ?thesis using putcs_all [OF assms] by (auto simp: uprintint_def rev_uint_digits Let_def simp flip: x)
qed

lemma uprintint_dec: "writes_all fd s \<Longrightarrow> n < 2 ^ 31 \<Longrightarrow> uprintint fd (of_nat n) 10 True s = Ok () (written fd (decimal n) s)"
  using uprintint_all [of fd s "of_nat n"] sint_unat [of "of_nat n"] by (simp add: unat_of_nat_small)

lemma vprintf_end: "vprintf fd [] False ap s = Ok () s"
  by simp

lemma vprintf_lit:
  "writes_all fd s \<Longrightarrow> c \<noteq> 0 \<Longrightarrow> c \<noteq> 37 \<Longrightarrow> vprintf fd (c # fmt) False ap s = vprintf fd fmt False ap (written fd [c] s)"
  by (simp add: thn_Ok [OF putc_all] chr_def of_char_def)

lemma vprintf_d:
  "writes_all fd s \<Longrightarrow> n < 2 ^ 31 \<Longrightarrow>
    vprintf fd (37 # 100 # fmt) False (UInt (of_nat n) # ap) s = vprintf fd fmt False ap (written fd (decimal n) s)"
  by (simp add: bnd_def vprintf_arg_def thn_Ok [OF uprintint_dec] chr_def of_char_def)

lemma vprintf_s:
  "writes_all fd s \<Longrightarrow> vprintf fd (37 # 115 # fmt) False (UStr (Some a) # ap) s = vprintf fd fmt False ap (written fd (cstr a) s)"
  by (simp add: bnd_def vprintf_arg_def thn_Ok [OF putcs_all] chr_def of_char_def)

lemma vprintf_plain:
  "writes_all fd s \<Longrightarrow> 0 \<notin> set a \<Longrightarrow> 37 \<notin> set a \<Longrightarrow> vprintf fd (a @ fmt) False ap s = vprintf fd fmt False ap (written fd a s)"
proof (induction a arbitrary: s)
  case (Cons c a)
  then show ?case using vprintf_lit [of fd s c "a @ fmt" ap] by (simp del: vprintf.simps)
qed simp

lemma ufprintf_plain: "writes_all fd s \<Longrightarrow> 0 \<notin> set a \<Longrightarrow> 37 \<notin> set a \<Longrightarrow> ufprintf fd a ap s = Ok () (written fd a s)"
  using vprintf_plain [of fd s a "[]" ap] by (simp add: ufprintf_def)

lemmas vprintf_run = vprintf_lit vprintf_d vprintf_s vprintf_end

text \<open>What \<^verbatim>\<open>%l\<close> prints of a \<^verbatim>\<open>uint64\<close>: its lower 32 bits only.\<close>

lemma vprintf_l_truncates: "vprintf fd (37 # 108 # fmt) False (ULong x # ap) = vprintf fd (37 # 108 # fmt) False (ULong (ucast (ucast x :: uint32)) # ap)"
  by (simp add: vprintf_arg_def chr_def of_char_def ucast_up_ucast_id is_up)

declare vprintf.simps [simp del]

section \<open>Property\<close>

text \<open>
  C28. \<^verbatim>\<open>atoi\<close> reads back what \<^verbatim>\<open>fprintf\<close> prints with \<^verbatim>\<open>%d\<close>: for every \<^verbatim>\<open>int\<close>, the largest and the most negative included, \<^verbatim>\<open>fprintf\<close>
  returns without overflowing its buffer of 16 bytes and writes to its descriptor only; and \<^verbatim>\<open>atoi\<close> of the bytes written gives the
  number again if it is not negative, and 0 if it is, since \<^verbatim>\<open>atoi\<close> knows no sign.
\<close>

theorem atoi_reads_printf:
  assumes "writes_all fd s"
  shows "\<exists>t. ufprintf fd (cbytes ''%d'') [UInt i] s = Ok () t \<and> (\<forall>fd'. fd' \<noteq> fd \<longrightarrow> uout t fd' = uout s fd')
    \<and> (\<exists>bs. uout t fd = uout s fd @ bs \<and> atoi (bs @ [0]) = Some (if sint i < 0 then 0 else i))"
proof -
  let ?bs = "(if sint i < 0 then [45] else []) @ decimal (nat \<bar>sint i\<bar>)"
  have "ufprintf fd (cbytes ''%d'') [UInt i] s = Ok () (written fd ?bs s)"
    using uprintint_all [OF assms, of i] by (simp add: ufprintf_def vprintf.simps cbytes_def vprintf_arg_def chr_def of_char_def bnd_def thn_def)
  moreover have "atoi (?bs @ [0]) = Some (if sint i < 0 then 0 else i)"
  proof (cases "sint i < 0")
    case True
    then show ?thesis by (simp add: atoi_def chr_def of_char_def)
  next
    case False
    then have "of_nat (nat \<bar>sint i\<bar>) = i" using uint_sint [of i] by (simp flip: unat_eq_nat_uint)
    then show ?thesis using False atoi_decimal [of _ "[0]"] by (simp add: atoi_def chr_def of_char_def)
  qed
  ultimately show ?thesis by (auto simp: written_def)
qed

theorem atoi_reads_printf_witness:
  "\<exists>t. ufprintf 1 (cbytes ''%d'') [UInt 42] \<lparr>uout = \<lambda>_. [], uwr = \<lambda>fd bs. (length bs, of_nat (length bs)), ufiles = Map.empty, ustdin = ([], False)\<rparr> = Ok () t
    \<and> atoi (uout t 1 @ [0]) = Some 42"
proof -
  let ?s = "\<lparr>uout = \<lambda>_. [], uwr = \<lambda>fd bs. (length bs, of_nat (length bs)), ufiles = Map.empty, ustdin = ([], False)\<rparr>"
  have "writes_all 1 ?s" by (simp add: writes_all_def)
  then show ?thesis using atoi_reads_printf [of 1 ?s 42] by auto
qed

end
