(* ===== verification/ShRun.thy ===== *)
theory ShRun
  imports ShInv Ulib
begin

text \<open>
  The part of \<^verbatim>\<open>user/sh.c\<close> that runs commands. A process of the shell is its table of file descriptors; \<open>runcmd\<close> gives the
  processes that the execution of a command starts, in program order, each with what becomes of it: it executes a program with
  its table, or it exits. Which of the system calls \<^verbatim>\<open>fork\<close>, \<^verbatim>\<open>pipe\<close>, \<^verbatim>\<open>open\<close> and \<^verbatim>\<open>exec\<close> the kernel refuses is a parameter;
  the choice of the lowest free descriptor by the kernel is modelled. A place in the command, a list of numbers, names the pipe or
  the open file that is made there, and each refusal may depend on the place, so that calls of the same kind can end differently in one line. The memory for the
  command tree, from \<^verbatim>\<open>malloc\<close>, is taken to be there: the constructors of \<^verbatim>\<open>sh.c\<close> do not test for a null pointer.
\<close>

section \<open>Descriptors\<close>

datatype 'w fobj = Inherited nat | Opened 'w nat "nat list" | PipeR "nat list" | PipeW "nat list"

type_synonym 'w fdtab = "nat \<Rightarrow> 'w fobj option"

definition lowest :: "'w fdtab \<Rightarrow> nat option" where
  "lowest f = find (\<lambda>i. f i = None) [0..<NOFILE]"

definition close_fd :: "nat \<Rightarrow> 'w fdtab \<Rightarrow> 'w fdtab" where
  "close_fd fd f = f(fd := None)"

definition dup_fd :: "nat \<Rightarrow> 'w fdtab \<Rightarrow> 'w fdtab" where
  "dup_fd fd f = (case (f fd, lowest f) of (Some x, Some i) \<Rightarrow> f(i := Some x) | _ \<Rightarrow> f)"

definition open_fd :: "'w fobj \<Rightarrow> 'w fdtab \<Rightarrow> 'w fdtab option" where
  "open_fd x f = (case lowest f of Some i \<Rightarrow> Some (f(i := Some x)) | None \<Rightarrow> None)"

definition pipe_fd :: "nat list \<Rightarrow> 'w fdtab \<Rightarrow> (nat \<times> nat \<times> 'w fdtab) option" where
  "pipe_fd pos f =
     (case lowest f of
        None \<Rightarrow> None
      | Some i \<Rightarrow>
          let f1 = f(i := Some (PipeR pos)) in
          case lowest f1 of None \<Rightarrow> None | Some j \<Rightarrow> Some (i, j, f1(j := Some (PipeW pos))))"

section \<open>runcmd\<close>

record 'w sysR =
  fork_ok :: "nat list \<Rightarrow> nat \<Rightarrow> bool"
  pipe_ok :: "nat list \<Rightarrow> bool"
  open_ok :: "'w \<Rightarrow> nat \<Rightarrow> nat list \<Rightarrow> bool"
  exec_ok :: "'w list \<Rightarrow> nat list \<Rightarrow> bool"

datatype 'w smsg = Silent | ExecFailed 'w | OpenFailed 'w | PanicMsg string

datatype 'w sproc = Run "'w list" "'w fdtab" | Exit cint "'w smsg"

text \<open>
  The last process of the list is the one that executes \<^verbatim>\<open>runcmd\<close>. In a list of commands the right one is executed by the same
  process after it has waited for the left one. \<open>pos\<close> is the place of the command.
\<close>

fun runcmd :: "'w sysR \<Rightarrow> nat list \<Rightarrow> 'w cmd \<Rightarrow> 'w fdtab \<Rightarrow> 'w sproc list" where
  "runcmd e pos (EXEC argv) f =
     (if argv = [] then [Exit 1 Silent]
      else if exec_ok e argv pos then [Run argv f]
      else [Exit 0 (ExecFailed (hd argv))])"
| "runcmd e pos (REDIR c w mode fd) f =
     (let f1 = close_fd fd f in
      case (if open_ok e w mode pos then open_fd (Opened w mode pos) f1 else None) of
        None \<Rightarrow> [Exit 1 (OpenFailed w)]
      | Some f2 \<Rightarrow> runcmd e (0 # pos) c f2)"
| "runcmd e pos (LIST l r) f =
     (if fork_ok e pos 0 then runcmd e (0 # pos) l f @ runcmd e (1 # pos) r f
      else [Exit 1 (PanicMsg ''fork'')])"
| "runcmd e pos (PIPE l r) f =
     (case (if pipe_ok e pos then pipe_fd pos f else None) of
        None \<Rightarrow> [Exit 1 (PanicMsg ''pipe'')]
      | Some (p0, p1, f1) \<Rightarrow>
          if \<not> fork_ok e pos 0 then [Exit 1 (PanicMsg ''fork'')]
          else
            runcmd e (0 # pos) l (close_fd p1 (close_fd p0 (dup_fd p1 (close_fd 1 f1)))) @
            (if \<not> fork_ok e pos 1 then [Exit 1 (PanicMsg ''fork'')]
             else
               runcmd e (1 # pos) r (close_fd p1 (close_fd p0 (dup_fd p0 (close_fd 0 f1)))) @
               [Exit 0 Silent]))"
| "runcmd e pos (BACK c) f =
     (if fork_ok e pos 0 then runcmd e (0 # pos) c f @ [Exit 0 Silent]
      else [Exit 1 (PanicMsg ''fork'')])"

text \<open>What the child of \<^verbatim>\<open>main\<close> does with a line: \<^verbatim>\<open>runcmd(parsecmd(buf))\<close>.\<close>

definition run_line :: "bytes sysR \<Rightarrow> bytes \<Rightarrow> bytes fdtab \<Rightarrow> bytes sproc list" where
  "run_line e buf f =
     (case parsecmd buf of
        Inr (c, buf') \<Rightarrow> runcmd e [] (map_cmd (word_at buf') c) f
      | Inl (ShPanic m) \<Rightarrow> [Exit 1 (PanicMsg m)]
      | Inl NoFuel \<Rightarrow> [])"

section \<open>The loop of main\<close>

text \<open>
  \<^verbatim>\<open>getcmd\<close> with the buffer of 100 bytes: the bytes stored before the zeros of \<^verbatim>\<open>memset\<close>, and the input that is left. \<^verbatim>\<open>main\<close>
  changes the directory itself and starts a child for every other line, until the input ends or \<^verbatim>\<open>fork\<close> fails; \<open>n\<close> counts the
  lines.
\<close>

datatype shact = ShCd bytes | ShChild bytes | ShPanics string | ShEnds

definition getcmd :: "bytes \<Rightarrow> (bytes \<times> bytes) option" where
  "getcmd inp = (case ugets 100 inp of (buf, rest) \<Rightarrow> if hd buf = 0 then None else Some (buf, rest))"

lemma getcmd_shorter: "getcmd inp = Some (buf, rest) \<Longrightarrow> length rest < length inp"
proof -
  assume g: "getcmd inp = Some (buf, rest)"
  obtain l r where lr: "gets_loop 99 inp = (l, r)" by force
  then have "l \<noteq> []" "r = rest" using g by (auto simp: getcmd_def ugets_def split: if_splits)
  then show ?thesis using gets_loop_line [OF lr] by (cases l) auto
qed

function sh_loop :: "(nat \<Rightarrow> bool) \<Rightarrow> nat \<Rightarrow> bytes \<Rightarrow> shact list" where
  "sh_loop fk n inp =
     (case getcmd inp of
        None \<Rightarrow> [ShEnds]
      | Some (buf, rest) \<Rightarrow>
          if take 3 buf = cbytes ''cd '' then ShCd (drop 3 (butlast (cstr buf))) # sh_loop fk (n + 1) rest
          else if fk n then ShChild (cstr buf) # sh_loop fk (n + 1) rest
          else [ShPanics ''fork''])"
  by pat_completeness auto
termination by (relation "measure (\<lambda>(fk, n, inp). length inp)") (auto dest: getcmd_shorter)

declare sh_loop.simps [simp del]

section \<open>Lines\<close>

lemma gets_loop_full:
  "10 \<notin> set l \<Longrightarrow> 13 \<notin> set l \<Longrightarrow> length l < k \<Longrightarrow> gets_loop k (l @ 10 # r) = (l @ [10], r)"
  by (induction l arbitrary: k; case_tac k) (auto simp: chr_def of_char_def)

definition line_act :: "bytes \<Rightarrow> shact" where
  "line_act l = (if take 3 l = cbytes ''cd '' then ShCd (drop 3 l) else ShChild (l @ [10]))"

text \<open>
  Lines of at most 98 bytes, each ended by a newline, are executed one by one, \<^verbatim>\<open>cd\<close> by the shell itself and every other line by
  a child.
\<close>

lemma sh_loop_lines:
  assumes "\<And>l. l \<in> set ls \<Longrightarrow> length l < 99 \<and> 0 \<notin> set l \<and> 10 \<notin> set l \<and> 13 \<notin> set l" "\<And>i. fk i"
  shows "sh_loop fk n (concat (map (\<lambda>l. l @ [10]) ls)) = map line_act ls @ [ShEnds]"
  using assms(1)
proof (induction ls arbitrary: n)
  case Nil
  have "gets_loop k [] = ([], [])" for k by (cases k) simp_all
  then have "getcmd [] = None" by (simp add: getcmd_def ugets_def)
  then show ?case by (simp add: sh_loop.simps [of fk n "[]"])
next
  case (Cons l ls)
  let ?r = "concat (map (\<lambda>l. l @ [10]) ls)" and ?b = "l @ [10, 0]"
  have l: "length l < 99" "0 \<notin> set l" "10 \<notin> set l" "13 \<notin> set l" using Cons.prems [of l] by auto
  have "getcmd (l @ 10 # ?r) = Some (?b, ?r)"
    using gets_loop_full [OF l(3,4,1), of ?r] l(2) by (cases l) (auto simp: getcmd_def ugets_def)
  moreover have "cstr ?b = l @ [10]" using cstr_prefix [of "l @ [10]" "[0]"] l(2) by simp
  moreover have "take 3 ?b = cbytes ''cd '' \<longleftrightarrow> take 3 l = cbytes ''cd ''"
    using l(3) by (cases l; cases "tl l"; cases "tl (tl l)") (auto simp: cbytes_def chr_def of_char_def)
  moreover have "sh_loop fk (n + 1) ?r = map line_act ls @ [ShEnds]" using Cons by simp
  moreover have "fk n" by (rule assms(2))
  ultimately show ?case by (simp add: sh_loop.simps [of fk n "l @ 10 # ?r"] line_act_def)
qed

section \<open>How the processes are connected\<close>

text \<open>The programs that a command starts with their standard input and output, as the command says.\<close>

fun wire :: "nat list \<Rightarrow> 'w cmd \<Rightarrow> 'w fobj \<Rightarrow> 'w fobj \<Rightarrow> ('w list \<times> 'w fobj \<times> 'w fobj) list" where
  "wire pos (EXEC argv) i u = (if argv = [] then [] else [(argv, i, u)])"
| "wire pos (REDIR c w mode fd) i u =
     (if fd = 0 then wire (0 # pos) c (Opened w mode pos) u else wire (0 # pos) c i (Opened w mode pos))"
| "wire pos (LIST l r) i u = wire (0 # pos) l i u @ wire (1 # pos) r i u"
| "wire pos (PIPE l r) i u = wire (0 # pos) l i (PipeW pos) @ wire (1 # pos) r (PipeR pos) u"
| "wire pos (BACK c) i u = wire (0 # pos) c i u"

fun runs :: "'w sproc list \<Rightarrow> ('w list \<times> 'w fdtab) list" where
  "runs [] = []"
| "runs (Run a f # ps) = (a, f) # runs ps"
| "runs (Exit n m # ps) = runs ps"

lemma runs_append [simp]: "runs (ps @ qs) = runs ps @ runs qs"
  by (induction ps rule: runs.induct) simp_all

definition wired :: "'w fdtab \<Rightarrow> nat list \<Rightarrow> 'w cmd \<Rightarrow> ('w list \<times> 'w fdtab) list" where
  "wired f pos c = map (\<lambda>(a, i, u). (a, f(0 \<mapsto> i, 1 \<mapsto> u))) (wire pos c (the (f 0)) (the (f 1)))"

definition std :: "'w fdtab \<Rightarrow> bool" where
  "std f \<longleftrightarrow> f 0 \<noteq> None \<and> f 1 \<noteq> None \<and> f 2 \<noteq> None"

definition room :: "'w fdtab \<Rightarrow> bool" where
  "room f \<longleftrightarrow> (\<exists>i j. i < j \<and> j < NOFILE \<and> f i = None \<and> f j = None)"

definition all_ok :: "'w sysR \<Rightarrow> bool" where
  "all_ok e \<longleftrightarrow> (\<forall>pos n. fork_ok e pos n) \<and> (\<forall>pos. pipe_ok e pos) \<and> (\<forall>w m pos. open_ok e w m pos) \<and> (\<forall>a pos. exec_ok e a pos)"

lemma lowest_SomeD: "lowest f = Some i \<Longrightarrow> f i = None \<and> i < NOFILE \<and> (\<forall>j<i. f j \<noteq> None)"
  by (auto simp: lowest_def find_Some_iff)

lemma lowest_ex: "f i = None \<Longrightarrow> i < NOFILE \<Longrightarrow> \<exists>j\<le>i. lowest f = Some j"
proof -
  assume i: "f i = None" "i < NOFILE"
  then obtain j where j: "lowest f = Some j" by (cases "lowest f") (auto simp: lowest_def find_None_iff)
  then show ?thesis using lowest_SomeD [OF j] i(1) by (meson not_le_imp_less)
qed

lemma lowest_std: "std f \<Longrightarrow> lowest f = Some i \<Longrightarrow> 2 < i"
proof (rule ccontr)
  assume a: "std f" "lowest f = Some i" "\<not> 2 < i"
  then have "i = 0 \<or> i = 1 \<or> i = 2" by auto
  then show False using lowest_SomeD [OF a(2)] a(1) by (auto simp: std_def)
qed

lemma lowest_closed: "std f \<Longrightarrow> fd < 2 \<Longrightarrow> lowest (f(fd := None)) = Some fd"
proof -
  assume f: "std f" "fd < 2"
  then obtain j where j: "j \<le> fd" "lowest (f(fd := None)) = Some j" using lowest_ex [of "f(fd := None)" fd] by (auto simp: NOFILE_def)
  have "j = 0 \<or> j = 1" "fd = 0 \<or> fd = 1" using j(1) f(2) by auto
  then have "j = fd" using lowest_SomeD [OF j(2)] f(1) by (auto simp: std_def)
  then show ?thesis using j(2) by simp
qed

lemma pipe_fd_std:
  assumes "std f" "pipe_fd pos f = Some (i, j, g)"
  shows "2 < i" "2 < j" "i \<noteq> j" "f i = None" "f j = None" "g = f(i \<mapsto> PipeR pos, j \<mapsto> PipeW pos)"
proof -
  have l: "lowest f = Some i" "lowest (f(i \<mapsto> PipeR pos)) = Some j" "g = f(i \<mapsto> PipeR pos, j \<mapsto> PipeW pos)"
    using assms(2) by (auto simp: pipe_fd_def Let_def split: option.splits)
  show i: "2 < i" "f i = None" using lowest_std [OF assms(1) l(1)] lowest_SomeD [OF l(1)] by auto
  have "std (f(i \<mapsto> PipeR pos))" using assms(1) i(1) by (simp add: std_def)
  then show "2 < j" using lowest_std [OF _ l(2)] by simp
  show ij: "i \<noteq> j" using lowest_SomeD [OF l(2)] by auto
  show "f j = None" using lowest_SomeD [OF l(2)] ij by simp
  show "g = f(i \<mapsto> PipeR pos, j \<mapsto> PipeW pos)" by (rule l(3))
qed

lemma pipe_fd_room:
  assumes "room f" shows "pipe_fd pos f \<noteq> None"
proof -
  obtain i j where ij: "i < j" "j < NOFILE" "f i = None" "f j = None" using assms by (auto simp: room_def)
  obtain k where k: "k \<le> i" "lowest f = Some k" using lowest_ex [of f i] ij by auto
  obtain m where "lowest (f(k \<mapsto> PipeR pos)) = Some m" using lowest_ex [of "f(k \<mapsto> PipeR pos)" j] k ij by auto
  then show ?thesis using k(2) by (simp add: pipe_fd_def)
qed

lemma room_upd: "room f \<Longrightarrow> f fd \<noteq> None \<Longrightarrow> room (f(fd \<mapsto> x))"
proof -
  assume a: "room f" "f fd \<noteq> None"
  then obtain i j where ij: "i < j" "j < NOFILE" "f i = None" "f j = None" by (auto simp: room_def)
  then have "(f(fd \<mapsto> x)) i = None" "(f(fd \<mapsto> x)) j = None" using a(2) by auto
  then show ?thesis using ij(1,2) unfolding room_def by blast
qed

lemma std_upd: "std f \<Longrightarrow> std (f(fd \<mapsto> x))"
  by (simp add: std_def)

text \<open>The two children of a pipe have their ends of it in place of a standard descriptor, and no other end.\<close>

lemma pipe_ends:
  assumes "std f" "pipe_fd pos f = Some (i, j, g)"
  shows "close_fd j (close_fd i (dup_fd j (close_fd 1 g))) = f(1 \<mapsto> PipeW pos)"
    "close_fd j (close_fd i (dup_fd i (close_fd 0 g))) = f(0 \<mapsto> PipeR pos)"
proof -
  note p = pipe_fd_std [OF assms]
  have s: "std g" using assms(1) p by (simp add: std_def)
  show "close_fd j (close_fd i (dup_fd j (close_fd 1 g))) = f(1 \<mapsto> PipeW pos)"
    using lowest_closed [OF s, of 1] p(1-5) unfolding p(6) by (auto simp: close_fd_def dup_fd_def fun_eq_iff)
  show "close_fd j (close_fd i (dup_fd i (close_fd 0 g))) = f(0 \<mapsto> PipeR pos)"
    using lowest_closed [OF s, of 0] p(1-5) unfolding p(6) by (auto simp: close_fd_def dup_fd_def fun_eq_iff)
qed

lemma runcmd_pipe:
  assumes "std f" "pipe_fd pos f = Some (i, j, g)"
  shows "runcmd e pos (PIPE l r) f =
    (if \<not> pipe_ok e pos then [Exit 1 (PanicMsg ''pipe'')] else if \<not> fork_ok e pos 0 then [Exit 1 (PanicMsg ''fork'')]
     else runcmd e (0 # pos) l (f(1 \<mapsto> PipeW pos)) @
       (if \<not> fork_ok e pos 1 then [Exit 1 (PanicMsg ''fork'')] else runcmd e (1 # pos) r (f(0 \<mapsto> PipeR pos)) @ [Exit 0 Silent]))"
  unfolding runcmd.simps assms(2) pipe_ends [OF assms, symmetric] by simp

lemma redir_open: "std f \<Longrightarrow> fd < 2 \<Longrightarrow> open_fd x (close_fd fd f) = Some (f(fd \<mapsto> x))"
  using lowest_closed [of f fd] by (simp add: open_fd_def close_fd_def)

lemma wired_upd:
  "wired (f(0 \<mapsto> x)) pos c = map (\<lambda>(a, i, u). (a, f(0 \<mapsto> i, 1 \<mapsto> u))) (wire pos c x (the (f 1)))"
  "wired (f(1 \<mapsto> x)) pos c = map (\<lambda>(a, i, u). (a, f(0 \<mapsto> i, 1 \<mapsto> u))) (wire pos c (the (f 0)) x)"
  by (simp_all add: wired_def fun_upd_twist)

lemma wired_simps:
  "std f \<Longrightarrow> wired f pos (EXEC a) = (if a = [] then [] else [(a, f)])"
  "wired f pos (REDIR c w m 0) = wired (f(0 \<mapsto> Opened w m pos)) (0 # pos) c"
  "wired f pos (REDIR c w m 1) = wired (f(1 \<mapsto> Opened w m pos)) (0 # pos) c"
  "wired f pos (LIST l r) = wired f (0 # pos) l @ wired f (1 # pos) r"
  "wired f pos (PIPE l r) = wired (f(1 \<mapsto> PipeW pos)) (0 # pos) l @ wired (f(0 \<mapsto> PipeR pos)) (1 # pos) r"
  "wired f pos (BACK c) = wired f (0 # pos) c"
  by (auto simp: wired_upd) (auto simp: wired_def std_def fun_eq_iff)

lemma redir_fd: "(m, d) \<in> redir_modes \<Longrightarrow> d = 0 \<or> d = 1"
  by (auto simp: redir_modes_def)

lemma runcmd_wired:
  "shape c \<Longrightarrow> std f \<Longrightarrow> set (runs (runcmd e pos c f)) \<subseteq> set (wired f pos c)
     \<and> (all_ok e \<longrightarrow> room f \<longrightarrow> runs (runcmd e pos c f) = wired f pos c)"
proof (induction c arbitrary: pos f)
  case (EXEC a)
  then show ?case by (auto simp: wired_simps all_ok_def)
next
  case (REDIR c w m d)
  define g where "g = f(d \<mapsto> Opened w m pos)"
  have d: "d = 0 \<or> d = 1" "d < 2" using redir_fd [of m d] REDIR.prems(1) by auto
  have rm: "room f \<longrightarrow> room g" unfolding g_def using d(1) REDIR.prems(2) by (intro impI room_upd) (auto simp: std_def)
  have w: "wired f pos (REDIR c w m d) = wired g (0 # pos) c" unfolding g_def using d(1) wired_simps(2,3) by auto
  have run: "runcmd e pos (REDIR c w m d) f = (if open_ok e w m pos then runcmd e (0 # pos) c g else [Exit 1 (OpenFailed w)])"
    using redir_open [OF REDIR.prems(2) d(2)] by (simp add: g_def)
  have "std g" unfolding g_def by (rule std_upd [OF REDIR.prems(2)])
  moreover have "shape c" "all_ok e \<longrightarrow> open_ok e w m pos" using REDIR.prems(1) by (simp_all add: all_ok_def)
  ultimately show ?case unfolding run w using REDIR.IH [of g "0 # pos"] rm by auto
next
  case (PIPE l r)
  define u v where "u = f(1 \<mapsto> PipeW pos)" and "v = f(0 \<mapsto> PipeR pos)"
  have rm: "room f \<longrightarrow> room u \<and> room v" unfolding u_def v_def using PIPE.prems(2) room_upd [of f] by (auto simp: std_def)
  have w: "wired f pos (PIPE l r) = wired u (0 # pos) l @ wired v (1 # pos) r" unfolding u_def v_def by (rule wired_simps(5))
  show ?case
  proof (cases "pipe_fd pos f")
    case None
    then show ?thesis using pipe_fd_room [of f pos] by auto
  next
    case (Some p)
    obtain i j g where p: "p = (i, j, g)" by (cases p) auto
    note run = runcmd_pipe [OF PIPE.prems(2) Some [unfolded p], of e l r, folded u_def v_def]
    have "std u" "std v" unfolding u_def v_def using std_upd [OF PIPE.prems(2)] by blast+
    then show ?thesis unfolding run w
      using PIPE.IH(1) [of u "0 # pos"] PIPE.IH(2) [of v "1 # pos"] PIPE.prems(1) rm by (auto simp: all_ok_def)
  qed
next
  case (LIST l r)
  show ?case using LIST.IH(1) [of f "0 # pos"] LIST.IH(2) [of f "1 # pos"] LIST.prems by (auto simp: wired_simps all_ok_def)
next
  case (BACK c)
  show ?case using BACK.IH [of f "0 # pos"] BACK.prems by (auto simp: wired_simps all_ok_def)
qed

section \<open>Property\<close>

text \<open>
  C18. What the shell starts for a line: for every line without a NUL, given to a child of the shell with its three standard
  descriptors open, the parser refuses the line and the child exits with status 1, or the line is a well-formed command, and every
  program that is started has exactly the table of the shell, with the standard input and output that its place in the command
  says: the ends of the pipes it stands between, the file of the innermost redirection, and otherwise those of the shell. No other
  end of a pipe stays open in it, whichever system calls fail. When none fails and two descriptors are free, exactly the programs
  of the command are started, once each and in its order.
\<close>

theorem run_line_wires:
  assumes "0 \<notin> set buf" "std f"
  shows "(\<exists>m. parsecmd buf = Inl (ShPanic m) \<and> run_line e buf f = [Exit 1 (PanicMsg m)])
    \<or> (\<exists>c' buf' c. parsecmd buf = Inr (c', buf') \<and> c = map_cmd (word_at buf') c' \<and> wf_cmd c
        \<and> set (runs (run_line e buf f)) \<subseteq> set (wired f [] c)
        \<and> (all_ok e \<longrightarrow> room f \<longrightarrow> runs (run_line e buf f) = wired f [] c))"
proof (cases "parsecmd buf")
  case (Inl x)
  have "parsed buf 0 (parseline (sh_fuel buf) buf 0)" using parse_parsed [of 0 buf "sh_fuel buf"] by (simp add: sh_fuel_def)
  then have "x \<noteq> NoFuel" using Inl by (auto simp: parsecmd_def parsed_def Let_def split: sum.splits prod.splits if_splits)
  then show ?thesis using Inl by (cases x) (auto simp: run_line_def)
next
  case (Inr r)
  obtain c' buf' where r: "r = (c', buf')" by force
  note w = parsecmd_words [OF Inr [unfolded r] assms(1)]
  have "wf_cmd (map_cmd (word_at buf') c')" using w by simp
  then show ?thesis using runcmd_wired [of "map_cmd (word_at buf') c'" f e "[]"] assms(2) Inr r by (simp add: run_line_def wf_cmd_def)
qed

theorem run_line_wires_witness:
  "\<exists>c' buf'. parsecmd (cbytes ''a|b>c'') = Inr (c', buf') \<and> runs (run_line \<lparr>fork_ok = \<lambda>_ _. True, pipe_ok = \<lambda>_. True, open_ok = \<lambda>_ _ _. True, exec_ok = \<lambda>_ _. True\<rparr> (cbytes ''a|b>c'')
      ((\<lambda>_. None)(0 \<mapsto> Inherited 0, 1 \<mapsto> Inherited 1, 2 \<mapsto> Inherited 2)))
    = wired ((\<lambda>_. None)(0 \<mapsto> Inherited 0, 1 \<mapsto> Inherited 1, 2 \<mapsto> Inherited 2)) [] (map_cmd (word_at buf') c')"
proof -
  let ?b = "cbytes ''a|b>c''" and ?f = "(\<lambda>_. None)(0 \<mapsto> Inherited 0, 1 \<mapsto> Inherited 1, 2 \<mapsto> Inherited 2) :: bytes fdtab"
  let ?e = "\<lparr>fork_ok = \<lambda>_ _. True, pipe_ok = \<lambda>_. True, open_ok = \<lambda>_ _ _. True, exec_ok = \<lambda>_ _. True\<rparr> :: bytes sysR"
  have "\<not> isl (parsecmd ?b)" by code_simp
  then have p: "parsecmd ?b \<noteq> Inl m" for m by auto
  have "0 \<notin> set ?b" "std ?f" "all_ok ?e" by (simp_all add: cbytes_def chr_def of_char_def std_def all_ok_def)
  moreover have "room ?f" unfolding room_def by (rule exI [of _ 3], rule exI [of _ 4]) (simp add: NOFILE_def)
  ultimately show ?thesis using run_line_wires [of ?b ?f ?e] p by auto
qed

end
