(* ===== verification/Cafe.thy ===== *)
theory Cafe
  imports Prelude
begin

text \<open>
  \<^verbatim>\<open>concurrency/1.c\<close>: the cafe. One thread per customer runs \<^verbatim>\<open>serve_customer\<close>; the threads share the tables, counters and
  flags below, one mutex and one semaphore per barista. A step of a thread is one access to the shared state outside the
  mutex, or the taking of the mutex, or what is done between taking it and giving it back; a wait for a time ends a step.
  The clock is the number of seconds since \<^verbatim>\<open>startTime\<close> and advances on its own. Flags that are 0 or 1 are booleans, and times are integers: the input is taken to be
  small enough for \<^verbatim>\<open>int\<close>.
\<close>

section \<open>The input\<close>

record cafe =
  nB :: nat
  nK :: nat
  nN :: nat
  coffee_types :: "(string \<times> int) list"
  coffee_name :: "nat \<Rightarrow> string"
  arrival_time :: "nat \<Rightarrow> int"
  patience_time :: "nat \<Rightarrow> int"

text \<open>The search for the preparation time among the first \<^verbatim>\<open>K\<close> coffee types; -1 when there is none of the name.\<close>

definition find_preparation_time :: "cafe \<Rightarrow> nat \<Rightarrow> int" where
  "find_preparation_time C c =
     (case find (\<lambda>ty. fst ty = coffee_name C c) (take (nK C) (coffee_types C)) of None \<Rightarrow> - 1 | Some ty \<Rightarrow> snd ty)"

section \<open>The shared state\<close>

datatype cafe_event =
    Arrives nat int
  | Orders nat string
  | Leaves_without nat int
  | Begins nat nat int
  | Completes nat nat int
  | Leaves_with nat int
  | Invalid_order

record cafe_state =
  served_customers :: nat
  coffee_preparation_time :: int
  wasted_coffees :: int
  total_waiting_time :: int
  curr_time :: int
  cafe_mutex :: "nat option"
  barista_available :: "nat \<Rightarrow> nat"
  finish_times :: "nat \<Rightarrow> int"
  left_flags :: "nat \<Rightarrow> bool"
  cust_done :: "nat \<Rightarrow> bool"
  waiting_time :: "nat \<Rightarrow> int"
  elapsedSeconds :: int
  cafe_clock :: int
  cafe_out :: "cafe_event list"

text \<open>The state when \<^verbatim>\<open>main\<close> has read the input and set up the semaphores.\<close>

definition cafe_start :: "cafe \<Rightarrow> cafe_state" where
  "cafe_start C = \<lparr>served_customers = 0, coffee_preparation_time = 1, wasted_coffees = 0, total_waiting_time = 0,
     curr_time = 0, cafe_mutex = None, barista_available = (\<lambda>i. if i < nB C then 1 else 0),
     finish_times = (\<lambda>i. if i < nB C \<and> i < nN C then arrival_time C i else 0), left_flags = (\<lambda>_. False),
     cust_done = (\<lambda>_. False), waiting_time = (\<lambda>_. 0), elapsedSeconds = 0, cafe_clock = 0, cafe_out = []\<rparr>"

section \<open>A thread\<close>

datatype cafe_pc =
    Test | ClaimLock | Claim
  | ArriveLock | Arrive | ArriveTest | SetCurr | OrderLock | Order | FindPrep
  | ScanTest | ScanLock | Scan | ScanLeft | Leave1Lock | Leave1 | TryWait | CheckPrev | PostBack
  | ChosenLock | Chosen | ChosenTest | Leave2Lock | Leave2 | Leave2Post | WaitPrev
  | BeginLock | Begin1 | BeginSleep | Begin2
  | PrepTest | PrepSleep | PrepBump | PrepLock | Prep | PrepLeft | PrepLeaveLock | PrepLeave | PrepNext
  | FinishBump | FinishLock | Finish | FinishTest | GoodLock | Good | Post
  | TotalRead bool | TotalWrite bool | CoffeeRead | CoffeeWrite | Exit

record cafe_thread =
  pc :: cafe_pc
  customer_id :: nat
  scan_i :: nat
  selected :: nat
  curr :: int
  b_start :: int
  preparation_time :: int
  prep_i :: int
  preparation_finish_time :: int
  wake :: int
  reg :: int

definition thread_start :: cafe_thread where
  "thread_start = \<lparr>pc = Test, customer_id = 0, scan_i = 0, selected = 0, curr = 0, b_start = 0, preparation_time = 0,
     prep_i = 0, preparation_finish_time = 0, wake = 0, reg = 0\<rparr>"

type_synonym cafe_next = "(cafe_state \<times> cafe_thread) option"

definition mutex_lock :: "nat \<Rightarrow> cafe_pc \<Rightarrow> cafe_state \<Rightarrow> cafe_thread \<Rightarrow> cafe_next" where
  "mutex_lock h p s t = (if cafe_mutex s = None then Some (s\<lparr>cafe_mutex := Some h\<rparr>, t\<lparr>pc := p\<rparr>) else None)"

definition mutex_unlock :: "cafe_state \<Rightarrow> cafe_state" where
  "mutex_unlock s = s\<lparr>cafe_mutex := None\<rparr>"

definition sem_post :: "nat \<Rightarrow> cafe_state \<Rightarrow> cafe_state" where
  "sem_post i s = s\<lparr>barista_available := (barista_available s)(i := barista_available s i + 1)\<rparr>"

definition cafe_print :: "cafe_event \<Rightarrow> cafe_state \<Rightarrow> cafe_state" where
  "cafe_print e s = s\<lparr>cafe_out := cafe_out s @ [e]\<rparr>"

text \<open>The two lines that read the clock.\<close>

definition read_clock :: "cafe_state \<Rightarrow> cafe_state" where
  "read_clock s = s\<lparr>elapsedSeconds := cafe_clock s\<rparr>"

definition is_late :: "cafe \<Rightarrow> nat \<Rightarrow> int \<Rightarrow> cafe_state \<Rightarrow> bool" where
  "is_late C c t s \<longleftrightarrow> t > arrival_time C c + patience_time C c \<and> \<not> left_flags s c"

text \<open>The message and the flags of a customer who leaves without the order.\<close>

definition leave_without :: "cafe \<Rightarrow> nat \<Rightarrow> cafe_state \<Rightarrow> cafe_state" where
  "leave_without C c s = (cafe_print (Leaves_without c (arrival_time C c + patience_time C c + 1)) s)
     \<lparr>left_flags := (left_flags s)(c := True), cust_done := (cust_done s)(c := True), wasted_coffees := wasted_coffees s + 1\<rparr>"

definition set_waiting :: "nat \<Rightarrow> int \<Rightarrow> cafe_state \<Rightarrow> cafe_state" where
  "set_waiting c w s = s\<lparr>waiting_time := (waiting_time s)(c := w)\<rparr>"

definition set_finish :: "nat \<Rightarrow> int \<Rightarrow> cafe_state \<Rightarrow> cafe_state" where
  "set_finish b w s = s\<lparr>finish_times := (finish_times s)(b := w)\<rparr>"

definition set_done :: "nat \<Rightarrow> cafe_state \<Rightarrow> cafe_state" where
  "set_done c s = s\<lparr>cust_done := (cust_done s)(c := True)\<rparr>"

text \<open>The next step at each point of \<^verbatim>\<open>serve_customer\<close>, for the thread \<open>h\<close>; None when the thread waits or has returned.\<close>

fun serve_at :: "cafe \<Rightarrow> nat \<Rightarrow> cafe_state \<Rightarrow> cafe_thread \<Rightarrow> cafe_pc \<Rightarrow> cafe_next" where
  "serve_at C h s t Test = Some (s, t\<lparr>pc := if served_customers s < nN C then ClaimLock else Exit\<rparr>)"
| "serve_at C h s t ClaimLock = mutex_lock h Claim s t"
| "serve_at C h s t Claim =
     (let c = served_customers s in
      Some (mutex_unlock (s\<lparr>served_customers := c + 1\<rparr>), t\<lparr>customer_id := c, pc := if c \<ge> nN C then Exit else ArriveLock\<rparr>))"
| "serve_at C h s t ArriveLock = mutex_lock h Arrive s t"
| "serve_at C h s t Arrive = Some (mutex_unlock (read_clock s), t\<lparr>pc := ArriveTest\<rparr>)"
| "serve_at C h s t ArriveTest =
     Some (s, t\<lparr>pc := if elapsedSeconds s < arrival_time C (customer_id t) then ArriveLock else SetCurr\<rparr>)"
| "serve_at C h s t SetCurr = Some (s\<lparr>curr_time := arrival_time C (customer_id t)\<rparr>, t\<lparr>pc := OrderLock\<rparr>)"
| "serve_at C h s t OrderLock = mutex_lock h Order s t"
| "serve_at C h s t Order =
     (let c = customer_id t in
      Some (mutex_unlock (cafe_print (Orders c (coffee_name C c)) (cafe_print (Arrives c (arrival_time C c)) s)), t\<lparr>pc := FindPrep\<rparr>))"
| "serve_at C h s t FindPrep =
     (let r = find_preparation_time C (customer_id t) in
      if r = - 1 then Some (cafe_print Invalid_order s, t\<lparr>preparation_time := r, pc := Exit\<rparr>)
      else Some (s, t\<lparr>preparation_time := r, scan_i := 0, pc := ScanTest\<rparr>))"
| "serve_at C h s t ScanTest = Some (s, if scan_i t < nB C then t\<lparr>pc := ScanLock\<rparr> else t\<lparr>scan_i := 0\<rparr>)"
| "serve_at C h s t ScanLock = mutex_lock h Scan s t"
| "serve_at C h s t Scan = Some (mutex_unlock (read_clock s), t\<lparr>curr := cafe_clock s, pc := ScanLeft\<rparr>)"
| "serve_at C h s t ScanLeft = Some (s, t\<lparr>pc := if is_late C (customer_id t) (curr t) s then Leave1Lock else TryWait\<rparr>)"
| "serve_at C h s t Leave1Lock = mutex_lock h Leave1 s t"
| "serve_at C h s t Leave1 =
     (let c = customer_id t in Some (mutex_unlock (set_waiting c (patience_time C c) (leave_without C c s)), t\<lparr>pc := TotalRead False\<rparr>))"
| "serve_at C h s t TryWait =
     (let i = scan_i t in
      if barista_available s i = 0 then Some (s, t\<lparr>scan_i := i + 1, pc := ScanTest\<rparr>)
      else Some (s\<lparr>barista_available := (barista_available s)(i := barista_available s i - 1)\<rparr>, t\<lparr>pc := CheckPrev\<rparr>))"
| "serve_at C h s t CheckPrev =
     (let c = customer_id t in
      Some (s, if c \<noteq> 0 \<and> \<not> cust_done s (c - 1) then t\<lparr>pc := PostBack\<rparr> else t\<lparr>selected := scan_i t, pc := ChosenLock\<rparr>))"
| "serve_at C h s t PostBack = Some (sem_post (scan_i t) s, t\<lparr>scan_i := scan_i t + 1, pc := ScanTest\<rparr>)"
| "serve_at C h s t ChosenLock = mutex_lock h Chosen s t"
| "serve_at C h s t Chosen = Some (mutex_unlock (read_clock s), t\<lparr>curr := cafe_clock s, pc := ChosenTest\<rparr>)"
| "serve_at C h s t ChosenTest = Some (s, t\<lparr>pc := if is_late C (customer_id t) (curr t) s then Leave2Lock else WaitPrev\<rparr>)"
| "serve_at C h s t Leave2Lock = mutex_lock h Leave2 s t"
| "serve_at C h s t Leave2 =
     (let c = customer_id t in Some (mutex_unlock (set_waiting c (patience_time C c) (leave_without C c s)), t\<lparr>pc := Leave2Post\<rparr>))"
| "serve_at C h s t Leave2Post = Some (sem_post (selected t) s, t\<lparr>pc := TotalRead False\<rparr>)"
| "serve_at C h s t WaitPrev =
     (let c = customer_id t in if c \<noteq> 0 \<and> \<not> cust_done s (c - 1) then None else Some (s, t\<lparr>pc := BeginLock\<rparr>))"
| "serve_at C h s t BeginLock = mutex_lock h Begin1 s t"
| "serve_at C h s t Begin1 =
     (let now = cafe_clock s in
      Some (read_clock s,
        if now < arrival_time C (customer_id t) + 1 \<or> now < 1 + finish_times s (selected t)
        then t\<lparr>curr := now, wake := now + 1, pc := BeginSleep\<rparr> else t\<lparr>curr := now, pc := Begin2\<rparr>))"
| "serve_at C h s t BeginSleep = (if cafe_clock s < wake t then None else Some (s, t\<lparr>pc := Begin2\<rparr>))"
| "serve_at C h s t Begin2 =
     (let c = customer_id t; now = cafe_clock s in
      Some (mutex_unlock (set_waiting c (now - arrival_time C c) (set_done c (cafe_print (Begins (selected t) c now) (read_clock s)))),
        t\<lparr>curr := now, b_start := now, prep_i := 0, pc := PrepTest\<rparr>))"
| "serve_at C h s t PrepTest =
     Some (s, if prep_i t < preparation_time t then t\<lparr>wake := cafe_clock s + 1, pc := PrepSleep\<rparr> else t\<lparr>pc := FinishBump\<rparr>)"
| "serve_at C h s t PrepSleep = (if cafe_clock s < wake t then None else Some (s, t\<lparr>pc := PrepBump\<rparr>))"
| "serve_at C h s t PrepBump =
     (let f = finish_times s (selected t) + 1 in Some ((set_finish (selected t) f s)\<lparr>curr_time := f\<rparr>, t\<lparr>pc := PrepLock\<rparr>))"
| "serve_at C h s t PrepLock = mutex_lock h Prep s t"
| "serve_at C h s t Prep =
     Some (mutex_unlock ((set_finish (selected t) (cafe_clock s) (read_clock s))\<lparr>curr_time := cafe_clock s\<rparr>), t\<lparr>pc := PrepLeft\<rparr>)"
| "serve_at C h s t PrepLeft =
     Some (s, t\<lparr>pc := if is_late C (customer_id t) (finish_times s (selected t)) s then PrepLeaveLock else PrepNext\<rparr>)"
| "serve_at C h s t PrepLeaveLock = mutex_lock h PrepLeave s t"
| "serve_at C h s t PrepLeave = Some (mutex_unlock (leave_without C (customer_id t) s), t\<lparr>pc := PrepNext\<rparr>)"
| "serve_at C h s t PrepNext = Some (s, t\<lparr>prep_i := prep_i t + 1, pc := PrepTest\<rparr>)"
| "serve_at C h s t FinishBump =
     (let f = finish_times s (selected t) + 1 in
      Some ((set_finish (selected t) f s)\<lparr>curr_time := f\<rparr>, t\<lparr>preparation_finish_time := f, pc := FinishLock\<rparr>))"
| "serve_at C h s t FinishLock = mutex_lock h Finish s t"
| "serve_at C h s t Finish =
     (let now = cafe_clock s in
      Some (mutex_unlock (cafe_print (Completes (selected t) (customer_id t) (b_start t + preparation_time t))
          ((set_finish (selected t) now (read_clock s))\<lparr>curr_time := now\<rparr>)),
        t\<lparr>preparation_finish_time := now, pc := FinishTest\<rparr>))"
| "serve_at C h s t FinishTest =
     Some (s, t\<lparr>pc := if preparation_finish_time t \<le> arrival_time C (customer_id t) + patience_time C (customer_id t) then GoodLock else Post\<rparr>)"
| "serve_at C h s t GoodLock = mutex_lock h Good s t"
| "serve_at C h s t Good =
     (let c = customer_id t in
      Some (mutex_unlock (set_done c (set_waiting c (b_start t - arrival_time C c)
          (cafe_print (Leaves_with c (b_start t + preparation_time t)) s))), t\<lparr>pc := Post\<rparr>))"
| "serve_at C h s t Post = Some (sem_post (selected t) s, t\<lparr>pc := TotalRead True\<rparr>)"
| "serve_at C h s t (TotalRead again) = Some (s, t\<lparr>reg := total_waiting_time s, pc := TotalWrite again\<rparr>)"
| "serve_at C h s t (TotalWrite again) =
     Some (s\<lparr>total_waiting_time := reg t + waiting_time s (customer_id t)\<rparr>, t\<lparr>pc := if again then CoffeeRead else Exit\<rparr>)"
| "serve_at C h s t CoffeeRead = Some (s, t\<lparr>reg := coffee_preparation_time s, pc := CoffeeWrite\<rparr>)"
| "serve_at C h s t CoffeeWrite = Some (s\<lparr>coffee_preparation_time := reg t + curr_time s\<rparr>, t\<lparr>pc := Test\<rparr>)"
| "serve_at C h s t Exit = None"

definition serve_customer :: "cafe \<Rightarrow> nat \<Rightarrow> cafe_state \<Rightarrow> cafe_thread \<Rightarrow> cafe_next" where
  "serve_customer C h s t = serve_at C h s t (pc t)"

section \<open>All threads\<close>

type_synonym cafe_config = "cafe_state \<times> (nat \<Rightarrow> cafe_thread)"

inductive cafe_step :: "cafe \<Rightarrow> cafe_config \<Rightarrow> cafe_config \<Rightarrow> bool" for C where
  run: "h < nN C \<Longrightarrow> serve_customer C h s (ts h) = Some (s', t') \<Longrightarrow> cafe_step C (s, ts) (s', ts(h := t'))"
| tick: "cafe_step C (s, ts) (s\<lparr>cafe_clock := cafe_clock s + 1\<rparr>, ts)"

inductive cafe_reach :: "cafe \<Rightarrow> cafe_config \<Rightarrow> bool" for C where
  start: "cafe_reach C (cafe_start C, \<lambda>_. thread_start)"
| step: "cafe_reach C c \<Longrightarrow> cafe_step C c c' \<Longrightarrow> cafe_reach C c'"

end
