(* ===== verification/CafeInv.thy ===== *)
theory CafeInv
  imports Cafe
begin

text \<open>
  The invariants of the cafe of \<^verbatim>\<open>concurrency/1.c\<close> over all interleavings: what one step of a thread changes, exclusion on the
  mutex, the customers and the baristas, and the agreement of the messages with the counters.
\<close>

section \<open>What a step changes\<close>

lemmas cafe_defs = serve_customer_def mutex_lock_def mutex_unlock_def sem_post_def cafe_print_def read_clock_def
  leave_without_def set_waiting_def set_finish_def set_done_def Let_def

definition in_section :: "cafe_pc \<Rightarrow> bool" where
  "in_section p \<longleftrightarrow> p \<in> {Claim, Arrive, Order, Scan, Leave1, Chosen, Leave2, Begin1, BeginSleep, Begin2, Prep, PrepLeave, Finish, Good}"

text \<open>The thread works for its customer, from the time it has drawn the number.\<close>

definition works :: "cafe_thread \<Rightarrow> bool" where
  "works t \<longleftrightarrow> pc t \<notin> {Test, ClaimLock, Claim, CoffeeRead, CoffeeWrite, Exit}"

text \<open>The barista whose semaphore the thread has taken and not given back.\<close>

definition held :: "cafe_thread \<Rightarrow> nat option" where
  "held t = (case pc t of
      CheckPrev \<Rightarrow> Some (scan_i t) | PostBack \<Rightarrow> Some (scan_i t)
    | Test \<Rightarrow> None | ClaimLock \<Rightarrow> None | Claim \<Rightarrow> None | ArriveLock \<Rightarrow> None | Arrive \<Rightarrow> None | ArriveTest \<Rightarrow> None | SetCurr \<Rightarrow> None
    | OrderLock \<Rightarrow> None | Order \<Rightarrow> None | FindPrep \<Rightarrow> None | ScanTest \<Rightarrow> None | ScanLock \<Rightarrow> None | Scan \<Rightarrow> None | ScanLeft \<Rightarrow> None
    | Leave1Lock \<Rightarrow> None | Leave1 \<Rightarrow> None | TryWait \<Rightarrow> None | TotalRead _ \<Rightarrow> None | TotalWrite _ \<Rightarrow> None | CoffeeRead \<Rightarrow> None
    | CoffeeWrite \<Rightarrow> None | Exit \<Rightarrow> None
    | _ \<Rightarrow> Some (selected t))"

lemma serve_frame:
  assumes "serve_customer C h s t = Some (s', t')"
  shows "cafe_clock s' = cafe_clock s"
    and "served_customers s' = served_customers s + of_bool (pc t = Claim)"
    and "left_flags s' = (if pc t \<in> {Leave1, Leave2, PrepLeave} then (left_flags s)(customer_id t := True) else left_flags s)"
    and "wasted_coffees s' = wasted_coffees s + of_bool (pc t \<in> {Leave1, Leave2, PrepLeave})"
    and "cust_done s' = (if pc t \<in> {Leave1, Leave2, PrepLeave, Begin2, Good} then (cust_done s)(customer_id t := True) else cust_done s)"
    and "finish_times s' b = finish_times s b \<or> held t = Some b"
  using assms by (cases "pc t"; auto simp: cafe_defs held_def split: if_splits)+

lemma serve_sem:
  assumes "serve_customer C h s t = Some (s', t')"
  shows "barista_available s' = (case (held t, held t') of
      (None, Some i) \<Rightarrow> (barista_available s)(i := barista_available s i - 1)
    | (Some i, None) \<Rightarrow> (barista_available s)(i := barista_available s i + 1)
    | _ \<Rightarrow> barista_available s)"
    and "held t = Some i \<Longrightarrow> held t' = Some j \<Longrightarrow> i = j"
    and "held t = None \<Longrightarrow> held t' = Some j \<Longrightarrow> 0 < barista_available s j"
proof -
  show "barista_available s' = (case (held t, held t') of
      (None, Some i) \<Rightarrow> (barista_available s)(i := barista_available s i - 1)
    | (Some i, None) \<Rightarrow> (barista_available s)(i := barista_available s i + 1)
    | _ \<Rightarrow> barista_available s)"
    using assms by (cases "pc t"; clarsimp simp: cafe_defs held_def split: if_splits)
  show "held t = Some i \<Longrightarrow> held t' = Some j \<Longrightarrow> i = j"
    using assms by (cases "pc t"; clarsimp simp: cafe_defs held_def split: if_splits)
  show "held t = None \<Longrightarrow> held t' = Some j \<Longrightarrow> 0 < barista_available s j"
    using assms by (cases "pc t"; clarsimp simp: cafe_defs held_def split: if_splits)
qed

lemma serve_works:
  assumes "serve_customer C h s t = Some (s', t')" "works t'"
  shows "if works t then customer_id t' = customer_id t
    else pc t = Claim \<and> customer_id t' = served_customers s \<and> served_customers s < nN C"
  using assms by (cases "pc t") (auto simp: cafe_defs works_def split: if_splits)

lemma serve_mutex:
  assumes "serve_customer C h s t = Some (s', t')"
  shows "in_section (pc t) \<or> (if in_section (pc t') then cafe_mutex s = None \<and> cafe_mutex s' = Some h else cafe_mutex s' = cafe_mutex s)"
    and "in_section (pc t) \<Longrightarrow> cafe_mutex s' = (if in_section (pc t') then cafe_mutex s else None)"
  using assms by (cases "pc t"; auto simp: cafe_defs in_section_def split: if_splits)+

text \<open>What is printed.\<close>

lemma serve_out:
  assumes "serve_customer C h s t = Some (s', t')"
  shows "Leaves_without c x \<in> set (cafe_out s') \<longleftrightarrow> Leaves_without c x \<in> set (cafe_out s)
      \<or> pc t \<in> {Leave1, Leave2, PrepLeave} \<and> c = customer_id t \<and> x = arrival_time C c + patience_time C c + 1"
    and "Leaves_with c x \<in> set (cafe_out s') \<longleftrightarrow> Leaves_with c x \<in> set (cafe_out s)
      \<or> pc t = Good \<and> c = customer_id t \<and> x = b_start t + preparation_time t"
    and "Begins b c x \<in> set (cafe_out s') \<longleftrightarrow> Begins b c x \<in> set (cafe_out s)
      \<or> pc t = Begin2 \<and> b = selected t \<and> c = customer_id t \<and> x = cafe_clock s"
  using assms by (cases "pc t"; auto simp: cafe_defs split: if_splits)+

section \<open>Threads, customers and baristas\<close>

definition claims_ok :: "cafe \<Rightarrow> cafe_config \<Rightarrow> bool" where
  "claims_ok C c \<longleftrightarrow> (\<forall>h. works (snd c h) \<longrightarrow> customer_id (snd c h) < served_customers (fst c) \<and> customer_id (snd c h) < nN C)
     \<and> (\<forall>h h'. h \<noteq> h' \<longrightarrow> works (snd c h) \<longrightarrow> works (snd c h') \<longrightarrow> customer_id (snd c h) \<noteq> customer_id (snd c h'))"

text \<open>Binary semaphores \<open>a\<close> and the one each thread holds, \<open>H\<close>.\<close>

definition sem_ok :: "nat \<Rightarrow> (nat \<Rightarrow> nat) \<Rightarrow> (nat \<Rightarrow> nat option) \<Rightarrow> bool" where
  "sem_ok n a H \<longleftrightarrow> (\<forall>i. a i = of_bool (i < n \<and> (\<forall>h. H h \<noteq> Some i))) \<and> (\<forall>h i. H h = Some i \<longrightarrow> i < n)
     \<and> (\<forall>h h' i. H h = Some i \<longrightarrow> H h' = Some i \<longrightarrow> h = h')"

lemma sem_ok_take: "sem_ok n a H \<Longrightarrow> H h = None \<Longrightarrow> 0 < a i \<Longrightarrow> sem_ok n (a(i := a i - 1)) (H(h := Some i))"
  unfolding sem_ok_def by (auto split: if_splits) (metis option.distinct(1))

lemma sem_ok_give: "sem_ok n a H \<Longrightarrow> H h = Some i \<Longrightarrow> sem_ok n (a(i := a i + 1)) (H(h := None))"
  unfolding sem_ok_def by auto (metis option.inject)

definition baristas_ok :: "cafe \<Rightarrow> cafe_config \<Rightarrow> bool" where
  "baristas_ok C c \<longleftrightarrow> sem_ok (nB C) (barista_available (fst c)) (\<lambda>h. held (snd c h))"

definition mutex_ok :: "cafe_config \<Rightarrow> bool" where
  "mutex_ok c \<longleftrightarrow> (\<forall>h. in_section (pc (snd c h)) \<longleftrightarrow> cafe_mutex (fst c) = Some h)"

lemma cafe_start_ok: "claims_ok C (cafe_start C, \<lambda>_. thread_start)" "baristas_ok C (cafe_start C, \<lambda>_. thread_start)"
  "mutex_ok (cafe_start C, \<lambda>_. thread_start)"
  by (simp_all add: claims_ok_def baristas_ok_def sem_ok_def mutex_ok_def works_def held_def in_section_def cafe_start_def thread_start_def)

lemma claims_run:
  assumes "serve_customer C h s (ts h) = Some (s', t')" "claims_ok C (s, ts)"
  shows "claims_ok C (s', ts(h := t'))"
proof -
  let ?ts = "ts(h := t')"
  note old = assms(2) [unfolded claims_ok_def, simplified]
  note F = serve_frame(2) [OF assms(1)]
  note W = serve_works [OF assms(1)]
  have le: "served_customers s \<le> served_customers s'" by (simp add: F)
  have id: "customer_id t' < served_customers s' \<and> customer_id t' < nN C" if "works t'"
    using W [OF that] F old by (cases "works (ts h)") auto
  have new: "customer_id t' \<noteq> customer_id (ts k)" if "works t'" "works (ts k)" "k \<noteq> h" for k
    using W [OF that(1)] old that by (cases "works (ts h)") force+
  show ?thesis
    unfolding claims_ok_def fst_conv snd_conv
  proof (intro conjI allI impI)
    fix k
    assume "works (?ts k)"
    then show "customer_id (?ts k) < served_customers s'" "customer_id (?ts k) < nN C"
      using id old le by (cases "k = h"; force)+
  next
    fix k k'
    assume "k \<noteq> k'" "works (?ts k)" "works (?ts k')"
    then show "customer_id (?ts k) \<noteq> customer_id (?ts k')"
      using new [of k] new [of k'] old by (cases "k = h"; cases "k' = h") auto
  qed
qed

lemma mutex_run:
  assumes "serve_customer C h s (ts h) = Some (s', t')" "mutex_ok (s, ts)"
  shows "mutex_ok (s', ts(h := t'))"
proof (cases "in_section (pc (ts h))")
  case True
  then show ?thesis using assms(2) serve_mutex(2) [OF assms(1)] unfolding mutex_ok_def by auto
next
  case False
  then show ?thesis using assms(2) serve_mutex(1) [OF assms(1)] unfolding mutex_ok_def by (auto split: if_splits)
qed

lemma baristas_run:
  assumes st: "serve_customer C h s (ts h) = Some (s', t')" and ok: "baristas_ok C (s, ts)"
  shows "baristas_ok C (s', ts(h := t'))"
proof -
  note S = serve_sem [OF st]
  let ?H = "\<lambda>k. held (ts k)"
  have H: "(\<lambda>k. held ((ts(h := t')) k)) = ?H(h := held t')" by auto
  consider (same) "held t' = held (ts h)" | (take) i where "held (ts h) = None" "held t' = Some i" | (give) i where "held (ts h) = Some i" "held t' = None"
    using S(2) by (metis option.exhaust)
  then show ?thesis
  proof cases
    case same
    then have "barista_available s' = barista_available s" using S(1) by (simp split: option.splits)
    moreover have "?H(h := held t') = ?H" using same by (simp add: fun_eq_iff)
    ultimately show ?thesis using ok by (simp add: baristas_ok_def H del: fun_upd_apply)
  next
    case (take i)
    then show ?thesis using sem_ok_take [of "nB C" "barista_available s" ?H h i] ok S(1,3) by (simp add: baristas_ok_def H del: fun_upd_apply)
  next
    case (give i)
    then show ?thesis using sem_ok_give [of "nB C" "barista_available s" ?H h i] ok S(1) by (simp add: baristas_ok_def H del: fun_upd_apply)
  qed
qed

lemma cafe_invs: "cafe_reach C c \<Longrightarrow> claims_ok C c \<and> baristas_ok C c \<and> mutex_ok c"
proof (induction rule: cafe_reach.induct)
  case start
  then show ?case by (simp add: cafe_start_ok)
next
  case (step c c')
  from step.hyps(2) show ?case
  proof cases
    case (run h s ts s' t')
    then show ?thesis using step.IH claims_run baristas_run mutex_run by simp
  next
    case (tick s ts)
    then show ?thesis using step.IH by (simp add: claims_ok_def baristas_ok_def mutex_ok_def)
  qed
qed

section \<open>Who leaves with the order\<close>

text \<open>What is known at each point of a thread: \<open>now\<close> is the clock, \<open>late\<close> that the patience of the customer is over, \<open>lf\<close> that
  the customer is marked as gone, and \<open>prev\<close> that the customer before is done with.\<close>

definition deadline :: "cafe \<Rightarrow> cafe_thread \<Rightarrow> int" where
  "deadline C t = arrival_time C (customer_id t) + patience_time C (customer_id t)"

definition point_ok :: "cafe \<Rightarrow> cafe_state \<Rightarrow> cafe_thread \<Rightarrow> bool" where
  "point_ok C s t \<longleftrightarrow>
     (pc t \<in> {ScanLeft, ChosenTest} \<longrightarrow> curr t \<le> cafe_clock s)
   \<and> (pc t \<in> {Leave1Lock, Leave1, Leave2Lock, Leave2, PrepLeaveLock, PrepLeave} \<longrightarrow>
        deadline C t < cafe_clock s \<and> \<not> left_flags s (customer_id t))
   \<and> (pc t = PrepLeft \<longrightarrow> finish_times s (selected t) \<le> cafe_clock s)
   \<and> (pc t \<in> {PrepTest, PrepLeft, PrepLeaveLock, PrepLeave, PrepNext} \<longrightarrow>
        b_start t + prep_i t + of_bool (pc t \<noteq> PrepTest) \<le> cafe_clock s)
   \<and> (pc t \<in> {PrepSleep, PrepBump, PrepLock, Prep} \<longrightarrow>
        b_start t + prep_i t + 1 \<le> wake t \<and> (pc t \<noteq> PrepSleep \<longrightarrow> wake t \<le> cafe_clock s))
   \<and> (pc t \<in> {FinishBump, FinishLock, Finish} \<longrightarrow> b_start t + preparation_time t \<le> cafe_clock s)
   \<and> (pc t \<in> {FinishTest, GoodLock, Good} \<longrightarrow> b_start t + preparation_time t \<le> preparation_finish_time t
        \<and> (left_flags s (customer_id t) \<longrightarrow> deadline C t < preparation_finish_time t))
   \<and> (pc t \<in> {GoodLock, Good} \<longrightarrow> preparation_finish_time t \<le> deadline C t)
   \<and> (pc t \<in> {ScanTest, ScanLock, Scan, ScanLeft, Leave1Lock, Leave1, TryWait} \<or> held t \<noteq> None \<longrightarrow>
        preparation_time t = find_preparation_time C (customer_id t) \<and> preparation_time t \<noteq> - 1)
   \<and> (pc t \<in> {BeginLock, Begin1, BeginSleep, Begin2} \<longrightarrow> customer_id t \<noteq> 0 \<longrightarrow> cust_done s (customer_id t - 1))"

lemma point_run:
  assumes "serve_customer C h s t = Some (s', t')" "point_ok C s t"
    and "\<forall>c. left_flags s c \<longrightarrow> arrival_time C c + patience_time C c < cafe_clock s"
  shows "point_ok C s' t'"
  using assms
  by (cases "pc t"; clarsimp simp: cafe_defs point_ok_def held_def deadline_def is_late_def split: if_splits)

lemma point_frame:
  assumes "point_ok C s t" "cafe_clock s \<le> cafe_clock s'"
    and "works t \<Longrightarrow> left_flags s' (customer_id t) = left_flags s (customer_id t)"
    and "\<And>b. held t = Some b \<Longrightarrow> finish_times s' b = finish_times s b"
    and "\<And>c. cust_done s c \<Longrightarrow> cust_done s' c"
  shows "point_ok C s' t"
  using assms by (cases "pc t"; fastforce simp: point_ok_def held_def works_def)

definition reports_ok :: "cafe \<Rightarrow> cafe_config \<Rightarrow> bool" where
  "reports_ok C c \<longleftrightarrow> (\<forall>h. point_ok C (fst c) (snd c h))
     \<and> (\<forall>k. left_flags (fst c) k \<longrightarrow> k < nN C \<and> arrival_time C k + patience_time C k < cafe_clock (fst c))
     \<and> wasted_coffees (fst c) = int (card {k. left_flags (fst c) k})
     \<and> (\<forall>k. (\<exists>x. Leaves_without k x \<in> set (cafe_out (fst c))) \<longleftrightarrow> left_flags (fst c) k)
     \<and> (\<forall>k x. Leaves_with k x \<in> set (cafe_out (fst c)) \<longrightarrow>
          \<not> left_flags (fst c) k \<and> x \<le> arrival_time C k + patience_time C k \<and> k < served_customers (fst c))
     \<and> (\<forall>h x. works (snd c h) \<longrightarrow> Leaves_with (customer_id (snd c h)) x \<in> set (cafe_out (fst c)) \<longrightarrow>
          pc (snd c h) \<in> {Post, TotalRead True, TotalWrite True})
     \<and> (\<forall>k. cust_done (fst c) k \<longrightarrow> find_preparation_time C k \<noteq> - 1)
     \<and> (\<forall>b k x. Begins b k x \<in> set (cafe_out (fst c)) \<longrightarrow> k \<noteq> 0 \<longrightarrow> cust_done (fst c) (k - 1))"

lemma reports_start: "reports_ok C (cafe_start C, \<lambda>_. thread_start)"
  by (simp add: reports_ok_def point_ok_def held_def works_def cafe_start_def thread_start_def)

lemma reports_okD:
  assumes "reports_ok C (s, ts)"
  shows "point_ok C s (ts h)" "left_flags s k \<Longrightarrow> k < nN C" "left_flags s k \<Longrightarrow> arrival_time C k + patience_time C k < cafe_clock s"
    "wasted_coffees s = int (card {k. left_flags s k})" "(\<exists>x. Leaves_without k x \<in> set (cafe_out s)) \<longleftrightarrow> left_flags s k"
    "Leaves_with k x \<in> set (cafe_out s) \<Longrightarrow> \<not> left_flags s k"
    "Leaves_with k x \<in> set (cafe_out s) \<Longrightarrow> x \<le> arrival_time C k + patience_time C k"
    "Leaves_with k x \<in> set (cafe_out s) \<Longrightarrow> k < served_customers s"
    "works (ts h) \<Longrightarrow> Leaves_with (customer_id (ts h)) x \<in> set (cafe_out s) \<Longrightarrow> pc (ts h) \<in> {Post, TotalRead True, TotalWrite True}"
    "cust_done s k \<Longrightarrow> find_preparation_time C k \<noteq> - 1" "Begins b k x \<in> set (cafe_out s) \<Longrightarrow> k \<noteq> 0 \<Longrightarrow> cust_done s (k - 1)"
  using assms unfolding reports_ok_def fst_conv snd_conv by blast+

lemma reports_okI:
  assumes "\<And>h. point_ok C s (ts h)" "\<And>k. left_flags s k \<Longrightarrow> k < nN C"
    "\<And>k. left_flags s k \<Longrightarrow> arrival_time C k + patience_time C k < cafe_clock s"
    "wasted_coffees s = int (card {k. left_flags s k})" "\<And>k. (\<exists>x. Leaves_without k x \<in> set (cafe_out s)) \<longleftrightarrow> left_flags s k"
    "\<And>k x. Leaves_with k x \<in> set (cafe_out s) \<Longrightarrow> \<not> left_flags s k"
    "\<And>k x. Leaves_with k x \<in> set (cafe_out s) \<Longrightarrow> x \<le> arrival_time C k + patience_time C k"
    "\<And>k x. Leaves_with k x \<in> set (cafe_out s) \<Longrightarrow> k < served_customers s"
    "\<And>h x. works (ts h) \<Longrightarrow> Leaves_with (customer_id (ts h)) x \<in> set (cafe_out s) \<Longrightarrow> pc (ts h) \<in> {Post, TotalRead True, TotalWrite True}"
    "\<And>k. cust_done s k \<Longrightarrow> find_preparation_time C k \<noteq> - 1"
    "\<And>b k x. Begins b k x \<in> set (cafe_out s) \<Longrightarrow> k \<noteq> 0 \<Longrightarrow> cust_done s (k - 1)"
  shows "reports_ok C (s, ts)"
  using assms unfolding reports_ok_def fst_conv snd_conv by blast

lemma reports_tick:
  assumes "reports_ok C (s, ts)"
  shows "reports_ok C (s\<lparr>cafe_clock := cafe_clock s + 1\<rparr>, ts)"
proof (rule reports_okI)
  note R = reports_okD [OF assms]
  show "point_ok C (s\<lparr>cafe_clock := cafe_clock s + 1\<rparr>) (ts h)" for h by (rule point_frame [OF R(1)]) auto
  show "arrival_time C k + patience_time C k < cafe_clock (s\<lparr>cafe_clock := cafe_clock s + 1\<rparr>)"
    if "left_flags (s\<lparr>cafe_clock := cafe_clock s + 1\<rparr>) k" for k using R(3) [of k] that by simp
qed (use reports_okD [OF assms] in simp_all)

lemma works_leave: "pc t \<in> {Leave1, Leave2, PrepLeave, Begin2, Good} \<Longrightarrow> works t"
  by (auto simp: works_def)

lemma point_leave: "point_ok C s t \<Longrightarrow> pc t \<in> {Leave1, Leave2, PrepLeave} \<Longrightarrow> deadline C t < cafe_clock s \<and> \<not> left_flags s (customer_id t)"
  by (auto simp: point_ok_def)

lemma point_good: "point_ok C s t \<Longrightarrow> pc t = Good \<Longrightarrow> \<not> left_flags s (customer_id t) \<and> b_start t + preparation_time t \<le> deadline C t"
  by (auto simp: point_ok_def)

lemma point_found:
  "point_ok C s t \<Longrightarrow> pc t \<in> {Leave1, Leave2, PrepLeave, Begin2, Good} \<Longrightarrow> find_preparation_time C (customer_id t) \<noteq> - 1"
  by (cases "pc t"; simp add: point_ok_def held_def)

lemma point_begin: "point_ok C s t \<Longrightarrow> pc t = Begin2 \<Longrightarrow> customer_id t \<noteq> 0 \<Longrightarrow> cust_done s (customer_id t - 1)"
  by (simp add: point_ok_def)

text \<open>The other threads keep what they know.\<close>

lemma points_run:
  assumes st: "serve_customer C h s (ts h) = Some (s', t')" and R: "reports_ok C (s, ts)"
    and claims: "claims_ok C (s, ts)" and baristas: "baristas_ok C (s, ts)"
  shows "point_ok C s' ((ts(h := t')) k)"
proof (cases "k = h")
  case True
  then show ?thesis using point_run [OF st reports_okD(1) [OF R]] reports_okD(3) [OF R] by simp
next
  case False
  have "point_ok C s' (ts k)"
  proof (rule point_frame [OF reports_okD(1) [OF R]])
    show "left_flags s' (customer_id (ts k)) = left_flags s (customer_id (ts k))" if "works (ts k)"
    proof (cases "works (ts h)")
      case True
      then have "customer_id (ts k) \<noteq> customer_id (ts h)" using claims False that by (simp add: claims_ok_def)
      then show ?thesis by (simp add: serve_frame(3) [OF st])
    qed (use serve_frame(3) [OF st] works_leave [of "ts h"] in auto)
    show "finish_times s' b = finish_times s b" if "held (ts k) = Some b" for b
      using serve_frame(6) [OF st, of b] baristas False that by (auto simp: baristas_ok_def sem_ok_def)
  qed (auto simp: serve_frame(1,5) [OF st])
  then show ?thesis using False by simp
qed

lemma works_after_good: "serve_customer C h s t = Some (s', t') \<Longrightarrow> pc t \<in> {Good, Post, TotalRead True, TotalWrite True} \<Longrightarrow> works t' \<Longrightarrow>
    pc t' \<in> {Post, TotalRead True, TotalWrite True}"
  by (auto simp: cafe_defs works_def)

text \<open>A customer who has the order is not worked for by a thread that could still mark the customer as gone.\<close>

lemma with_run:
  assumes st: "serve_customer C h s (ts h) = Some (s', t')" and R: "reports_ok C (s, ts)" and claims: "claims_ok C (s, ts)"
    and k: "works ((ts(h := t')) k)" and x: "Leaves_with (customer_id ((ts(h := t')) k)) x \<in> set (cafe_out s')"
  shows "pc ((ts(h := t')) k) \<in> {Post, TotalRead True, TotalWrite True}"
proof (cases "k = h")
  case True
  have w: "works t'" using k True by simp
  have out: "Leaves_with (customer_id t') x \<in> set (cafe_out s) \<or> pc (ts h) = Good \<and> customer_id t' = customer_id (ts h)"
    using x True serve_out(2) [OF st] by auto
  note W = serve_works [OF st w]
  have "works (ts h)"
  proof (rule ccontr)
    assume "\<not> works (ts h)"
    then have "pc (ts h) = Claim" "customer_id t' = served_customers s" using W by auto
    then show False using out reports_okD(8) [OF R, of "served_customers s" x] by auto
  qed
  then have "pc (ts h) \<in> {Good, Post, TotalRead True, TotalWrite True}" using out W reports_okD(9) [OF R, of h x] by auto
  then show ?thesis using works_after_good [OF st _ w] True by auto
next
  case False
  then have w: "works (ts k)" using k by simp
  have "\<not> (pc (ts h) = Good \<and> customer_id (ts k) = customer_id (ts h))"
    using claims False w works_leave [of "ts h"] by (auto simp: claims_ok_def)
  then have "Leaves_with (customer_id (ts k)) x \<in> set (cafe_out s)" using x False serve_out(2) [OF st] by auto
  then show ?thesis using reports_okD(9) [OF R w] False by simp
qed

lemma wasted_run:
  assumes st: "serve_customer C h s (ts h) = Some (s', t')" and R: "reports_ok C (s, ts)"
  shows "wasted_coffees s' = int (card {k. left_flags s' k})"
proof (cases "pc (ts h) \<in> {Leave1, Leave2, PrepLeave}")
  case True
  have "{k. left_flags s k} \<subseteq> {..<nN C}" using reports_okD(2) [OF R] by auto
  then have "finite {k. left_flags s k}" by (rule finite_subset) simp
  moreover have "{k. left_flags s' k} = insert (customer_id (ts h)) {k. left_flags s k}" using True by (auto simp: serve_frame(3) [OF st])
  ultimately show ?thesis
    using True reports_okD(4) [OF R] point_leave [OF reports_okD(1) [OF R] True] by (simp add: serve_frame(4) [OF st])
next
  case False
  then show ?thesis using reports_okD(4) [OF R] by (auto simp: serve_frame(3,4) [OF st])
qed

lemma reports_run:
  assumes st: "serve_customer C h s (ts h) = Some (s', t')" and R: "reports_ok C (s, ts)"
    and claims: "claims_ok C (s, ts)" and baristas: "baristas_ok C (s, ts)"
  shows "reports_ok C (s', ts(h := t'))"
proof (rule reports_okI)
  note P = reports_okD(1) [OF R, of h]
  note F = serve_frame [OF st]
  note O = serve_out [OF st]
  have id: "customer_id (ts h) < nN C \<and> customer_id (ts h) < served_customers s" if "pc (ts h) \<in> {Leave1, Leave2, PrepLeave, Begin2, Good}"
    using works_leave [OF that] claims by (simp add: claims_ok_def)
  show "point_ok C s' ((ts(h := t')) k)" for k by (rule points_run [OF st R claims baristas])
  show "k < nN C" if "left_flags s' k" for k using that id reports_okD(2) [OF R, of k] by (auto simp: F(3) split: if_splits)
  show "arrival_time C k + patience_time C k < cafe_clock s'" if "left_flags s' k" for k
    using that point_leave [OF P] reports_okD(3) [OF R, of k] by (auto simp: F(1,3) deadline_def split: if_splits)
  show "wasted_coffees s' = int (card {k. left_flags s' k})" by (rule wasted_run [OF st R])
  show "(\<exists>x. Leaves_without k x \<in> set (cafe_out s')) \<longleftrightarrow> left_flags s' k" for k
    using reports_okD(5) [OF R, of k] by (auto simp: O(1) F(3))
  show "\<not> left_flags s' k" if "Leaves_with k x \<in> set (cafe_out s')" for k x
  proof (cases "Leaves_with k x \<in> set (cafe_out s)")
    case True
    have "\<not> (pc (ts h) \<in> {Leave1, Leave2, PrepLeave} \<and> k = customer_id (ts h))"
      using reports_okD(9) [OF R, of h x] works_leave [of "ts h"] True by auto
    then show ?thesis using reports_okD(6) [OF R True] by (auto simp: F(3))
  next
    case False
    then show ?thesis using that point_good [OF P] by (auto simp: O(2) F(3))
  qed
  show "x \<le> arrival_time C k + patience_time C k" if "Leaves_with k x \<in> set (cafe_out s')" for k x
    using that reports_okD(7) [OF R, of k x] point_good [OF P] by (auto simp: O(2) deadline_def)
  show "k < served_customers s'" if "Leaves_with k x \<in> set (cafe_out s')" for k x
    using that reports_okD(8) [OF R, of k x] id by (auto simp: O(2) F(2))
  show "pc ((ts(h := t')) k) \<in> {Post, TotalRead True, TotalWrite True}"
    if "works ((ts(h := t')) k)" "Leaves_with (customer_id ((ts(h := t')) k)) x \<in> set (cafe_out s')" for k x
    by (rule with_run [OF st R claims that])
  show "find_preparation_time C k \<noteq> - 1" if "cust_done s' k" for k
    using that reports_okD(10) [OF R, of k] point_found [OF P] by (auto simp: F(5) split: if_splits)
  show "cust_done s' (k - 1)" if "Begins b k x \<in> set (cafe_out s')" "k \<noteq> 0" for b k x
    using that reports_okD(11) [OF R, of b k x] point_begin [OF P] by (auto simp: O(3) F(5))
qed

lemma cafe_reports: "cafe_reach C c \<Longrightarrow> reports_ok C c"
proof (induction rule: cafe_reach.induct)
  case start
  show ?case by (rule reports_start)
next
  case (step c c')
  note ok = cafe_invs [OF step.hyps(1)]
  from step.hyps(2) show ?case
  proof cases
    case (run h s ts s' t')
    then show ?thesis using reports_run [of C h s ts s' t'] step.IH ok by simp
  next
    case (tick s ts)
    then show ?thesis using reports_tick step.IH by simp
  qed
qed

section \<open>Runs\<close>

fun cafe_run :: "cafe \<Rightarrow> nat option list \<Rightarrow> cafe_config \<Rightarrow> cafe_config option" where
  "cafe_run C [] c = Some c"
| "cafe_run C (None # hs) (s, ts) = cafe_run C hs (s\<lparr>cafe_clock := cafe_clock s + 1\<rparr>, ts)"
| "cafe_run C (Some h # hs) (s, ts) =
     (if h < nN C then case serve_customer C h s (ts h) of None \<Rightarrow> None | Some (s', t') \<Rightarrow> cafe_run C hs (s', ts(h := t')) else None)"

lemma cafe_run_reach: "cafe_reach C c \<Longrightarrow> cafe_run C hs c = Some c' \<Longrightarrow> cafe_reach C c'"
proof (induction C hs c rule: cafe_run.induct)
  case (2 C hs s ts)
  then show ?case using cafe_reach.step [OF _ cafe_step.tick] by auto
next
  case (3 C h hs s ts)
  then show ?case using cafe_reach.step [OF _ cafe_step.run] by (auto split: if_splits option.splits)
qed auto

definition two_cups :: cafe where
  "two_cups = \<lparr>nB = 2, nK = 1, nN = 2, coffee_types = [(''Latte'', 1)], coffee_name = (\<lambda>_. ''Latte''),
     arrival_time = (\<lambda>_. 0), patience_time = (\<lambda>_. 9)\<rparr>"

text \<open>Schedules for two customers and two baristas: the first customer is being served; both are served; both are served and
  about to add their waiting times to the total.\<close>

definition begun :: "nat option list" where
  "begun = replicate 22 (Some 0) @ [None] @ replicate 2 (Some 0)"

definition both_served :: "nat option list" where
  "both_served = begun @ [Some 0, None] @ replicate 16 (Some 0)
     @ replicate 22 (Some 1) @ [None] @ replicate 3 (Some 1) @ [None] @ replicate 19 (Some 1)"

definition both_add :: "nat option list" where
  "both_add = begun @ [Some 0, None] @ replicate 14 (Some 0)
     @ replicate 22 (Some 1) @ [None] @ replicate 3 (Some 1) @ [None] @ replicate 14 (Some 1)"

lemma begun_runs: "cafe_run two_cups begun (cafe_start two_cups, \<lambda>_. thread_start) \<noteq> None"
  by code_simp

lemma both_served_runs:
  "case cafe_run two_cups both_served (cafe_start two_cups, \<lambda>_. thread_start) of None \<Rightarrow> False
   | Some (s, ts) \<Rightarrow> Leaves_with 1 4 \<in> set (cafe_out s)"
  by code_simp

section \<open>The total of the waiting times\<close>

lemma serve_total:
  assumes "serve_customer C h s t = Some (s', t')"
  shows "waiting_time s' c = waiting_time s c \<or> works t \<and> c = customer_id t"
    and "pc t' = TotalWrite a \<Longrightarrow> reg t' = total_waiting_time s \<and> total_waiting_time s' = total_waiting_time s"
    and "if \<exists>a. pc t = TotalWrite a
      then total_waiting_time s' = reg t + waiting_time s (customer_id t) \<and> waiting_time s' = waiting_time s \<and> works t \<and> \<not> works t'
      else total_waiting_time s' = total_waiting_time s"
  using assms by (cases "pc t"; auto simp: cafe_defs works_def split: if_splits)+

text \<open>The customers no thread works for any more, and the values that are sums of waiting times of some of them.\<close>

definition counted :: "cafe_config \<Rightarrow> nat set" where
  "counted c = {k. k < served_customers (fst c) \<and> (\<forall>h. works (snd c h) \<longrightarrow> customer_id (snd c h) \<noteq> k)}"

definition some_sum :: "cafe_config \<Rightarrow> int \<Rightarrow> bool" where
  "some_sum c v \<longleftrightarrow> (\<exists>A\<subseteq>counted c. v = sum (waiting_time (fst c)) A)"

definition total_ok :: "cafe_config \<Rightarrow> bool" where
  "total_ok c \<longleftrightarrow> some_sum c (total_waiting_time (fst c)) \<and> (\<forall>h a. pc (snd c h) = TotalWrite a \<longrightarrow> some_sum c (reg (snd c h)))"

lemma counted_run:
  assumes st: "serve_customer C h s (ts h) = Some (s', t')"
  shows "counted (s, ts) \<subseteq> counted (s', ts(h := t'))"
    and "k \<in> counted (s, ts) \<Longrightarrow> waiting_time s' k = waiting_time s k"
proof -
  show "waiting_time s' k = waiting_time s k" if "k \<in> counted (s, ts)"
    using that serve_total(1) [OF st, of k] by (auto simp: counted_def)
  show "counted (s, ts) \<subseteq> counted (s', ts(h := t'))"
  proof
    fix k
    assume k: "k \<in> counted (s, ts)"
    then have "customer_id t' \<noteq> k" if "works t'"
      using serve_works [OF st that] by (auto simp: counted_def split: if_splits)
    then show "k \<in> counted (s', ts(h := t'))" using k serve_frame(2) [OF st] by (auto simp: counted_def)
  qed
qed

lemma some_sum_run:
  assumes "serve_customer C h s (ts h) = Some (s', t')" "some_sum (s, ts) v"
  shows "some_sum (s', ts(h := t')) v"
proof -
  obtain A where A: "A \<subseteq> counted (s, ts)" "v = sum (waiting_time s) A" using assms(2) by (auto simp: some_sum_def)
  moreover have "sum (waiting_time s) A = sum (waiting_time s') A"
    using A(1) counted_run(2) [of C h s ts s' t', OF assms(1)] by (intro sum.cong) auto
  ultimately show ?thesis using counted_run(1) [of C h s ts s' t', OF assms(1)] by (auto simp: some_sum_def)
qed

lemma some_sum_add:
  assumes st: "serve_customer C h s (ts h) = Some (s', t')" and claims: "claims_ok C (s, ts)"
    and at: "pc (ts h) = TotalWrite a" and v: "some_sum (s, ts) v"
  shows "some_sum (s', ts(h := t')) (v + waiting_time s (customer_id (ts h)))"
proof -
  let ?c = "customer_id (ts h)"
  have w: "works (ts h)" "\<not> works t'" "waiting_time s' = waiting_time s" using serve_total(3) [OF st] at by auto
  obtain A where A: "A \<subseteq> counted (s, ts)" "v = sum (waiting_time s) A" using v by (auto simp: some_sum_def)
  have "A \<subseteq> {..<served_customers s}" using A(1) by (auto simp: counted_def)
  then have "finite A" "?c \<notin> A" using A(1) w(1) finite_subset by (auto simp: counted_def)
  then have "sum (waiting_time s') (insert ?c A) = v + waiting_time s ?c" using A(2) w(3) by simp
  moreover have "?c \<in> counted (s', ts(h := t'))"
    using claims w(1,2) serve_frame(2) [OF st] by (auto simp: counted_def claims_ok_def)
  moreover have "A \<subseteq> counted (s', ts(h := t'))" using A(1) counted_run(1) [of C h s ts, OF st] by blast
  ultimately show ?thesis unfolding some_sum_def by (intro exI [of _ "insert ?c A"]) auto
qed

lemma total_run:
  assumes st: "serve_customer C h s (ts h) = Some (s', t')" and claims: "claims_ok C (s, ts)" and ok: "total_ok (s, ts)"
  shows "total_ok (s', ts(h := t'))"
proof -
  note T = serve_total [OF st]
  have regs: "some_sum (s, ts) (reg (ts k))" if "pc (ts k) = TotalWrite a" for k a using ok that by (auto simp: total_ok_def)
  have total: "some_sum (s, ts) (total_waiting_time s)" using ok by (simp add: total_ok_def)
  have "some_sum (s', ts(h := t')) (total_waiting_time s')"
  proof (cases "\<exists>a. pc (ts h) = TotalWrite a")
    case True
    then obtain a where a: "pc (ts h) = TotalWrite a" by blast
    then show ?thesis using some_sum_add [of C h s ts, OF st claims a regs [OF a]] T(3) by simp
  next
    case False
    then show ?thesis using some_sum_run [of C h s ts, OF st total] T(3) by simp
  qed
  moreover have "some_sum (s', ts(h := t')) (reg ((ts(h := t')) k))" if "pc ((ts(h := t')) k) = TotalWrite a" for k a
    using that some_sum_run [of C h s ts, OF st] total T(2) [of a] regs by (cases "k = h") auto
  ultimately show ?thesis by (simp add: total_ok_def)
qed

lemma cafe_total: "cafe_reach C c \<Longrightarrow> total_ok c"
proof (induction rule: cafe_reach.induct)
  case start
  then show ?case by (auto simp: total_ok_def some_sum_def cafe_start_def thread_start_def)
next
  case (step c c')
  from step.hyps(2) show ?case
  proof cases
    case (run h s ts s' t')
    then show ?thesis using total_run step.IH cafe_invs [OF step.hyps(1)] by blast
  next
    case (tick s ts)
    then show ?thesis using step.IH by (simp add: total_ok_def some_sum_def counted_def)
  qed
qed

text \<open>Two threads that are about to add, one addition after the other or the second within the first.\<close>

definition has_added :: "cafe_thread \<Rightarrow> cafe_thread \<Rightarrow> bool" where
  "has_added t t' \<longleftrightarrow> (\<exists>b. pc t = TotalRead b \<and> pc t' = (if b then CoffeeRead else Exit)) \<and> customer_id t' = customer_id t"

lemma cafe_two_adds:
  assumes r: "cafe_reach C (s, ts)" and h: "h \<noteq> h'" "h < nN C" "h' < nN C"
    and pcs: "pc (ts h) = TotalRead b" "pc (ts h') = TotalRead b'"
  defines "w k \<equiv> waiting_time s (customer_id (ts k))"
  shows "\<exists>ts'. cafe_reach C (s\<lparr>total_waiting_time := total_waiting_time s + w h\<rparr>, ts')
      \<and> has_added (ts h) (ts' h) \<and> has_added (ts h') (ts' h') \<and> (\<forall>k. k \<notin> {h, h'} \<longrightarrow> ts' k = ts k)"
    and "\<exists>ts'. cafe_reach C (s\<lparr>total_waiting_time := total_waiting_time s + w h + w h'\<rparr>, ts')
      \<and> has_added (ts h) (ts' h) \<and> has_added (ts h') (ts' h') \<and> (\<forall>k. k \<notin> {h, h'} \<longrightarrow> ts' k = ts k)"
proof -
  let ?run = "\<lambda>hs. cafe_run C (map Some hs) (s, ts)"
  obtain u where "?run [h, h', h', h] = Some (s\<lparr>total_waiting_time := total_waiting_time s + w h\<rparr>, u)"
    "has_added (ts h) (u h)" "has_added (ts h') (u h')" "\<forall>k. k \<notin> {h, h'} \<longrightarrow> u k = ts k"
    using h pcs by (simp add: serve_customer_def w_def has_added_def)
  then show "\<exists>ts'. cafe_reach C (s\<lparr>total_waiting_time := total_waiting_time s + w h\<rparr>, ts')
      \<and> has_added (ts h) (ts' h) \<and> has_added (ts h') (ts' h') \<and> (\<forall>k. k \<notin> {h, h'} \<longrightarrow> ts' k = ts k)"
    using cafe_run_reach [OF r] by blast
  obtain u where "?run [h, h, h', h'] = Some (s\<lparr>total_waiting_time := total_waiting_time s + w h + w h'\<rparr>, u)"
    "has_added (ts h) (u h)" "has_added (ts h') (u h')" "\<forall>k. k \<notin> {h, h'} \<longrightarrow> u k = ts k"
    using h pcs by (simp add: serve_customer_def w_def has_added_def)
  then show "\<exists>ts'. cafe_reach C (s\<lparr>total_waiting_time := total_waiting_time s + w h + w h'\<rparr>, ts')
      \<and> has_added (ts h) (ts' h) \<and> has_added (ts h') (ts' h') \<and> (\<forall>k. k \<notin> {h, h'} \<longrightarrow> ts' k = ts k)"
    using cafe_run_reach [OF r] by blast
qed

text \<open>
  C14. In every reachable state of the cafe, for every input and every interleaving of the threads: at most one thread is between
  locking and unlocking the mutex, two threads never work for the same customer, two threads never hold the same barista,
  and no barista is lost: the semaphore of a barista is 1 exactly when no thread holds the barista, and else 0.
\<close>

theorem cafe_exclusive:
  assumes "cafe_reach C (s, ts)"
  shows "(h \<noteq> h' \<longrightarrow> \<not> (in_section (pc (ts h)) \<and> in_section (pc (ts h')))
      \<and> \<not> (works (ts h) \<and> works (ts h') \<and> customer_id (ts h) = customer_id (ts h'))
      \<and> \<not> (\<exists>i. held (ts h) = Some i \<and> held (ts h') = Some i))
    \<and> (i < nB C \<longrightarrow> barista_available s i = (if \<exists>h. held (ts h) = Some i then 0 else 1))"
  using cafe_invs [OF assms] by (auto simp: mutex_ok_def claims_ok_def baristas_ok_def sem_ok_def)

theorem cafe_exclusive_witness:
  "\<exists>s ts. cafe_run two_cups begun (cafe_start two_cups, \<lambda>_. thread_start) = Some (s, ts)
     \<and> \<not> (\<exists>i. held (ts 0) = Some i \<and> held (ts 1) = Some i) \<and> barista_available s 1 = (if \<exists>h. held (ts h) = Some 1 then 0 else 1)"
proof -
  obtain s ts where c: "cafe_run two_cups begun (cafe_start two_cups, \<lambda>_. thread_start) = Some (s, ts)" using begun_runs by auto
  note r = cafe_run_reach [OF cafe_reach.start c]
  show ?thesis using c cafe_exclusive [OF r, of 0 1 1] by (simp add: two_cups_def)
qed

text \<open>
  C24. The messages and the count of the cafe agree, for every input and every interleaving: \<^verbatim>\<open>wasted_coffees\<close> is the number
  of different customers for whom the program says that they leave without their order; nobody leaves both with and without
  the order; and whoever leaves with the order does so by the end of the patience, arrival time plus patience.
\<close>

theorem cafe_counts_wasted:
  assumes "cafe_reach C (s, ts)"
  shows "wasted_coffees s = int (card {k. \<exists>x. Leaves_without k x \<in> set (cafe_out s)})
    \<and> (Leaves_with k x \<in> set (cafe_out s) \<longrightarrow>
        x \<le> arrival_time C k + patience_time C k \<and> (\<forall>y. Leaves_without k y \<notin> set (cafe_out s)))"
proof -
  note R = reports_okD [OF cafe_reports [OF assms]]
  show ?thesis using R(5,6,7) by (simp add: R(4)) blast
qed

theorem cafe_counts_wasted_witness:
  "\<exists>s ts. cafe_run two_cups both_served (cafe_start two_cups, \<lambda>_. thread_start) = Some (s, ts)
     \<and> wasted_coffees s = int (card {k. \<exists>x. Leaves_without k x \<in> set (cafe_out s)}) \<and> (\<forall>y. Leaves_without 1 y \<notin> set (cafe_out s))"
proof -
  obtain s ts where c: "cafe_run two_cups both_served (cafe_start two_cups, \<lambda>_. thread_start) = Some (s, ts)"
    "Leaves_with 1 4 \<in> set (cafe_out s)" using both_served_runs by (auto split: option.splits)
  note r = cafe_run_reach [OF cafe_reach.start c(1)]
  show ?thesis using c cafe_counts_wasted [OF r, of 1 4] by auto
qed

text \<open>
  C38. An order for a coffee that is not on the list blocks the next customer: the thread returns without marking its customer
  as done, so no barista ever begins the order of the customer after.
\<close>

theorem cafe_invalid_order_blocks:
  assumes "cafe_reach C (s, ts)" and "find_preparation_time C k = - 1"
  shows "Begins b (Suc k) x \<notin> set (cafe_out s)"
  using reports_okD(10,11) [OF cafe_reports [OF assms(1)]] assms(2) by fastforce

theorem cafe_invalid_order_blocks_witness:
  "\<exists>s ts. cafe_run (two_cups\<lparr>coffee_name := (\<lambda>_. ''Tea'')\<rparr>) (replicate 10 (Some 0)) (cafe_start (two_cups\<lparr>coffee_name := (\<lambda>_. ''Tea'')\<rparr>), \<lambda>_. thread_start)
     = Some (s, ts) \<and> Begins 0 (Suc 0) 1 \<notin> set (cafe_out s)"
proof -
  let ?C = "two_cups\<lparr>coffee_name := (\<lambda>_. ''Tea'')\<rparr>"
  have "cafe_run ?C (replicate 10 (Some 0)) (cafe_start ?C, \<lambda>_. thread_start) \<noteq> None" by code_simp
  then obtain s ts where c: "cafe_run ?C (replicate 10 (Some 0)) (cafe_start ?C, \<lambda>_. thread_start) = Some (s, ts)" by auto
  moreover have "find_preparation_time ?C 0 = - 1" by code_simp
  ultimately show ?thesis using cafe_invalid_order_blocks [OF cafe_run_reach [OF cafe_reach.start c], of 0 0 1] by blast
qed

text \<open>
  C37. The total of the waiting times is added to outside the mutex. For every input and every interleaving, the total is the sum of
  the waiting times of some of the customers that no thread works for any more, but not of all of them: whenever two threads are about to add
  the waiting times of their customers, who are different, one order of their reads and writes counts both, and another
  ends with both threads past the addition and with nothing else changed, and the waiting time of the second customer is not in the total.
\<close>

theorem cafe_loses_waiting_time:
  assumes "cafe_reach C (s, ts)"
  shows "(\<exists>A\<subseteq>counted (s, ts). total_waiting_time s = (\<Sum>k\<in>A. waiting_time s k))
    \<and> (h \<noteq> h' \<and> h < nN C \<and> h' < nN C \<and> pc (ts h) = TotalRead b \<and> pc (ts h') = TotalRead b' \<longrightarrow>
        customer_id (ts h) \<noteq> customer_id (ts h')
      \<and> (\<exists>ts'. cafe_reach C (s\<lparr>total_waiting_time := total_waiting_time s + waiting_time s (customer_id (ts h))
            + waiting_time s (customer_id (ts h'))\<rparr>, ts')
          \<and> has_added (ts h) (ts' h) \<and> has_added (ts h') (ts' h') \<and> (\<forall>k. k \<notin> {h, h'} \<longrightarrow> ts' k = ts k))
      \<and> (\<exists>ts'. cafe_reach C (s\<lparr>total_waiting_time := total_waiting_time s + waiting_time s (customer_id (ts h))\<rparr>, ts')
          \<and> has_added (ts h) (ts' h) \<and> has_added (ts h') (ts' h') \<and> (\<forall>k. k \<notin> {h, h'} \<longrightarrow> ts' k = ts k)))"
proof -
  have "customer_id (ts h) \<noteq> customer_id (ts h')" if "h \<noteq> h'" "pc (ts h) = TotalRead b" "pc (ts h') = TotalRead b'"
    using cafe_invs [OF assms] that by (auto simp: claims_ok_def works_def)
  then show ?thesis using cafe_total [OF assms] cafe_two_adds [OF assms] by (auto simp: total_ok_def some_sum_def)
qed

theorem cafe_loses_waiting_time_witness:
  "\<exists>s ts'. cafe_reach two_cups (s, ts') \<and> Leaves_with 0 2 \<in> set (cafe_out s) \<and> Leaves_with 1 4 \<in> set (cafe_out s)
     \<and> pc (ts' 0) = CoffeeRead \<and> pc (ts' 1) = CoffeeRead \<and> customer_id (ts' 0) = 0 \<and> customer_id (ts' 1) = 1
     \<and> total_waiting_time s < waiting_time s 0 + waiting_time s 1"
proof -
  let ?c = "cafe_run two_cups both_add (cafe_start two_cups, \<lambda>_. thread_start)"
  have "case ?c of None \<Rightarrow> False | Some (s, ts) \<Rightarrow> pc (ts 0) = TotalRead True \<and> pc (ts 1) = TotalRead True
      \<and> customer_id (ts 0) = 0 \<and> customer_id (ts 1) = 1 \<and> total_waiting_time s = 0 \<and> 0 < waiting_time s 1
      \<and> Leaves_with 0 2 \<in> set (cafe_out s) \<and> Leaves_with 1 4 \<in> set (cafe_out s)"
    by code_simp
  then obtain s ts where c: "?c = Some (s, ts)" "pc (ts 0) = TotalRead True" "pc (ts 1) = TotalRead True" "customer_id (ts 0) = 0"
    "customer_id (ts 1) = 1" "total_waiting_time s = 0" "0 < waiting_time s 1" "Leaves_with 0 2 \<in> set (cafe_out s)" "Leaves_with 1 4 \<in> set (cafe_out s)"
    by (auto split: option.splits)
  have n: "nN two_cups = 2" by (simp add: two_cups_def)
  obtain ts' where "cafe_reach two_cups (s\<lparr>total_waiting_time := waiting_time s 0\<rparr>, ts')" "has_added (ts 0) (ts' 0)" "has_added (ts 1) (ts' 1)"
    using cafe_loses_waiting_time [OF cafe_run_reach [OF cafe_reach.start c(1)], of 0 1 True True] c(2-6) n by auto
  then show ?thesis using c(2-9)
    by (intro exI [of _ "s\<lparr>total_waiting_time := waiting_time s 0\<rparr>"] exI [of _ ts']) (auto simp: has_added_def)
qed

end
