(* ===== verification/Parlor.thy ===== *)
theory Parlor
  imports Prelude
begin

text \<open>
  \<^verbatim>\<open>concurrency/2.c\<close>: the ice cream parlor. There is a thread for each machine (\<^verbatim>\<open>print_machine\<close>), for each customer
  (\<^verbatim>\<open>serve_customer\<close>) and, created by the customer threads, for each ice cream (\<^verbatim>\<open>make_order\<close>). As for the cafe, a step is one
  access to the shared state outside the mutex, the taking of the mutex, or a piece of what is done while it is held; the
  clock advances on its own, flags that are 0 or 1 are booleans, and times are integers, for an input small enough for \<^verbatim>\<open>int\<close>. The mutex is a default one: a thread that locks it while
  holding it waits for ever.
\<close>

section \<open>The input\<close>

record parlor =
  pN :: nat
  pK :: int
  p_start_time :: "nat \<Rightarrow> int"
  p_end_time :: "nat \<Rightarrow> int"
  p_flavors :: "(string \<times> int) list"
  p_toppings :: "(string \<times> int) list"
  num_customers :: nat
  p_arrival :: "nat \<Rightarrow> int"
  p_orders :: "nat \<Rightarrow> (string \<times> string list) list"

definition num_ice_creams :: "parlor \<Rightarrow> nat \<Rightarrow> nat" where
  "num_ice_creams P c = length (p_orders P c)"

definition flavor_time :: "parlor \<Rightarrow> nat \<Rightarrow> nat \<Rightarrow> int" where
  "flavor_time P c k = (case find (\<lambda>f. fst f = fst (p_orders P c ! k)) (p_flavors P) of None \<Rightarrow> - 1 | Some f \<Rightarrow> snd f)"

text \<open>The toppings of an order as indices of the table, the first one of each name; other names are skipped by the loops.\<close>

definition topping_index :: "parlor \<Rightarrow> string \<Rightarrow> nat option" where
  "topping_index P n = find (\<lambda>i. fst (p_toppings P ! i) = n) [0..<length (p_toppings P)]"

definition order_toppings :: "parlor \<Rightarrow> nat \<Rightarrow> nat \<Rightarrow> nat list" where
  "order_toppings P c k = List.map_filter (topping_index P) (snd (p_orders P c ! k))"

section \<open>The shared state\<close>

datatype ptid = Machine nat | Customer nat | Maker nat nat

datatype parlor_event =
    MachineStarts nat int
  | MachineStops nat int
  | Enters nat int
  | NotServiced nat
  | Unfulfilled nat int
  | StartsPreparing nat nat nat int
  | CompletesPreparing nat nat nat int
  | Collected nat int
  | BadOrder

record parlor_state =
  p_available :: "nat \<Rightarrow> bool"
  p_quantity :: "nat \<Rightarrow> int"
  o_started :: "nat \<Rightarrow> nat \<Rightarrow> bool"
  o_done :: "nat \<Rightarrow> nat \<Rightarrow> bool"
  c_left :: "nat \<Rightarrow> bool"
  c_done :: "nat \<Rightarrow> bool"
  p_cust_done :: "nat \<Rightarrow> bool"
  p_served :: nat
  curr_queue :: int
  p_mutex :: "ptid option"
  machine_available :: "nat \<Rightarrow> nat"
  p_elapsed :: int
  p_clock :: int
  p_out :: "parlor_event list"

definition parlor_start :: "parlor \<Rightarrow> parlor_state" where
  "parlor_start P = \<lparr>p_available = (\<lambda>_. False),
     p_quantity = (\<lambda>i. if i < length (p_toppings P) then (if snd (p_toppings P ! i) = - 1 then 2147483647 else snd (p_toppings P ! i)) else 0),
     o_started = (\<lambda>_ _. False), o_done = (\<lambda>_ _. False), c_left = (\<lambda>_. False), c_done = (\<lambda>_. False), p_cust_done = (\<lambda>_. False),
     p_served = 0, curr_queue = 0, p_mutex = None, machine_available = (\<lambda>i. if i < pN P then 1 else 0),
     p_elapsed = 0, p_clock = 0, p_out = []\<rparr>"

section \<open>A thread\<close>

datatype machine_pc = MLock1 | MTime1 | MTest1 | MOn | MLock2 | MTime2 | MTest2 | MOff | MExit

datatype customer_pc =
    STest | SClaimLock | SClaim | SArriveLock | SArrive | SArriveTest | SEnterTest | SEnterLock | SEnter | SWaitPrev | SSleep
  | SCreate | SJoin | SDoneTest | SDoneLock | SDone | SExit

datatype maker_pc =
    OWaitPrev | OCheckLeft | OGone | OGoneQueue | OGoneWrite | OLoop
  | OStop | OStopLock | OStopTime | ONoMachLock | ONoMach | OPrep | OTop | OTopLock | OTopLeave
  | OSel | OSelLock | OSelTime | OSelAvail | OTry | OSel2Lock | OSel2Time | OSelCheck | OSelPost | OSelEnd
  | OStartLock | OStartTop | OStart | OWork | OWorkAgain | OWorkSleep | OEndLock | OEnd | OEndTop | OComplete
  | ORelock | ORelockLeave | ODec | ODecWrite | OPost | OExit

record customer_thread =
  c_pc :: customer_pc
  cust :: nat
  c_ix :: nat
  c_until :: int

record maker_thread =
  pc :: maker_pc
  ix :: nat
  avail :: bool
  sel :: "nat option"
  prep :: int
  work :: int
  until :: int
  total_prep :: int
  quant :: int

definition customer_start :: customer_thread where
  "customer_start = \<lparr>c_pc = STest, cust = 0, c_ix = 0, c_until = 0\<rparr>"

definition maker_start :: maker_thread where
  "maker_start = \<lparr>pc = OWaitPrev, ix = 0, avail = False, sel = None, prep = 0, work = 0, until = 0, total_prep = 0, quant = 0\<rparr>"

text \<open>Locking the mutex, and going on with \<open>t\<close>; None when the thread has to wait.\<close>

definition p_lock :: "ptid \<Rightarrow> 't \<Rightarrow> parlor_state \<Rightarrow> (parlor_state \<times> 't) option" where
  "p_lock h t s = (if p_mutex s = None then Some (s\<lparr>p_mutex := Some h\<rparr>, t) else None)"

definition p_unlock :: "parlor_state \<Rightarrow> parlor_state" where
  "p_unlock s = s\<lparr>p_mutex := None\<rparr>"

definition p_time :: "parlor_state \<Rightarrow> parlor_state" where
  "p_time s = s\<lparr>p_elapsed := p_clock s\<rparr>"

definition p_print :: "parlor_event \<Rightarrow> parlor_state \<Rightarrow> parlor_state" where
  "p_print e s = s\<lparr>p_out := p_out s @ [e]\<rparr>"

definition p_post :: "nat option \<Rightarrow> parlor_state \<Rightarrow> parlor_state" where
  "p_post m s = (case m of None \<Rightarrow> s
     | Some i \<Rightarrow> s\<lparr>machine_available := (machine_available s)(i := machine_available s i + 1)\<rparr>)"

definition set_started :: "nat \<Rightarrow> nat \<Rightarrow> bool \<Rightarrow> parlor_state \<Rightarrow> parlor_state" where
  "set_started c k v s = s\<lparr>o_started := (o_started s)(c := (o_started s c)(k := v))\<rparr>"

text \<open>The customer leaves, unless this is known already.\<close>

definition p_leave :: "nat \<Rightarrow> parlor_event \<Rightarrow> parlor_state \<Rightarrow> parlor_state" where
  "p_leave c e s =
     (if c_left s c then s
      else (p_print e s)\<lparr>c_left := (c_left s)(c := True), p_cust_done := (p_cust_done s)(c := True), curr_queue := curr_queue s - 1\<rparr>)"

definition sel_available :: "parlor_state \<Rightarrow> nat option \<Rightarrow> bool" where
  "sel_available s m = (case m of None \<Rightarrow> False | Some i \<Rightarrow> p_available s i)"

subsection \<open>Machines\<close>

fun machine_at :: "parlor \<Rightarrow> nat \<Rightarrow> parlor_state \<Rightarrow> machine_pc \<Rightarrow> (parlor_state \<times> machine_pc) option" where
  "machine_at P m s MLock1 = p_lock (Machine m) MTime1 s"
| "machine_at P m s MTime1 = Some ((p_unlock (p_time s)), MTest1)"
| "machine_at P m s MTest1 = Some (s, if p_elapsed s < p_start_time P m then MLock1 else MOn)"
| "machine_at P m s MOn =
     Some ((if p_elapsed s \<ge> p_start_time P m then p_print (MachineStarts m (p_start_time P m)) s else s)
       \<lparr>p_available := (p_available s)(m := True)\<rparr>, MLock2)"
| "machine_at P m s MLock2 = p_lock (Machine m) MTime2 s"
| "machine_at P m s MTime2 = Some ((p_unlock (p_time s)), MTest2)"
| "machine_at P m s MTest2 = Some (s, if p_elapsed s < p_end_time P m then MLock2 else MOff)"
| "machine_at P m s MOff =
     Some ((if p_elapsed s \<ge> p_end_time P m then p_print (MachineStops m (p_end_time P m)) s else s)
       \<lparr>p_available := (p_available s)(m := False)\<rparr>, MExit)"
| "machine_at P m s MExit = None"

subsection \<open>Customers\<close>

text \<open>A step gives the new shared state, the new state of the thread and the maker it creates, if any. \<open>joined k\<close> says whether the
  maker of the ice cream \<open>k\<close> has returned. The event \<open>Enters\<close> stands for the lines that announce a customer and the order.\<close>

type_synonym customer_next = "(parlor_state \<times> customer_thread \<times> (nat \<times> nat) option) option"

abbreviation goto :: "parlor_state \<Rightarrow> customer_thread \<Rightarrow> customer_next" where
  "goto s t \<equiv> Some (s, t, None)"

fun customer_at :: "parlor \<Rightarrow> nat \<Rightarrow> (nat \<Rightarrow> bool) \<Rightarrow> parlor_state \<Rightarrow> customer_thread \<Rightarrow> customer_pc \<Rightarrow> customer_next" where
  "customer_at P h joined s t STest = goto s (t\<lparr>c_pc := if p_served s < num_customers P then SClaimLock else SExit\<rparr>)"
| "customer_at P h joined s t SClaimLock = map_option (\<lambda>(s, t). (s, t, None)) (p_lock (Customer h) (t\<lparr>c_pc := SClaim\<rparr>) s)"
| "customer_at P h joined s t SClaim =
     (let c = p_served s; s1 = s\<lparr>p_served := c + 1\<rparr> in
      if curr_queue s > pK P then
        goto (p_unlock (s1\<lparr>curr_queue := curr_queue s - 1, p_cust_done := (p_cust_done s)(c := True), c_left := (c_left s)(c := True)\<rparr>)) (t\<lparr>c_pc := SExit\<rparr>)
      else goto (p_unlock (s1\<lparr>curr_queue := curr_queue s + 1\<rparr>)) (t\<lparr>cust := c, c_pc := if c \<ge> num_customers P then SExit else SArriveLock\<rparr>))"
| "customer_at P h joined s t SArriveLock = map_option (\<lambda>(s, t). (s, t, None)) (p_lock (Customer h) (t\<lparr>c_pc := SArrive\<rparr>) s)"
| "customer_at P h joined s t SArrive = goto (p_unlock (p_time s)) (t\<lparr>c_pc := SArriveTest\<rparr>)"
| "customer_at P h joined s t SArriveTest = goto s (t\<lparr>c_pc := if p_elapsed s < p_arrival P (cust t) then SArriveLock else SEnterTest\<rparr>)"
| "customer_at P h joined s t SEnterTest = goto s (t\<lparr>c_pc := if p_elapsed s \<ge> p_arrival P (cust t) then SEnterLock else SWaitPrev\<rparr>)"
| "customer_at P h joined s t SEnterLock = map_option (\<lambda>(s, t). (s, t, None)) (p_lock (Customer h) (t\<lparr>c_pc := SEnter\<rparr>) s)"
| "customer_at P h joined s t SEnter = goto (p_unlock (p_print (Enters (cust t) (p_arrival P (cust t))) s)) (t\<lparr>c_pc := SWaitPrev\<rparr>)"
| "customer_at P h joined s t SWaitPrev =
     (let c = cust t in
      if c \<noteq> 0 \<and> \<not> p_cust_done s (c - 1) then
        (if c_left s c \<or> c_done s c then goto (s\<lparr>c_left := (c_left s)(c := True), c_done := (c_done s)(c := True)\<rparr>) (t\<lparr>c_pc := SExit\<rparr>) else None)
      else goto s (t\<lparr>c_until := p_clock s + 1, c_pc := SSleep\<rparr>))"
| "customer_at P h joined s t SSleep = (if p_clock s < c_until t then None else goto s (t\<lparr>c_ix := 0, c_pc := SCreate\<rparr>))"
| "customer_at P h joined s t SCreate =
     (if c_ix t < num_ice_creams P (cust t) then Some (s, t\<lparr>c_ix := c_ix t + 1\<rparr>, Some (cust t, c_ix t)) else goto s (t\<lparr>c_ix := 0, c_pc := SJoin\<rparr>))"
| "customer_at P h joined s t SJoin =
     (if c_ix t < num_ice_creams P (cust t) then (if joined (c_ix t) then goto s (t\<lparr>c_ix := c_ix t + 1\<rparr>) else None) else goto s (t\<lparr>c_ix := 0, c_pc := SDoneTest\<rparr>))"
| "customer_at P h joined s t SDoneTest =
     goto s (if c_ix t < num_ice_creams P (cust t) then (if o_done s (cust t) (c_ix t) then t\<lparr>c_ix := c_ix t + 1\<rparr> else t\<lparr>c_pc := STest\<rparr>) else t\<lparr>c_pc := SDoneLock\<rparr>)"
| "customer_at P h joined s t SDoneLock = map_option (\<lambda>(s, t). (s, t, None)) (p_lock (Customer h) (t\<lparr>c_pc := SDone\<rparr>) s)"
| "customer_at P h joined s t SDone =
     (let c = cust t in
      goto (p_unlock ((p_print (Collected c (p_clock s)) (p_time s))
        \<lparr>c_left := (c_left s)(c := True), p_cust_done := (p_cust_done s)(c := True), curr_queue := curr_queue s - 1\<rparr>)) (t\<lparr>c_pc := STest\<rparr>))"
| "customer_at P h joined s t SExit = None"

subsection \<open>Ice creams\<close>

text \<open>
  The comparison \<^verbatim>\<open>started == 1;\<close> of the source has no effect. At \<open>ORelock\<close> the thread locks the mutex that it holds. The loop of
  the preparation gives the semaphore back in every round in which the machine is off.
\<close>

type_synonym maker_next = "(parlor_state \<times> maker_thread) option"

abbreviation go :: "parlor_state \<Rightarrow> maker_thread \<Rightarrow> maker_next" where
  "go s t \<equiv> Some (s, t)"

text \<open>From the selection of a machine to the end of an iteration.\<close>

fun maker_prepare :: "parlor \<Rightarrow> nat \<Rightarrow> nat \<Rightarrow> parlor_state \<Rightarrow> maker_thread \<Rightarrow> maker_pc \<Rightarrow> maker_next" where
  "maker_prepare P c k s t OStartLock = p_lock (Maker c k) (t\<lparr>ix := 0, pc := OStartTop\<rparr>) s"
| "maker_prepare P c k s t OStartTop =
     (let ts = order_toppings P c k in
      go s (if ix t < length ts then (if p_quantity s (ts ! ix t) \<le> 0 then t\<lparr>pc := ORelock\<rparr> else t\<lparr>ix := ix t + 1\<rparr>) else t\<lparr>pc := OStart\<rparr>))"
| "maker_prepare P c k s t OStart =
     go (p_unlock (set_started c k True
        (p_print (StartsPreparing (case sel t of None \<Rightarrow> 0 | Some m \<Rightarrow> m) c k (p_clock s)) (p_time s)))) (t\<lparr>work := 0, pc := OWork\<rparr>)"
| "maker_prepare P c k s t OWork =
     (if work t < prep t then
        (if sel_available s (sel t) then go s (t\<lparr>until := p_clock s + 1, pc := OWorkSleep\<rparr>) else go (p_post (sel t) s) (t\<lparr>pc := OWorkAgain\<rparr>))
      else go s (t\<lparr>pc := OEndLock\<rparr>))"
| "maker_prepare P c k s t OWorkAgain = go (set_started c k False s) (t\<lparr>work := work t + 1, pc := OWork\<rparr>)"
| "maker_prepare P c k s t OWorkSleep = (if p_clock s < until t then None else go s (t\<lparr>work := work t + 1, pc := OWork\<rparr>))"
| "maker_prepare P c k s t OEndLock = p_lock (Maker c k) (t\<lparr>ix := 0, pc := OEnd\<rparr>) s"
| "maker_prepare P c k s t OEnd =
     (if sel_available s (sel t) then go (p_time s) (t\<lparr>pc := OEndTop\<rparr>)
      else go (p_unlock (set_started c k False (p_post (sel t) (p_time s)))) (t\<lparr>pc := OLoop\<rparr>))"
| "maker_prepare P c k s t OEndTop =
     (let ts = order_toppings P c k in
      go s (if ix t < length ts then (if p_quantity s (ts ! ix t) \<le> 0 then t\<lparr>pc := ORelock\<rparr> else t\<lparr>ix := ix t + 1\<rparr>) else t\<lparr>pc := OComplete\<rparr>))"
| "maker_prepare P c k s t OComplete =
     go (p_unlock ((p_print (CompletesPreparing (case sel t of None \<Rightarrow> 0 | Some m \<Rightarrow> m) c k (p_elapsed s)) s)
        \<lparr>o_done := (o_done s)(c := (o_done s c)(k := True))\<rparr>)) (t\<lparr>ix := 0, pc := ODec\<rparr>)"
| "maker_prepare P c k s t ORelock = p_lock (Maker c k) (t\<lparr>pc := ORelockLeave\<rparr>) s"
| "maker_prepare P c k s t ORelockLeave =
     go (p_unlock (p_post (sel t) (set_started c k True (p_leave c (Unfulfilled c (p_clock s)) (p_time s))))) (t\<lparr>pc := OExit\<rparr>)"
| "maker_prepare P c k s t ODec =
     (let ts = order_toppings P c k in
      go s (if ix t < length ts then t\<lparr>quant := p_quantity s (ts ! ix t), pc := ODecWrite\<rparr> else t\<lparr>pc := OPost\<rparr>))"
| "maker_prepare P c k s t ODecWrite =
     (let i = order_toppings P c k ! ix t in
      go (s\<lparr>p_quantity := (p_quantity s)(i := quant t - 1)\<rparr>) (t\<lparr>ix := ix t + 1, pc := ODec\<rparr>))"
| "maker_prepare P c k s t OPost = go (p_post (sel t) s) (t\<lparr>pc := OLoop\<rparr>)"
| "maker_prepare P c k s t _ = None"

text \<open>The start of the thread, and the search for a machine.\<close>

fun maker_at :: "parlor \<Rightarrow> nat \<Rightarrow> nat \<Rightarrow> parlor_state \<Rightarrow> maker_thread \<Rightarrow> maker_pc \<Rightarrow> maker_next" where
  "maker_at P c k s t OWaitPrev = (if k \<noteq> 0 \<and> \<not> o_started s c (k - 1) then None else go s (t\<lparr>pc := OCheckLeft\<rparr>))"
| "maker_at P c k s t OCheckLeft = go s (t\<lparr>pc := if c_left s c then OGone else OLoop\<rparr>)"
| "maker_at P c k s t OGone = go (s\<lparr>p_cust_done := (p_cust_done s)(c := True)\<rparr>) (t\<lparr>pc := OGoneQueue\<rparr>)"
| "maker_at P c k s t OGoneQueue = go s (t\<lparr>quant := curr_queue s, pc := OGoneWrite\<rparr>)"
| "maker_at P c k s t OGoneWrite = go (s\<lparr>curr_queue := quant t - 1\<rparr>) (t\<lparr>pc := OExit\<rparr>)"
| "maker_at P c k s t OLoop = go s (if o_started s c k then t\<lparr>pc := OExit\<rparr> else t\<lparr>ix := 0, pc := OStop\<rparr>)"
| "maker_at P c k s t OStop =
     go s (t\<lparr>pc := if ix t < pN P then (if p_available s (ix t) then OPrep else OStopLock) else ONoMachLock\<rparr>)"
| "maker_at P c k s t OStopLock = p_lock (Maker c k) (t\<lparr>pc := OStopTime\<rparr>) s"
| "maker_at P c k s t OStopTime =
     go (p_unlock (p_time s)) (if p_end_time P (ix t) > p_clock s then t\<lparr>pc := OPrep\<rparr> else t\<lparr>ix := ix t + 1, pc := OStop\<rparr>)"
| "maker_at P c k s t ONoMachLock = p_lock (Maker c k) (t\<lparr>pc := ONoMach\<rparr>) s"
| "maker_at P c k s t ONoMach =
     go (p_unlock (p_leave c (NotServiced c) (set_started c k True s))) (t\<lparr>pc := OExit\<rparr>)"
| "maker_at P c k s t OPrep =
     (let r = flavor_time P c k in
      if r = - 1 then go (p_print BadOrder s) (t\<lparr>prep := r, pc := OExit\<rparr>) else go s (t\<lparr>prep := r, ix := 0, pc := OTop\<rparr>))"
| "maker_at P c k s t OTop =
     (let ts = order_toppings P c k in
      go s (if ix t < length ts then (if p_quantity s (ts ! ix t) \<le> 0 then t\<lparr>pc := OTopLock\<rparr> else t\<lparr>ix := ix t + 1\<rparr>)
              else t\<lparr>ix := 0, avail := False, sel := None, pc := OSel\<rparr>))"
| "maker_at P c k s t OTopLock = p_lock (Maker c k) (t\<lparr>pc := OTopLeave\<rparr>) s"
| "maker_at P c k s t OTopLeave =
     go (p_unlock (set_started c k True (p_leave c (Unfulfilled c (p_clock s)) (p_time s)))) (t\<lparr>pc := OExit\<rparr>)"
| "maker_at P c k s t OSel = go s (t\<lparr>pc := if ix t < pN P then OSelLock else OSelEnd\<rparr>)"
| "maker_at P c k s t OSelLock = p_lock (Maker c k) (t\<lparr>pc := OSelTime\<rparr>) s"
| "maker_at P c k s t OSelTime =
     go (p_unlock (p_time s)) (t\<lparr>avail := avail t \<or> p_end_time P (ix t) > p_clock s, pc := OSelAvail\<rparr>)"
| "maker_at P c k s t OSelAvail = go s (t\<lparr>avail := avail t \<or> p_available s (ix t), pc := OTry\<rparr>)"
| "maker_at P c k s t OTry =
     (let i = ix t in
      if machine_available s i = 0 then go s (t\<lparr>ix := i + 1, pc := OSel\<rparr>)
      else go (s\<lparr>machine_available := (machine_available s)(i := machine_available s i - 1)\<rparr>) (t\<lparr>pc := OSel2Lock\<rparr>))"
| "maker_at P c k s t OSel2Lock = p_lock (Maker c k) (t\<lparr>pc := OSel2Time\<rparr>) s"
| "maker_at P c k s t OSel2Time = go (p_unlock (p_time s)) (t\<lparr>total_prep := prep t + p_clock s, pc := OSelCheck\<rparr>)"
| "maker_at P c k s t OSelCheck =
     go s (if \<not> p_available s (ix t) \<or> p_end_time P (ix t) \<le> total_prep t then t\<lparr>pc := OSelPost\<rparr> else t\<lparr>sel := Some (ix t), pc := OSelEnd\<rparr>)"
| "maker_at P c k s t OSelPost = go (p_post (Some (ix t)) s) (t\<lparr>ix := ix t + 1, pc := OSel\<rparr>)"
| "maker_at P c k s t OSelEnd =
     go s (if \<not> avail t then t\<lparr>pc := ONoMachLock\<rparr>
             else if sel t = None then t\<lparr>ix := 0, avail := False, pc := OSel\<rparr> else t\<lparr>pc := OStartLock\<rparr>)"
| "maker_at P c k s t p = maker_prepare P c k s t p"

section \<open>All threads\<close>

text \<open>The threads that \<^verbatim>\<open>main\<close> creates run from the start; a maker that is not created yet is None.\<close>

record parlor_config =
  shared :: parlor_state
  machines :: "nat \<Rightarrow> machine_pc"
  customers :: "nat \<Rightarrow> customer_thread"
  makers :: "nat \<Rightarrow> nat \<Rightarrow> maker_thread option"

definition parlor_init :: "parlor \<Rightarrow> parlor_config" where
  "parlor_init P = \<lparr>shared = parlor_start P, machines = (\<lambda>_. MLock1), customers = (\<lambda>_. customer_start), makers = (\<lambda>_ _. None)\<rparr>"

definition set_maker :: "nat \<Rightarrow> nat \<Rightarrow> maker_thread \<Rightarrow> (nat \<Rightarrow> nat \<Rightarrow> maker_thread option) \<Rightarrow> nat \<Rightarrow> nat \<Rightarrow> maker_thread option" where
  "set_maker c k t f = f(c := (f c)(k := Some t))"

definition spawn :: "(nat \<times> nat) option \<Rightarrow> (nat \<Rightarrow> nat \<Rightarrow> maker_thread option) \<Rightarrow> nat \<Rightarrow> nat \<Rightarrow> maker_thread option" where
  "spawn new f = (case new of None \<Rightarrow> f | Some (c, k) \<Rightarrow> set_maker c k maker_start f)"

definition joined :: "parlor_config \<Rightarrow> nat \<Rightarrow> nat \<Rightarrow> bool" where
  "joined g c k \<longleftrightarrow> (case makers g c k of None \<Rightarrow> False | Some t \<Rightarrow> pc t = OExit)"

text \<open>The step of one thread; None when it waits or has returned.\<close>

definition parlor_run1 :: "parlor \<Rightarrow> ptid \<Rightarrow> parlor_config \<Rightarrow> parlor_config option" where
  "parlor_run1 P h g =
     (case h of
        Machine m \<Rightarrow>
          (if m < pN P then map_option (\<lambda>(s, p). g\<lparr>shared := s, machines := (machines g)(m := p)\<rparr>) (machine_at P m (shared g) (machines g m)) else None)
      | Customer i \<Rightarrow>
          (if i < num_customers P then
             let t = customers g i in
             map_option (\<lambda>(s, t, new). g\<lparr>shared := s, customers := (customers g)(i := t), makers := spawn new (makers g)\<rparr>)
               (customer_at P i (joined g (cust t)) (shared g) t (c_pc t))
           else None)
      | Maker c k \<Rightarrow>
          (case makers g c k of None \<Rightarrow> None
           | Some t \<Rightarrow> map_option (\<lambda>(s, t). g\<lparr>shared := s, makers := set_maker c k t (makers g)\<rparr>) (maker_at P c k (shared g) t (pc t))))"

inductive parlor_step :: "parlor \<Rightarrow> parlor_config \<Rightarrow> parlor_config \<Rightarrow> bool" for P where
  run: "parlor_run1 P h g = Some g' \<Longrightarrow> parlor_step P g g'"
| tick: "parlor_step P g (g\<lparr>shared := (shared g)\<lparr>p_clock := p_clock (shared g) + 1\<rparr>\<rparr>)"

text \<open>Reachability from a configuration.\<close>

inductive parlor_reach :: "parlor \<Rightarrow> parlor_config \<Rightarrow> parlor_config \<Rightarrow> bool" for P where
  refl: "parlor_reach P g g"
| step: "parlor_reach P g g' \<Longrightarrow> parlor_step P g' g'' \<Longrightarrow> parlor_reach P g g''"

end
