(* ===== verification/ParlorInv.thy ===== *)
theory ParlorInv
  imports Parlor
begin

text \<open>
  The ice cream parlor over all interleavings of its threads: who holds the mutex, that every ice cream has one thread, and two
  ways in which the simulation stops. What a single step changes is shown per kind of thread; the invariants then follow by
  induction on the steps.
\<close>

section \<open>What a step changes\<close>

lemmas parlor_defs = p_lock_def p_unlock_def p_time_def p_print_def p_post_def set_started_def p_leave_def Let_def

definition sec_m :: "machine_pc \<Rightarrow> bool" where
  "sec_m p \<longleftrightarrow> p \<in> {MTime1, MTime2}"

definition sec_c :: "customer_pc \<Rightarrow> bool" where
  "sec_c p \<longleftrightarrow> p \<in> {SClaim, SArrive, SEnter, SDone}"

definition sec_o :: "maker_pc \<Rightarrow> bool" where
  "sec_o p \<longleftrightarrow> p \<in> {OStopTime, ONoMach, OTopLeave, OSelTime, OSel2Time, OStartTop, OStart, OEnd, OEndTop, OComplete, ORelock, ORelockLeave}"

lemmas sec_defs = sec_m_def sec_c_def sec_o_def

text \<open>The mutex before and after a step of the thread \<open>h\<close> that was in a section (\<open>b\<close>) and is in one afterwards (\<open>b'\<close>).\<close>

definition mutex_moves :: "ptid \<Rightarrow> bool \<Rightarrow> bool \<Rightarrow> parlor_state \<Rightarrow> parlor_state \<Rightarrow> bool" where
  "mutex_moves h b b' s s' \<longleftrightarrow> (if b then p_mutex s' = (if b' then p_mutex s else None)
     else if b' then p_mutex s = None \<and> p_mutex s' = Some h else p_mutex s' = p_mutex s)"

text \<open>The messages that are printed while the mutex is held.\<close>

fun under_mutex :: "parlor_event \<Rightarrow> bool" where
  "under_mutex (MachineStarts _ _) = False"
| "under_mutex (MachineStops _ _) = False"
| "under_mutex BadOrder = False"
| "under_mutex _ = True"

lemma machine_step:
  assumes "machine_at P m s p = Some (s', p')"
  shows "mutex_moves (Machine m) (sec_m p) (sec_m p') s s'"
    and "o_started s' = o_started s" "p_served s' = p_served s"
    and "\<not> sec_m p \<Longrightarrow> filter under_mutex (p_out s') = filter under_mutex (p_out s)"
  using assms by (cases p; auto simp: parlor_defs sec_defs mutex_moves_def split: if_splits)+

definition attends :: "customer_thread \<Rightarrow> bool" where
  "attends t \<longleftrightarrow> c_pc t \<notin> {STest, SClaimLock, SClaim, SExit}"

definition before_create :: "customer_thread \<Rightarrow> bool" where
  "before_create t \<longleftrightarrow> c_pc t \<in> {SArriveLock, SArrive, SArriveTest, SEnterTest, SEnterLock, SEnter, SWaitPrev, SSleep}"

lemma customer_step:
  assumes "customer_at P i j s t (c_pc t) = Some (s', t', new)"
  shows "mutex_moves (Customer i) (sec_c (c_pc t)) (sec_c (c_pc t')) s s'"
    and "o_started s' = o_started s" "p_served s' = p_served s + of_bool (c_pc t = SClaim)"
    and "\<not> sec_c (c_pc t) \<Longrightarrow> filter under_mutex (p_out s') = filter under_mutex (p_out s)"
    and "attends t' \<Longrightarrow> if attends t then cust t' = cust t else c_pc t = SClaim \<and> cust t' = p_served s \<and> before_create t'"
    and "before_create t' \<Longrightarrow> attends t \<Longrightarrow> before_create t"
    and "c_pc t' = SCreate \<Longrightarrow> if before_create t then c_ix t' = 0 \<and> new = None else c_pc t = SCreate \<and> new = Some (cust t, c_ix t) \<and> c_ix t' = Suc (c_ix t)"
    and "new = Some ck \<Longrightarrow> c_pc t = SCreate \<and> c_pc t' = SCreate \<and> ck = (cust t, c_ix t)"
  using assms by (cases "c_pc t"; auto simp: parlor_defs sec_defs mutex_moves_def attends_def before_create_def split: if_splits)+

lemma maker_step:
  assumes "maker_at P c k s t (pc t) = Some (s', t')"
  shows "(sec_o (pc t) \<Longrightarrow> p_mutex s = Some (Maker c k)) \<Longrightarrow> mutex_moves (Maker c k) (sec_o (pc t)) (sec_o (pc t')) s s'"
    and "c' \<noteq> c \<or> k' \<noteq> k \<Longrightarrow> o_started s' c' k' = o_started s c' k'" "p_served s' = p_served s"
    and "\<not> sec_o (pc t) \<Longrightarrow> filter under_mutex (p_out s') = filter under_mutex (p_out s)"
    and "pc t = ORelock \<Longrightarrow> p_mutex s = None"
proof -
  show "mutex_moves (Maker c k) (sec_o (pc t)) (sec_o (pc t')) s s'" if "sec_o (pc t) \<Longrightarrow> p_mutex s = Some (Maker c k)"
    using assms that by (cases "pc t"; clarsimp simp: parlor_defs sec_o_def mutex_moves_def split: if_splits option.splits)
  show "o_started s' c' k' = o_started s c' k'" if "c' \<noteq> c \<or> k' \<noteq> k"
    using assms that by (cases "pc t"; auto simp: parlor_defs split: if_splits option.splits)
  show "p_served s' = p_served s" using assms by (cases "pc t"; clarsimp simp: parlor_defs split: if_splits option.splits)
  show "filter under_mutex (p_out s') = filter under_mutex (p_out s)" if "\<not> sec_o (pc t)"
    using assms that by (cases "pc t"; clarsimp simp: parlor_defs sec_o_def split: if_splits option.splits)
  show "p_mutex s = None" if "pc t = ORelock" using assms that by (simp add: p_lock_def split: if_splits)
qed

section \<open>Invariants\<close>

fun in_sec :: "parlor_config \<Rightarrow> ptid \<Rightarrow> bool" where
  "in_sec g (Machine m) \<longleftrightarrow> sec_m (machines g m)"
| "in_sec g (Customer i) \<longleftrightarrow> sec_c (c_pc (customers g i))"
| "in_sec g (Maker c k) \<longleftrightarrow> (\<exists>t. makers g c k = Some t \<and> sec_o (pc t))"

definition mutex_held :: "parlor_config \<Rightarrow> bool" where
  "mutex_held g \<longleftrightarrow> (\<forall>h. in_sec g h \<longleftrightarrow> p_mutex (shared g) = Some h)"

text \<open>Each customer is worked for by one thread, which creates each maker once.\<close>

definition makers_fresh :: "parlor_config \<Rightarrow> bool" where
  "makers_fresh g \<longleftrightarrow> (\<forall>i. attends (customers g i) \<longrightarrow> cust (customers g i) < p_served (shared g))
     \<and> (\<forall>i j. attends (customers g i) \<longrightarrow> attends (customers g j) \<longrightarrow> cust (customers g i) = cust (customers g j) \<longrightarrow> i = j)
     \<and> (\<forall>c k t. makers g c k = Some t \<longrightarrow> c < p_served (shared g))
     \<and> (\<forall>i k. before_create (customers g i) \<longrightarrow> makers g (cust (customers g i)) k = None)
     \<and> (\<forall>i k. c_pc (customers g i) = SCreate \<longrightarrow> c_ix (customers g i) \<le> k \<longrightarrow> makers g (cust (customers g i)) k = None)"

lemma makers_freshD:
  assumes "makers_fresh g"
  shows "attends (customers g i) \<Longrightarrow> cust (customers g i) < p_served (shared g)"
    and "attends (customers g i) \<Longrightarrow> attends (customers g j) \<Longrightarrow> cust (customers g i) = cust (customers g j) \<Longrightarrow> i = j"
    and "makers g c k = Some t \<Longrightarrow> c < p_served (shared g)"
    and "before_create (customers g i) \<Longrightarrow> makers g (cust (customers g i)) k = None"
    and "c_pc (customers g i) = SCreate \<Longrightarrow> c_ix (customers g i) \<le> k \<Longrightarrow> makers g (cust (customers g i)) k = None"
  using assms unfolding makers_fresh_def by blast+

lemma before_attends: "before_create t \<Longrightarrow> attends t" "c_pc t = SCreate \<Longrightarrow> attends t"
  by (auto simp: before_create_def attends_def)

lemma parlor_init_ok: "mutex_held (parlor_init P)" "makers_fresh (parlor_init P)"
proof -
  have "in_sec (parlor_init P) h \<longleftrightarrow> False" for h by (cases h) (auto simp: parlor_init_def customer_start_def sec_defs)
  then show "mutex_held (parlor_init P)" by (simp add: mutex_held_def parlor_init_def parlor_start_def)
  show "makers_fresh (parlor_init P)" by (simp add: makers_fresh_def parlor_init_def attends_def before_create_def customer_start_def)
qed

lemma mutex_moves_held:
  assumes "mutex_held g" "mutex_moves h (in_sec g h) (in_sec g' h) (shared g) (shared g')" "\<And>h'. h' \<noteq> h \<Longrightarrow> in_sec g' h' = in_sec g h'"
  shows "mutex_held g'"
  unfolding mutex_held_def
proof
  fix h'
  show "in_sec g' h' \<longleftrightarrow> p_mutex (shared g') = Some h'"
  proof (cases "h' = h")
    case True
    then show ?thesis using assms(1,2) by (auto simp: mutex_held_def mutex_moves_def split: if_splits)
  next
    case False
    then show ?thesis using assms by (auto simp: mutex_held_def mutex_moves_def split: if_splits)
  qed
qed

text \<open>The three kinds of a step.\<close>

lemma run1_cases [consumes 1, case_names machine customer maker]:
  assumes "parlor_run1 P h g = Some g'"
  obtains m s p where "h = Machine m" "machine_at P m (shared g) (machines g m) = Some (s, p)" "g' = g\<lparr>shared := s, machines := (machines g)(m := p)\<rparr>"
  | i s t new where "h = Customer i" "customer_at P i (joined g (cust (customers g i))) (shared g) (customers g i) (c_pc (customers g i)) = Some (s, t, new)"
      "g' = g\<lparr>shared := s, customers := (customers g)(i := t), makers := spawn new (makers g)\<rparr>"
  | c k t s t' where "h = Maker c k" "makers g c k = Some t" "maker_at P c k (shared g) t (pc t) = Some (s, t')"
      "g' = g\<lparr>shared := s, makers := set_maker c k t' (makers g)\<rparr>"
  using assms by (cases h) (auto simp: parlor_run1_def Let_def split: if_splits option.splits)

lemma not_sec_start: "\<not> sec_o (pc maker_start)"
  by (simp add: maker_start_def sec_o_def)

lemma spawn_fresh:
  assumes "makers_fresh g" "customer_at P i j s (customers g i) (c_pc (customers g i)) = Some (s', t', new)"
  shows "makers g c k = Some t \<Longrightarrow> spawn new (makers g) c k = Some t"
    and "in_sec (g\<lparr>shared := s', customers := f, makers := spawn new (makers g)\<rparr>) (Maker c k) = in_sec g (Maker c k)"
proof -
  have "spawn new (makers g) c k = makers g c k \<or> makers g c k = None \<and> spawn new (makers g) c k = Some maker_start"
  proof (cases new)
    case (Some ck)
    note S = customer_step(8) [OF assms(2) Some]
    then show ?thesis using makers_freshD(5) [OF assms(1), of i "c_ix (customers g i)"] by (auto simp: Some spawn_def set_maker_def)
  qed (simp add: spawn_def)
  then show "makers g c k = Some t \<Longrightarrow> spawn new (makers g) c k = Some t"
    "in_sec (g\<lparr>shared := s', customers := f, makers := spawn new (makers g)\<rparr>) (Maker c k) = in_sec g (Maker c k)"
    by (elim disjE conjE; simp add: not_sec_start)+
qed

lemma mutex_heldD: "mutex_held g \<Longrightarrow> makers g c k = Some t \<Longrightarrow> sec_o (pc t) \<Longrightarrow> p_mutex (shared g) = Some (Maker c k)"
  unfolding mutex_held_def by (drule spec [of _ "Maker c k"]) simp

lemma parlor_mutex_run:
  assumes "parlor_run1 P h g = Some g'" "mutex_held g" "makers_fresh g"
  shows "mutex_held g'"
  using assms(1)
proof (cases rule: run1_cases)
  case (machine m s p)
  have o: "in_sec g' h' = in_sec g h'" if "h' \<noteq> h" for h' using that machine(1,3) by (cases h') simp_all
  have "mutex_moves h (in_sec g h) (in_sec g' h) (shared g) (shared g')" using machine_step(1) [OF machine(2)] by (simp add: machine(1,3))
  then show ?thesis by (rule mutex_moves_held [OF assms(2) _ o])
next
  case (customer i s t new)
  have o: "in_sec g' h' = in_sec g h'" if "h' \<noteq> h" for h'
  proof (cases h')
    case (Maker c k)
    then show ?thesis using customer(3) spawn_fresh(2) [OF assms(3) customer(2)] by blast
  qed (use that customer(1,3) in simp_all)
  have "mutex_moves h (in_sec g h) (in_sec g' h) (shared g) (shared g')" using customer_step(1) [OF customer(2)] by (simp add: customer(1,3))
  then show ?thesis by (rule mutex_moves_held [OF assms(2) _ o])
next
  case (maker c k t s t')
  have o: "in_sec g' h' = in_sec g h'" if "h' \<noteq> h" for h' using that maker(1,4) by (cases h') (simp_all add: set_maker_def)
  have "mutex_moves h (in_sec g h) (in_sec g' h) (shared g) (shared g')"
    using maker_step(1) [OF maker(3) mutex_heldD [OF assms(2) maker(2)]] by (simp add: maker(1,2,4) set_maker_def)
  then show ?thesis by (rule mutex_moves_held [OF assms(2) _ o])
qed

lemma makers_freshI:
  assumes "\<And>i. attends (customers g i) \<Longrightarrow> cust (customers g i) < p_served (shared g)"
    and "\<And>i j. attends (customers g i) \<Longrightarrow> attends (customers g j) \<Longrightarrow> cust (customers g i) = cust (customers g j) \<Longrightarrow> i = j"
    and "\<And>c k t. makers g c k = Some t \<Longrightarrow> c < p_served (shared g)"
    and "\<And>i k. before_create (customers g i) \<Longrightarrow> makers g (cust (customers g i)) k = None"
    and "\<And>i k. c_pc (customers g i) = SCreate \<Longrightarrow> c_ix (customers g i) \<le> k \<Longrightarrow> makers g (cust (customers g i)) k = None"
  shows "makers_fresh g"
  using assms unfolding makers_fresh_def by blast

lemma fresh_same:
  assumes "makers_fresh g" "customers g' = customers g" "p_served (shared g') = p_served (shared g)"
    and "\<And>c k. makers g' c k = None \<longleftrightarrow> makers g c k = None"
  shows "makers_fresh g'"
proof -
  note F = makers_freshD [OF assms(1)]
  show ?thesis
  proof (rule makers_freshI, unfold assms(2,3,4))
    show "c < p_served (shared g)" if "makers g' c k = Some t" for c k t
      using that F(3) [of c k] assms(4) [of c k] by (cases "makers g c k") auto
  qed (use F in blast)+
qed

lemma fresh_customer:
  assumes F: "makers_fresh g" and st: "customer_at P i j (shared g) (customers g i) (c_pc (customers g i)) = Some (s, t, new)"
  shows "makers_fresh (g\<lparr>shared := s, customers := (customers g)(i := t), makers := spawn new (makers g)\<rparr>)" (is "makers_fresh ?g")
proof -
  let ?t = "customers g i"
  note F = makers_freshD [OF F]
  note S = customer_step [OF st]
  have le: "p_served (shared g) \<le> p_served s" by (simp add: S(3))
  have new: "spawn new (makers g) c k = makers g c k" if "c \<noteq> cust ?t \<or> \<not> attends ?t \<or> before_create ?t" for c k
    using that S(8) before_attends by (cases new) (auto simp: spawn_def set_maker_def before_create_def)
  have cust: "attends t \<Longrightarrow> cust t < p_served s" using S(3) S(5) F(1) [of i] le by (auto split: if_splits)
  have other: "cust t \<noteq> cust (customers g k)" if "attends t" "attends (customers g k)" "k \<noteq> i" for k
    using S(5) [OF that(1)] F(1) [OF that(2)] F(2) [of i k] that(2,3) by (auto split: if_splits)
  have none: "spawn new (makers g) (cust t) k = None" if "before_create t \<or> c_pc t = SCreate \<and> c_ix t \<le> k" for k
  proof (cases "before_create ?t \<or> \<not> attends ?t")
    case True
    have w: "attends t" using that before_attends by blast
    have "makers g (cust t) k = None"
    proof (cases "attends ?t")
      case True
      then show ?thesis using S(5) [OF w] F(4) [of i] \<open>before_create ?t \<or> \<not> attends ?t\<close> by simp
    next
      case False
      then have "cust t = p_served (shared g)" using S(5) [OF w] by simp
      then show ?thesis using F(3) [of "cust t" k] by (cases "makers g (cust t) k") auto
    qed
    then show ?thesis using new [of "cust t" k] True by auto
  next
    case False
    then have c: "c_pc t = SCreate" "c_ix t \<le> k" using that S(6) by auto
    then have "c_pc ?t = SCreate" "new = Some (cust ?t, c_ix ?t)" "c_ix t = Suc (c_ix ?t)" "cust t = cust ?t"
      using S(7) S(5) False before_attends(2) [of t] by auto
    then show ?thesis using F(5) [of i k] c(2) by (simp add: spawn_def set_maker_def)
  qed
  have keep: "spawn new (makers g) (cust (customers g n)) k = makers g (cust (customers g n)) k" if "attends (customers g n)" "n \<noteq> i" for n k
    by (rule new) (use F(2) [of i n] that in auto)
  show ?thesis
  proof (rule makers_freshI)
    fix n
    show "cust (customers ?g n) < p_served (shared ?g)" if "attends (customers ?g n)"
      using that cust F(1) [of n] le by (cases "n = i") auto
    show "n = m" if "attends (customers ?g n)" "attends (customers ?g m)" "cust (customers ?g n) = cust (customers ?g m)" for m
      using that other [of n] other [of m] F(2) [of n m] by (cases "n = i"; cases "m = i") auto
    show "makers ?g (cust (customers ?g n)) k = None" if "before_create (customers ?g n)" for k
      using that none [of k] keep [of n k] F(4) [of n k] before_attends(1) [of "customers g n"] by (cases "n = i") auto
    show "makers ?g (cust (customers ?g n)) k = None" if "c_pc (customers ?g n) = SCreate" "c_ix (customers ?g n) \<le> k" for k
      using that none [of k] keep [of n k] F(5) [of n k] before_attends(2) [of "customers g n"] by (cases "n = i") auto
  next
    fix c k u
    assume m: "makers ?g c k = Some u"
    show "c < p_served (shared ?g)"
    proof (cases "c = cust ?t \<and> attends ?t")
      case True
      then show ?thesis using F(1) [of i] le by simp
    next
      case False
      then have "makers g c k = Some u" using m new [of c k] by auto
      then show ?thesis using F(3) [of c k u] le by simp
    qed
  qed
qed

lemma fresh_run:
  assumes "parlor_run1 P h g = Some g'" "mutex_held g" "makers_fresh g"
  shows "makers_fresh g'"
  using assms(1)
proof (cases rule: run1_cases)
  case (machine m s p)
  then show ?thesis using machine_step(3) [OF machine(2)] by (intro fresh_same [OF assms(3)]) simp_all
next
  case (customer i s t new)
  then show ?thesis using fresh_customer [OF assms(3) customer(2)] by simp
next
  case (maker c k t s t')
  then show ?thesis using maker_step(3) [OF maker(3)]
    by (intro fresh_same [OF assms(3)]) (auto simp: set_maker_def)
qed

lemma parlor_step_ok: "parlor_step P g g' \<Longrightarrow> mutex_held g \<and> makers_fresh g \<Longrightarrow> mutex_held g' \<and> makers_fresh g'"
proof (induction rule: parlor_step.cases)
  case (run h g g')
  then show ?case using parlor_mutex_run fresh_run by blast
next
  case (tick g)
  have "in_sec (g\<lparr>shared := (shared g)\<lparr>p_clock := p_clock (shared g) + 1\<rparr>\<rparr>) h = in_sec g h" for h by (cases h) simp_all
  then show ?case using tick by (simp add: mutex_held_def makers_fresh_def)
qed

lemma parlor_reach_ok: "parlor_reach P g g' \<Longrightarrow> mutex_held g \<and> makers_fresh g \<Longrightarrow> mutex_held g' \<and> makers_fresh g'"
  by (induction rule: parlor_reach.induct) (auto dest: parlor_step_ok)

section \<open>What happens for ever\<close>

lemma reach_ok: "parlor_reach P (parlor_init P) g \<Longrightarrow> mutex_held g" "parlor_reach P (parlor_init P) g \<Longrightarrow> makers_fresh g"
  using parlor_reach_ok parlor_init_ok by blast+

lemma reach_trans: "parlor_reach P g g' \<Longrightarrow> parlor_reach P g0 g \<Longrightarrow> parlor_reach P g0 g'"
  by (induction rule: parlor_reach.induct) (auto intro: parlor_reach.intros)

lemma relock_step:
  assumes "parlor_step P g g'" "mutex_held g" "makers_fresh g" "makers g c k = Some t" "pc t = ORelock"
  shows "makers g' c k = Some t" "filter under_mutex (p_out (shared g')) = filter under_mutex (p_out (shared g))"
proof -
  have mx: "p_mutex (shared g) = Some (Maker c k)" using mutex_heldD [OF assms(2,4)] assms(5) by (simp add: sec_o_def)
  have out: "\<not> in_sec g h" if "h \<noteq> Maker c k" for h using assms(2) mx that by (simp add: mutex_held_def)
  have "makers g' c k = Some t \<and> filter under_mutex (p_out (shared g')) = filter under_mutex (p_out (shared g))"
    using assms(1)
  proof (cases rule: parlor_step.cases)
    case (run h)
    from run(1) show ?thesis
    proof (cases rule: run1_cases)
      case (machine m s p)
      then show ?thesis using machine_step(4) [OF machine(2)] out [of h] assms(4) by simp
    next
      case (customer i s u new)
      then show ?thesis using customer_step(4) [OF customer(2)] out [of h] spawn_fresh(1) [OF assms(3) customer(2) assms(4)] by simp
    next
      case (maker c' k' u s u')
      have ne: "h \<noteq> Maker c k" using maker_step(5) [OF maker(3)] maker(1,2) assms(4,5) mx by auto
      then show ?thesis using maker_step(4) [OF maker(3)] out [OF ne] maker assms(4) by (auto simp: set_maker_def)
    qed
  qed (use assms(4) in simp)
  then show "makers g' c k = Some t" "filter under_mutex (p_out (shared g')) = filter under_mutex (p_out (shared g))" by auto
qed

lemma skipped_step:
  assumes "parlor_step P g g'" "makers_fresh g" "makers g c k = Some t" "pc t = OExit" "\<not> o_started (shared g) c k"
    and "makers g c (Suc k) = Some u" "pc u = OWaitPrev"
  shows "makers g' c k = Some t \<and> makers g' c (Suc k) = Some u \<and> \<not> o_started (shared g') c k"
  using assms(1)
proof (cases rule: parlor_step.cases)
  case (run h)
  from run(1) show ?thesis
  proof (cases rule: run1_cases)
    case (machine m s p)
    then show ?thesis using machine_step(2) [OF machine(2)] assms by simp
  next
    case (customer i s v new)
    then show ?thesis using customer_step(2) [OF customer(2)] spawn_fresh(1) [OF assms(2) customer(2)] assms by simp
  next
    case (maker c' k' v s v')
    have "(c', k') \<noteq> (c, k)" "(c', k') \<noteq> (c, Suc k)" using maker(2,3) assms by auto
    then show ?thesis using maker_step(2) [OF maker(3), of c k] maker assms by (auto simp: set_maker_def)
  qed
qed (use assms in simp)

text \<open>A thread is between a lock and the unlock of the mutex exactly when it holds the mutex.\<close>

lemma parlor_mutex_owner:
  assumes "parlor_reach P (parlor_init P) g"
  shows "in_sec g h \<longleftrightarrow> p_mutex (shared g) = Some h"
  using reach_ok(1) [OF assms] by (simp add: mutex_held_def)

section \<open>Schedules\<close>

text \<open>A schedule is a list of threads to run; None lets a second pass.\<close>

fun parlor_runs :: "parlor \<Rightarrow> ptid option list \<Rightarrow> parlor_config \<Rightarrow> parlor_config option" where
  "parlor_runs P [] g = Some g"
| "parlor_runs P (None # hs) g = parlor_runs P hs (g\<lparr>shared := (shared g)\<lparr>p_clock := p_clock (shared g) + 1\<rparr>\<rparr>)"
| "parlor_runs P (Some h # hs) g = (case parlor_run1 P h g of None \<Rightarrow> None | Some g' \<Rightarrow> parlor_runs P hs g')"

lemma parlor_reach_first: "parlor_step P g g' \<Longrightarrow> parlor_reach P g' g'' \<Longrightarrow> parlor_reach P g g''"
  by (rule reach_trans) (auto intro: parlor_reach.intros)

lemma parlor_runs_reach: "parlor_runs P hs g = Some g' \<Longrightarrow> parlor_reach P g g'"
  by (induction P hs g rule: parlor_runs.induct)
     (auto intro: parlor_reach.intros parlor_reach_first parlor_step.intros split: option.splits)

definition one_topping :: parlor where
  "one_topping = \<lparr>pN = 1, pK = 5, p_start_time = (\<lambda>_. 0), p_end_time = (\<lambda>_. 9), p_flavors = [(''v'', 1)], p_toppings = [(''t'', 1)],
     num_customers = 1, p_arrival = (\<lambda>_. 0), p_orders = (\<lambda>_. [(''v'', [''t'']), (''v'', [''t''])])\<rparr>"

definition both_created :: "ptid option list" where
  "both_created = replicate 4 (Some (Machine 0)) @ replicate 10 (Some (Customer 0)) @ [None] @ replicate 3 (Some (Customer 0))"

definition last_topping :: "ptid option list" where
  "last_topping = both_created @ replicate 21 (Some (Maker 0 0)) @ replicate 7 (Some (Maker 0 1)) @ [None]
     @ replicate 12 (Some (Maker 0 0)) @ replicate 11 (Some (Maker 0 1))"

lemma last_topping_runs:
  "case parlor_runs one_topping last_topping (parlor_init one_topping) of None \<Rightarrow> False
   | Some g \<Rightarrow> (case makers g 0 1 of None \<Rightarrow> False | Some t \<Rightarrow> pc t = ORelock) \<and> parlor_runs one_topping [None, Some (Customer 0)] g \<noteq> None"
  by code_simp

definition no_such_flavor :: parlor where
  "no_such_flavor = one_topping\<lparr>p_orders := (\<lambda>_. [(''w'', []), (''v'', [])])\<rparr>"

definition first_skipped :: "ptid option list" where
  "first_skipped = both_created @ replicate 5 (Some (Maker 0 0))"

lemma first_skipped_runs:
  "case parlor_runs no_such_flavor first_skipped (parlor_init no_such_flavor) of None \<Rightarrow> False
   | Some g \<Rightarrow> (case makers g 0 0 of None \<Rightarrow> False | Some t \<Rightarrow> pc t = OExit) \<and> \<not> o_started (shared g) 0 0
       \<and> (case makers g 0 1 of None \<Rightarrow> False | Some t \<Rightarrow> pc t = OWaitPrev) \<and> parlor_runs no_such_flavor [Some (Customer 0), Some (Customer 0)] g \<noteq> None"
  by code_simp

section \<open>Properties\<close>

text \<open>
  C39. The double lock: an ice cream whose topping has run out by the time the machine is found (or the preparation is over) makes
  its thread lock the mutex that it holds. From then on, whatever the threads do, the mutex stays taken, the thread stays where it
  is, and no message that is printed under the mutex appears any more: nobody enters, is served, collects an order or leaves.
\<close>

theorem parlor_topping_deadlock:
  assumes "parlor_reach P (parlor_init P) g" "makers g c k = Some t" "pc t = ORelock" "parlor_reach P g g'"
  shows "p_mutex (shared g') = Some (Maker c k) \<and> makers g' c k = Some t
    \<and> filter under_mutex (p_out (shared g')) = filter under_mutex (p_out (shared g))"
proof -
  have "makers g' c k = Some t \<and> filter under_mutex (p_out (shared g')) = filter under_mutex (p_out (shared g))"
    using assms(4,1-3)
  proof (induction rule: parlor_reach.induct)
    case (step g g' g'')
    then show ?case using relock_step [OF step.hyps(2), of c k t] reach_ok [OF reach_trans [OF step.hyps(1)]] by simp
  qed simp
  then show ?thesis using mutex_heldD [OF reach_ok(1) [OF reach_trans [OF assms(4,1)]]] assms(3) by (simp add: sec_o_def)
qed

theorem parlor_topping_deadlock_witness:
  "\<exists>g g'. parlor_runs one_topping last_topping (parlor_init one_topping) = Some g
     \<and> parlor_runs one_topping [None, Some (Customer 0)] g = Some g' \<and> p_mutex (shared g') = Some (Maker 0 1)"
proof -
  obtain g t g' where g: "parlor_runs one_topping last_topping (parlor_init one_topping) = Some g" "makers g 0 1 = Some t" "pc t = ORelock"
    "parlor_runs one_topping [None, Some (Customer 0)] g = Some g'" using last_topping_runs by (auto split: option.splits)
  have "p_mutex (shared g') = Some (Maker 0 1)"
    using parlor_topping_deadlock [OF parlor_runs_reach [OF g(1)] g(2,3) parlor_runs_reach [OF g(4)]] by blast
  then show ?thesis using g(1,4) by blast
qed

text \<open>
  C40. An ice cream that is given up before it is started (its flavour is not on the list, or the customer has left already) is not
  marked as started, because the code compares where it means to assign. The thread of the next ice cream of the customer then
  waits for ever and is never joined.
\<close>

theorem parlor_next_waits_forever:
  assumes "parlor_reach P (parlor_init P) g" "makers g c k = Some t" "pc t = OExit" "\<not> o_started (shared g) c k"
    and "makers g c (Suc k) = Some u" "pc u = OWaitPrev" "parlor_reach P g g'"
  shows "makers g' c (Suc k) = Some u \<and> \<not> joined g' c (Suc k)"
proof -
  have "makers g' c k = Some t \<and> makers g' c (Suc k) = Some u \<and> \<not> o_started (shared g') c k"
    using assms(7,1-6)
  proof (induction rule: parlor_reach.induct)
    case (step g g' g'')
    then show ?case using skipped_step [OF step.hyps(2)] reach_ok [OF reach_trans [OF step.hyps(1)]] by simp
  qed simp
  then show ?thesis using assms(6) by (simp add: joined_def)
qed

theorem parlor_next_waits_forever_witness:
  "\<exists>g g'. parlor_runs no_such_flavor first_skipped (parlor_init no_such_flavor) = Some g
     \<and> parlor_runs no_such_flavor [Some (Customer 0), Some (Customer 0)] g = Some g' \<and> \<not> joined g' 0 (Suc 0)"
proof -
  obtain g t u g' where g: "parlor_runs no_such_flavor first_skipped (parlor_init no_such_flavor) = Some g" "makers g 0 0 = Some t" "pc t = OExit"
    "\<not> o_started (shared g) 0 0" "makers g 0 (Suc 0) = Some u" "pc u = OWaitPrev"
    "parlor_runs no_such_flavor [Some (Customer 0), Some (Customer 0)] g = Some g'"
    using first_skipped_runs by (auto split: option.splits)
  have "\<not> joined g' 0 (Suc 0)"
    using parlor_next_waits_forever [OF parlor_runs_reach [OF g(1)] g(2-6) parlor_runs_reach [OF g(7)]] by blast
  then show ?thesis using g(1,7) by blast
qed

end
