(* ===== verification/Mkfs.thy ===== *)
theory Mkfs
  imports Fs
begin

text \<open>
  \<^verbatim>\<open>mkfs/mkfs.c\<close>: the program that builds the file system image on the host. The image file is a sequence of sectors; the parts
  of a sparse file that were never written read as zeros. The host is little-endian, as the sources assume where they use
  \<^verbatim>\<open>sb\<close> and \<^verbatim>\<open>indirect\<close> without converting them. The end of the program through \<^verbatim>\<open>die\<close>, \<^verbatim>\<open>assert\<close> or \<^verbatim>\<open>exit(1)\<close> is \<open>Panic\<close>. Writing
  to the image does not fail. The files of the host are an argument: what successive calls of \<^verbatim>\<open>read\<close> return until one returns 0 or
  fails, or None when the file cannot be opened.
\<close>

section \<open>State\<close>

definition NINODES :: nat where "NINODES = 200"
definition nbitmap :: nat where "nbitmap = FSSIZE div (BSIZE * 8) + 1"
definition ninodeblocks :: nat where "ninodeblocks = NINODES div IPB + 1"
definition nlog :: nat where "nlog = LOGSIZE"
definition nmeta :: nat where "nmeta = 2 + nlog + ninodeblocks + nbitmap"
definition nblocks :: nat where "nblocks = FSSIZE - nmeta"
definition zeroes :: bytes where "zeroes = replicate BSIZE 0"

declare NINODES_def [params] nbitmap_def [params] ninodeblocks_def [params] nlog_def [params] nmeta_def [params] nblocks_def [params]

record mkfsS =
  img :: "nat \<Rightarrow> bytes"
  img_len :: nat
  sb :: superblock
  freeinode :: uint32
  freeblock :: uint32

definition xshort :: "uint16 \<Rightarrow> uint16" where
  "xshort x = get16 [ucast x, ucast (drop_bit 8 x)] 0"

definition xint :: "uint32 \<Rightarrow> uint32" where
  "xint x = get32 [ucast x, ucast (drop_bit 8 x), ucast (drop_bit 16 x), ucast (drop_bit 24 x)] 0"

section \<open>Sectors and inodes\<close>

text \<open>The offset \<^verbatim>\<open>sec * BSIZE\<close> is computed in 32 bits.\<close>

definition sect_ix :: "uint32 \<Rightarrow> nat" where
  "sect_ix sec = unat (sec * of_nat BSIZE) div BSIZE"

definition wsect :: "uint32 \<Rightarrow> bytes \<Rightarrow> (mkfsS, unit) kmon" where
  "wsect sec buf = modify (\<lambda>s. s\<lparr>img := (img s)(sect_ix sec := buf), img_len := max (img_len s) (sect_ix sec + 1)\<rparr>)"

definition rsect :: "uint32 \<Rightarrow> (mkfsS, bytes) kmon" where
  "rsect sec = bnd (gets img_len) (\<lambda>n. if sect_ix sec < n then gets (\<lambda>s. img s (sect_ix sec)) else panic ''read'')"

definition winode :: "uint32 \<Rightarrow> dinode \<Rightarrow> (mkfsS, unit) kmon" where
  "winode inum ip =
     bnd (gets sb) (\<lambda>k.
     let bn = IBLOCK inum k in
     bnd (rsect bn) (\<lambda>buf.
     wsect bn (put_dinode buf (unat inum mod IPB) ip)))"

definition rinode :: "uint32 \<Rightarrow> (mkfsS, dinode) kmon" where
  "rinode inum =
     bnd (gets sb) (\<lambda>k.
     bnd (rsect (IBLOCK inum k)) (\<lambda>buf.
     ret (get_dinode buf (unat inum mod IPB))))"

definition mk_ialloc :: "uint16 \<Rightarrow> (mkfsS, uint32) kmon" where
  "mk_ialloc type =
     bnd (gets freeinode) (\<lambda>inum.
     thn (modify (\<lambda>s. s\<lparr>freeinode := inum + 1\<rparr>))
     (thn (winode inum \<lparr>d_type = xshort type, d_major = 0, d_minor = 0, d_nlink = xshort 1, d_size = xint 0, d_addrs = replicate (NDIRECT + 1) 0\<rparr>)
     (ret inum)))"

text \<open>The bytes of the bitmap block with the first \<open>used\<close> bits set.\<close>

definition bitmap_bytes :: "nat \<Rightarrow> bytes" where
  "bitmap_bytes used = foldl (\<lambda>buf i. buf[i div 8 := buf ! (i div 8) OR bit_mask i]) (replicate BSIZE 0) [0..<used]"

definition mk_balloc :: "nat \<Rightarrow> (mkfsS, unit) kmon" where
  "mk_balloc used =
     thn (assert_else (used < BSIZE * 8) ''assert'')
     (bnd (gets sb) (\<lambda>k. wsect (sb_bmapstart k) (bitmap_bytes used)))"

section \<open>Appending to a file\<close>

text \<open>\<^verbatim>\<open>freeblock++\<close>\<close>

definition next_block :: "(mkfsS, uint32) kmon" where
  "next_block = bnd (gets freeblock) (\<lambda>b. thn (modify (\<lambda>s. s\<lparr>freeblock := b + 1\<rparr>)) (ret b))"

text \<open>The number of the block of the file that \<open>fbn\<close> names, allocated when it is missing.\<close>

definition iappend_block :: "nat \<Rightarrow> uint32 list \<Rightarrow> (mkfsS, uint32 \<times> uint32 list) kmon" where
  "iappend_block fbn addrs =
     (if fbn < NDIRECT then
        bnd (if xint (addrs ! fbn) = 0 then bnd next_block (\<lambda>b. ret (addrs[fbn := xint b])) else ret addrs) (\<lambda>addrs.
        ret (xint (addrs ! fbn), addrs))
      else
        bnd (if xint (addrs ! NDIRECT) = 0 then bnd next_block (\<lambda>b. ret (addrs[NDIRECT := xint b])) else ret addrs) (\<lambda>addrs.
        bnd (rsect (xint (addrs ! NDIRECT))) (\<lambda>indirect.
        bnd (if get32 indirect (4 * (fbn - NDIRECT)) = 0 then
               bnd next_block (\<lambda>b.
               let indirect = put32 indirect (4 * (fbn - NDIRECT)) (xint b) in
               thn (wsect (xint (addrs ! NDIRECT)) indirect) (ret indirect))
             else ret indirect) (\<lambda>indirect.
        ret (xint (get32 indirect (4 * (fbn - NDIRECT))), addrs)))))"

text \<open>The loop: \<open>p\<close> is what is left to append. The offset stays below the largest file size, so it does not wrap around.\<close>

function iappend_loop :: "bytes \<Rightarrow> nat \<Rightarrow> uint32 list \<Rightarrow> (mkfsS, nat \<times> uint32 list) kmon" where
  "iappend_loop p off addrs =
     (if p = [] then ret (off, addrs)
      else let fbn = off div BSIZE; n1 = min (length p) ((fbn + 1) * BSIZE - off) in
        thn (assert_else (fbn < MAXFILE) ''assert'')
        (bnd (iappend_block fbn addrs) (\<lambda>(x, addrs).
        bnd (rsect x) (\<lambda>buf.
        thn (wsect x (take (off - fbn * BSIZE) buf @ take n1 p @ drop (off - fbn * BSIZE + n1) buf))
        (iappend_loop (drop n1 p) (off + n1) addrs)))))"
  by pat_completeness auto
termination
proof (relation "measure (\<lambda>(p, off, addrs). length p)", goal_cases)
  case (2 p off addrs fbn n1)
  then show ?case by (cases p) (auto simp: BSIZE_def)
qed simp

declare iappend_loop.simps [simp del]

definition iappend :: "uint32 \<Rightarrow> bytes \<Rightarrow> (mkfsS, unit) kmon" where
  "iappend inum p =
     bnd (rinode inum) (\<lambda>din.
     bnd (iappend_loop p (unat (xint (d_size din))) (d_addrs din)) (\<lambda>(off, addrs).
     winode inum (din\<lparr>d_addrs := addrs, d_size := xint (of_nat off)\<rparr>)))"

section \<open>The program\<close>

text \<open>The name in the image: without \<^verbatim>\<open>user/\<close>, and without a leading underscore. None for a name with a slash.\<close>

definition shortname :: "bytes \<Rightarrow> bytes option" where
  "shortname arg =
     (let n = (if take 5 arg = cbytes ''user/'' then drop 5 arg else arg) in
      if chr CHR ''/'' \<in> set n then None else Some (if take 1 n = cbytes ''_'' then drop 1 n else n))"

definition dir_name :: "bytes \<Rightarrow> bytes" where
  "dir_name n = take DIRSIZ (n @ replicate DIRSIZ 0)"

definition mkfs_file :: "(bytes \<Rightarrow> bytes list option) \<Rightarrow> uint32 \<Rightarrow> bytes \<Rightarrow> (mkfsS, unit) kmon" where
  "mkfs_file host rootino arg =
     (case shortname arg of None \<Rightarrow> panic ''assert''
      | Some n \<Rightarrow>
         (case host arg of None \<Rightarrow> panic ''open''
          | Some reads \<Rightarrow>
              bnd (mk_ialloc T_FILE) (\<lambda>inum.
              thn (iappend rootino (mk_dirent (xshort (ucast inum)) (dir_name n)))
              (for_each reads (iappend inum)))))"

definition mkfs_sb :: superblock where
  "mkfs_sb = \<lparr>sb_magic = FSMAGIC, sb_size = xint (of_nat FSSIZE), sb_nblocks = xint (of_nat nblocks), sb_ninodes = xint (of_nat NINODES),
     sb_nlog = xint (of_nat nlog), sb_logstart = xint 2, sb_inodestart = xint (of_nat (2 + nlog)), sb_bmapstart = xint (of_nat (2 + nlog + ninodeblocks))\<rparr>"

definition put_sb :: "bytes \<Rightarrow> superblock \<Rightarrow> bytes" where
  "put_sb d k = put_words d 0 [sb_magic k, sb_size k, sb_nblocks k, sb_ninodes k, sb_nlog k, sb_logstart k, sb_inodestart k, sb_bmapstart k]"

definition mkfs_main :: "bool \<Rightarrow> (bytes \<Rightarrow> bytes list option) \<Rightarrow> bytes list \<Rightarrow> (mkfsS, unit) kmon" where
  "mkfs_main creates host args =
     (if args = [] then panic ''usage''
      else if \<not> creates then panic ''open''
      else
        thn (modify (\<lambda>s. s\<lparr>sb := mkfs_sb, freeblock := of_nat nmeta\<rparr>))
        (thn (for_each [0..<FSSIZE] (\<lambda>i. wsect (of_nat i) zeroes))
        (thn (wsect 1 (put_sb zeroes mkfs_sb))
        (bnd (mk_ialloc T_DIR) (\<lambda>rootino.
        thn (assert_else (rootino = ROOTINO) ''assert'')
        (thn (iappend rootino (mk_dirent (xshort (ucast rootino)) (dir_name (cbytes ''.''))))
        (thn (iappend rootino (mk_dirent (xshort (ucast rootino)) (dir_name (cbytes ''..''))))
        (thn (for_each (tl args) (mkfs_file host rootino))
        (bnd (rinode rootino) (\<lambda>din.
        let off = (unat (xint (d_size din)) div BSIZE + 1) * BSIZE in
        thn (winode rootino (din\<lparr>d_size := xint (of_nat off)\<rparr>))
        (bnd (gets freeblock) (\<lambda>b. mk_balloc (unat b)))))))))))))"

text \<open>The program starts with its globals as the source initialises them, and an empty image.\<close>

definition mkfs_init :: mkfsS where
  "mkfs_init = \<lparr>img = (\<lambda>_. zeroes), img_len = 0, sb = \<lparr>sb_magic = 0, sb_size = 0, sb_nblocks = 0, sb_ninodes = 0, sb_nlog = 0,
     sb_logstart = 0, sb_inodestart = 0, sb_bmapstart = 0\<rparr>, freeinode = 1, freeblock = 0\<rparr>"

end
