(* ===== verification/MkfsFile.thy ===== *)
theory MkfsFile
  imports Mkfs FsInv
begin

text \<open>
  The files of the image as lists of blocks. A file has its own blocks, all different from those of the other files and from the
  free ones; the loop of \<^verbatim>\<open>iappend\<close> adds to the end of one file and leaves the others as they are. Everything is stated for
  addresses and lengths that need not be in the inode table yet, because \<^verbatim>\<open>iappend\<close> writes the inode only at its end.
\<close>

section \<open>Words and sectors\<close>

lemma xint_id [simp]: "xint x = x"
  using get32_put32 [of 0 "replicate 4 0" x] by (simp add: put32_def xint_def eval_nat_numeral)

lemma xshort_id [simp]: "xshort x = x"
  using get16_put16 [of 0 "replicate 2 0" x] by (simp add: put16_def xshort_def eval_nat_numeral)

lemma sect_ix_small: "unat x < 2 ^ 22 \<Longrightarrow> sect_ix x = unat x"
  by (simp add: sect_ix_def BSIZE_def unat_word_ariths)

lemma sect_ix_fs: "unat x < FSSIZE \<Longrightarrow> sect_ix x = unat x"
  by (rule sect_ix_small) (simp add: params)

lemma rsect_fs: "unat x < img_len s \<Longrightarrow> img_len s = FSSIZE \<Longrightarrow> rsect x s = Ok (img s (unat x)) s"
  by (simp add: rsect_def sect_ix_fs)

lemma wsect_fs: "unat x < FSSIZE \<Longrightarrow> img_len s = FSSIZE \<Longrightarrow> wsect x d s = Ok () (s\<lparr>img := (img s)(unat x := d)\<rparr>)"
  by (simp add: wsect_def sect_ix_fs max_def)

lemma length_zeroes [simp]: "length zeroes = BSIZE"
  by (simp add: zeroes_def)

lemma get32_zeroes: "a + 4 \<le> BSIZE \<Longrightarrow> get32 zeroes a = 0"
  by (simp add: zeroes_def get32_def)

section \<open>Files as lists of blocks\<close>

text \<open>The block that fs_holds the \<open>b\<close>th block of a file with the given addresses, and all blocks of a file of \<open>n\<close> blocks.\<close>

definition fslot :: "mkfsS \<Rightarrow> uint32 list \<Rightarrow> nat \<Rightarrow> nat" where
  "fslot s a b = (if b < NDIRECT then unat (a ! b) else unat (get32 (img s (unat (a ! NDIRECT))) (4 * (b - NDIRECT))))"

definition owned :: "mkfsS \<Rightarrow> uint32 list \<Rightarrow> nat \<Rightarrow> nat set" where
  "owned s a n = fslot s a ` {..<n} \<union> (if n > NDIRECT then {unat (a ! NDIRECT)} else {})"

definition fblocks :: "mkfsS \<Rightarrow> uint32 list \<Rightarrow> nat \<Rightarrow> bytes list" where
  "fblocks s a n = map (\<lambda>b. img s (fslot s a b)) [0..<n]"

definition wf_file :: "mkfsS \<Rightarrow> uint32 list \<Rightarrow> nat \<Rightarrow> bool" where
  "wf_file s a n \<longleftrightarrow> length a = NDIRECT + 1 \<and> n \<le> MAXFILE \<and> inj_on (fslot s a) {..<n}
     \<and> (n > NDIRECT \<longrightarrow> unat (a ! NDIRECT) \<notin> fslot s a ` {..<n})
     \<and> owned s a n \<subseteq> {nmeta..<unat (freeblock s)}
     \<and> (\<forall>b<NDIRECT. n \<le> b \<longrightarrow> a ! b = 0) \<and> (n \<le> NDIRECT \<longrightarrow> a ! NDIRECT = 0)
     \<and> (n > NDIRECT \<longrightarrow> (\<forall>b<MAXFILE. n \<le> b \<longrightarrow> fslot s a b = 0))"

definition blank_ok :: "mkfsS \<Rightarrow> bool" where
  "blank_ok s \<longleftrightarrow> img_len s = FSSIZE \<and> (\<forall>b<FSSIZE. length (img s b) = BSIZE) \<and> nmeta \<le> unat (freeblock s) \<and> unat (freeblock s) \<le> FSSIZE
     \<and> (\<forall>b<FSSIZE. unat (freeblock s) \<le> b \<longrightarrow> img s b = zeroes)"

definition img_ok :: "mkfsS \<Rightarrow> nat set \<Rightarrow> (nat \<Rightarrow> uint32 list) \<Rightarrow> (nat \<Rightarrow> nat) \<Rightarrow> bool" where
  "img_ok s I A N \<longleftrightarrow> blank_ok s \<and> (\<forall>i\<in>I. wf_file s (A i) (N i))
     \<and> (\<forall>i\<in>I. \<forall>j\<in>I. i \<noteq> j \<longrightarrow> owned s (A i) (N i) \<inter> owned s (A j) (N j) = {})"

lemma wf_fileD:
  assumes "wf_file s a n"
  shows "length a = NDIRECT + 1" "n \<le> MAXFILE" "b < n \<Longrightarrow> nmeta \<le> fslot s a b \<and> fslot s a b < unat (freeblock s)"
    and "n > NDIRECT \<Longrightarrow> nmeta \<le> unat (a ! NDIRECT) \<and> unat (a ! NDIRECT) < unat (freeblock s)"
    and "n > NDIRECT \<Longrightarrow> b < n \<Longrightarrow> unat (a ! NDIRECT) \<noteq> fslot s a b" "b < n \<Longrightarrow> c < n \<Longrightarrow> fslot s a b = fslot s a c \<Longrightarrow> b = c"
    and "b < NDIRECT \<Longrightarrow> n \<le> b \<Longrightarrow> a ! b = 0" "n \<le> NDIRECT \<Longrightarrow> a ! NDIRECT = 0"
    and "n > NDIRECT \<Longrightarrow> b < MAXFILE \<Longrightarrow> n \<le> b \<Longrightarrow> fslot s a b = 0"
  using assms unfolding wf_file_def owned_def by (auto simp: inj_on_def image_iff split: if_splits)

text \<open>A file only depends on the image through its own blocks.\<close>

lemma fslot_cong: "(b \<ge> NDIRECT \<Longrightarrow> img s' (unat (a ! NDIRECT)) = img s (unat (a ! NDIRECT))) \<Longrightarrow> fslot s' a b = fslot s a b"
  by (simp add: fslot_def)

lemma file_cong:
  assumes "\<And>b. b \<in> owned s a n \<Longrightarrow> img s' b = img s b"
  shows "owned s' a n = owned s a n" "fblocks s' a n = fblocks s a n"
proof -
  have sl: "fslot s' a b = fslot s a b" if "b < n" for b
    using assms [of "unat (a ! NDIRECT)"] that by (intro fslot_cong) (simp add: owned_def)
  show "owned s' a n = owned s a n" using sl by (simp add: owned_def)
  show "fblocks s' a n = fblocks s a n" using sl assms by (auto simp: fblocks_def owned_def)
qed

lemma wf_file_cong:
  assumes "wf_file s a n" "\<And>b. b \<in> owned s a n \<Longrightarrow> img s' b = img s b" "unat (freeblock s) \<le> unat (freeblock s')"
  shows "wf_file s' a n"
proof -
  have F: "owned s' a n = owned s a n" using assms(2) by (rule file_cong(1))
  have sl: "fslot s' a b = fslot s a b" if "b < n \<or> n > NDIRECT" for b
    using assms(2) [of "unat (a ! NDIRECT)"] that by (intro fslot_cong) (auto simp: owned_def)
  have "inj_on (fslot s' a) {..<n} \<longleftrightarrow> inj_on (fslot s a) {..<n}" "fslot s' a ` {..<n} = fslot s a ` {..<n}"
    using sl by (auto intro!: inj_on_cong [THEN iffD1] simp: inj_on_def)
  then show ?thesis using assms(1,3) sl unfolding wf_file_def F by (auto dest: subsetD)
qed

section \<open>Changing one file\<close>

definition only_file :: "nat set \<Rightarrow> (nat \<Rightarrow> uint32 list) \<Rightarrow> (nat \<Rightarrow> nat) \<Rightarrow> nat \<Rightarrow> mkfsS \<Rightarrow> uint32 list \<Rightarrow> nat \<Rightarrow> mkfsS \<Rightarrow> bool" where
  "only_file I A N i s a n s' \<longleftrightarrow> img_ok s' I (A(i := a)) (N(i := n)) \<and> (\<forall>j\<in>I. j \<noteq> i \<longrightarrow> fblocks s' (A j) (N j) = fblocks s (A j) (N j))
     \<and> (\<forall>b<nmeta. img s' b = img s b) \<and> sb s' = sb s \<and> freeinode s' = freeinode s \<and> img_len s' = img_len s"

lemma only_file_refl: "img_ok s I A N \<Longrightarrow> only_file I A N i s (A i) (N i) s"
  by (simp add: only_file_def)

lemma only_file_trans:
  assumes "only_file I A N i s a n s'" "only_file I (A(i := a)) (N(i := n)) i s' a' n' s''"
  shows "only_file I A N i s a' n' s''"
  using assms by (simp add: only_file_def)

lemma only_fileI:
  assumes ok: "img_ok s I A N" and i: "i \<in> I" and wf: "wf_file s' a n" and bl: "blank_ok s'"
    and fb: "unat (freeblock s) \<le> unat (freeblock s')"
    and own: "owned s' a n \<subseteq> owned s (A i) (N i) \<union> {unat (freeblock s)..<unat (freeblock s')}"
    and same: "\<And>b. b < unat (freeblock s) \<Longrightarrow> b \<notin> owned s (A i) (N i) \<Longrightarrow> img s' b = img s b"
    and rest: "sb s' = sb s" "freeinode s' = freeinode s" "img_len s' = img_len s"
  shows "only_file I A N i s a n s'"
proof -
  have wfi: "wf_file s (A j) (N j)" if "j \<in> I" for j using ok that by (simp add: img_ok_def)
  have lt: "b < unat (freeblock s)" "nmeta \<le> b" if "j \<in> I" "b \<in> owned s (A j) (N j)" for j b
    using wfi [OF that(1)] that(2) by (auto simp: wf_file_def)
  have dj: "owned s (A j) (N j) \<inter> owned s (A k) (N k) = {}" if "j \<in> I" "k \<in> I" "j \<noteq> k" for j k using ok that by (simp add: img_ok_def)
  have eq: "img s' b = img s b" if "j \<in> I" "j \<noteq> i" "b \<in> owned s (A j) (N j)" for j b
    using same [of b] lt [OF that(1,3)] dj [OF that(1) i that(2)] that(3) by blast
  have F: "owned s' (A j) (N j) = owned s (A j) (N j)" "fblocks s' (A j) (N j) = fblocks s (A j) (N j)" "wf_file s' (A j) (N j)"
    if "j \<in> I" "j \<noteq> i" for j
    using file_cong [OF eq [OF that]] wf_file_cong [OF wfi [OF that(1)] eq [OF that] fb] by auto
  have new: "owned s' a n \<inter> owned s (A j) (N j) = {}" if "j \<in> I" "j \<noteq> i" for j
    using own lt(1) [OF that(1)] dj [OF i that(1)] that(2) by fastforce
  have "img_ok s' I (A(i := a)) (N(i := n))" unfolding img_ok_def
  proof (intro conjI ballI impI)
    fix j k assume jk: "j \<in> I" "k \<in> I" "j \<noteq> k"
    show "owned s' ((A(i := a)) j) ((N(i := n)) j) \<inter> owned s' ((A(i := a)) k) ((N(i := n)) k) = {}"
      using new [OF jk(1)] new [OF jk(2)] dj [OF jk] F(1) [OF jk(1)] F(1) [OF jk(2)] jk(3) by (cases "j = i"; cases "k = i") (simp_all add: Int_commute)
  qed (use bl wf F(3) in auto)
  moreover have "img s' b = img s b" if "b < nmeta" for b
    using that lt(2) [OF i, of b] ok by (intro same) (auto simp: img_ok_def blank_ok_def)
  ultimately show ?thesis using F(2) rest by (simp add: only_file_def)
qed

lemma img_okD:
  assumes "img_ok s I A N"
  shows "i \<in> I \<Longrightarrow> wf_file s (A i) (N i)" "blank_ok s"
  using assms by (auto simp: img_ok_def)

lemma blank_okD:
  assumes "blank_ok s"
  shows "img_len s = FSSIZE" "b < FSSIZE \<Longrightarrow> length (img s b) = BSIZE" "nmeta \<le> unat (freeblock s)" "unat (freeblock s) \<le> FSSIZE"
    and "b < FSSIZE \<Longrightarrow> unat (freeblock s) \<le> b \<Longrightarrow> img s b = zeroes"
  using assms by (auto simp: blank_ok_def)

text \<open>Overwriting a block of the file.\<close>

lemma write_block:
  assumes ok: "img_ok s I A N" and i: "i \<in> I" and b: "b < N i" and d: "length d = BSIZE"
  defines "s' \<equiv> s\<lparr>img := (img s)(fslot s (A i) b := d)\<rparr>"
  shows "only_file I A N i s (A i) (N i) s'" "fblocks s' (A i) (N i) = (fblocks s (A i) (N i))[b := d]"
proof -
  let ?a = "A i" and ?n = "N i"
  note W = wf_fileD [OF img_okD(1) [OF ok i]] and B = blank_okD [OF img_okD(2) [OF ok]]
  have sl: "fslot s' ?a c = fslot s ?a c" if "c < ?n \<or> ?n > NDIRECT" for c
    using W(5) [of b] b that by (intro fslot_cong) (auto simp: s'_def)
  have own: "owned s' ?a ?n = owned s ?a ?n" using sl by (simp add: owned_def)
  have im: "fslot s' ?a ` {..<?n} = fslot s ?a ` {..<?n}" "inj_on (fslot s' ?a) {..<?n} \<longleftrightarrow> inj_on (fslot s ?a) {..<?n}"
    using sl by (auto simp: inj_on_def)
  have wf: "wf_file s' ?a ?n" using img_okD(1) [OF ok i] sl own im unfolding wf_file_def by (auto simp: s'_def)
  have "fslot s ?a b < unat (freeblock s)" using W(3) [OF b] by simp
  then have bl: "blank_ok s'" using B d by (auto simp: blank_ok_def s'_def)
  show "only_file I A N i s (A i) (N i) s'"
  proof (rule only_fileI [OF ok i wf bl])
    show "img s' c = img s c" if "c \<notin> owned s ?a ?n" for c using that b by (auto simp: s'_def owned_def)
  qed (use own in \<open>auto simp: s'_def\<close>)
  show "fblocks s' ?a ?n = (fblocks s ?a ?n)[b := d]"
    using sl W(6) [OF b] b by (intro nth_equalityI) (auto simp: fblocks_def s'_def nth_list_update)
qed

text \<open>
  A file that gets a block at its end: \<open>s'\<close> keeps the old blocks except for the block of addresses, and the new block \<open>y\<close> is one that
  was free.
\<close>

lemma grow_file:
  assumes ok: "img_ok s I A N" and i: "i \<in> I" and n: "N i < MAXFILE" and bl: "blank_ok s'" and len: "length a = NDIRECT + 1"
    and fb: "unat (freeblock s) \<le> y" "y < unat (freeblock s')" "y < FSSIZE"
    and old: "\<And>b. b < N i \<Longrightarrow> fslot s' a b = fslot s (A i) b" and new: "fslot s' a (N i) = y"
    and ind: "N i \<ge> NDIRECT \<Longrightarrow> unat (a ! NDIRECT) = (if N i = NDIRECT then unat (freeblock s) else unat (A i ! NDIRECT)) \<and> unat (a ! NDIRECT) \<noteq> y"
    and zero: "\<And>b. b < NDIRECT \<Longrightarrow> N i < b \<Longrightarrow> a ! b = 0" "N i < NDIRECT \<Longrightarrow> a ! NDIRECT = 0"
      "\<And>b. NDIRECT \<le> N i \<Longrightarrow> b < MAXFILE \<Longrightarrow> N i < b \<Longrightarrow> fslot s' a b = 0"
    and same: "\<And>b. \<not> (N i \<ge> NDIRECT \<and> b = unat (a ! NDIRECT)) \<Longrightarrow> img s' b = img s b"
    and rest: "sb s' = sb s" "freeinode s' = freeinode s" "img_len s' = img_len s"
  shows "only_file I A N i s a (N i + 1) s' \<and> fblocks s' a (N i + 1) = fblocks s (A i) (N i) @ [zeroes]"
proof -
  let ?n = "N i" and ?fb = "unat (freeblock s)"
  note W = wf_fileD [OF img_okD(1) [OF ok i]] and B = blank_okD [OF img_okD(2) [OF ok]]
  have le: "?fb \<le> unat (freeblock s')" using fb by simp
  have lt: "fslot s (A i) b < ?fb" "nmeta \<le> fslot s (A i) b" if "b < ?n" for b using W(3) [OF that] by auto
  have sl: "fslot s' a b = (if b = ?n then y else fslot s (A i) b)" if "b < ?n + 1" for b using that old new by auto
  have im: "fslot s' a ` {..<?n + 1} = insert y (fslot s (A i) ` {..<?n})"
    using sl by (auto simp: less_Suc_eq image_iff)
  have ny: "fslot s (A i) b \<noteq> y" if "b < ?n" for b using lt(1) [OF that] fb(1) by simp
  have inj: "inj_on (fslot s' a) {..<?n + 1}"
    unfolding inj_on_def using sl ny W(6) by (auto simp: less_Suc_eq) metis+
  have nind: "unat (a ! NDIRECT) \<notin> fslot s' a ` {..<?n + 1}" if "NDIRECT < ?n + 1"
  proof -
    have "unat (a ! NDIRECT) \<notin> fslot s (A i) ` {..<?n}"
    proof (cases "?n = NDIRECT")
      case True
      then show ?thesis using lt(1) ind by fastforce
    next
      case False
      then show ?thesis using that ind W(5) by (auto simp: image_iff)
    qed
    then show ?thesis using im ind that by auto
  qed
  have own: "owned s' a (?n + 1) \<subseteq> owned s (A i) ?n \<union> {?fb..<unat (freeblock s')}"
    unfolding owned_def im using fb ind by (auto split: if_splits)
  have "owned s (A i) ?n \<subseteq> {nmeta..<?fb}" using img_okD(1) [OF ok i] by (simp add: wf_file_def)
  then have rng: "owned s' a (?n + 1) \<subseteq> {nmeta..<unat (freeblock s')}" using own le B(3) by force
  have wf: "wf_file s' a (?n + 1)"
    unfolding wf_file_def using len n inj nind rng zero by auto
  have only: "only_file I A N i s a (?n + 1) s'"
  proof (rule only_fileI [OF ok i wf bl le own _ rest])
    fix b assume b: "b < ?fb" "b \<notin> owned s (A i) ?n"
    have "\<not> (?n \<ge> NDIRECT \<and> b = unat (a ! NDIRECT))" using ind b by (auto simp: owned_def split: if_splits)
    then show "img s' b = img s b" by (rule same)
  qed
  have keep: "img s' (fslot s' a b) = img s (fslot s' a b)" if "b < ?n + 1" for b
  proof (rule same, rule notI)
    assume x: "?n \<ge> NDIRECT \<and> fslot s' a b = unat (a ! NDIRECT)"
    have "fslot s' a b \<in> fslot s' a ` {..<?n + 1}" using that by blast
    then show False using nind x by simp
  qed
  have "img s y = zeroes" using B(5) [OF fb(3,1)] .
  moreover have "img s' (fslot s (A i) b) = img s (fslot s (A i) b)" if "b < ?n" for b using keep [of b] old [OF that] that by simp
  ultimately show ?thesis using only keep [of ?n] new old by (simp add: fblocks_def)
qed

section \<open>Finding the block to write to\<close>

text \<open>The blocks that the block \<open>fbn\<close> of a file of \<open>n\<close> blocks needs.\<close>

definition need :: "nat \<Rightarrow> nat \<Rightarrow> nat" where
  "need n fbn = (if fbn < n then 0 else if fbn = NDIRECT then 2 else 1)"

lemma next_block_run: "next_block s = Ok (freeblock s) (s\<lparr>freeblock := freeblock s + 1\<rparr>)"
  by (simp add: next_block_def)

lemma freeblock_Suc: "unat (freeblock s) < FSSIZE \<Longrightarrow> unat (freeblock s + 1) = unat (freeblock s) + 1"
  by (subst unat_add_small) (simp_all add: params)

lemma block_present:
  assumes ok: "img_ok s I A N" and i: "i \<in> I" and b: "fbn < N i"
  shows "\<exists>x. iappend_block fbn (A i) s = Ok (x, A i) s \<and> unat x = fslot s (A i) fbn"
proof -
  note W = wf_fileD [OF img_okD(1) [OF ok i]] and B = blank_okD [OF img_okD(2) [OF ok]]
  have nz: "fslot s (A i) fbn \<noteq> 0" using W(3) [OF b] by (simp add: params)
  show ?thesis
  proof (cases "fbn < NDIRECT")
    case True
    then show ?thesis using nz by (auto simp: iappend_block_def fslot_def)
  next
    case False
    then have ind: "unat (A i ! NDIRECT) < FSSIZE" "A i ! NDIRECT \<noteq> 0" using W(4) b B(4) by (auto simp: params)
    have "get32 (img s (unat (A i ! NDIRECT))) (4 * (fbn - NDIRECT)) \<noteq> 0" using nz False by (auto simp: fslot_def)
    then show ?thesis using False ind B(1) by (simp add: iappend_block_def rsect_fs bnd_def fslot_def)
  qed
qed

lemma block_new_direct:
  assumes ok: "img_ok s I A N" and i: "i \<in> I" and n: "N i < NDIRECT" and room: "unat (freeblock s) < FSSIZE"
  defines "a \<equiv> (A i)[N i := freeblock s]" and "s' \<equiv> s\<lparr>freeblock := freeblock s + 1\<rparr>"
  shows "iappend_block (N i) (A i) s = Ok (freeblock s, a) s'" "unat (freeblock s) = fslot s' a (N i)"
    "only_file I A N i s a (N i + 1) s'" "fblocks s' a (N i + 1) = fblocks s (A i) (N i) @ [zeroes]"
proof -
  note W = wf_fileD [OF img_okD(1) [OF ok i]] and B = blank_okD [OF img_okD(2) [OF ok]]
  have l: "N i < length (A i)" using W(1) n by simp
  show "iappend_block (N i) (A i) s = Ok (freeblock s, a) s'"
    using n l W(7) [OF n] by (simp add: iappend_block_def a_def s'_def next_block_run bnd_def)
  show new: "unat (freeblock s) = fslot s' a (N i)" using n l by (simp add: fslot_def a_def)
  have bl: "blank_ok s'" using B room by (auto simp: blank_ok_def s'_def freeblock_Suc)
  have "only_file I A N i s a (N i + 1) s' \<and> fblocks s' a (N i + 1) = fblocks s (A i) (N i) @ [zeroes]"
  proof (rule grow_file [OF ok i _ bl _ _ _ room _ new [symmetric]])
    show "b < NDIRECT \<Longrightarrow> N i < b \<Longrightarrow> a ! b = 0" for b using W(7) [of b] by (simp add: a_def)
    show "a ! NDIRECT = 0" using W(8) n by (simp add: a_def)
  qed (use n W(1,8) room in \<open>auto simp: a_def s'_def fslot_def MAXFILE_def freeblock_Suc\<close>)
  then show "only_file I A N i s a (N i + 1) s'" "fblocks s' a (N i + 1) = fblocks s (A i) (N i) @ [zeroes]" by auto
qed

text \<open>The entry of a block of addresses after another entry has been written.\<close>

lemma entry_put:
  "length d = BSIZE \<Longrightarrow> b < NINDIRECT \<Longrightarrow> c < NINDIRECT \<Longrightarrow> get32 (put32 d (4 * b) v) (4 * c) = (if c = b then v else get32 d (4 * c))"
  using get32_put32 [of "4 * b" d v] get32_put_other(2) [of "4 * c" "4 * b" d v] by (simp add: params) linarith

lemma block_new_indirect:
  assumes ok: "img_ok s I A N" and i: "i \<in> I" and n: "NDIRECT < N i" "N i < MAXFILE" and room: "unat (freeblock s) < FSSIZE"
  defines "ind \<equiv> unat (A i ! NDIRECT)"
  defines "s' \<equiv> s\<lparr>freeblock := freeblock s + 1, img := (img s)(ind := put32 (img s ind) (4 * (N i - NDIRECT)) (freeblock s))\<rparr>"
  shows "iappend_block (N i) (A i) s = Ok (freeblock s, A i) s'" "unat (freeblock s) = fslot s' (A i) (N i)"
    "only_file I A N i s (A i) (N i + 1) s'" "fblocks s' (A i) (N i + 1) = fblocks s (A i) (N i) @ [zeroes]"
proof -
  note W = wf_fileD [OF img_okD(1) [OF ok i]] and B = blank_okD [OF img_okD(2) [OF ok]]
  have ind: "nmeta \<le> ind" "ind < unat (freeblock s)" "ind < FSSIZE" using W(4) [OF n(1)] B(4) by (auto simp: ind_def)
  have d: "length (img s ind) = BSIZE" using B(2) ind(3) by simp
  have sl: "fslot s' (A i) b = (if b = N i then unat (freeblock s) else fslot s (A i) b)" if "b < MAXFILE" for b
    using n that entry_put [OF d] by (auto simp: fslot_def s'_def ind_def [symmetric] MAXFILE_def)
  have z: "get32 (img s ind) (4 * (N i - NDIRECT)) = 0" using W(9) [OF n(1) n(2)] n by (simp add: fslot_def ind_def unsigned_eq_0_iff)
  have nz: "A i ! NDIRECT \<noteq> 0" using ind(1) by (auto simp: ind_def params)
  show "iappend_block (N i) (A i) s = Ok (freeblock s, A i) s'"
  proof -
    have "rsect (A i ! NDIRECT) s = Ok (img s ind) s" using rsect_fs [of "A i ! NDIRECT" s] ind(3) B(1) by (simp add: ind_def)
    moreover have "wsect (A i ! NDIRECT) e (s\<lparr>freeblock := v\<rparr>) = Ok () (s\<lparr>freeblock := v, img := (img s)(ind := e)\<rparr>)" for e v
      using wsect_fs [of "A i ! NDIRECT" "s\<lparr>freeblock := v\<rparr>" e] ind(3) B(1) by (simp add: ind_def)
    moreover have "get32 (put32 (img s ind) (4 * (N i - NDIRECT)) v) (4 * (N i - NDIRECT)) = v" for v
      using n by (subst entry_put [OF d]) (auto simp: MAXFILE_def)
    ultimately show ?thesis using n nz z by (simp add: iappend_block_def bnd_def thn_def next_block_run s'_def Let_def)
  qed
  show new: "unat (freeblock s) = fslot s' (A i) (N i)" using sl [OF n(2)] by simp
  have bl: "blank_ok s'" using B room ind(2) d by (auto simp: blank_ok_def s'_def freeblock_Suc)
  have "only_file I A N i s (A i) (N i + 1) s' \<and> fblocks s' (A i) (N i + 1) = fblocks s (A i) (N i) @ [zeroes]"
  proof (rule grow_file [OF ok i n(2) bl W(1) _ _ room _ new [symmetric]])
    show "fslot s' (A i) b = fslot s (A i) b" if "b < N i" for b using sl [of b] that n(2) by simp
    show "fslot s' (A i) b = 0" if "b < MAXFILE" "N i < b" for b using sl [of b] W(9) [of b] n(1) that by simp
  qed (use n W(7) room ind in \<open>auto simp: s'_def ind_def freeblock_Suc\<close>)
  then show "only_file I A N i s (A i) (N i + 1) s'" "fblocks s' (A i) (N i + 1) = fblocks s (A i) (N i) @ [zeroes]" by auto
qed

lemma block_new_first_indirect:
  assumes ok: "img_ok s I A N" and i: "i \<in> I" and n: "N i = NDIRECT" and room: "unat (freeblock s) + 1 < FSSIZE"
  defines "a \<equiv> (A i)[NDIRECT := freeblock s]"
  defines "s' \<equiv> s\<lparr>freeblock := freeblock s + 1 + 1, img := (img s)(unat (freeblock s) := put32 zeroes 0 (freeblock s + 1))\<rparr>"
  shows "iappend_block NDIRECT (A i) s = Ok (freeblock s + 1, a) s'" "unat (freeblock s + 1) = fslot s' a NDIRECT"
    "only_file I A N i s a (NDIRECT + 1) s'" "fblocks s' a (NDIRECT + 1) = fblocks s (A i) NDIRECT @ [zeroes]"
proof -
  note W = wf_fileD [OF img_okD(1) [OF ok i]] and B = blank_okD [OF img_okD(2) [OF ok]]
  have f: "unat (freeblock s) < FSSIZE" "unat (freeblock s + 1) = unat (freeblock s) + 1" "unat (freeblock s + 1 + 1) = unat (freeblock s) + 2"
    "freeblock s \<noteq> 0"
    using room freeblock_Suc [of s] freeblock_Suc [of "s\<lparr>freeblock := freeblock s + 1\<rparr>"] B(3) by (auto simp: params)
  have a: "a ! NDIRECT = freeblock s" "length a = NDIRECT + 1" "b < NDIRECT \<Longrightarrow> a ! b = A i ! b" for b using W(1) by (auto simp: a_def)
  have z: "img s (unat (freeblock s)) = zeroes" using B(5) f(1) by simp
  have sl: "fslot s' a b = (if b < NDIRECT then unat (A i ! b) else if b = NDIRECT then unat (freeblock s) + 1 else 0)" if "b < MAXFILE" for b
    using that a f entry_put [of zeroes 0 "b - NDIRECT"] by (auto simp: fslot_def s'_def MAXFILE_def get32_zeroes NINDIRECT_def BSIZE_def)
  show "iappend_block NDIRECT (A i) s = Ok (freeblock s + 1, a) s'"
    using W(1) W(8) n f B(1) z get32_put32 [of 0 zeroes] by (simp add: iappend_block_def rsect_fs wsect_fs bnd_def thn_def next_block_run Let_def a_def s'_def get32_zeroes BSIZE_def)
  show new: "unat (freeblock s + 1) = fslot s' a NDIRECT" using sl [of NDIRECT] f by (simp add: params)
  have bl: "blank_ok s'" using B room f z by (auto simp: blank_ok_def s'_def)
  have "only_file I A N i s a (N i + 1) s' \<and> fblocks s' a (N i + 1) = fblocks s (A i) (N i) @ [zeroes]"
  proof (rule grow_file [OF ok i _ bl a(2) _ _ _ _ new [symmetric, folded n]])
    show "fslot s' a b = fslot s (A i) b" if "b < N i" for b using sl [of b] that n by (simp add: params fslot_def)
    show "fslot s' a b = 0" if "b < MAXFILE" "N i < b" for b using sl [of b] n that by simp
  qed (use n W(7) room f a in \<open>auto simp: s'_def MAXFILE_def params\<close>)
  then show "only_file I A N i s a (NDIRECT + 1) s'" "fblocks s' a (NDIRECT + 1) = fblocks s (A i) NDIRECT @ [zeroes]" using n by auto
qed

lemma block_step:
  assumes ok: "img_ok s I A N" and i: "i \<in> I" and b: "fbn \<le> N i" "fbn < MAXFILE" and room: "unat (freeblock s) + need (N i) fbn \<le> FSSIZE"
  shows "\<exists>x a s'. iappend_block fbn (A i) s = Ok (x, a) s' \<and> unat x = fslot s' a fbn \<and> only_file I A N i s a (max (N i) (fbn + 1)) s'
    \<and> fblocks s' a (max (N i) (fbn + 1)) = fblocks s (A i) (N i) @ (if fbn < N i then [] else [zeroes])
    \<and> unat (freeblock s') = unat (freeblock s) + need (N i) fbn"
proof (cases "fbn < N i")
  case True
  then have "max (N i) (fbn + 1) = N i" by simp
  then show ?thesis using block_present [OF ok i True] only_file_refl [OF ok, of i] True by (auto simp: need_def)
next
  case False
  then have n: "fbn = N i" using b(1) by simp
  consider "N i < NDIRECT" | "N i = NDIRECT" | "NDIRECT < N i" by linarith
  then show ?thesis
  proof cases
    case 1
    have r: "unat (freeblock s) < FSSIZE" using room 1 n by (simp add: need_def)
    show ?thesis using block_new_direct [OF ok i 1 r] 1 n freeblock_Suc [OF r] by (auto simp: need_def)
  next
    case 2
    have r: "unat (freeblock s) + 1 < FSSIZE" using room 2 n by (simp add: need_def)
    have "unat (freeblock s + 1 + 1) = unat (freeblock s) + 2"
      using r freeblock_Suc [of s] freeblock_Suc [of "s\<lparr>freeblock := freeblock s + 1\<rparr>"] by simp
    then show ?thesis using block_new_first_indirect [OF ok i 2 r] 2 n by (auto simp: need_def)
  next
    case 3
    have r: "unat (freeblock s) < FSSIZE" using room 3 n by (simp add: need_def)
    show ?thesis using block_new_indirect [OF ok i 3 b(2) [unfolded n] r] 3 n freeblock_Suc [OF r] by (auto simp: need_def)
  qed
qed

section \<open>Appending\<close>

definition nb :: "nat \<Rightarrow> nat" where "nb off = (off + BSIZE - 1) div BSIZE"

definition file_bytes :: "mkfsS \<Rightarrow> uint32 list \<Rightarrow> nat \<Rightarrow> bytes" where
  "file_bytes s a len = take len (concat (fblocks s a (nb len)))"

text \<open>All blocks of a file with \<open>n\<close> data blocks.\<close>

definition all_blocks :: "nat \<Rightarrow> nat" where "all_blocks n = n + of_bool (NDIRECT < n)"

lemma nb_alt: "nb off = off div BSIZE + of_bool (off mod BSIZE \<noteq> 0)"
proof -
  obtain q r where q: "off = 1024 * q + r" "r < 1024" using mult_div_mod_eq [of 1024 off] by (metis mod_less_divisor zero_less_numeral)
  have "(off + 1023) div 1024 = q + of_bool (r \<noteq> 0)"
    by (cases "r = 0"; rule div_nat_eqI) (use q in simp_all)
  then show ?thesis using q by (simp add: nb_def BSIZE_def)
qed

lemma nb_bounds: "off div BSIZE \<le> nb off" "nb off \<le> off div BSIZE + 1"
  by (simp_all add: nb_alt)

lemma nb_chunk: "0 < n \<Longrightarrow> n \<le> (off div BSIZE + 1) * BSIZE - off \<Longrightarrow> nb (off + n) = off div BSIZE + 1"
  by (simp add: nb_def BSIZE_def)

lemma nb_mono: "m \<le> n \<Longrightarrow> nb m \<le> nb n"
  by (simp add: nb_def div_le_mono)

lemma all_blocks_mono: "m \<le> n \<Longrightarrow> all_blocks m \<le> all_blocks n"
  by (simp add: all_blocks_def)

lemma all_blocks_need: "f \<le> n \<Longrightarrow> n \<le> f + 1 \<Longrightarrow> all_blocks (f + 1) = all_blocks n + need n f"
  by (auto simp: all_blocks_def need_def le_Suc_eq)

lemma length_concat_same: "(\<And>d. d \<in> set ys \<Longrightarrow> length d = B) \<Longrightarrow> length (concat ys) = length ys * B"
  by (induction ys) auto

lemma fblocks_length:
  assumes "img_ok s I A N" "i \<in> I" "d \<in> set (fblocks s (A i) (N i))"
  shows "length d = BSIZE"
proof -
  obtain b where b: "b < N i" "d = img s (fslot s (A i) b)" using assms(3) by (auto simp: fblocks_def)
  have "fslot s (A i) b < FSSIZE" using wf_fileD(3) [OF img_okD(1) [OF assms(1,2)] b(1)] blank_okD(4) [OF img_okD(2) [OF assms(1)]] by simp
  then show ?thesis using blank_okD(2) [OF img_okD(2) [OF assms(1)]] b(2) by simp
qed

lemma length_fblocks [simp]: "length (fblocks s a n) = n"
  by (simp add: fblocks_def)

lemma append_in_last:
  assumes "\<And>d. d \<in> set (ys @ [z]) \<Longrightarrow> length d = B" "o' + length c \<le> B"
  shows "take (length ys * B + o' + length c) (concat (ys @ [take o' z @ c @ drop (o' + length c) z])) = take (length ys * B + o') (concat (ys @ [z])) @ c"
proof -
  have l: "length (concat ys) = length ys * B" "length z = B" using assms(1) by (auto intro: length_concat_same)
  then show ?thesis using assms(2) by simp
qed

text \<open>One round of the loop: the file grows by the chunk, at its end.\<close>

lemma append_chunk:
  assumes ok: "img_ok s I A N" and i: "i \<in> I" and N: "N i = nb off" and c: "c \<noteq> []" "length c \<le> (off div BSIZE + 1) * BSIZE - off"
    and mx: "off div BSIZE < MAXFILE" and room: "unat (freeblock s) + need (N i) (off div BSIZE) \<le> FSSIZE"
  defines "o' \<equiv> off - off div BSIZE * BSIZE"
  shows "\<exists>x a t s' d. iappend_block (off div BSIZE) (A i) s = Ok (x, a) t \<and> rsect x t = Ok d t
    \<and> wsect x (take o' d @ c @ drop (o' + length c) d) t = Ok () s' \<and> only_file I A N i s a (nb (off + length c)) s'
    \<and> file_bytes s' a (off + length c) = file_bytes s (A i) off @ c \<and> unat (freeblock s') = unat (freeblock s) + need (N i) (off div BSIZE)"
proof -
  let ?f = "off div BSIZE"
  have off: "off = ?f * BSIZE + o'" "o' < BSIZE" using div_mult_mod_eq [of off BSIZE] by (auto simp: o'_def BSIZE_def)
  have n': "max (N i) (?f + 1) = ?f + 1" "nb (off + length c) = ?f + 1" using nb_bounds(2) [of off] N nb_chunk [of "length c" off] c by auto
  obtain x a t where b: "iappend_block ?f (A i) s = Ok (x, a) t" "unat x = fslot t a ?f" "only_file I A N i s a (?f + 1) t"
    "fblocks t a (?f + 1) = fblocks s (A i) (N i) @ (if ?f < N i then [] else [zeroes])" "unat (freeblock t) = unat (freeblock s) + need (N i) ?f"
    using block_step [OF ok i _ mx room] nb_bounds(1) [of off] N n' by auto
  have ok': "img_ok t I (A(i := a)) (N(i := ?f + 1))" using b(3) by (simp add: only_file_def)
  note B = blank_okD [OF img_okD(2) [OF ok']]
  have x: "unat x < FSSIZE" using wf_fileD(3) [OF img_okD(1) [OF ok' i], of ?f] b(2) B(4) by simp
  define d where "d = img t (unat x)"
  define d' where "d' = take o' d @ c @ drop (o' + length c) d"
  have d: "length d = BSIZE" "length d' = BSIZE" using B(2) [OF x] off c(2) by (auto simp: d_def d'_def)
  let ?s = "t\<lparr>img := (img t)(unat x := d')\<rparr>"
  have w: "only_file I (A(i := a)) (N(i := ?f + 1)) i t a (?f + 1) ?s" "fblocks ?s a (?f + 1) = (fblocks t a (?f + 1))[?f := d']"
    using write_block [OF ok' i, of ?f d'] d(2) b(2) by auto
  obtain ys where ys: "fblocks t a (?f + 1) = ys @ [d]" "length ys = ?f"
    by (rule that [of "fblocks t a ?f"]) (simp_all add: fblocks_def d_def b(2))
  have l: "length e = BSIZE" if "e \<in> set (ys @ [d])" for e using fblocks_length [OF ok' i] that ys(1) by simp
  have "take off (concat (ys @ [d])) = file_bytes s (A i) off"
  proof (cases "?f < N i")
    case True
    then show ?thesis using b(4) ys(1) N by (simp add: file_bytes_def)
  next
    case False
    then have "ys = fblocks s (A i) (N i)" "N i = ?f" "o' = 0" 
      using b(4) ys nb_alt [of off] N minus_div_mult_eq_mod [of off BSIZE] by (auto simp: o'_def split: if_splits)
    moreover have "length (concat ys) = ?f * BSIZE" using l ys(2) by (subst length_concat_same) auto
    ultimately show ?thesis using off(1) N by (simp add: file_bytes_def)
  qed
  moreover have "file_bytes ?s a (off + length c) = take off (concat (ys @ [d])) @ c"
    using append_in_last [of ys d BSIZE o' c] l off c(2) ys w(2) n'(2) by (simp add: file_bytes_def d'_def list_update_append)
  moreover have "rsect x t = Ok d t" "wsect x d' t = Ok () ?s" using x B(1) by (simp_all add: rsect_fs wsect_fs d_def)
  ultimately show ?thesis using b(1,5) only_file_trans [OF b(3) w(1)] n'(2) unfolding d'_def by auto
qed

text \<open>The loop, with room for the blocks that the file needs in the end.\<close>

lemma iappend_loop_run:
  assumes "img_ok s I A N" "i \<in> I" "N i = nb off" "off + length p \<le> MAXFILE * BSIZE"
    and "unat (freeblock s) + all_blocks (nb (off + length p)) \<le> FSSIZE + all_blocks (nb off)"
  shows "\<exists>a s'. iappend_loop p off (A i) s = Ok (off + length p, a) s' \<and> only_file I A N i s a (nb (off + length p)) s'
    \<and> file_bytes s' a (off + length p) = file_bytes s (A i) off @ p
    \<and> unat (freeblock s') + all_blocks (nb off) = unat (freeblock s) + all_blocks (nb (off + length p))"
  using assms
proof (induction "length p" arbitrary: p off s A N rule: less_induct)
  case less
  show ?case
  proof (cases "p = []")
    case True
    then show ?thesis using only_file_refl [OF less.prems(1), of i] less.prems(3) by (auto simp: iappend_loop.simps [of "[]"])
  next
    case False
    let ?f = "off div BSIZE"
    define n1 where "n1 = min (length p) ((?f + 1) * BSIZE - off)"
    have lt: "off < (?f + 1) * BSIZE" using dividend_less_div_times [of BSIZE off] by (simp add: BSIZE_def)
    have n1: "0 < n1" "n1 \<le> length p" "n1 \<le> (?f + 1) * BSIZE - off" using False lt by (auto simp: n1_def)
    have "length p > 0" using False by simp
    then have "off < MAXFILE * BSIZE" using less.prems(4) by linarith
    then have mx: "?f < MAXFILE" by (simp add: div_less_iff_less_mult BSIZE_def)
    have l: "length (take n1 p) = n1" using n1(2) by simp
    have nb1: "nb (off + n1) = ?f + 1" using n1 by (intro nb_chunk)
    have grow: "all_blocks (nb (off + n1)) = all_blocks (nb off) + need (nb off) ?f"
      unfolding nb1 by (rule all_blocks_need [OF nb_bounds])
    have le: "all_blocks (nb (off + n1)) \<le> all_blocks (nb (off + length p))" using n1(2) by (intro all_blocks_mono nb_mono) simp
    have room: "unat (freeblock s) + need (N i) ?f \<le> FSSIZE" using less.prems(3,5) grow le by simp
    have c1: "take n1 p \<noteq> []" "length (take n1 p) \<le> (?f + 1) * BSIZE - off" using n1 False by auto
    obtain x a t s1 d where c: "iappend_block ?f (A i) s = Ok (x, a) t" "rsect x t = Ok d t"
      "wsect x (take (off - ?f * BSIZE) d @ take n1 p @ drop (off - ?f * BSIZE + n1) d) t = Ok () s1" "only_file I A N i s a (nb (off + n1)) s1"
      "file_bytes s1 a (off + n1) = file_bytes s (A i) off @ take n1 p" "unat (freeblock s1) = unat (freeblock s) + need (N i) ?f"
      using append_chunk [OF less.prems(1-3) c1 mx room, unfolded l] by blast
    have sum: "off + n1 + length (drop n1 p) = off + length p" using n1(2) by simp
    have "\<exists>a' s'. iappend_loop (drop n1 p) (off + n1) ((A(i := a)) i) s1 = Ok (off + n1 + length (drop n1 p), a') s'
      \<and> only_file I (A(i := a)) (N(i := nb (off + n1))) i s1 a' (nb (off + n1 + length (drop n1 p))) s'
      \<and> file_bytes s' a' (off + n1 + length (drop n1 p)) = file_bytes s1 ((A(i := a)) i) (off + n1) @ drop n1 p
      \<and> unat (freeblock s') + all_blocks (nb (off + n1)) = unat (freeblock s1) + all_blocks (nb (off + n1 + length (drop n1 p)))"
      by (rule less.hyps [of "drop n1 p" s1 "A(i := a)" "N(i := nb (off + n1))"])
        (use c(4,6) less.prems n1 grow False in \<open>simp_all add: only_file_def\<close>)
    then obtain a' s' where r: "iappend_loop (drop n1 p) (off + n1) a s1 = Ok (off + length p, a') s'"
      "only_file I (A(i := a)) (N(i := nb (off + n1))) i s1 a' (nb (off + length p)) s'"
      "file_bytes s' a' (off + length p) = file_bytes s1 a (off + n1) @ drop n1 p"
      "unat (freeblock s') + all_blocks (nb (off + n1)) = unat (freeblock s1) + all_blocks (nb (off + length p))"
      unfolding sum by auto
    have n1e: "min (length p) (BSIZE + ?f * BSIZE - off) = n1" by (simp add: n1_def)
    have "iappend_loop p off (A i) s = Ok (off + length p, a') s'"
      using False mx c(1-3) r(1) by (subst iappend_loop.simps) (simp add: Let_def bnd_def thn_def n1e)
    then show ?thesis using r(2-4) c(5,6) only_file_trans [OF c(4) r(2)] grow less.prems(3) by auto
  qed
qed

end
