(* ===== verification/MkfsInv.thy ===== *)
theory MkfsInv
  imports MkfsFile
begin

text \<open>
  The inode table of the image, and the whole program \<^verbatim>\<open>mkfs\<close>: the image represents a list of files (\<open>fs_holds\<close>), \<^verbatim>\<open>ialloc\<close> adds an empty
  file to the list and \<^verbatim>\<open>iappend\<close> appends to one of its files.
\<close>

section \<open>The inode table\<close>

definition inode_blk :: "nat \<Rightarrow> nat" where "inode_blk i = 2 + nlog + i div IPB"

definition inode_at :: "mkfsS \<Rightarrow> nat \<Rightarrow> dinode" where
  "inode_at s i = get_dinode (img s (inode_blk i)) (i mod IPB)"

lemma length_put_dinode [simp]: "length (put_dinode d j i) = length d"
  by (simp add: put_dinode_def Let_def)

lemma inode_blk_less: "i < NINODES \<Longrightarrow> inode_blk i < nmeta" "i < NINODES \<Longrightarrow> inode_blk i < FSSIZE"
  by (simp_all add: inode_blk_def params)

lemma IBLOCK_mkfs: "i < NINODES \<Longrightarrow> unat (IBLOCK (of_nat i) mkfs_sb) = inode_blk i"
proof -
  assume i: "i < NINODES"
  have "unat (of_nat i div of_nat IPB :: uint32) = i div IPB" using i by (simp add: unat_div unat_of_nat_small params)
  then show ?thesis using i by (simp add: IBLOCK_def mkfs_sb_def inode_blk_def params unat_word_ariths)
qed

definition set_inode :: "nat \<Rightarrow> dinode \<Rightarrow> mkfsS \<Rightarrow> mkfsS" where
  "set_inode i d s = s\<lparr>img := (img s)(inode_blk i := put_dinode (img s (inode_blk i)) (i mod IPB) d)\<rparr>"

lemma unat_inum: "i < NINODES \<Longrightarrow> unat (of_nat i :: uint32) = i"
  by (simp add: unat_of_nat_small params)

lemma rinode_run:
  assumes "i < NINODES" "sb s = mkfs_sb" "img_len s = FSSIZE"
  shows "rinode (of_nat i) s = Ok (inode_at s i) s"
proof -
  have "rsect (IBLOCK (of_nat i) mkfs_sb) s = Ok (img s (inode_blk i)) s"
    using rsect_fs [of "IBLOCK (of_nat i) mkfs_sb" s] assms inode_blk_less(2) [OF assms(1)] by (simp add: IBLOCK_mkfs)
  then show ?thesis using assms by (simp add: rinode_def bnd_def inode_at_def unat_inum)
qed

lemma winode_run:
  assumes "i < NINODES" "sb s = mkfs_sb" "img_len s = FSSIZE"
  shows "winode (of_nat i) d s = Ok () (set_inode i d s)"
proof -
  let ?b = "IBLOCK (of_nat i) mkfs_sb"
  have b: "unat ?b = inode_blk i" "unat ?b < FSSIZE" using IBLOCK_mkfs [OF assms(1)] inode_blk_less(2) [OF assms(1)] by simp_all
  have "rsect ?b s = Ok (img s (inode_blk i)) s" using rsect_fs [of ?b s] assms(3) b by simp
  then show ?thesis using assms(2,3) b(2) by (simp add: winode_def bnd_def Let_def wsect_fs set_inode_def b(1) unat_inum [OF assms(1)])
qed

lemma inode_at_set:
  assumes "i < NINODES" "j < NINODES" "length (img s (inode_blk i)) = BSIZE" "length (d_addrs d) = NDIRECT + 1"
  shows "inode_at (set_inode i d s) j = (if j = i then d else inode_at s j)"
proof (cases "inode_blk j = inode_blk i")
  case True
  then have "j div IPB = i div IPB" by (simp add: inode_blk_def)
  then have "j mod IPB = i mod IPB \<longleftrightarrow> j = i" by (metis div_mult_mod_eq)
  then show ?thesis using get_put_dinode [OF assms(3) _ _ assms(4), of "i mod IPB" "j mod IPB"] True
    by (auto simp: inode_at_def set_inode_def IPB_def BSIZE_def)
next
  case False
  then show ?thesis by (auto simp: inode_at_def set_inode_def)
qed

text \<open>Writing an inode does not touch the contents of the files.\<close>

lemma img_ok_cong:
  assumes "img_ok s I A N" "\<And>i. i \<in> I \<Longrightarrow> A' i = A i \<and> N' i = N i" "\<And>b. nmeta \<le> b \<Longrightarrow> img s' b = img s b" "img_len s' = img_len s"
    and "freeblock s' = freeblock s" "\<And>b. b < nmeta \<Longrightarrow> length (img s' b) = BSIZE"
  shows "img_ok s' I A' N'" "i \<in> I \<Longrightarrow> fblocks s' (A i) (N i) = fblocks s (A i) (N i)"
proof -
  note B = blank_okD [OF img_okD(2) [OF assms(1)]]
  have eq: "img s' b = img s b" if "i \<in> I" "b \<in> owned s (A i) (N i)" for i b
    using img_okD(1) [OF assms(1) that(1)] that(2) assms(3) by (auto simp: wf_file_def)
  have "length (img s' b) = BSIZE" if "b < FSSIZE" for b using assms(3,6) B(2) that by (cases "b < nmeta") auto
  then have "blank_ok s'" using B assms(3,4,5) by (auto simp: blank_ok_def)
  moreover have "wf_file s' (A i) (N i)" "owned s' (A i) (N i) = owned s (A i) (N i)" if "i \<in> I" for i
    using wf_file_cong [OF img_okD(1) [OF assms(1) that] eq [OF that]] file_cong(1) [OF eq [OF that]] assms(5) by auto
  ultimately show "img_ok s' I A' N'" using assms(1,2) by (auto simp: img_ok_def)
  show "fblocks s' (A i) (N i) = fblocks s (A i) (N i)" if "i \<in> I" using file_cong(2) [OF eq [OF that]] by auto
qed

section \<open>The image fs_holds a list of files\<close>

text \<open>A file system as a list of files, the inode \<open>i + 1\<close> being that of the \<open>i\<close>th: its type and its bytes.\<close>

type_synonym files = "(uint16 \<times> bytes) list"

definition blocks_used :: "files \<Rightarrow> nat" where
  "blocks_used fs = (\<Sum>f\<leftarrow>fs. all_blocks (nb (length (snd f))))"

definition addrs_at :: "mkfsS \<Rightarrow> nat \<Rightarrow> uint32 list" where "addrs_at s i = d_addrs (inode_at s (i + 1))"

definition holds_file :: "mkfsS \<Rightarrow> nat \<Rightarrow> uint16 \<times> bytes \<Rightarrow> bool" where
  "holds_file s i f \<longleftrightarrow> d_type (inode_at s (i + 1)) = fst f \<and> d_nlink (inode_at s (i + 1)) = 1
     \<and> unat (d_size (inode_at s (i + 1))) = length (snd f) \<and> file_bytes s (addrs_at s i) (length (snd f)) = snd f"

definition fs_holds :: "mkfsS \<Rightarrow> files \<Rightarrow> bool" where
  "fs_holds s fs \<longleftrightarrow> sb s = mkfs_sb \<and> unat (freeinode s) = length fs + 1 \<and> length fs < NINODES \<and> unat (freeblock s) = nmeta + blocks_used fs
     \<and> img_ok s {..<length fs} (addrs_at s) (\<lambda>i. nb (length (snd (fs ! i)))) \<and> (\<forall>i<length fs. holds_file s i (fs ! i))
     \<and> (\<forall>i<NINODES. length fs < i \<longrightarrow> d_type (inode_at s i) = 0) \<and> img s 1 = put_sb zeroes mkfs_sb"

lemma fs_holdsD:
  assumes "fs_holds s fs"
  shows "sb s = mkfs_sb" "unat (freeinode s) = length fs + 1" "length fs < NINODES" "unat (freeblock s) = nmeta + blocks_used fs"
    and "img_ok s {..<length fs} (addrs_at s) (\<lambda>i. nb (length (snd (fs ! i))))" "i < length fs \<Longrightarrow> holds_file s i (fs ! i)"
    and "i < NINODES \<Longrightarrow> length fs < i \<Longrightarrow> d_type (inode_at s i) = 0" "img s 1 = put_sb zeroes mkfs_sb"
  using assms by (auto simp: fs_holds_def)

lemma holds_img:
  assumes "fs_holds s fs"
  shows "img_len s = FSSIZE" "b < FSSIZE \<Longrightarrow> length (img s b) = BSIZE"
  using blank_okD [OF img_okD(2) [OF fs_holdsD(5) [OF assms]]] by auto

lemma set_inode_sel [simp]:
  "img_len (set_inode i d s) = img_len s" "sb (set_inode i d s) = sb s" "freeblock (set_inode i d s) = freeblock s" "freeinode (set_inode i d s) = freeinode s"
  by (simp_all add: set_inode_def)

lemma img_set_inode: "i < NINODES \<Longrightarrow> nmeta \<le> b \<Longrightarrow> img (set_inode i d s) b = img s b"
  "(\<And>b. b < nmeta \<Longrightarrow> length (img s b) = BSIZE) \<Longrightarrow> b < nmeta \<Longrightarrow> length (img (set_inode i d s) b) = BSIZE"
  using inode_blk_less(1) [of i] by (auto simp: set_inode_def)

text \<open>
  The state \<open>t\<close> after the inode of the file \<open>i\<close> has been written, when the contents are those of \<open>s'\<close> and the other inodes those of
  \<open>s\<close>.
\<close>

lemma holds_set_inode:
  assumes ok: "img_ok s' {..<length gs} A (\<lambda>i. nb (length (snd (gs ! i))))" and i: "i < length gs" "length gs < NINODES"
    and d: "d_addrs d = A i" "d_type d = fst (gs ! i)" "d_nlink d = 1" "unat (d_size d) = length (snd (gs ! i))"
    and meta: "\<And>j. j < NINODES \<Longrightarrow> inode_at s' j = inode_at s j" "sb s' = mkfs_sb" "unat (freeinode s') = length gs + 1" "img s' 1 = put_sb zeroes mkfs_sb"
    and fb: "unat (freeblock s') = nmeta + blocks_used gs"
    and here: "file_bytes s' (A i) (length (snd (gs ! i))) = snd (gs ! i)"
    and others: "\<And>j. j < length gs \<Longrightarrow> j \<noteq> i \<Longrightarrow> holds_file s j (gs ! j) \<and> A j = addrs_at s j \<and> file_bytes s' (A j) (length (snd (gs ! j))) = snd (gs ! j)"
    and free: "\<And>j. j < NINODES \<Longrightarrow> length gs < j \<Longrightarrow> d_type (inode_at s j) = 0"
  shows "fs_holds (set_inode (i + 1) d s') gs"
proof -
  let ?t = "set_inode (i + 1) d s'" and ?N = "\<lambda>i. nb (length (snd (gs ! i)))"
  note B = blank_okD [OF img_okD(2) [OF ok]]
  have i1: "i + 1 < NINODES" using i by simp
  have "length (A i) = NDIRECT + 1" using wf_fileD(1) [OF img_okD(1) [OF ok]] i by simp
  then have at: "inode_at ?t j = (if j = i + 1 then d else inode_at s j)" if "j < NINODES" for j
    using inode_at_set [OF i1 that, of s' d] B(2) inode_blk_less(2) [OF i1] d(1) meta(1) [OF that] by simp
  have ad: "addrs_at ?t j = A j" if "j < length gs" for j
    using at [of "j + 1"] that i others [of j] d(1) by (auto simp: addrs_at_def)
  have meta_len: "length (img s' b) = BSIZE" if "b < nmeta" for b using B(2) [of b] that by (simp add: params)
  have ok': "img_ok ?t {..<length gs} (addrs_at ?t) ?N" "j < length gs \<Longrightarrow> fblocks ?t (A j) (?N j) = fblocks s' (A j) (?N j)" for j
    using img_ok_cong [OF ok, of "addrs_at ?t" ?N ?t] ad img_set_inode(1) [OF i1] img_set_inode(2) [OF meta_len] by auto
  have "holds_file ?t j (gs ! j)" if "j < length gs" for j
  proof (cases "j = i")
    case True
    then show ?thesis using at [OF i1] d here ok'(2) [OF that] ad [OF that] by (simp add: holds_file_def file_bytes_def)
  next
    case False
    then show ?thesis using at [of "j + 1"] others [OF that False] i(2) that ok'(2) [OF that] ad [OF that] by (auto simp: holds_file_def file_bytes_def)
  qed
  moreover have "d_type (inode_at ?t j) = 0" if "j < NINODES" "length gs < j" for j using at [OF that(1)] free that i by auto
  moreover have "img ?t 1 = img s' 1" by (simp add: set_inode_def inode_blk_def)
  ultimately show ?thesis using meta fb ok'(1) i(2) by (auto simp: fs_holds_def)
qed

lemma file_bytes_img: "img s' = img s \<Longrightarrow> file_bytes s' a n = file_bytes s a n"
  by (simp add: file_bytes_def fblocks_def fslot_def cong: if_cong)

lemma inode_at_cong: "i < NINODES \<Longrightarrow> (\<And>b. b < nmeta \<Longrightarrow> img s' b = img s b) \<Longrightarrow> inode_at s' i = inode_at s i"
  using inode_blk_less(1) by (simp add: inode_at_def)

lemma blocks_used_update:
  "i < length fs \<Longrightarrow> blocks_used (fs[i := f]) + all_blocks (nb (length (snd (fs ! i)))) = blocks_used fs + all_blocks (nb (length (snd f)))"
  by (induction fs arbitrary: i) (auto simp: blocks_used_def nth_Cons split: nat.splits)

lemma iappend_holds:
  assumes h: "fs_holds s fs" and i: "i < length fs" and f: "fs ! i = (ty, c)" and len: "length c + length p \<le> MAXFILE * BSIZE"
    and room: "blocks_used (fs[i := (ty, c @ p)]) \<le> nblocks"
  shows "\<exists>t. iappend (of_nat (i + 1)) p s = Ok () t \<and> fs_holds t (fs[i := (ty, c @ p)])"
proof -
  let ?gs = "fs[i := (ty, c @ p)]" and ?N = "\<lambda>i. nb (length (snd (fs ! i)))" and ?d = "inode_at s (i + 1)"
  note H = fs_holdsD [OF h]
  have i1: "i + 1 < NINODES" using H(3) i by simp
  have hf: "d_type ?d = ty" "d_nlink ?d = 1" "unat (d_size ?d) = length c" "file_bytes s (addrs_at s i) (length c) = c"
    using H(6) [OF i] f by (auto simp: holds_file_def)
  have up: "blocks_used ?gs + all_blocks (nb (length c)) = blocks_used fs + all_blocks (nb (length c + length p))"
    using blocks_used_update [OF i, of "(ty, c @ p)"] f by simp
  have rm: "unat (freeblock s) + all_blocks (nb (length c + length p)) \<le> FSSIZE + all_blocks (nb (length c))"
    using up room H(4) by (simp add: params)
  obtain a s' where r: "iappend_loop p (length c) (addrs_at s i) s = Ok (length c + length p, a) s'"
    "only_file {..<length fs} (addrs_at s) ?N i s a (nb (length c + length p)) s'"
    "file_bytes s' a (length c + length p) = file_bytes s (addrs_at s i) (length c) @ p"
    "unat (freeblock s') + all_blocks (nb (length c)) = unat (freeblock s) + all_blocks (nb (length c + length p))"
    using iappend_loop_run [OF H(5) _ _ len rm, of i] i f by auto
  note O = r(2) [unfolded only_file_def]
  define d where "d = ?d\<lparr>d_addrs := a, d_size := of_nat (length c + length p)\<rparr>"
  have sz: "unat (of_nat (length c + length p) :: uint32) = length c + length p" using len by (intro unat_of_nat_small) (simp add: params)
  have "d_addrs ?d = addrs_at s i" by (simp add: addrs_at_def)
  then have "iappend (of_nat (i + 1)) p s = Ok () (set_inode (i + 1) d s')"
    using r(1) hf(3) rinode_run [OF i1 H(1) holds_img(1) [OF h]] winode_run [OF i1, of s' d] O H(1) holds_img(1) [OF h]
    by (simp add: iappend_def bnd_def d_def)
  moreover have "fs_holds (set_inode (i + 1) d s') ?gs"
  proof (rule holds_set_inode [where A = "(addrs_at s)(i := a)" and s = s])
    have "(\<lambda>j. nb (length (snd (?gs ! j)))) = ?N(i := nb (length c + length p))" using i by (auto simp: fun_eq_iff nth_list_update)
    then show "img_ok s' {..<length ?gs} ((addrs_at s)(i := a)) (\<lambda>j. nb (length (snd (?gs ! j))))" using O by simp
    show "inode_at s' j = inode_at s j" if "j < NINODES" for j using O that by (intro inode_at_cong) auto
    show "unat (freeblock s') = nmeta + blocks_used ?gs" using r(4) up H(4) by simp
    fix j assume j: "j < length ?gs" "j \<noteq> i"
    then have "fblocks s' (addrs_at s j) (?N j) = fblocks s (addrs_at s j) (?N j)" using O by simp
    then show "holds_file s j (?gs ! j) \<and> ((addrs_at s)(i := a)) j = addrs_at s j
      \<and> file_bytes s' (((addrs_at s)(i := a)) j) (length (snd (?gs ! j))) = snd (?gs ! j)"
      using H(6) [of j] j by (auto simp: holds_file_def file_bytes_def)
  next
    show "img s' 1 = put_sb zeroes mkfs_sb" using O H(8) by (simp add: params)
  qed (use O H i i1 hf r(3) sz in \<open>auto simp: d_def\<close>)
  ultimately show ?thesis by blast
qed

lemma ialloc_holds:
  assumes h: "fs_holds s fs" and n: "length fs + 1 < NINODES"
  shows "\<exists>t. mk_ialloc ty s = Ok (of_nat (length fs + 1)) t \<and> fs_holds t (fs @ [(ty, [])])"
proof -
  let ?n = "length fs" and ?gs = "fs @ [(ty, [])]"
  note H = fs_holdsD [OF h]
  define d where "d = \<lparr>d_type = ty, d_major = 0, d_minor = 0, d_nlink = 1, d_size = 0, d_addrs = replicate (NDIRECT + 1) 0\<rparr>"
  let ?s = "s\<lparr>freeinode := freeinode s + 1\<rparr>" and ?A = "(addrs_at s)(?n := d_addrs d)"
  have inum: "freeinode s = of_nat (?n + 1)" by (metis H(2) of_nat_unat ucast_id)
  have "mk_ialloc ty s = Ok (of_nat (?n + 1)) (set_inode (?n + 1) d ?s)"
    using winode_run [OF n, of ?s d] H(1) holds_img(1) [OF h] inum by (simp add: mk_ialloc_def thn_def bnd_def d_def)
  moreover have "fs_holds (set_inode (?n + 1) d ?s) ?gs"
  proof (rule holds_set_inode [where A = ?A and s = s])
    have "img_ok ?s {..<?n} (addrs_at s) (\<lambda>i. nb (length (snd (fs ! i))))"
      by (rule img_ok_cong(1) [OF H(5)]) (use holds_img(2) [OF h] in \<open>auto simp: params\<close>)
    moreover have "wf_file ?s (d_addrs d) 0" "owned ?s (d_addrs d) 0 = {}" by (auto simp: wf_file_def owned_def d_def params)
    ultimately show "img_ok ?s {..<length ?gs} ?A (\<lambda>j. nb (length (snd (?gs ! j))))"
      by (auto simp: img_ok_def nth_append less_Suc_eq nb_def BSIZE_def)
    show "unat (freeinode ?s) = length ?gs + 1" using H(2) n by (simp add: unat_word_ariths params)
    fix j assume j: "j < length ?gs" "j \<noteq> ?n"
    then show "holds_file s j (?gs ! j) \<and> ?A j = addrs_at s j \<and> file_bytes ?s (?A j) (length (snd (?gs ! j))) = snd (?gs ! j)"
      using H(6) [of j] file_bytes_img [of ?s s] by (auto simp: holds_file_def nth_append)
  qed (use H n in \<open>auto simp: d_def inode_at_def blocks_used_def all_blocks_def nb_def file_bytes_def BSIZE_def\<close>)
  ultimately show ?thesis by blast
qed

section \<open>The bitmap\<close>

lemma bit_of_mask: "n < 8 \<Longrightarrow> bit (bit_mask i) n \<longleftrightarrow> n = i mod 8"
  by (auto simp: bit_mask_def bit_simps)

lemma and_bit_mask: "d AND bit_mask b \<noteq> 0 \<longleftrightarrow> bit d (b mod 8)"
proof -
  have "bit (d AND bit_mask b) n \<longleftrightarrow> n = b mod 8 \<and> bit d n" for n
    using bit_of_mask [of n b] bit_imp_le_length [of d n] by (auto simp: bit_and_iff)
  then show ?thesis by (metis bit_eqI bit_0_eq bot_apply bot_bool_def)
qed

lemma bitmap_Suc: "bitmap_bytes (Suc n) = (bitmap_bytes n)[n div 8 := bitmap_bytes n ! (n div 8) OR bit_mask n]"
  by (simp add: bitmap_bytes_def)

lemma length_bitmap [simp]: "length (bitmap_bytes n) = BSIZE"
  by (induction n) (simp_all add: bitmap_Suc, simp add: bitmap_bytes_def)

lemma bitmap_bit:
  assumes "n \<le> BSIZE * 8" "b < BSIZE * 8"
  shows "bitmap_bytes n ! (b div 8) AND bit_mask b \<noteq> 0 \<longleftrightarrow> b < n"
  unfolding and_bit_mask using assms(1)
proof (induction n)
  case 0
  then show ?case using assms(2) by (simp add: bitmap_bytes_def less_mult_imp_div_less)
next
  case (Suc n)
  have b: "b div 8 < BSIZE" using assms(2) by (simp add: less_mult_imp_div_less)
  have eq: "b = n \<longleftrightarrow> b div 8 = n div 8 \<and> b mod 8 = n mod 8" by (metis div_mult_mod_eq)
  show ?case
  proof (cases "b div 8 = n div 8")
    case True
    then show ?thesis using Suc b eq bit_of_mask [of "b mod 8" n] by (auto simp: bitmap_Suc bit_or_iff less_Suc_eq)
  next
    case False
    then show ?thesis using Suc eq by (auto simp: bitmap_Suc less_Suc_eq)
  qed
qed

section \<open>The program\<close>

lemma get_put_sb: "get_sb (put_sb zeroes k) = k"
proof -
  define vs where "vs = [sb_magic k, sb_size k, sb_nblocks k, sb_ninodes k, sb_nlog k, sb_logstart k, sb_inodestart k, sb_bmapstart k]"
  have "get32 (put_words zeroes 0 vs) (4 * i) = vs ! i" if "i < 8" for i
    using put_words_nth [of i vs 0 zeroes] that by (simp add: vs_def BSIZE_def)
  from this [of 0] this [of 1] this [of 2] this [of 3] this [of 4] this [of 5] this [of 6] this [of 7]
  show ?thesis by (cases k) (simp add: get_sb_def put_sb_def vs_def)
qed

lemma blank_image:
  "\<exists>s. thn (modify (\<lambda>s. s\<lparr>sb := mkfs_sb, freeblock := of_nat nmeta\<rparr>)) (for_each [0..<FSSIZE] (\<lambda>i. wsect (of_nat i) zeroes)) mkfs_init = Ok () s
    \<and> wsect 1 (put_sb zeroes mkfs_sb) s = Ok () (s\<lparr>img := (img s)(1 := put_sb zeroes mkfs_sb)\<rparr>)
    \<and> fs_holds (s\<lparr>img := (img s)(1 := put_sb zeroes mkfs_sb)\<rparr>) []"
proof -
  let ?P = "\<lambda>i (t :: mkfsS). img t = (\<lambda>_. zeroes) \<and> img_len t = i \<and> sb t = mkfs_sb \<and> freeblock t = of_nat nmeta \<and> freeinode t = 1"
  have "\<exists>t. for_each [0..<FSSIZE] (\<lambda>i. wsect (of_nat i) zeroes) (mkfs_init\<lparr>sb := mkfs_sb, freeblock := of_nat nmeta\<rparr>) = Ok () t \<and> ?P FSSIZE t"
  proof (rule for_each_upt)
    fix i and t :: mkfsS assume i: "i < FSSIZE" "?P i t"
    then have "sect_ix (of_nat i) = i" using sect_ix_fs [of "of_nat i"] by (simp add: unat_of_nat_small params)
    then show "\<exists>u. wsect (of_nat i) zeroes t = Ok () u \<and> ?P (Suc i) u" using i(2) by (simp add: wsect_def fun_upd_idem_iff)
  qed (simp_all add: mkfs_init_def)
  then obtain s where s: "for_each [0..<FSSIZE] (\<lambda>i. wsect (of_nat i) zeroes) (mkfs_init\<lparr>sb := mkfs_sb, freeblock := of_nat nmeta\<rparr>) = Ok () s" "?P FSSIZE s"
    by blast
  let ?s = "s\<lparr>img := (img s)(1 := put_sb zeroes mkfs_sb)\<rparr>"
  have fb: "unat (of_nat nmeta :: uint32) = nmeta" by (simp add: params)
  have "d_type (inode_at ?s i) = 0" if "i < NINODES" for i
    using s(2) by (auto simp: inode_at_def get_dinode_def inode_blk_def get16_def zeroes_def Let_def IPB_def BSIZE_def)
  moreover have "blank_ok ?s" using s(2) by (auto simp: blank_ok_def fb put_sb_def) (simp_all add: params)
  ultimately have "fs_holds ?s []" using s(2) by (auto simp: fs_holds_def img_ok_def blocks_used_def fb params)
  then show ?thesis using s by (auto simp: wsect_fs params)
qed

text \<open>The root directory with the given names, and the files of the image.\<close>

definition root_dir :: "bytes list \<Rightarrow> bytes" where
  "root_dir ns = mk_dirent 1 (dir_name (cbytes ''.'')) @ mk_dirent 1 (dir_name (cbytes ''..''))
     @ concat (map (\<lambda>(k, n). mk_dirent (of_nat (k + 2)) (dir_name n)) (enumerate 0 ns))"

definition image_of :: "(bytes \<Rightarrow> bytes list option) \<Rightarrow> bytes list \<Rightarrow> files" where
  "image_of host args = (T_DIR, root_dir (map (the \<circ> shortname) args)) # map (\<lambda>a. (T_FILE, concat (the (host a)))) args"

lemma length_dirent [simp]: "length (mk_dirent i (dir_name n)) = 16"
  by (simp add: mk_dirent_def dir_name_def DIRSIZ_def)

lemma root_dir_snoc: "root_dir (ns @ [n]) = root_dir ns @ mk_dirent (of_nat (length ns + 2)) (dir_name n)"
  by (simp add: root_dir_def enumerate_append_eq)

lemma length_root_dir: "length (root_dir ns) = 16 * (length ns + 2)"
  by (induction ns rule: rev_induct) (simp_all add: root_dir_snoc, simp add: root_dir_def)

lemma blocks_used_append: "blocks_used (fs @ gs) = blocks_used fs + blocks_used gs"
  by (simp add: blocks_used_def)

lemma blocks_used_mono:
  "list_all2 (\<lambda>f g. length (snd f) \<le> length (snd g)) fs gs \<Longrightarrow> blocks_used fs \<le> blocks_used gs"
  by (induction rule: list_all2_induct) (auto simp: blocks_used_def intro!: add_mono all_blocks_mono nb_mono)

lemma image_of_mono: "blocks_used (image_of host as) \<le> blocks_used (image_of host (as @ bs))"
proof -
  have "blocks_used [(T_DIR, root_dir (map (the \<circ> shortname) as))] \<le> blocks_used [(T_DIR, root_dir (map (the \<circ> shortname) (as @ bs)))]"
    by (rule blocks_used_mono) (simp add: length_root_dir)
  then show ?thesis by (simp add: image_of_def blocks_used_def)
qed

text \<open>The reads of a file, one after the other.\<close>

lemma append_reads:
  assumes "fs_holds s (gs @ [(ty, c)])" "length (c @ concat reads) \<le> MAXFILE * BSIZE" "blocks_used (gs @ [(ty, c @ concat reads)]) \<le> nblocks"
  shows "\<exists>t. for_each reads (iappend (of_nat (length gs + 1))) s = Ok () t \<and> fs_holds t (gs @ [(ty, c @ concat reads)])"
  using assms
proof (induction reads arbitrary: c s)
  case (Cons r reads)
  have "blocks_used (gs @ [(ty, c @ r)]) \<le> blocks_used (gs @ [(ty, c @ concat (r # reads))])"
    by (rule blocks_used_mono) (auto intro!: list_all2_appendI list_all2_refl)
  then obtain t where t: "iappend (of_nat (length gs + 1)) r s = Ok () t" "fs_holds t (gs @ [(ty, c @ r)])"
    using iappend_holds [OF Cons.prems(1), of "length gs" ty c r] Cons.prems(2,3) by auto
  then show ?case using Cons.IH [OF t(2)] Cons.prems(2,3) by (simp add: thn_def bnd_def)
qed simp

lemma image_of_snoc:
  "image_of host (as @ [a]) = (image_of host as)[0 := (T_DIR, root_dir (map (the \<circ> shortname) as) @ mk_dirent (of_nat (length as + 2)) (dir_name (the (shortname a))))]
     @ [(T_FILE, concat (the (host a)))]"
  using root_dir_snoc [of "map (the \<circ> shortname) as"] by (simp add: image_of_def)

lemma mkfs_file_holds:
  assumes h: "fs_holds s (image_of host as)" and a: "shortname a = Some n" "host a = Some reads" and n: "length as + 2 < NINODES"
    and len: "length (concat reads) \<le> MAXFILE * BSIZE" and room: "blocks_used (image_of host (as @ [a])) \<le> nblocks"
  shows "\<exists>t. mkfs_file host ROOTINO a s = Ok () t \<and> fs_holds t (image_of host (as @ [a]))"
proof -
  let ?fs = "image_of host as" and ?r = "root_dir (map (the \<circ> shortname) as)" and ?e = "mk_dirent (of_nat (length as + 2)) (dir_name n)"
  let ?gs = "?fs[0 := (T_DIR, ?r @ ?e)]"
  have l: "length ?fs = length as + 1" "?fs ! 0 = (T_DIR, ?r)" by (simp_all add: image_of_def)
  have im: "image_of host (as @ [a]) = ?gs @ [(T_FILE, concat reads)]" using image_of_snoc [of host as a] a by simp
  obtain s1 where s1: "mk_ialloc T_FILE s = Ok (of_nat (length as + 2)) s1" "fs_holds s1 (?fs @ [(T_FILE, [])])"
    using ialloc_holds [OF h, of T_FILE] l(1) n by auto
  have "blocks_used (?gs @ [(T_FILE, [])]) \<le> blocks_used (?gs @ [(T_FILE, concat reads)])"
    by (rule blocks_used_mono) (auto intro!: list_all2_appendI list_all2_refl)
  then have "blocks_used ((?fs @ [(T_FILE, [])])[0 := (T_DIR, ?r @ ?e)]) \<le> nblocks" using room im by (simp add: image_of_def)
  then obtain s2 where s2: "iappend (of_nat (0 + 1)) ?e s1 = Ok () s2" "fs_holds s2 ((?fs @ [(T_FILE, [])])[0 := (T_DIR, ?r @ ?e)])"
    using iappend_holds [OF s1(2), of 0 T_DIR ?r ?e] n by (auto simp: image_of_def length_root_dir params)
  have g: "(?fs @ [(T_FILE, [])])[0 := (T_DIR, ?r @ ?e)] = ?gs @ [(T_FILE, [])]" by (simp add: image_of_def)
  obtain t where t: "for_each reads (iappend (of_nat (length ?gs + 1))) s2 = Ok () t" "fs_holds t (?gs @ [(T_FILE, concat reads)])"
    using append_reads [OF s2(2) [unfolded g], of reads] len room im by auto
  have "xshort (ucast (of_nat (length as + 2) :: uint32)) = (of_nat (length as + 2) :: uint16)"
    using n by (simp only: xshort_id unsigned_of_nat) (simp add: take_bit_nat_eq_self NINODES_def)
  then show ?thesis using s1(1) s2(1) t a l im by (auto simp: mkfs_file_def thn_def bnd_def ROOTINO_def)
qed

lemma mkfs_files_hold:
  assumes "fs_holds s (image_of host as)" "\<And>a. a \<in> set bs \<Longrightarrow> shortname a \<noteq> None \<and> host a \<noteq> None \<and> length (concat (the (host a))) \<le> MAXFILE * BSIZE"
    and "length as + length bs + 2 \<le> NINODES" "blocks_used (image_of host (as @ bs)) \<le> nblocks"
  shows "\<exists>t. for_each bs (mkfs_file host ROOTINO) s = Ok () t \<and> fs_holds t (image_of host (as @ bs))"
  using assms
proof (induction bs arbitrary: as s)
  case (Cons b bs)
  obtain n reads where b: "shortname b = Some n" "host b = Some reads" "length (concat reads) \<le> MAXFILE * BSIZE" 
    using Cons.prems(2) [of b] by (cases "shortname b"; cases "host b") auto
  have room: "blocks_used (image_of host (as @ [b])) \<le> nblocks" using image_of_mono [of host "as @ [b]" bs] Cons.prems(4) by simp
  obtain t where t: "mkfs_file host ROOTINO b s = Ok () t" "fs_holds t (image_of host (as @ [b]))"
    using mkfs_file_holds [OF Cons.prems(1) b(1,2) _ b(3) room] Cons.prems(3) by auto
  then show ?case using Cons.IH [OF t(2)] Cons.prems(2-4) by (simp add: thn_def bnd_def)
qed simp

text \<open>The size of the root directory is rounded up, and the bitmap is written.\<close>

definition finished :: "mkfsS \<Rightarrow> files \<Rightarrow> bool" where
  "finished t fs \<longleftrightarrow> get_sb (img t 1) = mkfs_sb \<and> img_ok t {..<length fs} (addrs_at t) (\<lambda>i. nb (length (snd (fs ! i))))
     \<and> file_bytes t (addrs_at t 0) (length (snd (fs ! 0))) = snd (fs ! 0) \<and> d_type (inode_at t 1) = fst (fs ! 0)
     \<and> unat (d_size (inode_at t 1)) = (length (snd (fs ! 0)) div BSIZE + 1) * BSIZE
     \<and> (\<forall>i<length fs. 0 < i \<longrightarrow> holds_file t i (fs ! i)) \<and> (\<forall>i<NINODES. length fs < i \<longrightarrow> d_type (inode_at t i) = 0)
     \<and> (\<forall>b<FSSIZE. img t (2 + nlog + ninodeblocks) ! (b div 8) AND bit_mask b \<noteq> 0 \<longleftrightarrow> b < nmeta + blocks_used fs)"

lemma finish_image:
  assumes h: "fs_holds s fs" and fs: "fs \<noteq> []" "length (snd (fs ! 0)) \<le> MAXFILE * BSIZE"
  defines "d \<equiv> (inode_at s 1)\<lparr>d_size := of_nat ((length (snd (fs ! 0)) div BSIZE + 1) * BSIZE)\<rparr>"
  shows "\<exists>t. mk_balloc (unat (freeblock s)) (set_inode 1 d s) = Ok () t \<and> finished t fs"
proof -
  note H = fs_holdsD [OF h]
  let ?n = "2 + nlog + ninodeblocks" and ?u = "unat (freeblock s)" and ?N = "\<lambda>i. nb (length (snd (fs ! i)))"
  define t where "t = (set_inode 1 d s)\<lparr>img := (img (set_inode 1 d s))(?n := bitmap_bytes ?u)\<rparr>"
  note B = blank_okD [OF img_okD(2) [OF H(5)]]
  have u: "?u \<le> FSSIZE" "?u = nmeta + blocks_used fs" using B(4) H(4) by simp_all
  have "wsect (sb_bmapstart mkfs_sb) (bitmap_bytes ?u) (set_inode 1 d s) = Ok () t"
    using wsect_fs [of "sb_bmapstart mkfs_sb" "set_inode 1 d s"] B(1) by (simp add: t_def mkfs_sb_def params)
  then have run: "mk_balloc ?u (set_inode 1 d s) = Ok () t" using u(1) H(1) by (simp add: mk_balloc_def params)
  have one: "(1::nat) < NINODES" by (simp add: params)
  have len0: "length (addrs_at s 0) = NDIRECT + 1" using wf_fileD(1) [OF img_okD(1) [OF H(5), of 0]] fs(1) by simp
  have "inode_at t j = inode_at (set_inode 1 d s) j" if "j < NINODES" for j
    using that by (simp add: inode_at_def t_def inode_blk_def params)
  then have at: "inode_at t j = (if j = 1 then d else inode_at s j)" if "j < NINODES" for j
    using inode_at_set [OF one that, of s d] holds_img(2) [OF h] inode_blk_less(2) [OF one] len0 that by (simp add: d_def addrs_at_def)
  have ad: "addrs_at t j = addrs_at s j" if "j < length fs" for j using at [of "j + 1"] H(3) that by (simp add: addrs_at_def d_def)
  have big: "img t b = img s b" if "nmeta \<le> b" for b
    using that img_set_inode(1) [OF one that] by (auto simp: t_def params)
  have meta_len: "length (img s b) = BSIZE" if "b < nmeta" for b using B(2) [of b] that by (simp add: params)
  have cong: "\<And>b. b < nmeta \<Longrightarrow> length (img t b) = BSIZE" "img_len t = img_len s" "freeblock t = freeblock s"
    using img_set_inode(2) [OF meta_len] by (auto simp: t_def)
  have blk: "fblocks t (addrs_at s j) (?N j) = fblocks s (addrs_at s j) (?N j)" if "j < length fs" for j
    using img_ok_cong(2) [OF H(5), of "addrs_at s" ?N t j] big cong that by auto
  have imgok: "img_ok t {..<length fs} (addrs_at t) ?N"
    by (rule img_ok_cong(1) [OF H(5)]) (use ad big cong in auto)
  have fb: "file_bytes t (addrs_at t j) (length (snd (fs ! j))) = snd (fs ! j)" if "j < length fs" for j
    using blk [OF that] ad [OF that] H(6) [OF that] by (simp add: holds_file_def file_bytes_def)
  have "holds_file t j (fs ! j)" if "j < length fs" "0 < j" for j
    using at [of "j + 1"] H(3) H(6) [OF that(1)] fb [OF that(1)] that by (auto simp: holds_file_def)
  moreover have "img t 1 = img s 1" by (simp add: t_def set_inode_def inode_blk_def params)
  moreover have "unat (of_nat ((length (snd (fs ! 0)) div BSIZE + 1) * BSIZE) :: uint32) = (length (snd (fs ! 0)) div BSIZE + 1) * BSIZE"
  proof (rule unat_of_nat_small)
    have "length (snd (fs ! 0)) div BSIZE * BSIZE \<le> length (snd (fs ! 0))" by simp
    then show "(length (snd (fs ! 0)) div BSIZE + 1) * BSIZE < 2 ^ LENGTH(32)" using fs(2) by (simp add: params)
  qed
  moreover have "img t ?n ! (b div 8) AND bit_mask b \<noteq> 0 \<longleftrightarrow> b < nmeta + blocks_used fs" if "b < FSSIZE" for b
    using bitmap_bit [of ?u b] that u by (simp add: t_def params)
  ultimately have "finished t fs"
    using at [OF one] H(6) [of 0] H(7,8) get_put_sb [of mkfs_sb] fb [of 0] fs(1) at imgok by (auto simp: finished_def d_def holds_file_def)
  then show ?thesis using run by blast
qed

lemma root_made:
  assumes h: "fs_holds s []"
  shows "\<exists>t u v. mk_ialloc T_DIR s = Ok ROOTINO t \<and> iappend ROOTINO (mk_dirent (xshort (ucast ROOTINO)) (dir_name (cbytes ''.''))) t = Ok () u
    \<and> iappend ROOTINO (mk_dirent (xshort (ucast ROOTINO)) (dir_name (cbytes ''..''))) u = Ok () v \<and> fs_holds v (image_of host [])"
proof -
  let ?d = "mk_dirent 1 (dir_name (cbytes ''.''))" and ?dd = "mk_dirent 1 (dir_name (cbytes ''..''))"
  have room: "blocks_used [(T_DIR, c)] \<le> nblocks" if "length c \<le> 32" for c
  proof -
    have "nb (length c) \<le> 1" using nb_mono [OF that] by (simp add: nb_def BSIZE_def)
    then show ?thesis by (simp add: blocks_used_def all_blocks_def params)
  qed
  obtain t where t: "mk_ialloc T_DIR s = Ok 1 t" "fs_holds t [(T_DIR, [])]" using ialloc_holds [OF h, of T_DIR] by (auto simp: params)
  obtain u where u: "iappend 1 ?d t = Ok () u" "fs_holds u [(T_DIR, ?d)]" using iappend_holds [OF t(2), of 0 T_DIR "[]" ?d] room [of ?d] by (auto simp: params)
  obtain v where v: "iappend 1 ?dd u = Ok () v" "fs_holds v [(T_DIR, ?d @ ?dd)]"
    using iappend_holds [OF u(2), of 0 T_DIR ?d ?dd] room [of "?d @ ?dd"] by (auto simp: params)
  then show ?thesis using t u by (auto simp: ROOTINO_def image_of_def root_dir_def)
qed

lemma mkfs_finished:
  assumes "\<And>a. a \<in> set args \<Longrightarrow> shortname a \<noteq> None \<and> host a \<noteq> None \<and> length (concat (the (host a))) \<le> MAXFILE * BSIZE"
    and "length args + 2 \<le> NINODES" "blocks_used (image_of host args) \<le> nblocks"
  shows "\<exists>t. mkfs_main True host (fsimg # args) mkfs_init = Ok () t \<and> finished t (image_of host args)"
proof -
  obtain s0 where s0: "thn (modify (\<lambda>s. s\<lparr>sb := mkfs_sb, freeblock := of_nat nmeta\<rparr>)) (for_each [0..<FSSIZE] (\<lambda>i. wsect (of_nat i) zeroes)) mkfs_init = Ok () s0"
    and w: "wsect 1 (put_sb zeroes mkfs_sb) s0 = Ok () (s0\<lparr>img := (img s0)(1 := put_sb zeroes mkfs_sb)\<rparr>)"
    and h0: "fs_holds (s0\<lparr>img := (img s0)(1 := put_sb zeroes mkfs_sb)\<rparr>) []" using blank_image by blast
  obtain t u v where r: "mk_ialloc T_DIR (s0\<lparr>img := (img s0)(1 := put_sb zeroes mkfs_sb)\<rparr>) = Ok ROOTINO t"
    "iappend ROOTINO (mk_dirent (xshort (ucast ROOTINO)) (dir_name (cbytes ''.''))) t = Ok () u"
    "iappend ROOTINO (mk_dirent (xshort (ucast ROOTINO)) (dir_name (cbytes ''..''))) u = Ok () v" "fs_holds v (image_of host [])"
    using root_made [OF h0, of host] by blast
  obtain x where x: "for_each args (mkfs_file host ROOTINO) v = Ok () x" "fs_holds x (image_of host args)"
    using mkfs_files_hold [OF r(4), of args] assms by auto
  have dir: "image_of host args \<noteq> []" "snd (image_of host args ! 0) = root_dir (map (the \<circ> shortname) args)" by (simp_all add: image_of_def)
  have len: "length (snd (image_of host args ! 0)) \<le> MAXFILE * BSIZE" using assms(2) unfolding dir(2) by (simp add: length_root_dir params)
  obtain y where y: "mk_balloc (unat (freeblock x)) (set_inode 1 ((inode_at x 1)\<lparr>d_size :=
      of_nat ((length (snd (image_of host args ! 0)) div BSIZE + 1) * BSIZE)\<rparr>) x) = Ok () y" "finished y (image_of host args)"
    using finish_image [OF x(2) dir(1) len] by blast
  note H = fs_holdsD [OF x(2)] and one = rinode_run [of 1 x] winode_run [of 1 x]
  have "unat (d_size (inode_at x 1)) = length (snd (image_of host args ! 0))" using H(6) [of 0] dir(1) by (simp add: holds_file_def)
  then have "mkfs_main True host (fsimg # args) mkfs_init = Ok () y"
    using s0 w r x(1) y(1) one H(1) holds_img(1) [OF x(2)] by (simp add: mkfs_main_def thn_def bnd_def Let_def ROOTINO_def params)
  then show ?thesis using y(2) by blast
qed

section \<open>Property\<close>

text \<open>
  C8. The image that \<^verbatim>\<open>mkfs\<close> builds: with names that have no slash, readable files that are not larger than the largest file, at most
  \<open>NINODES - 2\<close> of them, and blocks for all, the program ends without an error. Then the superblock of the image reads back; the blocks
  of the root directory hold the entries for \<open>.\<close>, \<open>..\<close> and each file, and its size is that rounded up to more than the entries; every
  file has an inode of its type, with one link, its length, and blocks of its own that hold exactly its bytes, read in the layout
  that the kernel uses; the remaining inodes are free; and the bitmap marks exactly the meta blocks and the blocks in use.
\<close>

theorem mkfs_builds_image:
  assumes "\<And>a. a \<in> set args \<Longrightarrow> shortname a \<noteq> None \<and> host a \<noteq> None \<and> length (concat (the (host a))) \<le> MAXFILE * BSIZE"
    and "length args + 2 \<le> NINODES" "blocks_used (image_of host args) \<le> nblocks"
  shows "\<exists>t. mkfs_main True host (fsimg # args) mkfs_init = Ok () t \<and> finished t (image_of host args)"
  using assms by (rule mkfs_finished)

theorem mkfs_builds_image_witness:
  "\<exists>t. mkfs_main True (\<lambda>_. Some [[1, 2], [3]]) [cbytes ''fs.img'', cbytes ''user/_a''] mkfs_init = Ok () t
     \<and> file_bytes t (addrs_at t 1) 3 = [1, 2, 3] \<and> get_sb (img t 1) = mkfs_sb"
proof -
  let ?h = "\<lambda>_::bytes. Some [[1, 2], [3]] :: bytes list option" and ?a = "cbytes ''user/_a''"
  have im: "image_of ?h [?a] = [(T_DIR, root_dir [cbytes ''a'']), (T_FILE, [1, 2, 3])]" "shortname ?a \<noteq> None"
    by (simp_all add: image_of_def shortname_def cbytes_def chr_def)
  have "blocks_used (image_of ?h [?a]) \<le> nblocks"
    unfolding im by (simp add: blocks_used_def length_root_dir nb_def all_blocks_def params)
  then have "\<exists>t. mkfs_main True ?h (cbytes ''fs.img'' # [?a]) mkfs_init = Ok () t \<and> finished t (image_of ?h [?a])"
    by (intro mkfs_builds_image) (use im(2) in \<open>auto simp: params\<close>)
  then obtain t where t: "mkfs_main True ?h (cbytes ''fs.img'' # [?a]) mkfs_init = Ok () t" "finished t (image_of ?h [?a])" by blast
  have "holds_file t 1 (image_of ?h [?a] ! 1)" "get_sb (img t 1) = mkfs_sb" using t(2) unfolding finished_def by (simp_all add: im(1))
  then show ?thesis using t(1) by (auto simp: im(1) holds_file_def numeral_3_eq_3)
qed

end
