(* ===== verification/FsRead.thy ===== *)
theory FsRead
  imports BioInv MkfsInv
begin

text \<open>
  Reading a file through the buffer cache: what \<^verbatim>\<open>bmap\<close> and \<^verbatim>\<open>readi\<close> of kernel/fs.c deliver for a file whose blocks are allocated,
  in terms of the content that the cache shows for the blocks, and the composition with \<^verbatim>\<open>mkfs\<close>: the kernel reads from an image
  exactly the bytes of the files that the image was built from.
\<close>

section \<open>The content of a file\<close>

text \<open>
  The block that \<^verbatim>\<open>bmap\<close> finds for the \<open>b\<close>th block of a file, the content of a file of \<open>n\<close> blocks, and that all of them are
  allocated; \<open>v\<close> gives the content of a block of the disk.
\<close>

definition fblk :: "(uint32 \<Rightarrow> bytes) \<Rightarrow> uint32 list \<Rightarrow> nat \<Rightarrow> uint32" where
  "fblk v a b = (if b < NDIRECT then a ! b else get32 (v (a ! NDIRECT)) (4 * (b - NDIRECT)))"

definition fcontent :: "(uint32 \<Rightarrow> bytes) \<Rightarrow> uint32 list \<Rightarrow> nat \<Rightarrow> bytes" where
  "fcontent v a n = concat (map (\<lambda>b. v (fblk v a b)) [0..<n])"

definition allocated :: "(uint32 \<Rightarrow> bytes) \<Rightarrow> uint32 list \<Rightarrow> nat \<Rightarrow> bool" where
  "allocated v a n \<longleftrightarrow> n \<le> MAXFILE \<and> (\<forall>b<n. fblk v a b \<noteq> 0 \<and> length (v (fblk v a b)) = BSIZE) \<and> (NDIRECT < n \<longrightarrow> a ! NDIRECT \<noteq> 0)"

text \<open>The cache is ready for a block to be read, and the same after a block has been read and released.\<close>

definition cache_ready :: "uint32 \<Rightarrow> nat \<Rightarrow> 'x bioS_scheme \<Rightarrow> bool" where
  "cache_ready D p s \<longleftrightarrow> bc_inv D p {} s \<and> (\<forall>b. brefs D s b < 2 ^ 31) \<and> 0 < card (bfrees s)"

definition same_cache :: "uint32 \<Rightarrow> nat \<Rightarrow> 'x bioS_scheme \<Rightarrow> 'x bioS_scheme \<Rightarrow> bool" where
  "same_cache D p s t \<longleftrightarrow> bc_inv D p {} t \<and> bview D t = bview D s \<and> brefs D t = brefs D s \<and> card (bfrees t) = card (bfrees s)
     \<and> disk t = disk s \<and> dwrites t = dwrites s \<and> bioS.more t = bioS.more s"

lemma same_cache_refl: "cache_ready D p s \<Longrightarrow> same_cache D p s s"
  by (simp add: same_cache_def cache_ready_def)

lemma same_cache_trans: "same_cache D p s t \<Longrightarrow> same_cache D p t u \<Longrightarrow> same_cache D p s u"
  by (simp add: same_cache_def)

lemma same_cache_ready: "cache_ready D p s \<Longrightarrow> same_cache D p s t \<Longrightarrow> cache_ready D p t"
  by (simp add: same_cache_def cache_ready_def)

lemma fs_more: "bioS.more t = bioS.more s \<Longrightarrow> itable t = itable s \<and> fsb t = fsb s" for s t :: "'x fsS_scheme"
  by (cases s; cases t) simp

lemma same_itable: "same_cache D p s t \<Longrightarrow> itable t = itable s" for s t :: "'x fsS_scheme"
  using fs_more by (auto simp: same_cache_def)

text \<open>Reading a block and releasing it.\<close>

lemma peek_block:
  fixes s :: "'x fsS_scheme"
  assumes "cache_ready D p s"
  obtains i t u where "bread D a s = Ok i t" "b_data (bufs t i) = bview D s a" "itable t = itable s" "cur t = Some p" "brelse i t = Ok () u" "same_cache D p s u"
proof -
  have inv: "bc_inv D p {} s" "brefs D s a < 2 ^ 31" "0 < card (bfrees s)" using assms by (auto simp: cache_ready_def)
  obtain i t where t: "bread D a s = Ok i t" "bc.editing D p a i (bview D s a) s t" using bc.edit_start [OF inv] by metis
  obtain u where u: "brelse i t = Ok () u" "bc_inv D p {} u" "bview D u = bview D s" "brefs D u = brefs D s" "card (bfrees u) = card (bfrees s)"
    "disk u = disk s" "dwrites u = dwrites s" "bioS.more u = bioS.more s" using bc.edit_abandon [OF inv(1) t(2)] by metis
  have "b_data (bufs t i) = bview D s a" using bc.edit_get [OF t(2)] by (simp add: get_buf_def)
  moreover have "itable t = itable s" using fs_more bc.edit_rest [OF t(2)] by blast
  moreover have "cur t = Some p" using t(2) bc_invD(1) by (auto simp: bc.editing_def running_def)
  ultimately show ?thesis using that t(1) u by (auto simp: same_cache_def)
qed

lemma bmap_present:
  fixes s :: "'x fsS_scheme"
  assumes r: "cache_ready D p s" and ip: "i_dev (itable s ip) = D" "d_addrs (i_d (itable s ip)) = a"
    and al: "allocated (bview D s) a n" "unat bn < n"
  shows "\<exists>t. bmap ip bn s = Ok (fblk (bview D s) a (unat bn)) t \<and> same_cache D p s t"
proof (cases "unat bn < NDIRECT")
  case True
  then have "a ! unat bn \<noteq> 0" using al by (auto simp: allocated_def fblk_def)
  then show ?thesis using True same_cache_refl [OF r] ip by (auto simp: bmap_def get_inode_def get_di_def fblk_def)
next
  case False
  then have nz: "fblk (bview D s) a (unat bn) \<noteq> 0" "a ! NDIRECT \<noteq> 0" "unat bn - NDIRECT < NINDIRECT" using al by (auto simp: allocated_def MAXFILE_def)
  obtain i t u where t: "bread D (a ! NDIRECT) s = Ok i t" "b_data (bufs t i) = bview D s (a ! NDIRECT)" "brelse i t = Ok () u" "same_cache D p s u"
    using peek_block [OF r, of "a ! NDIRECT"] by metis
  have "fblk (bview D s) a (unat bn) = get32 (b_data (bufs t i)) (4 * (unat bn - NDIRECT))" using False t(2) by (simp add: fblk_def)
  then show ?thesis using False nz ip t(1,3,4) by (auto simp: bmap_def get_inode_def get_di_def get_buf_def bnd_def thn_def Let_def)
qed

subsection \<open>Slices of a file\<close>

lemma concat_slice:
  assumes "\<And>d. d \<in> set bs \<Longrightarrow> length d = B" "k < length bs" "o' + m \<le> B"
  shows "take m (drop (k * B + o') (concat bs)) = take m (drop o' (bs ! k))"
proof -
  have "concat bs = concat (take k bs) @ bs ! k @ concat (drop (Suc k) bs)"
    by (metis assms(2) concat.simps(2) concat_append id_take_nth_drop)
  moreover have "length (concat (take k bs)) = k * B"
    using length_concat_same [of "take k bs" B] assms(2) assms(1) [OF in_set_takeD] by (simp add: min_def)
  moreover have "length (bs ! k) = B" using assms(1,2) by simp
  ultimately show ?thesis using assms(3) by simp
qed

lemma fcontent_slice:
  assumes "allocated v a n" "unat off div BSIZE < n" "m \<le> BSIZE - unat off mod BSIZE"
  shows "take m (drop (unat off mod BSIZE) (v (fblk v a (unat off div BSIZE)))) = take m (drop (unat off) (fcontent v a n))"
proof -
  let ?bs = "map (\<lambda>b. v (fblk v a b)) [0..<n]"
  have "unat off mod BSIZE < BSIZE" by (simp add: BSIZE_def)
  then have "take m (drop (unat off div BSIZE * BSIZE + unat off mod BSIZE) (concat ?bs)) = take m (drop (unat off mod BSIZE) (?bs ! (unat off div BSIZE)))"
    using assms by (intro concat_slice) (auto simp: allocated_def)
  then show ?thesis using assms(2) by (simp add: fcontent_def)
qed

lemma unat_chunk: "tot < n \<Longrightarrow> unat (chunk off tot n) = min (unat n - unat tot) (BSIZE - unat off mod BSIZE)"
proof -
  assume "tot < n"
  then have 1: "unat (n - tot) = unat n - unat tot" by (simp add: unat_sub_if' word_less_nat_alt)
  have "unat (off mod 1024) = unat off mod 1024" by (simp add: unat_mod)
  moreover from this have "unat (off mod 1024) < 1024" by simp
  ultimately have 2: "unat (1024 - off mod 1024) = 1024 - unat off mod 1024" by (simp add: unat_sub_if')
  show ?thesis using 1 2 by (simp add: chunk_def BSIZE_def min_def word_le_nat_alt)
qed

section \<open>readi\<close>

lemma readi_loop_run:
  fixes s :: "'x fsS_scheme"
  assumes "cache_ready D p s" "i_dev (itable s ip) = D" "d_addrs (i_d (itable s ip)) = a" "allocated (bview D s) a n"
    and "tot \<le> m" "unat off + (unat m - unat tot) \<le> n * BSIZE"
  shows "\<exists>t. readi_loop ip None off tot m s = Ok (m, take (unat m - unat tot) (drop (unat off) (fcontent (bview D s) a n))) t \<and> same_cache D p s t"
  using assms
proof (induction "unat m - unat tot" arbitrary: off tot s rule: less_induct)
  case less
  show ?case
  proof (cases "tot < m")
    case False
    then have "tot = m" using less.prems(5) by simp
    then show ?thesis using same_cache_refl [OF less.prems(1)] by (simp add: readi_loop.simps [of ip None off m m])
  next
    case True
    let ?v = "bview D s" and ?k = "unat off div BSIZE"
    define c where "c = chunk off tot m"
    note B = less.prems
    have lt: "unat tot < unat m" using True by (simp add: word_less_nat_alt)
    have c: "0 < unat c" "unat c \<le> unat m - unat tot" "unat c \<le> BSIZE - unat off mod BSIZE"
      using chunk_pos [OF True, of off] unat_chunk [OF True, of off] by (auto simp: c_def)
    have tot': "unat (tot + c) = unat tot + unat c" using chunk_add [OF True] by (simp add: c_def)
    have nb: "n * BSIZE < 2 ^ 32" using B(4) by (simp add: allocated_def params)
    have off': "unat (off + c) = unat off + unat c" using B(6) c nb lt by (intro unat_add_small) simp
    have k: "?k < n" using B(6) lt by (simp add: div_less_iff_less_mult BSIZE_def)
    have bn: "unat (off div of_nat BSIZE) = ?k" by (simp add: unat_div BSIZE_def)
    obtain s1 where s1: "bmap ip (off div of_nat BSIZE) s = Ok (fblk ?v a ?k) s1" "same_cache D p s s1"
      using bmap_present [OF B(1-4), of "off div of_nat BSIZE"] k bn by auto
    have i1: "itable s1 = itable s" "bview D s1 = ?v" using s1(2) same_itable by (auto simp: same_cache_def)
    obtain i t u where t: "bread D (fblk ?v a ?k) s1 = Ok i t" "b_data (bufs t i) = ?v (fblk ?v a ?k)" "cur t = Some p" "brelse i t = Ok () u" "same_cache D p s1 u"
      using peek_block [OF same_cache_ready [OF B(1) s1(2)], of "fblk ?v a ?k"] i1(2) by metis
    have su: "same_cache D p s u" using same_cache_trans [OF s1(2) t(5)] .
    have iu: "itable u = itable s" "bview D u = ?v" using su same_itable by (auto simp: same_cache_def)
    have "\<exists>w. readi_loop ip None (off + c) (tot + c) m u = Ok (m, take (unat m - unat (tot + c)) (drop (unat (off + c)) (fcontent (bview D u) a n))) w \<and> same_cache D p u w"
      using same_cache_ready [OF B(1) su] B(2-6) iu lt c tot' off' by (intro less.hyps) (auto simp: word_le_nat_alt)
    then obtain w where w: "readi_loop ip None (off + c) (tot + c) m u = Ok (m, take (unat m - unat (tot + c)) (drop (unat (off + c)) (fcontent ?v a n))) w" "same_cache D p u w"
      unfolding iu(2) by blast
    have nz: "fblk ?v a ?k \<noteq> 0" using B(4) k by (simp add: allocated_def)
    have "readi_loop ip None off tot m s = Ok (m, take (unat c) (drop (unat off mod BSIZE) (?v (fblk ?v a ?k)))
        @ take (unat m - unat (tot + c)) (drop (unat (off + c)) (fcontent ?v a n))) w"
      using True s1(1) nz t(1-4) w(1) B(2) i1(1)
      by (subst readi_loop.simps) (simp add: bnd_def thn_def get_inode_def get_buf_def either_copyout_def myproc_def dst_plus_def Let_def c_def)
    moreover have e: "unat c + (unat m - unat (tot + c)) = unat m - unat tot" using tot' c(2) lt by simp
    have "take (unat c) (drop (unat off mod BSIZE) (?v (fblk ?v a ?k))) @ take (unat m - unat (tot + c)) (drop (unat (off + c)) (fcontent ?v a n))
        = take (unat m - unat tot) (drop (unat off) (fcontent ?v a n))"
      using fcontent_slice [OF B(4) k c(3)] take_add [of "unat c" "unat m - unat (tot + c)" "drop (unat off) (fcontent ?v a n)"] off'
      unfolding e by (simp add: add.commute)
    ultimately show ?thesis using same_cache_trans [OF su w(2)] by simp
  qed
qed

text \<open>What \<^verbatim>\<open>readi\<close> delivers to a kernel buffer: the bytes of the file from \<open>off\<close> on, at most \<open>n\<close> of them.\<close>

definition file_data :: "uint32 \<Rightarrow> 'x fsS_scheme \<Rightarrow> dinode \<Rightarrow> bytes" where
  "file_data D s d = take (unat (d_size d)) (fcontent (bview D s) (d_addrs d) (nb (unat (d_size d))))"

definition read_range :: "bytes \<Rightarrow> uint32 \<Rightarrow> uint32 \<Rightarrow> bytes" where
  "read_range c off n = (if unat off + unat n < 2 ^ 32 then take (unat n) (drop (unat off) c) else [])"

lemma wraps_iff: "off + n < off \<longleftrightarrow> \<not> unat off + unat n < 2 ^ 32" for off n :: uint32
proof -
  have "unat (off + n) = (unat off + unat n) mod 2 ^ 32" by (simp add: unat_word_ariths)
  then show ?thesis using unat_lt_32 [of off] unat_lt_32 [of n] by (auto simp: word_less_nat_alt mod_if)
qed

lemma nb_covers: "n \<le> nb n * BSIZE"
  using nb_alt [of n] div_mult_mod_eq [of n BSIZE] by (cases "n mod BSIZE = 0") (auto simp: BSIZE_def)

lemma length_fcontent: "allocated v a n \<Longrightarrow> length (fcontent v a n) = n * BSIZE"
  unfolding fcontent_def by (subst length_concat_same [of _ BSIZE]) (auto simp: allocated_def)

lemma readi_run:
  fixes s :: "'x fsS_scheme"
  assumes r: "cache_ready D p s" and ip: "i_dev (itable s ip) = D" "i_d (itable s ip) = d" and al: "allocated (bview D s) (d_addrs d) (nb (unat (d_size d)))"
  shows "\<exists>t. readi ip None off n s = Ok (of_nat (length (read_range (file_data D s d) off n)), read_range (file_data D s d) off n) t \<and> same_cache D p s t"
proof -
  let ?z = "unat (d_size d)" and ?C = "fcontent (bview D s) (d_addrs d) (nb (unat (d_size d)))"
  have len: "length (file_data D s d) = ?z" using length_fcontent [OF al] nb_covers [of ?z] by (simp add: file_data_def)
  show ?thesis
  proof (cases "off > d_size d \<or> off + n < off")
    case True
    then have "?z < unat off \<or> \<not> unat off + unat n < 2 ^ 32" by (simp only: wraps_iff) (simp add: word_less_nat_alt)
    then have "read_range (file_data D s d) off n = []" using len by (auto simp: read_range_def)
    then show ?thesis using True ip same_cache_refl [OF r] by (auto simp: readi_def get_di_def get_inode_def)
  next
    case False
    define m where "m = (if off + n > d_size d then d_size d - off else n)"
    have le: "unat off \<le> ?z" "unat off + unat n < 2 ^ 32" using False unfolding wraps_iff by (simp_all add: word_less_nat_alt not_less)
    then have sum: "unat (off + n) = unat off + unat n" by (intro unat_add_small) simp
    have m: "unat m = min (unat n) (?z - unat off)"
      using le sum by (auto simp: m_def word_less_nat_alt word_le_nat_alt unat_sub_if' min_def)
    have fit: "unat off + (unat m - unat (0 :: uint32)) \<le> nb ?z * BSIZE" "d_addrs (i_d (itable s ip)) = d_addrs d" using m le(1) nb_covers [of ?z] ip(2) by auto
    obtain t where t: "readi_loop ip None off 0 m s = Ok (m, take (unat m) (drop (unat off) ?C)) t" "same_cache D p s t"
      using readi_loop_run [OF r ip(1) fit(2) al _ fit(1)] by auto
    have "take (unat m) (drop (unat off) ?C) = read_range (file_data D s d) off n"
      using m le by (simp add: read_range_def file_data_def drop_take min.commute)
    moreover have "length (read_range (file_data D s d) off n) = unat m" using m le len by (simp add: read_range_def)
    ultimately show ?thesis using False ip t by (auto simp: readi_def get_di_def get_inode_def m_def)
  qed
qed

section \<open>The kernel reads what mkfs has written\<close>

lemma image_content:
  assumes ok: "img_ok t I A N" "i \<in> I" and v: "\<And>b. b < FSSIZE \<Longrightarrow> v (of_nat b) = img t b"
  shows "allocated v (A i) (N i)" "fcontent v (A i) (N i) = concat (fblocks t (A i) (N i))"
proof -
  note W = wf_fileD [OF img_okD(1) [OF ok]] and B = blank_okD [OF img_okD(2) [OF ok(1)]]
  have vi: "v x = img t (unat x)" if "unat x < FSSIZE" for x using v [OF that] by simp
  have sl: "unat (fblk v (A i) b) = fslot t (A i) b" if "b < N i" for b
    using W(4) B(4) vi [of "A i ! NDIRECT"] that by (auto simp: fblk_def fslot_def)
  have rng: "nmeta \<le> fslot t (A i) b" "fslot t (A i) b < FSSIZE" if "b < N i" for b using W(3) [OF that] B(4) by auto
  have bl: "v (fblk v (A i) b) = img t (fslot t (A i) b)" if "b < N i" for b using vi [of "fblk v (A i) b"] sl [OF that] rng(2) [OF that] by simp
  show "fcontent v (A i) (N i) = concat (fblocks t (A i) (N i))"
    unfolding fcontent_def fblocks_def by (rule arg_cong [where f = concat]) (use bl in auto)
  have "fblk v (A i) b \<noteq> 0" if "b < N i" for b using sl [OF that] rng(1) [OF that] by (auto simp: params)
  moreover have "A i ! NDIRECT \<noteq> 0" if "NDIRECT < N i" using W(4) [OF that] by (auto simp: params)
  ultimately show "allocated v (A i) (N i)" using W(2) bl B(2) rng(2) by (auto simp: allocated_def)
qed

text \<open>
  C9. The file system that \<^verbatim>\<open>mkfs\<close> writes is the one that the kernel reads: let \<^verbatim>\<open>mkfs\<close> have built an image from host files, and let
  a kernel whose cache has a buffer to spare see the blocks of that image. Then \<^verbatim>\<open>readi\<close> on the inode of the \<open>k\<close>th file, for any
  offset and count, ends without a panic or a fault and delivers exactly the bytes of the host file in that range, cut at the end of
  the file (and nothing when offset and count overflow 32 bits); it returns their number, and leaves the disk, the content of every
  block and the references of the cache as they were.
\<close>

theorem kernel_reads_image:
  fixes s :: "'x fsS_scheme"
  assumes "\<And>a. a \<in> set args \<Longrightarrow> shortname a \<noteq> None \<and> host a \<noteq> None \<and> length (concat (the (host a))) \<le> MAXFILE * BSIZE"
    and "length args + 2 \<le> NINODES" "blocks_used (image_of host args) \<le> nblocks" and t: "mkfs_main True host (fsimg # args) mkfs_init = Ok () t"
    and s: "cache_ready D p s" "\<And>b. b < FSSIZE \<Longrightarrow> bview D s (of_nat b) = img t b"
    and k: "k < length args" "i_dev (itable s ip) = D" "i_d (itable s ip) = inode_at t (k + 2)"
  shows "\<exists>u. readi ip None off n s = Ok (of_nat (length (read_range (concat (the (host (args ! k)))) off n)), read_range (concat (the (host (args ! k)))) off n) u \<and> same_cache D p s u"
proof -
  let ?fs = "image_of host args" and ?c = "concat (the (host (args ! k)))"
  have fin: "finished t ?fs" using mkfs_finished [OF assms(1-3), of fsimg] t by auto
  have nth: "?fs ! (k + 1) = (T_FILE, ?c)" "k + 1 < length ?fs" using k(1) by (simp_all add: image_of_def)
  have ok: "img_ok t {..<length ?fs} (addrs_at t) (\<lambda>i. nb (length (snd (?fs ! i))))" and hf: "holds_file t (k + 1) (T_FILE, ?c)"
    using fin nth by (auto simp: finished_def)
  have sz: "unat (d_size (inode_at t (k + 2))) = length ?c" "file_bytes t (addrs_at t (k + 1)) (length ?c) = ?c" "d_addrs (inode_at t (k + 2)) = addrs_at t (k + 1)"
    using hf by (simp_all add: holds_file_def addrs_at_def)
  have C: "allocated (bview D s) (addrs_at t (k + 1)) (nb (length ?c))" "fcontent (bview D s) (addrs_at t (k + 1)) (nb (length ?c)) = concat (fblocks t (addrs_at t (k + 1)) (nb (length ?c)))"
    using image_content [OF ok _ s(2), of "k + 1"] nth by auto
  have "file_data D s (inode_at t (k + 2)) = ?c" using sz C(2) by (simp add: file_data_def file_bytes_def)
  moreover have "allocated (bview D s) (d_addrs (inode_at t (k + 2))) (nb (unat (d_size (inode_at t (k + 2)))))" using C(1) sz by simp
  ultimately show ?thesis using readi_run [OF s(1) k(2,3), of off n] by simp
qed

lemma wit_ready:
  "cache_ready 1 1 (wit_fileS\<lparr>disk := d, itable := it\<rparr>)" "bview 1 (wit_fileS\<lparr>disk := d, itable := it\<rparr>) = d"
proof -
  let ?s = "wit_fileS\<lparr>disk := d, itable := it\<rparr>"
  have b: "bufs ?s i = wit_buf" "lru ?s = [0..<NBUF]" "slocks ?s l = unlocked" "bfrees ?s = {..<NBUF}" "disk ?s = d" for i l
    by (simp_all add: wit_fileS_def bfrees_def wit_buf_def lessThan_def)
  have h: "\<not> holds 1 n wit_buf" for n by (simp add: holds_def wit_buf_def)
  have c: "cached 1 ?s x = None" for x unfolding cached_None b using h by blast
  have "bc_inv 1 1 {} ?s"
    unfolding bc_inv_def b by (intro conjI allI impI ballI) (simp_all add: running_def holds_def wit_buf_def atLeast0LessThan)
  moreover have "brefs 1 ?s x = 0" for x using c by (simp add: brefs_def)
  ultimately show "cache_ready 1 1 ?s" unfolding cache_ready_def b by simp
  show "bview 1 ?s = d" by (rule ext) (simp add: bview_def c b)
qed

theorem kernel_reads_image_witness:
  "\<exists>t (s :: fileS) u. mkfs_main True (\<lambda>_. Some [[1, 2], [3]]) [cbytes ''fs.img'', cbytes ''user/_a''] mkfs_init = Ok () t
     \<and> (\<forall>b<FSSIZE. disk s (of_nat b) = img t b) \<and> i_d (itable s 0) = inode_at t 2 \<and> readi 0 None 1 5 s = Ok (2, [2, 3]) u"
proof -
  let ?h = "\<lambda>_::bytes. Some [[1, 2], [3]] :: bytes list option" and ?a = "cbytes ''user/_a''" and ?f = "cbytes ''fs.img''"
  have im: "image_of ?h [?a] = [(T_DIR, root_dir [cbytes ''a'']), (T_FILE, [1, 2, 3])]" "shortname ?a \<noteq> None"
    by (simp_all add: image_of_def shortname_def cbytes_def chr_def)
  have ok: "\<And>a. a \<in> set [?a] \<Longrightarrow> shortname a \<noteq> None \<and> ?h a \<noteq> None \<and> length (concat (the (?h a))) \<le> MAXFILE * BSIZE" "length [?a] + 2 \<le> NINODES"
    using im(2) by (auto simp: params)
  have used: "blocks_used (image_of ?h [?a]) \<le> nblocks"
    unfolding im by (simp add: blocks_used_def length_root_dir nb_def all_blocks_def params)
  obtain t where t: "mkfs_main True ?h (?f # [?a]) mkfs_init = Ok () t" using mkfs_finished [OF ok used, of ?f] by blast
  define it where "it = (\<lambda>_::nat. (itable wit_fileS 0)\<lparr>i_dev := 1, i_d := inode_at t 2\<rparr>)"
  define s where "s = wit_fileS\<lparr>disk := \<lambda>b. img t (unat b), itable := it\<rparr>"
  have s: "cache_ready 1 1 s" "bview 1 s = (\<lambda>b. img t (unat b))" using wit_ready by (simp_all add: s_def)
  have un: "unat (of_nat b :: uint32) = b" if "b < FSSIZE" for b using that by (simp add: unat_of_nat params)
  have i: "i_dev (itable s 0) = 1" "i_d (itable s 0) = inode_at t (0 + 2)" by (simp_all add: s_def it_def numeral_2_eq_2)
  have "\<exists>u. readi 0 None 1 5 s = Ok (of_nat (length (read_range (concat (the (?h ([?a] ! 0)))) 1 5)), read_range (concat (the (?h ([?a] ! 0)))) 1 5) u \<and> same_cache 1 1 s u"
    by (rule kernel_reads_image [OF ok used t s(1) _ _ i]) (simp_all add: s(2) un)
  moreover have "read_range [1, 2, 3] 1 5 = [2, 3]" by (simp add: read_range_def)
  moreover have "\<forall>b<FSSIZE. disk s (of_nat b) = img t b" by (simp add: s_def un)
  ultimately show ?thesis using t i(2) by (auto simp: numeral_2_eq_2)
qed

end
