(* ===== verification/Umalloc.thy ===== *)
theory Umalloc
  imports Prelude
begin

text \<open>
  \<^verbatim>\<open>user/umalloc.c\<close>: the memory allocator of the user programs. The state has the headers in memory, by address (a pointer to the
  next free block and a size in units of a header, 16 bytes), the static variable \<^verbatim>\<open>freep\<close>, and the break of the process. The address
  of the static header \<^verbatim>\<open>base\<close> is a parameter. \<^verbatim>\<open>sbrk\<close> gives back the old break and moves it, or \<open>-1\<close> when the kernel refuses, which is
  the parameter \<open>grants\<close>. A loop that does not end is \<^const>\<open>None\<close>.
\<close>

record umS =
  s_ptr :: "uint64 \<Rightarrow> uint64"
  s_size :: "uint64 \<Rightarrow> uint32"
  freep :: uint64
  brk :: uint64

text \<open>Pointer arithmetic on headers.\<close>

definition hplus :: "uint64 \<Rightarrow> uint32 \<Rightarrow> uint64" where
  "hplus p n = p + 16 * ucast n"

section \<open>free\<close>

partial_function (option) free_find :: "umS \<Rightarrow> uint64 \<Rightarrow> uint64 \<Rightarrow> uint64 option" where
  "free_find s bp p =
     (if bp > p \<and> bp < s_ptr s p then Some p
      else if p \<ge> s_ptr s p \<and> (bp > p \<or> bp < s_ptr s p) then Some p
      else free_find s bp (s_ptr s p))"

definition free_join :: "uint64 \<Rightarrow> uint64 \<Rightarrow> umS \<Rightarrow> umS" where
  "free_join bp p s =
     (let s1 = (if hplus bp (s_size s bp) = s_ptr s p then
                  s\<lparr>s_size := (s_size s)(bp := s_size s bp + s_size s (s_ptr s p)), s_ptr := (s_ptr s)(bp := s_ptr s (s_ptr s p))\<rparr>
                else s\<lparr>s_ptr := (s_ptr s)(bp := s_ptr s p)\<rparr>);
          s2 = (if hplus p (s_size s1 p) = bp then
                  s1\<lparr>s_size := (s_size s1)(p := s_size s1 p + s_size s1 bp), s_ptr := (s_ptr s1)(p := s_ptr s1 bp)\<rparr>
                else s1\<lparr>s_ptr := (s_ptr s1)(p := bp)\<rparr>)
      in s2\<lparr>freep := p\<rparr>)"

definition um_free :: "uint64 \<Rightarrow> umS \<Rightarrow> umS option" where
  "um_free ap s = (let bp = ap - 16 in map_option (\<lambda>p. free_join bp p s) (free_find s bp (freep s)))"

section \<open>malloc\<close>

text \<open>The argument of \<^verbatim>\<open>sbrk\<close> is an \<^verbatim>\<open>int\<close>.\<close>

definition sbrk :: "(uint64 \<Rightarrow> int \<Rightarrow> bool) \<Rightarrow> cint \<Rightarrow> umS \<Rightarrow> uint64 \<times> umS" where
  "sbrk grants n s = (if grants (brk s) (sint n) then (brk s, s\<lparr>brk := brk s + of_int (sint n)\<rparr>) else (- 1, s))"

definition morecore :: "(uint64 \<Rightarrow> int \<Rightarrow> bool) \<Rightarrow> uint32 \<Rightarrow> umS \<Rightarrow> (uint64 \<times> umS) option" where
  "morecore grants nu s =
     (let nu = (if nu < 4096 then 4096 else nu); (p, s1) = sbrk grants (nu * 16) s in
      if p = - 1 then Some (0, s1)
      else map_option (\<lambda>s2. (freep s2, s2)) (um_free (p + 16) (s1\<lparr>s_size := (s_size s1)(p := nu)\<rparr>)))"

text \<open>Taking \<open>n\<close> units out of the free block \<open>p\<close>, whose predecessor is \<open>prevp\<close>: all of it, or its tail.\<close>

definition take_units :: "uint32 \<Rightarrow> uint64 \<Rightarrow> uint64 \<Rightarrow> umS \<Rightarrow> uint64 \<times> umS" where
  "take_units n prevp p s =
     (if s_size s p = n then (p + 16, s\<lparr>s_ptr := (s_ptr s)(prevp := s_ptr s p), freep := prevp\<rparr>)
      else
        let s1 = s\<lparr>s_size := (s_size s)(p := s_size s p - n)\<rparr>; q = hplus p (s_size s1 p) in
        (q + 16, s1\<lparr>s_size := (s_size s1)(q := n), freep := prevp\<rparr>))"

partial_function (option) malloc_loop :: "(uint64 \<Rightarrow> int \<Rightarrow> bool) \<Rightarrow> uint32 \<Rightarrow> uint64 \<Rightarrow> uint64 \<Rightarrow> umS \<Rightarrow> (uint64 \<times> umS) option" where
  "malloc_loop grants n prevp p s =
     (if s_size s p \<ge> n then Some (take_units n prevp p s)
      else if p = freep s then
        (case morecore grants n s of None \<Rightarrow> None
         | Some (p, s) \<Rightarrow> if p = 0 then Some (0, s) else malloc_loop grants n p (s_ptr s p) s)
      else malloc_loop grants n p (s_ptr s p) s)"

declare free_find.simps [code] malloc_loop.simps [code]

definition nunits :: "uint32 \<Rightarrow> uint32" where
  "nunits nbytes = of_nat ((unat nbytes + 16 - 1) div 16 + 1)"

definition um_malloc :: "(uint64 \<Rightarrow> int \<Rightarrow> bool) \<Rightarrow> uint64 \<Rightarrow> uint32 \<Rightarrow> umS \<Rightarrow> (uint64 \<times> umS) option" where
  "um_malloc grants base nbytes s =
     (let s1 = (if freep s = 0 then s\<lparr>s_ptr := (s_ptr s)(base := base), freep := base, s_size := (s_size s)(base := 0)\<rparr> else s);
          prevp = freep s1 in
      malloc_loop grants (nunits nbytes) prevp (s_ptr s1 prevp) s1)"

end
