(* ===== verification/UmallocInv.thy ===== *)
theory UmallocInv
  imports Umalloc
begin

text \<open>
  The allocator of \<^verbatim>\<open>user/umalloc.c\<close> keeps its circular free list sorted and free of adjacent blocks, \<^verbatim>\<open>free\<close> finds the place of a block
  and joins it with its neighbours, the search of \<^verbatim>\<open>malloc\<close> ends after at most two rounds, and blocks in use never overlap each
  other or the free bytes. Addresses are compared as numbers; a heap below \<open>2 ^ 36\<close> bytes keeps the 32-bit sizes from overflowing.
\<close>

section \<open>Lists in memory\<close>

text \<open>\<open>linked f xs e\<close>: following \<open>f\<close> from the head of \<open>xs\<close> gives \<open>xs\<close> and then \<open>e\<close>.\<close>

fun linked :: "(uint64 \<Rightarrow> uint64) \<Rightarrow> uint64 list \<Rightarrow> uint64 \<Rightarrow> bool" where
  "linked f [] e = True"
| "linked f (x # xs) e = (f x = hd (xs @ [e]) \<and> linked f xs e)"

lemma linked_append [simp]: "linked f (xs @ ys) e \<longleftrightarrow> linked f xs (hd (ys @ [e])) \<and> linked f ys e"
  by (induction xs) (auto simp: hd_append)

lemma linked_cong: "(\<And>x. x \<in> set xs \<Longrightarrow> f x = g x) \<Longrightarrow> linked f xs e = linked g xs e"
  by (induction xs) auto

lemma linked_upd [simp]: "x \<notin> set xs \<Longrightarrow> linked (f(x := y)) xs e = linked f xs e"
  by (rule linked_cong) auto

section \<open>The free list\<close>

definition fin :: "umS \<Rightarrow> uint64 \<Rightarrow> nat" where
  "fin s a = unat a + 16 * unat (s_size s a)"

definition block :: "umS \<Rightarrow> uint64 \<Rightarrow> nat set" where
  "block s a = {unat a..<fin s a}"

definition free_bytes :: "umS \<Rightarrow> uint64 list \<Rightarrow> nat set" where
  "free_bytes s xs = (\<Union>a\<in>set xs. block s a)"

definition apart :: "umS \<Rightarrow> uint64 \<Rightarrow> uint64 \<Rightarrow> bool" where
  "apart s a b \<longleftrightarrow> fin s a < unat b"

text \<open>
  The free list: from \<open>base\<close> in increasing order back to \<open>base\<close>, blocks that do not touch each other, all below the break, none of
  them empty but \<open>base\<close>.
\<close>

definition ring :: "uint64 \<Rightarrow> umS \<Rightarrow> uint64 list \<Rightarrow> bool" where
  "ring base s xs \<longleftrightarrow> linked (s_ptr s) (base # xs) base \<and> sorted_wrt (apart s) (base # xs) \<and> s_size s base = 0 \<and> base \<noteq> 0
     \<and> (\<forall>a\<in>set xs. s_size s a \<noteq> 0 \<and> fin s a \<le> unat (brk s)) \<and> unat base < unat (brk s) \<and> unat (brk s) \<le> 2 ^ 36 \<and> freep s \<in> set (base # xs)"

lemma unat_hplus: "unat p + 16 * unat n < 2 ^ 64 \<Longrightarrow> unat (hplus p n) = unat p + 16 * unat n"
proof -
  assume b: "unat p + 16 * unat n < 2 ^ 64"
  have u: "unat (ucast n :: uint64) = unat n" by (rule unat_ucast_up) simp
  have "unat (16 * ucast n :: uint64) = 16 * unat n" using b by (simp add: unat_word_ariths u)
  then show ?thesis using b by (simp add: hplus_def unat_word_ariths)
qed

lemma hplus_eq_iff: "unat p + 16 * unat n < 2 ^ 64 \<Longrightarrow> hplus p n = q \<longleftrightarrow> unat p + 16 * unat n = unat q"
  using unat_hplus by (metis word_unat_eq_iff)

subsection \<open>Where a block belongs\<close>

lemma find_right:
  assumes "linked (s_ptr s) (us @ p # vs) base" "sorted_wrt (<) (map unat (us @ [p]))" "unat p < unat bp" "unat base < unat bp" "unat base \<le> unat p"
    and "\<And>v. v \<in> set vs \<Longrightarrow> unat bp < unat v"
  shows "free_find s bp (hd (us @ [p])) = Some p"
  using assms
proof (induction us)
  case Nil
  have "s_ptr s p = hd (vs @ [base])" using Nil.prems(1) by simp
  then show ?case using Nil.prems by (cases vs) (auto simp: free_find.simps [of s bp p] word_less_nat_alt word_le_nat_alt)
next
  case (Cons u us)
  define w where "w = hd (us @ [p])"
  have w: "s_ptr s u = w" "unat u < unat w" "unat w \<le> unat p" using Cons.prems(1,2) by (cases us; auto simp: w_def)+
  have "free_find s bp w = Some p" unfolding w_def using Cons.prems by (intro Cons.IH) auto
  then show ?case using w Cons.prems(3) by (simp add: free_find.simps [of s bp u] word_less_nat_alt word_le_nat_alt)
qed

lemma find_wrap:
  assumes "linked (s_ptr s) (v # vs) base" "sorted_wrt (<) (map unat (v # vs))" "unat bp < unat v" "unat base < unat bp"
  shows "free_find s bp v = free_find s bp base"
  using assms
proof (induction vs arbitrary: v)
  case Nil
  then show ?case by (simp add: free_find.simps [of s bp v] word_less_nat_alt word_le_nat_alt)
next
  case (Cons w vs)
  have "free_find s bp w = free_find s bp base" using Cons.prems by (intro Cons.IH) auto
  then show ?case using Cons.prems by (simp add: free_find.simps [of s bp v] word_less_nat_alt word_le_nat_alt)
qed

lemma apart_less: "sorted_wrt (apart s) xs \<Longrightarrow> sorted_wrt (<) (map unat xs)"
  unfolding sorted_wrt_map by (rule sorted_wrt_mono_rel) (auto simp: apart_def fin_def)

lemma find_place:
  assumes r: "ring base s xs" and split: "base # xs = us @ p # vs" "unat p < unat bp" "\<And>v. v \<in> set vs \<Longrightarrow> unat bp < unat v"
    and x: "x \<in> set (base # xs)"
  shows "free_find s bp x = Some p"
proof -
  have l: "linked (s_ptr s) (us @ p # vs) base" and so: "sorted_wrt (<) (map unat (us @ p # vs))"
    using r split(1) apart_less unfolding ring_def by metis+
  have b: "unat base \<le> unat p" "unat base < unat bp" using split so by (cases us; auto)+
  have right: "free_find s bp y = Some p" if "us @ [p] = u1 @ y # u2" for u1 y u2
  proof (cases u2 rule: rev_cases)
    case Nil
    then have "u1 = us" "y = p" using that by auto
    then show ?thesis using find_right [of s "[]" p vs base bp] l b split so by auto
  next
    case (snoc w z)
    then have u: "us = u1 @ y # w" "z = p" using that by (auto simp: append_eq_append_conv2)
    then show ?thesis using find_right [of s "y # w" p vs base bp] l b split so by (auto simp: sorted_wrt_append)
  qed
  have "free_find s bp base = Some p" using right [of "[]"] split(1) by (cases us) auto
  moreover have "free_find s bp x = free_find s bp base" if "x \<in> set vs"
  proof -
    from that obtain v1 v2 where v: "vs = v1 @ x # v2" by (meson split_list)
    then show ?thesis using find_wrap [of s x v2 base bp] l so split(3) b by (auto simp: sorted_wrt_append)
  qed
  moreover have "free_find s bp x = Some p" if "x \<in> set (us @ [p])" using right that by (meson split_list)
  ultimately show ?thesis using x split(1) by (metis Un_iff append.assoc append_Cons append_Nil set_append)
qed

subsection \<open>Joining a block with its neighbours\<close>

lemma list_cong:
  assumes "\<And>a. a \<in> set xs \<Longrightarrow> fin t a = fin s a"
  shows "sorted_wrt (apart t) xs = sorted_wrt (apart s) xs" "free_bytes t xs = free_bytes s xs"
  using assms by (induction xs) (auto simp: apart_def free_bytes_def block_def)

lemma fin_gt: "s_size s a \<noteq> 0 \<Longrightarrow> unat a < fin s a"
  by (simp add: fin_def unat_gt_0)

text \<open>The block \<open>bp\<close> in front of the blocks \<open>vs\<close> (first half of the join); \<open>n\<close> and \<open>q\<close> are its new size and successor.\<close>

lemma join_up:
  assumes l: "linked (s_ptr s) vs base" and so: "sorted_wrt (apart s) vs" and sz: "\<And>v. v \<in> set vs \<Longrightarrow> s_size s v \<noteq> 0 \<and> fin s v \<le> B"
    and bp: "unat base < unat bp" "fin s bp \<le> B" "s_size s bp \<noteq> 0" "\<And>v. v \<in> set vs \<Longrightarrow> fin s bp \<le> unat v" and B: "B \<le> 2 ^ 36"
  defines "q \<equiv> hd (vs @ [base])"
  defines "s1 \<equiv> (if hplus bp (s_size s bp) = q then s\<lparr>s_size := (s_size s)(bp := s_size s bp + s_size s q), s_ptr := (s_ptr s)(bp := s_ptr s q)\<rparr>
    else s\<lparr>s_ptr := (s_ptr s)(bp := q)\<rparr>)"
  shows "\<exists>ws. linked (s_ptr s1) (bp # ws) base \<and> sorted_wrt (apart s1) (bp # ws) \<and> set ws \<subseteq> set vs \<and> free_bytes s1 (bp # ws) = block s bp \<union> free_bytes s vs
    \<and> s_size s1 bp \<noteq> 0 \<and> fin s1 bp \<le> B \<and> fin s bp \<le> fin s1 bp"
proof (cases "hplus bp (s_size s bp) = q")
  case True
  have e: "fin s bp = unat q" using True hplus_eq_iff [of bp "s_size s bp" q] bp(2) B by (simp add: fin_def)
  obtain ws where vs: "vs = q # ws" using e bp(1) by (cases vs) (auto simp: q_def fin_def)
  have q: "q \<noteq> bp" "q \<in> set vs" "\<And>w. w \<in> set ws \<Longrightarrow> fin s q < unat w" using e fin_gt [OF bp(3)] so vs by (auto simp: apart_def)
  have nw: "bp \<notin> set ws" using fin_gt [OF bp(3)] bp(4) [of bp] vs by auto
  have le: "fin s q \<le> B" "s_size s q \<noteq> 0" using sz [OF q(2)] by auto
  have "unat (s_size s bp) + unat (s_size s q) < 2 ^ 32" using le(1) e B bp(1) by (simp add: fin_def)
  then have sum: "unat (s_size s bp + s_size s q) = unat (s_size s bp) + unat (s_size s q)" by (intro unat_add_small) simp
  have s1: "s1 = s\<lparr>s_size := (s_size s)(bp := s_size s bp + s_size s q), s_ptr := (s_ptr s)(bp := s_ptr s q)\<rparr>" using True by (simp add: s1_def)
  have f: "fin s1 bp = fin s q" "\<And>w. w \<noteq> bp \<Longrightarrow> fin s1 w = fin s w" using e by (simp_all add: s1 fin_def sum)
  have "linked (s_ptr s1) (bp # ws) base" using l vs nw by (simp add: s1)
  moreover have "sorted_wrt (apart s1) ws" using so vs nw f(2) list_cong(1) [of ws s1 s] by fastforce
  moreover have "block s1 bp = block s bp \<union> block s q" using e f(1) by (auto simp: block_def fin_def)
  moreover have "free_bytes s1 ws = free_bytes s ws" by (rule list_cong) (use nw f(2) in metis)
  ultimately have "linked (s_ptr s1) (bp # ws) base \<and> sorted_wrt (apart s1) (bp # ws) \<and> set ws \<subseteq> set vs \<and> free_bytes s1 (bp # ws) = block s bp \<union> free_bytes s vs"
    using vs q(3) f(1) by (auto simp: free_bytes_def apart_def)
  moreover have "s_size s1 bp \<noteq> 0" using sum bp(3) by (auto simp: s1 unsigned_eq_0_iff)
  ultimately show ?thesis using f(1) le(1) e by (auto simp: fin_def)
next
  case False
  have s1: "s1 = s\<lparr>s_ptr := (s_ptr s)(bp := q)\<rparr>" using False by (simp add: s1_def)
  have nv: "bp \<notin> set vs" using fin_gt [OF bp(3)] bp(4) [of bp] by auto
  have ap: "fin s bp < unat v" if "v \<in> set vs" for v
  proof (cases vs)
    case (Cons w ws)
    have "fin s bp \<noteq> unat q" using False hplus_eq_iff [of bp "s_size s bp" q] bp(2) B by (simp add: fin_def)
    then have "fin s bp < unat w" using bp(4) [of w] Cons by (simp add: q_def)
    moreover have "unat w \<le> unat v" using that Cons so by (auto simp: apart_def fin_def)
    ultimately show ?thesis by simp
  qed (use that in simp)
  have "linked (s_ptr s1) (bp # vs) base" using l nv by (simp add: s1 q_def)
  moreover have "free_bytes s1 (bp # vs) = block s bp \<union> free_bytes s vs" "fin s1 a = fin s a" for a
    by (auto simp: free_bytes_def block_def fin_def s1)
  moreover have "sorted_wrt (apart s1) (bp # vs)" using so ap list_cong(1) [of vs s1 s] by (auto simp: apart_def s1 fin_def)
  ultimately show ?thesis using bp(2,3) by (intro exI [of _ vs]) (auto simp: s1)
qed

text \<open>The second half: the block in front of \<open>bp\<close> takes it in when they touch.\<close>

lemma join_down:
  assumes l: "linked (s_ptr s) us p" "linked (s_ptr s) (bp # ws) base" and so: "sorted_wrt (apart s) (us @ [p])" "sorted_wrt (apart s) (bp # ws)"
    and p: "fin s p \<le> unat bp" "bp \<noteq> p" and dis: "\<And>a. a \<in> set us \<Longrightarrow> a \<noteq> bp \<and> a \<notin> set ws" "p \<notin> set ws" and bp: "fin s bp \<le> B" "B \<le> 2 ^ 36" "bp \<noteq> 0"
    and base: "us = [] \<Longrightarrow> fin s p < unat bp"
  defines "t \<equiv> (if hplus p (s_size s p) = bp then s\<lparr>s_size := (s_size s)(p := s_size s p + s_size s bp), s_ptr := (s_ptr s)(p := s_ptr s bp)\<rparr>
    else s\<lparr>s_ptr := (s_ptr s)(p := bp)\<rparr>)"
  shows "\<exists>zs. linked (s_ptr t) (us @ p # zs) base \<and> sorted_wrt (apart t) (us @ p # zs) \<and> set zs \<subseteq> set (bp # ws)
    \<and> free_bytes t (us @ p # zs) = free_bytes s (us @ p # bp # ws) \<and> fin t p \<le> max (fin s p) (fin s bp) \<and> (s_size s p \<noteq> 0 \<longrightarrow> s_size t p \<noteq> 0)
    \<and> (us = [] \<longrightarrow> s_size t p = s_size s p)"
proof -
  have pu: "p \<notin> set us" using so(1) by (auto simp: sorted_wrt_append apart_def fin_def)
  have ub: "fin s a < unat bp" if "a \<in> set us" for a using so(1) p(1) that by (auto simp: sorted_wrt_append apart_def fin_def)
  have bw: "unat bp < unat w" "fin s bp < unat w" if "w \<in> set ws" for w using so(2) that by (auto simp: apart_def fin_def)
  have "unat bp < 2 ^ 64" by (rule order.strict_trans2 [OF unsigned_less]) simp
  then have lt64: "unat p + 16 * unat (s_size s p) < 2 ^ 64" using p(1) by (simp add: fin_def)
  show ?thesis
  proof (cases "hplus p (s_size s p) = bp")
    case True
    have e: "fin s p = unat bp" using True hplus_eq_iff [OF lt64] by (simp add: fin_def)
    have us: "us \<noteq> []" using e base by auto
    have "unat p > 0" using us so(1) by (cases us) (auto simp: apart_def)
    then have "unat (s_size s p) + unat (s_size s bp) < 2 ^ 32" using bp e by (simp add: fin_def)
    then have sum: "unat (s_size s p + s_size s bp) = unat (s_size s p) + unat (s_size s bp)" by (intro unat_add_small) simp
    have t: "t = s\<lparr>s_size := (s_size s)(p := s_size s p + s_size s bp), s_ptr := (s_ptr s)(p := s_ptr s bp)\<rparr>" using True by (simp add: t_def)
    have f: "fin t p = fin s bp" "\<And>a. a \<noteq> p \<Longrightarrow> fin t a = fin s a" using e by (simp_all add: t fin_def sum)
    have "linked (s_ptr t) (us @ p # ws) base" using l dis pu by (simp add: t)
    moreover have "sorted_wrt (apart t) us = sorted_wrt (apart s) us" "sorted_wrt (apart t) ws = sorted_wrt (apart s) ws"
      "free_bytes t us = free_bytes s us" "free_bytes t ws = free_bytes s ws"
      by (rule list_cong, use f(2) pu dis(2) in metis)+
    moreover have "block t p = block s p \<union> block s bp" using e f(1) by (auto simp: block_def fin_def)
    moreover have "apart t a b" if "a \<in> set us" "b \<in> insert p (set ws)" for a b
    proof -
      have "fin t a = fin s a" using f(2) pu that(1) by metis
      then show ?thesis using that so(1) ub [of a] bw(1) [of b] by (auto simp: apart_def sorted_wrt_append)
    qed
    ultimately show ?thesis using so us f(1) bw(2) sum
      by (intro exI [of _ ws]) (auto simp: sorted_wrt_append free_bytes_def apart_def t unsigned_eq_0_iff)
  next
    case False
    have ne: "fin s p < unat bp" using False hplus_eq_iff [OF lt64] p(1) by (auto simp: fin_def)
    have t: "t = s\<lparr>s_ptr := (s_ptr s)(p := bp)\<rparr>" using False by (simp add: t_def)
    have f: "fin t a = fin s a" for a by (simp add: t fin_def)
    have "linked (s_ptr t) (us @ p # bp # ws) base" using l dis pu p(2) by (simp add: t)
    moreover have "apart s a b" if "a \<in> insert p (set us)" "b \<in> insert bp (set ws)" for a b
      using that ub [of a] bw(1) [of b] ne by (auto simp: apart_def)
    ultimately show ?thesis using so list_cong [of "us @ p # bp # ws" t s] f
      by (intro exI [of _ "bp # ws"]) (auto simp: sorted_wrt_append t)
  qed
qed

section \<open>free\<close>

lemma ringD:
  assumes "ring base s xs"
  shows "linked (s_ptr s) (base # xs) base" "sorted_wrt (apart s) (base # xs)" "s_size s base = 0" "base \<noteq> 0"
    and "a \<in> set xs \<Longrightarrow> s_size s a \<noteq> 0" "a \<in> set xs \<Longrightarrow> fin s a \<le> unat (brk s)" "unat (brk s) \<le> 2 ^ 36" "freep s \<in> set (base # xs)"
    and "a \<in> set xs \<Longrightarrow> unat base < unat a" "a \<in> set xs \<Longrightarrow> a \<noteq> base" "unat base < unat (brk s)"
  using assms by (auto simp: ring_def apart_def fin_def)

text \<open>A block that is not free lies between two blocks of the list.\<close>

lemma ring_place:
  assumes r: "ring base s xs" and bp: "unat base < unat bp" "s_size s bp \<noteq> 0" "block s bp \<inter> free_bytes s xs = {}"
  obtains us p vs where "base # xs = us @ p # vs" "fin s p \<le> unat bp" "unat p < unat bp" "\<And>v. v \<in> set vs \<Longrightarrow> fin s bp \<le> unat v"
proof -
  note R = ringD [OF r]
  define ls where "ls = takeWhile (\<lambda>a. unat a < unat bp) (base # xs)"
  define vs where "vs = dropWhile (\<lambda>a. unat a < unat bp) (base # xs)"
  have "ls \<noteq> []" using bp(1) by (simp add: ls_def)
  then obtain us p where up: "ls = us @ [p]" by (metis append_butlast_last_id)
  have sp: "base # xs = us @ p # vs" using takeWhile_dropWhile_id [of "\<lambda>a. unat a < unat bp" "base # xs"] up by (simp add: ls_def vs_def)
  have "p \<in> set ls" using up by simp
  then have p: "p \<in> set (base # xs)" "unat p < unat bp" unfolding ls_def using set_takeWhileD [of p "\<lambda>a. unat a < unat bp" "base # xs"] by blast+
  have disj: "block s a \<inter> block s bp = {}" if "a \<in> set xs" for a using bp(3) that by (auto simp: free_bytes_def)
  have "fin s p \<le> unat bp"
  proof (rule ccontr)
    assume "\<not> fin s p \<le> unat bp"
    then have c: "unat bp \<in> block s p" "p \<noteq> base" using p R(3) by (auto simp: block_def fin_def)
    then have "unat bp \<in> block s bp" "p \<in> set xs" using fin_gt [OF bp(2)] p(1) by (auto simp: block_def)
    then show False using disj c(1) by blast
  qed
  moreover have "fin s bp \<le> unat v" if v: "v \<in> set vs" for v
  proof (rule ccontr)
    have so: "sorted_wrt (<) (map unat (base # xs))" using R(2) by (rule apart_less)
    have "vs \<noteq> []" using v by auto
    then have "unat bp \<le> unat (hd vs)" using hd_dropWhile [of "\<lambda>a. unat a < unat bp" "base # xs"] unfolding vs_def by (meson linorder_not_less)
    moreover have "unat (hd vs) \<le> unat v" using so v unfolding sp by (cases vs) (auto simp: sorted_wrt_append)
    ultimately have vb: "unat bp \<le> unat v" by simp
    assume "\<not> fin s bp \<le> unat v"
    then have c: "unat v \<in> block s bp" using vb by (simp add: block_def)
    have "v \<in> set (base # xs)" using v unfolding sp by simp
    then have "v \<in> set xs" using vb bp(1) by auto
    then show False using disj [of v] c fin_gt [OF R(5) [of v]] by (auto simp: block_def disjoint_iff)
  qed
  ultimately show ?thesis using that sp p(2) by blast
qed

text \<open>Both halves of the join.\<close>

lemma free_join_list:
  assumes l: "linked (s_ptr s) (us @ p # vs) base" and so: "sorted_wrt (apart s) (us @ p # vs)"
    and sz: "\<And>v. v \<in> set vs \<Longrightarrow> s_size s v \<noteq> 0 \<and> fin s v \<le> B" and B: "B \<le> 2 ^ 36"
    and bp: "unat base < unat bp" "fin s bp \<le> B" "s_size s bp \<noteq> 0" "fin s p \<le> unat bp" "unat p < unat bp" "\<And>v. v \<in> set vs \<Longrightarrow> fin s bp \<le> unat v"
    and first: "us = [] \<Longrightarrow> fin s p < unat bp"
  shows "\<exists>zs. linked (s_ptr (free_join bp p s)) (us @ p # zs) base \<and> sorted_wrt (apart (free_join bp p s)) (us @ p # zs) \<and> set zs \<subseteq> set (bp # vs)
    \<and> free_bytes (free_join bp p s) (us @ p # zs) = free_bytes s (us @ p # vs) \<union> block s bp
    \<and> (\<forall>a. a \<noteq> p \<longrightarrow> a \<noteq> bp \<longrightarrow> s_size (free_join bp p s) a = s_size s a) \<and> s_size (free_join bp p s) bp \<noteq> 0 \<and> fin (free_join bp p s) bp \<le> B
    \<and> fin (free_join bp p s) p \<le> B \<and> (s_size s p \<noteq> 0 \<longrightarrow> s_size (free_join bp p s) p \<noteq> 0) \<and> (us = [] \<longrightarrow> s_size (free_join bp p s) p = s_size s p)"
proof -
  have L: "linked (s_ptr s) us p" "linked (s_ptr s) vs base" "s_ptr s p = hd (vs @ [base])" using l by auto
  have S: "sorted_wrt (apart s) (us @ [p])" "sorted_wrt (apart s) vs" using so by (auto simp: sorted_wrt_append)
  have big: "unat bp < unat v" if "v \<in> set vs" for v using bp(6) [OF that] fin_gt [OF bp(3)] by simp
  have pb: "p \<noteq> bp" using bp(5) by auto
  define s1 where "s1 = (if hplus bp (s_size s bp) = hd (vs @ [base]) then s\<lparr>s_size := (s_size s)(bp := s_size s bp + s_size s (hd (vs @ [base]))),
      s_ptr := (s_ptr s)(bp := s_ptr s (hd (vs @ [base])))\<rparr> else s\<lparr>s_ptr := (s_ptr s)(bp := hd (vs @ [base]))\<rparr>)"
  obtain ws where w: "linked (s_ptr s1) (bp # ws) base" "sorted_wrt (apart s1) (bp # ws)" "set ws \<subseteq> set vs"
    "free_bytes s1 (bp # ws) = block s bp \<union> free_bytes s vs" "s_size s1 bp \<noteq> 0" "fin s1 bp \<le> B"
    using join_up [OF L(2) S(2) sz bp(1,2,3,6) B] unfolding s1_def by auto
  have o1: "s_ptr s1 a = s_ptr s a" "s_size s1 a = s_size s a" "fin s1 a = fin s a" if "a \<noteq> bp" for a using that by (auto simp: s1_def fin_def)
  have ub: "unat a < unat bp" if "a \<in> set (us @ [p])" for a
    using that S(1) bp(5) by (auto simp: sorted_wrt_append apart_def fin_def)
  then have nu: "a \<noteq> bp" if "a \<in> set (us @ [p])" for a using that by blast
  define t where "t = (if hplus p (s_size s1 p) = bp then s1\<lparr>s_size := (s_size s1)(p := s_size s1 p + s_size s1 bp), s_ptr := (s_ptr s1)(p := s_ptr s1 bp)\<rparr>
    else s1\<lparr>s_ptr := (s_ptr s1)(p := bp)\<rparr>)"
  have fj: "free_join bp p s = t\<lparr>freep := p\<rparr>" using L(3) by (simp add: free_join_def Let_def s1_def t_def)
  have "\<exists>zs. linked (s_ptr t) (us @ p # zs) base \<and> sorted_wrt (apart t) (us @ p # zs) \<and> set zs \<subseteq> set (bp # ws)
    \<and> free_bytes t (us @ p # zs) = free_bytes s1 (us @ p # bp # ws) \<and> fin t p \<le> max (fin s1 p) (fin s1 bp) \<and> (s_size s1 p \<noteq> 0 \<longrightarrow> s_size t p \<noteq> 0)
    \<and> (us = [] \<longrightarrow> s_size t p = s_size s1 p)"
    unfolding t_def
  proof (rule join_down [OF _ w(1) _ w(2) _ _ _ _ w(6) B])
    show "linked (s_ptr s1) us p" using L(1) nu linked_cong [of us "s_ptr s1" "s_ptr s" p] o1(1) by auto
    show "sorted_wrt (apart s1) (us @ [p])" using S(1) nu o1(3) list_cong(1) [of "us @ [p]" s1 s] by blast
    show "us = [] \<Longrightarrow> fin s1 p < unat bp" using first o1(3) [OF pb] by simp
  qed (use nu ub big w(3) bp(4,5) o1(3) [OF pb] bp(1) in fastforce)+
  then obtain zs where z: "linked (s_ptr t) (us @ p # zs) base" "sorted_wrt (apart t) (us @ p # zs)" "set zs \<subseteq> set (bp # ws)"
    "free_bytes t (us @ p # zs) = free_bytes s1 (us @ p # bp # ws)" "fin t p \<le> max (fin s1 p) (fin s1 bp)" "s_size s1 p \<noteq> 0 \<longrightarrow> s_size t p \<noteq> 0"
    "us = [] \<longrightarrow> s_size t p = s_size s1 p" by blast
  have same: "fin (t\<lparr>freep := p\<rparr>) a = fin t a" for a by (simp add: fin_def)
  have "free_bytes t (us @ p # zs) = free_bytes s (us @ p # vs) \<union> block s bp"
    using w(4) z(4) list_cong(2) [of "us @ [p]" s1 s] nu o1(3) by (auto simp: free_bytes_def)
  moreover have "s_size t bp = s_size s1 bp" "a \<noteq> p \<Longrightarrow> a \<noteq> bp \<Longrightarrow> s_size t a = s_size s a" for a using o1(2) pb by (auto simp: t_def)
  moreover have "fin s p \<le> B" using bp(2,4) fin_gt [OF bp(3)] by simp
  ultimately show ?thesis using z w(3,5,6) o1(2,3) [OF pb] list_cong [of "us @ p # zs" "t\<lparr>freep := p\<rparr>" t] same
    unfolding fj by (intro exI [of _ zs]) (auto simp: fin_def)
qed

lemma free_run:
  assumes r: "ring base s xs" and bp: "unat base < unat bp" "s_size s bp \<noteq> 0" "fin s bp \<le> unat (brk s)" "block s bp \<inter> free_bytes s xs = {}"
  shows "\<exists>t ys. um_free (bp + 16) s = Some t \<and> ring base t ys \<and> free_bytes t ys = free_bytes s xs \<union> block s bp \<and> brk t = brk s
    \<and> (\<forall>a. unat a \<notin> free_bytes t ys \<longrightarrow> s_size t a = s_size s a)"
proof -
  note R = ringD [OF r]
  obtain us p vs where sp: "base # xs = us @ p # vs" "fin s p \<le> unat bp" "unat p < unat bp" and vs: "\<And>v. v \<in> set vs \<Longrightarrow> fin s bp \<le> unat v"
    using ring_place [OF r bp(1,2,4)] by metis
  have big: "unat bp < unat v" if "v \<in> set vs" for v using vs [OF that] fin_gt [OF bp(2)] by simp
  define t where "t = free_join bp p s"
  have run: "um_free (bp + 16) s = Some t" using find_place [OF r sp(1,3) big R(8)] by (simp add: um_free_def t_def)
  have vx: "v \<in> set xs" if "v \<in> set vs" for v using that sp(1) by (cases us) auto
  have us0: "us = [] \<longleftrightarrow> p = base" using sp(1) R(10) by (cases us) auto
  have "\<exists>zs. linked (s_ptr t) (us @ p # zs) base \<and> sorted_wrt (apart t) (us @ p # zs) \<and> set zs \<subseteq> set (bp # vs)
    \<and> free_bytes t (us @ p # zs) = free_bytes s (us @ p # vs) \<union> block s bp
    \<and> (\<forall>a. a \<noteq> p \<longrightarrow> a \<noteq> bp \<longrightarrow> s_size t a = s_size s a) \<and> s_size t bp \<noteq> 0 \<and> fin t bp \<le> unat (brk s)
    \<and> fin t p \<le> unat (brk s) \<and> (s_size s p \<noteq> 0 \<longrightarrow> s_size t p \<noteq> 0) \<and> (us = [] \<longrightarrow> s_size t p = s_size s p)"
    unfolding t_def by (rule free_join_list [OF _ _ _ R(7) bp(1,3,2) sp(2,3) vs])
      (use R(1,2) sp(1) R(5,6) vx us0 R(3) bp(1) in \<open>auto simp: fin_def\<close>)
  then obtain zs where z: "linked (s_ptr t) (us @ p # zs) base" "sorted_wrt (apart t) (us @ p # zs)" "set zs \<subseteq> set (bp # vs)"
    "free_bytes t (us @ p # zs) = free_bytes s (us @ p # vs) \<union> block s bp" "\<And>a. a \<noteq> p \<Longrightarrow> a \<noteq> bp \<Longrightarrow> s_size t a = s_size s a"
    "s_size t bp \<noteq> 0" "fin t bp \<le> unat (brk s)" "fin t p \<le> unat (brk s)" "s_size s p \<noteq> 0 \<Longrightarrow> s_size t p \<noteq> 0" "us = [] \<Longrightarrow> s_size t p = s_size s p"
    by blast
  have b: "brk t = brk s" "freep t = p" by (simp_all add: t_def free_join_def Let_def)
  obtain ys where ys: "us @ p # zs = base # ys" using sp(1) by (cases us) auto
  have t0: "s_size t base = 0" using R(3) z(5) [of base] z(10) us0 bp(1) by (cases "p = base") auto
  have e: "block u base = {}" if "s_size u base = 0" for u using that by (simp add: block_def fin_def)
  have fb: "free_bytes t ys = free_bytes s xs \<union> block s bp"
    using z(4) unfolding ys sp(1) [symmetric] by (simp add: free_bytes_def e t0 R(3))
  have mem: "s_size t a \<noteq> 0 \<and> fin t a \<le> unat (brk t)" if "a \<in> set ys" for a
  proof -
    have "a \<noteq> base" using z(2) that unfolding ys by (auto simp: apart_def fin_def)
    moreover have "set (base # ys) = set us \<union> {p} \<union> set zs" "set (base # xs) = set us \<union> {p} \<union> set vs" unfolding ys [symmetric] sp(1) by auto
    ultimately have "a = p \<or> a = bp \<or> a \<in> set xs" "p \<noteq> base \<Longrightarrow> p \<in> set xs" using that z(3) by auto
    then show ?thesis using z(5) [of a] z(6-9) R(5) [of a] R(5) [of p] R(6) [of a] b(1) \<open>a \<noteq> base\<close>
      by (cases "a = p"; cases "a = bp") (auto simp: fin_def)
  qed
  have "p \<in> set (base # ys)" unfolding ys [symmetric] by simp
  then have "ring base t ys" using z(1,2) [unfolded ys] mem t0 R(4,7,11) unfolding ring_def b by (simp del: linked.simps sorted_wrt.simps)
  moreover have "s_size t a = s_size s a" if "unat a \<notin> free_bytes t ys" for a
  proof -
    have "a \<noteq> bp" using that fb fin_gt [OF bp(2)] by (auto simp: block_def)
    moreover have "s_size t a = s_size s a" if "a = p"
    proof (cases "us = []")
      case False
      then have "p \<in> set ys" using ys by (cases us) auto
      then show ?thesis using \<open>unat a \<notin> free_bytes t ys\<close> that mem [of p] fin_gt [of t p] by (auto simp: free_bytes_def block_def)
    qed (use z(10) that in simp)
    ultimately show ?thesis using z(5) by blast
  qed
  ultimately show ?thesis using run fb b(1) by blast
qed

section \<open>malloc\<close>

subsection \<open>Taking a block\<close>

lemma ring_distinct: "ring base s xs \<Longrightarrow> distinct (base # xs)"
proof -
  assume "ring base s xs"
  then have "sorted_wrt (<) (map unat (base # xs))" using ringD(2) apart_less by blast
  then have "distinct (map unat (base # xs))" by (auto simp: strict_sorted_iff)
  then show ?thesis by (simp only: distinct_map)
qed

lemma sorted_wrt_either: "sorted_wrt P xs \<Longrightarrow> a \<in> set xs \<Longrightarrow> b \<in> set xs \<Longrightarrow> a \<noteq> b \<Longrightarrow> P a b \<or> P b a"
  by (induction xs) auto

lemma ring_apart: "ring base s xs \<Longrightarrow> a \<in> set (base # xs) \<Longrightarrow> b \<in> set (base # xs) \<Longrightarrow> a \<noteq> b \<Longrightarrow> fin s a < unat b \<or> fin s b < unat a"
  using sorted_wrt_either [OF ringD(2)] unfolding apart_def by blast

lemma ring_disjoint: "ring base s xs \<Longrightarrow> a \<in> set (base # xs) \<Longrightarrow> b \<in> set (base # xs) \<Longrightarrow> a \<noteq> b \<Longrightarrow> block s a \<inter> block s b = {}"
  using ring_apart [of base s xs a b] by (auto simp: block_def fin_def)

lemma take_all:
  assumes r: "ring base s xs" and sp: "base # xs = us @ p # vs" "us \<noteq> []"
  defines "t \<equiv> s\<lparr>s_ptr := (s_ptr s)(last us := s_ptr s p), freep := last us\<rparr>"
  shows "ring base t (tl (us @ vs))" "free_bytes t (tl (us @ vs)) = free_bytes s xs - block s p"
proof -
  note R = ringD [OF r] and D = ring_distinct [OF r]
  obtain ws where us: "us = base # ws" using sp by (cases us) auto
  have xs: "xs = ws @ p # vs" using sp us by simp
  have f: "fin t a = fin s a" for a by (simp add: t_def fin_def)
  obtain zs l where zl: "us = zs @ [l]" using sp(2) by (metis append_butlast_last_id)
  have "linked (s_ptr t) (us @ vs) base" using R(1) D unfolding sp(1) by (auto simp: t_def zl)
  moreover have "sorted_wrt (apart t) (us @ vs)"
    using R(2) unfolding list_cong(1) [of "us @ vs" t s, OF f] sp(1) by (auto simp: sorted_wrt_append)
  ultimately show "ring base t (tl (us @ vs))"
    using R(3-7,11) sp(2) f unfolding ring_def by (auto simp: us xs t_def simp del: sorted_wrt_append)
  have "block s a \<inter> block s p = {}" if "a \<in> set (ws @ vs)" for a
    using ring_disjoint [OF r, of a p] D that unfolding sp(1) us by auto
  moreover have "free_bytes t (ws @ vs) = free_bytes s (ws @ vs)" using f by (intro list_cong) auto
  ultimately show "free_bytes t (tl (us @ vs)) = free_bytes s xs - block s p" by (auto simp: us xs free_bytes_def)
qed

lemma take_tail:
  assumes r: "ring base s xs" and p: "p \<in> set xs" and n: "n < s_size s p" "n \<noteq> 0" and pv: "prevp \<in> set (base # xs)"
  defines "q \<equiv> hplus p (s_size s p - n)"
  defines "t \<equiv> s\<lparr>s_size := (s_size s)(p := s_size s p - n, q := n), freep := prevp\<rparr>"
  shows "ring base t xs" "block t q \<subseteq> block s p" "free_bytes t xs = free_bytes s xs - block t q" "s_size t q = n" "unat q + 16 * unat n = fin s p"
proof -
  note R = ringD [OF r] and D = ring_distinct [OF r]
  have sz: "unat (s_size s p - n) = unat (s_size s p) - unat n" "unat n < unat (s_size s p)" "0 < unat n"
    using n by (auto simp: unat_sub_if' word_less_nat_alt unat_gt_0)
  have q: "unat q = unat p + 16 * (unat (s_size s p) - unat n)"
    unfolding q_def using R(6) [OF p] R(7) by (subst unat_hplus) (simp_all add: sz fin_def)
  then show qe: "unat q + 16 * unat n = fin s p" using sz(2) by (simp add: fin_def)
  have qp: "unat p < unat q" "unat q < fin s p" using q sz(2,3) by (auto simp: fin_def)
  have qa: "a \<noteq> q" if "a \<in> set (base # xs)" for a
    using ring_apart [OF r that, of p] p qp by (cases "a = p") (auto simp: fin_def)
  have f: "fin t a = (if a = p then unat q else fin s a)" if "a \<in> set (base # xs)" for a
    using qa [OF that] q sz by (auto simp: t_def fin_def)
  have "fin t q = unat q + 16 * unat n" by (simp add: t_def fin_def)
  then have bq: "block t q = {unat q..<fin s p}" using qe by (simp add: block_def)
  then show "block t q \<subseteq> block s p" using qp by (auto simp: block_def)
  have fle: "fin t a \<le> fin s a" if "a \<in> set (base # xs)" for a using f [OF that] qp by auto
  have "sorted_wrt (apart t) (base # xs)"
    by (rule sorted_wrt_mono_rel [OF _ R(2)]) (use fle in \<open>auto simp: apart_def dest: le_less_trans\<close>)
  moreover have "s_size t a \<noteq> 0" "fin t a \<le> unat (brk t)" if "a \<in> set xs" for a
    using R(5,6) [OF that] qa [of a] fle [of a] that sz n by (auto simp: t_def word_less_nat_alt unsigned_eq_0_iff split: if_splits)
  moreover have "s_size t base = 0" using R(3) R(10) [OF p] qa [of base] by (auto simp: t_def)
  ultimately show "ring base t xs" using R(1,4,7,11) pv unfolding ring_def by (auto simp: t_def)
  have "block t p = block s p - block t q" using f [of p] p bq qp by (auto simp: block_def)
  moreover have "block t a = block s a - block t q" if "a \<in> set xs" "a \<noteq> p" for a
    using ring_disjoint [OF r, of a p] that p f [of a] \<open>block t q \<subseteq> block s p\<close> by (auto simp: block_def)
  ultimately show "free_bytes t xs = free_bytes s xs - block t q" by (auto simp: free_bytes_def)
  show "s_size t q = n" by (simp add: t_def)
qed

subsection \<open>The search\<close>

text \<open>One round over the list: it finds a block that is large enough, or comes back to \<^verbatim>\<open>freep\<close> and asks for more memory.\<close>

lemma scan_round:
  assumes "linked (s_ptr s) (prevp # rest) (freep s)" "freep s \<notin> set rest"
  shows "(\<exists>x\<in>set (rest @ [freep s]). n \<le> s_size s x) \<Longrightarrow> \<exists>q p. q \<in> set (prevp # rest) \<and> s_ptr s q = p \<and> p \<in> set (rest @ [freep s]) \<and> n \<le> s_size s p
      \<and> malloc_loop grants n prevp (s_ptr s prevp) s = Some (take_units n q p s)"
    and "\<forall>x\<in>set (rest @ [freep s]). \<not> n \<le> s_size s x \<Longrightarrow> malloc_loop grants n prevp (s_ptr s prevp) s
      = (case morecore grants n s of None \<Rightarrow> None | Some (p, s) \<Rightarrow> if p = 0 then Some (0, s) else malloc_loop grants n p (s_ptr s p) s)"
  using assms
proof (induction rest arbitrary: prevp)
  case Nil
  {
    case 1
    then show ?case by (simp add: malloc_loop.simps [of grants n prevp "freep s"])
  next
    case 2
    then show ?case by (simp add: malloc_loop.simps [of grants n prevp "freep s"])
  }
next
  case (Cons a rest)
  {
    case 1
    then show ?case
    proof (cases "n \<le> s_size s a")
      case True
      then show ?thesis using 1 by (auto simp: malloc_loop.simps [of grants n prevp a])
    next
      case False
      then have "malloc_loop grants n prevp (s_ptr s prevp) s = malloc_loop grants n a (s_ptr s a) s"
        using 1 by (auto simp: malloc_loop.simps [of grants n prevp a])
      then show ?thesis using Cons.IH(1) [of a] 1 False by fastforce
    qed
  next
    case 2
    then have "malloc_loop grants n prevp (s_ptr s prevp) s = malloc_loop grants n a (s_ptr s a) s"
      by (auto simp: malloc_loop.simps [of grants n prevp a])
    then show ?case using Cons.IH(2) [of a] 2 by simp
  }
qed

text \<open>The list from the block after \<^verbatim>\<open>freep\<close> on.\<close>

lemma ring_rotate:
  assumes r: "ring base s xs"
  obtains rest where "linked (s_ptr s) (freep s # rest) (freep s)" "freep s \<notin> set rest" "set (rest @ [freep s]) = set (base # xs)"
proof -
  obtain ps qs where sp: "base # xs = ps @ freep s # qs" using ringD(8) [OF r] by (meson split_list)
  have "linked (s_ptr s) (freep s # qs @ ps) (freep s)" using ringD(1) [OF r] sp by (cases ps) (auto simp: hd_append)
  moreover have "freep s \<notin> set (qs @ ps)" using ring_distinct [OF r] unfolding sp by auto
  ultimately show ?thesis using that [of "qs @ ps"] unfolding sp by auto
qed

lemma ring_before:
  assumes r: "ring base s xs" and q: "q \<in> set (base # xs)" "s_ptr s q = p" "p \<noteq> base"
  obtains us vs where "base # xs = us @ p # vs" "us \<noteq> []" "q = last us"
proof -
  obtain as bs where sp: "base # xs = as @ q # bs" using q(1) by (meson split_list)
  have "s_ptr s q = hd (bs @ [base])" using ringD(1) [OF r] unfolding sp by simp
  then obtain vs where "bs = p # vs" using q(2,3) by (cases bs) auto
  then show ?thesis using that [of "as @ [q]" vs] sp by simp
qed

text \<open>What taking a block promises: \<open>r\<close> is a pointer behind a header with the size \<open>n\<close>, and the block comes out of the free bytes.\<close>

definition taken :: "uint64 \<Rightarrow> uint32 \<Rightarrow> umS \<Rightarrow> uint64 list \<Rightarrow> uint64 \<Rightarrow> umS \<Rightarrow> uint64 list \<Rightarrow> bool" where
  "taken base n s xs r t ys \<longleftrightarrow> ring base t ys \<and> s_size t (r - 16) = n \<and> r \<noteq> 0 \<and> unat base < unat (r - 16) \<and> unat r = unat (r - 16) + 16
     \<and> block t (r - 16) \<subseteq> free_bytes s xs \<and> free_bytes t ys = free_bytes s xs - block t (r - 16) \<and> brk t = brk s
     \<and> (\<forall>a. unat a \<notin> free_bytes s xs \<longrightarrow> s_size t a = s_size s a)"

lemma unat_behind: "unat (a :: uint64) \<le> 2 ^ 36 \<Longrightarrow> unat (a + 16) = unat a + 16"
  by (subst unat_add_small) simp_all

lemma take_units_taken:
  assumes r: "ring base s xs" and q: "q \<in> set (base # xs)" "s_ptr s q = p" "p \<in> set xs" and n: "n \<le> s_size s p" "n \<noteq> 0"
  shows "\<exists>x t ys. take_units n q p s = (x, t) \<and> taken base n s xs x t ys"
proof -
  note R = ringD [OF r]
  have pb: "p \<noteq> base" using R(10) [OF q(3)] .
  have pin: "unat p \<in> free_bytes s xs" using q(3) fin_gt [OF R(5) [OF q(3)]] by (auto simp: free_bytes_def block_def)
  have sub: "block s p \<subseteq> free_bytes s xs" using q(3) by (auto simp: free_bytes_def)
  have ple: "fin s p \<le> 2 ^ 36" using R(6) [OF q(3)] R(7) by simp
  show ?thesis
  proof (cases "s_size s p = n")
    case True
    obtain us vs where sp: "base # xs = us @ p # vs" "us \<noteq> []" "q = last us" using ring_before [OF r q(1,2) pb] by metis
    let ?t = "s\<lparr>s_ptr := (s_ptr s)(q := s_ptr s p), freep := q\<rparr>"
    have b: "block ?t p = block s p" by (simp add: block_def fin_def)
    have "unat p \<le> 2 ^ 36" using ple by (simp add: fin_def)
    then have up: "unat (p + 16) = unat p + 16" by (rule unat_behind)
    then have "p + 16 \<noteq> 0" by (metis add_is_0 unsigned_0 zero_neq_numeral)
    then have "taken base n s xs (p + 16) ?t (tl (us @ vs))"
      using take_all [OF r sp(1,2)] True b sub R(9) [OF q(3)] up unfolding taken_def sp(3) [symmetric] by auto
    then show ?thesis using True unfolding take_units_def by auto
  next
    case False
    then have lt: "n < s_size s p" using n(1) by simp
    let ?q = "hplus p (s_size s p - n)"
    let ?t = "s\<lparr>s_size := (s_size s)(p := s_size s p - n, ?q := n), freep := q\<rparr>"
    note T = take_tail [OF r q(3) lt n(2) q(1)]
    have "unat ?q \<in> block ?t ?q" using fin_gt [of ?t ?q] n(2) by (simp add: block_def)
    then have qin: "unat ?q \<in> block s p" using T(2) by blast
    then have "unat ?q \<le> 2 ^ 36" "unat base < unat ?q" using ple R(9) [OF q(3)] by (auto simp: block_def)
    then have up: "unat (?q + 16) = unat ?q + 16" "unat base < unat ?q" by (simp_all add: unat_behind)
    then have "?q + 16 \<noteq> 0" by (metis add_is_0 unsigned_0 zero_neq_numeral)
    then have "taken base n s xs (?q + 16) ?t xs"
      using T up sub qin pin unfolding taken_def by auto
    then show ?thesis using False unfolding take_units_def by (auto simp: Let_def)
  qed
qed

subsection \<open>More memory\<close>

text \<open>A stretch of free bytes lies in one block of the list.\<close>

lemma free_stretch:
  assumes r: "ring base s xs" and sub: "{a..<b} \<subseteq> free_bytes s xs" "a < b"
  obtains x where "x \<in> set xs" "unat x \<le> a" "b \<le> fin s x"
proof -
  obtain x where x: "x \<in> set xs" "unat x \<le> a" "a < fin s x" using sub by (force simp: free_bytes_def block_def)
  have "b \<le> fin s x"
  proof (rule ccontr)
    assume "\<not> b \<le> fin s x"
    then have "fin s x \<in> free_bytes s xs" using sub x by auto
    then obtain y where y: "y \<in> set xs" "unat y \<le> fin s x" "fin s x < fin s y" by (auto simp: free_bytes_def block_def)
    then show False using ring_apart [OF r, of x y] x by auto
  qed
  then show ?thesis using that x by blast
qed

text \<open>The kernel does not move a break beyond what the physical memory can back.\<close>

definition grants_bounded :: "(uint64 \<Rightarrow> int \<Rightarrow> bool) \<Rightarrow> bool" where
  "grants_bounded grants \<longleftrightarrow> (\<forall>b k. grants b k \<longrightarrow> int (unat b) + k \<le> 2 ^ 36)"

lemma morecore_run:
  assumes r: "ring base s xs" and n: "n < 2 ^ 27" and g: "grants_bounded grants"
  shows "morecore grants n s = Some (0, s) \<or> (\<exists>t ys. morecore grants n s = Some (freep t, t) \<and> freep t \<noteq> 0 \<and> ring base t ys \<and> unat (brk s) < unat (brk t)
    \<and> free_bytes t ys = free_bytes s xs \<union> {unat (brk s)..<unat (brk t)} \<and> (\<exists>x\<in>set ys. n \<le> s_size t x)
    \<and> (\<forall>a. unat a \<notin> free_bytes t ys \<longrightarrow> s_size t a = s_size s a))"
proof -
  note R = ringD [OF r]
  define m where "m = (if n < 4096 then 4096 else n)"
  have m: "unat m < 2 ^ 27" "n \<le> m" "unat m > 0" using n by (auto simp: m_def word_less_nat_alt word_le_nat_alt)
  have u: "unat (m * 16) = 16 * unat m" using m(1) by (simp add: unat_word_ariths)
  then have i: "sint (m * 16) = int (16 * unat m)" using m(1) sint_unat [of "m * 16"] by simp
  show ?thesis
  proof (cases "grants (brk s) (sint (m * 16))")
    case False
    then show ?thesis by (simp add: morecore_def sbrk_def m_def [symmetric] Let_def)
  next
    case True
    let ?s = "s\<lparr>brk := brk s + of_int (sint (m * 16)), s_size := (s_size s)(brk s := m)\<rparr>"
    have "int (unat (brk s) + 16 * unat m) \<le> 2 ^ 36" using g True unfolding grants_bounded_def i by (simp only: of_nat_add)
    then have le: "unat (brk s) + 16 * unat m \<le> 2 ^ 36" by (metis of_nat_le_iff of_nat_numeral of_nat_power)
    have "of_int (sint (m * 16)) = (16 * ucast m :: uint64)" by (simp only: i of_int_of_nat_eq of_nat_mult of_nat_unat of_nat_numeral of_int_mult of_int_numeral of_int_uint)
    then have nb: "unat (brk ?s) = unat (brk s) + 16 * unat m" using le unat_hplus [of "brk s" m] by (simp add: hplus_def)
    have f: "fin ?s a = fin s a \<and> s_size ?s a = s_size s a" if "a \<in> set (base # xs)" for a
      using that R(6) [of a] R(11) fin_gt [OF R(5) [of a]] by (auto simp: fin_def)
    have r': "ring base ?s xs"
      using R f nb le list_cong(1) [of "base # xs" ?s s] unfolding ring_def by (auto simp del: sorted_wrt.simps linked.simps intro: trans_le_add1)
    have blk: "block ?s (brk s) = {unat (brk s)..<unat (brk ?s)}" using nb by (simp add: block_def fin_def)
    have fb: "free_bytes ?s xs = free_bytes s xs" using f by (intro list_cong) auto
    have "free_bytes s xs \<inter> {unat (brk s)..<unat (brk ?s)} = {}" using R(6) by (fastforce simp: free_bytes_def block_def)
    then have h4: "block ?s (brk s) \<inter> free_bytes ?s xs = {}" unfolding blk fb by blast
    have h: "s_size ?s (brk s) \<noteq> 0" "fin ?s (brk s) \<le> unat (brk ?s)" using m(3) nb by (auto simp: fin_def)
    obtain t ys where t: "um_free (brk s + 16) ?s = Some t" "ring base t ys" "free_bytes t ys = free_bytes s xs \<union> {unat (brk s)..<unat (brk ?s)}" "brk t = brk ?s"
      "\<forall>a. unat a \<notin> free_bytes t ys \<longrightarrow> s_size t a = s_size ?s a"
      using free_run [OF r' R(11) h h4, unfolded blk fb] by blast
    obtain x where x: "x \<in> set ys" "unat x \<le> unat (brk s)" "unat (brk ?s) \<le> fin t x"
      using free_stretch [OF t(2), of "unat (brk s)" "unat (brk ?s)"] t(3) nb m(3) by auto
    have "n \<le> s_size t x" using x nb m(2) by (simp add: fin_def word_le_nat_alt)
    moreover have "freep t \<noteq> 0" using ringD(4,8,9) [OF t(2)] by force
    moreover have "s_size t a = s_size s a" if "unat a \<notin> free_bytes t ys" for a using t(3,5) that nb m(3) by auto
    moreover have "brk s \<noteq> - 1" using R(7) by (auto simp: unat_minus_one_64)
    then have "morecore grants n s = Some (freep t, t)"
      using True t(1) by (simp add: morecore_def sbrk_def m_def [symmetric])
    ultimately show ?thesis using t(2-4) x(1) nb m(3) by (intro disjI2 exI [of _ t] exI [of _ ys]) auto
  qed
qed

subsection \<open>The whole of malloc\<close>

lemma search_taken:
  assumes r: "ring base s xs" and n: "n \<noteq> 0" and x: "\<exists>x\<in>set xs. n \<le> s_size s x"
  shows "\<exists>r t ys. malloc_loop grants n (freep s) (s_ptr s (freep s)) s = Some (r, t) \<and> taken base n s xs r t ys"
proof -
  obtain rest where ro: "linked (s_ptr s) (freep s # rest) (freep s)" "freep s \<notin> set rest" and st: "set (rest @ [freep s]) = set (base # xs)"
    using ring_rotate [OF r] by metis
  obtain q p where q: "q \<in> set (freep s # rest)" "s_ptr s q = p" "p \<in> set (rest @ [freep s])" "n \<le> s_size s p"
    and m: "malloc_loop grants n (freep s) (s_ptr s (freep s)) s = Some (take_units n q p s)"
    using scan_round(1) [OF ro, of n grants] x unfolding st by auto
  have "p \<noteq> base" using q(4) n ringD(3) [OF r] by auto
  then have "p \<in> set xs" using q(3) unfolding st by simp
  moreover have "q \<in> set (rest @ [freep s])" using q(1) by auto
  then have "q \<in> set (base # xs)" unfolding st .
  ultimately show ?thesis using take_units_taken [OF r _ q(2) _ q(4) n] m by auto
qed

lemma malloc_loop_run:
  assumes r: "ring base s xs" and n: "n \<noteq> 0" "n < 2 ^ 27" and g: "grants_bounded grants"
  shows "malloc_loop grants n (freep s) (s_ptr s (freep s)) s = Some (0, s)
    \<or> (\<exists>u zs r t ys. malloc_loop grants n (freep s) (s_ptr s (freep s)) s = Some (r, t) \<and> ring base u zs \<and> unat (brk s) \<le> unat (brk u)
      \<and> free_bytes u zs = free_bytes s xs \<union> {unat (brk s)..<unat (brk u)} \<and> (\<forall>a. unat a \<notin> free_bytes u zs \<longrightarrow> s_size u a = s_size s a)
      \<and> taken base n u zs r t ys)"
proof (cases "\<exists>x\<in>set xs. n \<le> s_size s x")
  case True
  have "free_bytes s xs = free_bytes s xs \<union> {unat (brk s)..<unat (brk s)}" by simp
  then show ?thesis using search_taken [OF r n(1) True, of grants] r by (metis order_refl)
next
  case False
  obtain rest where ro: "linked (s_ptr s) (freep s # rest) (freep s)" "freep s \<notin> set rest" and st: "set (rest @ [freep s]) = set (base # xs)"
    using ring_rotate [OF r] by metis
  have "\<forall>x\<in>set (rest @ [freep s]). \<not> n \<le> s_size s x" unfolding st using False ringD(3) [OF r] n(1) by auto
  note loop = scan_round(2) [OF ro this, of grants]
  show ?thesis using morecore_run [OF r n(2) g]
  proof (elim disjE exE conjE)
    assume "morecore grants n s = Some (0, s)"
    then show ?thesis by (simp add: loop)
  next
    fix u zs
    assume u: "morecore grants n s = Some (freep u, u)" "freep u \<noteq> 0" "ring base u zs" "unat (brk s) < unat (brk u)"
      "free_bytes u zs = free_bytes s xs \<union> {unat (brk s)..<unat (brk u)}" "\<exists>x\<in>set zs. n \<le> s_size u x"
      "\<forall>a. unat a \<notin> free_bytes u zs \<longrightarrow> s_size u a = s_size s a"
    obtain r t ys where "malloc_loop grants n (freep u) (s_ptr u (freep u)) u = Some (r, t)" "taken base n u zs r t ys"
      using search_taken [OF u(3) n(1) u(6)] by metis
    then have "malloc_loop grants n (freep s) (s_ptr s (freep s)) s = Some (r, t) \<and> taken base n u zs r t ys" using u(1,2) loop by simp
    then show ?thesis using u(3-5,7) by (intro disjI2) (metis less_imp_le)
  qed
qed

lemma unat_nunits: "unat (nunits nbytes) = (unat nbytes + 15) div 16 + 1"
proof -
  have "(unat nbytes + 15) div 16 + 1 < 2 ^ 32" using unat_lt_32 [of nbytes] by simp
  then have "unat (of_nat ((unat nbytes + 15) div 16 + 1) :: uint32) = (unat nbytes + 15) div 16 + 1" by (intro unat_of_nat_small) simp
  then show ?thesis by (simp only: nunits_def) (simp add: add.commute)
qed

section \<open>The heap\<close>

text \<open>A pointer that has been handed out: its block is behind \<open>base\<close> and below the break, and no byte of it is free.\<close>

definition handed :: "uint64 \<Rightarrow> umS \<Rightarrow> uint64 list \<Rightarrow> uint64 \<Rightarrow> bool" where
  "handed base s xs r \<longleftrightarrow> unat r = unat (r - 16) + 16 \<and> unat base < unat (r - 16) \<and> s_size s (r - 16) \<noteq> 0 \<and> fin s (r - 16) \<le> unat (brk s)
     \<and> block s (r - 16) \<inter> free_bytes s xs = {}"

text \<open>The state of the allocator with the pointers \<open>live\<close> in use: \<^verbatim>\<open>malloc\<close> has not been called yet, or the free list is in order, and no two
  blocks in use overlap.\<close>

definition heap_ok :: "uint64 \<Rightarrow> umS \<Rightarrow> uint64 list \<Rightarrow> uint64 set \<Rightarrow> bool" where
  "heap_ok base s xs live \<longleftrightarrow>
     (freep s = 0 \<and> xs = [] \<and> live = {} \<and> base \<noteq> 0 \<and> unat base < unat (brk s) \<and> unat (brk s) \<le> 2 ^ 36 \<or> ring base s xs)
     \<and> (\<forall>r\<in>live. handed base s xs r) \<and> (\<forall>r\<in>live. \<forall>r'\<in>live. r \<noteq> r' \<longrightarrow> block s (r - 16) \<inter> block s (r' - 16) = {})"

lemma heap_start:
  assumes "heap_ok base s xs live"
  defines "s1 \<equiv> (if freep s = 0 then s\<lparr>s_ptr := (s_ptr s)(base := base), freep := base, s_size := (s_size s)(base := 0)\<rparr> else s)"
  shows "ring base s1 xs" "free_bytes s1 xs = free_bytes s xs" "brk s1 = brk s" "r \<in> live \<Longrightarrow> s_size s1 (r - 16) = s_size s (r - 16)"
proof -
  have "freep s \<noteq> 0" if "ring base s xs" using ringD(4,8) [OF that] ringD(9) [OF that, of "freep s"] by auto
  then have "freep s = 0 \<Longrightarrow> xs = [] \<and> live = {}" "freep s \<noteq> 0 \<Longrightarrow> ring base s xs" "freep s = 0 \<Longrightarrow> \<not> ring base s xs"
    using assms(1) by (auto simp: heap_ok_def)
  then show "ring base s1 xs" "free_bytes s1 xs = free_bytes s xs" "brk s1 = brk s" "r \<in> live \<Longrightarrow> s_size s1 (r - 16) = s_size s (r - 16)"
    using assms(1) by (auto simp: s1_def ring_def heap_ok_def free_bytes_def)
qed

lemma handed_cong:
  assumes h: "handed base s xs r" and sz: "s_size t (r - 16) = s_size s (r - 16)" and b: "unat (brk s) \<le> unat (brk t)"
    and f: "free_bytes t ys \<inter> block s (r - 16) = {}"
  shows "handed base t ys r" "block t (r - 16) = block s (r - 16)"
proof -
  have "fin t (r - 16) = fin s (r - 16)" using sz by (simp add: fin_def)
  then show "block t (r - 16) = block s (r - 16)" "handed base t ys r" using h b f sz by (auto simp: handed_def block_def)
qed

lemma heap_take:
  assumes h: "heap_ok base s xs live" and u: "ring base u zs" "unat (brk s) \<le> unat (brk u)" "free_bytes u zs = free_bytes s xs \<union> {unat (brk s)..<unat (brk u)}"
    and sz: "\<And>r. r \<in> live \<Longrightarrow> unat (r - 16) \<notin> free_bytes u zs \<Longrightarrow> s_size u (r - 16) = s_size s (r - 16)" and t: "taken base n u zs r t ys" "n \<noteq> 0"
  shows "r \<notin> live \<and> heap_ok base t ys (insert r live) \<and> (\<forall>a\<in>live. s_size t (a - 16) = s_size s (a - 16))"
proof -
  note T = t(1) [unfolded taken_def]
  have ha: "handed base s xs a" if "a \<in> live" for a using h that by (simp add: heap_ok_def)
  have out: "block s (a - 16) \<inter> free_bytes u zs = {}" if "a \<in> live" for a
    using ha [OF that] u(3) by (auto simp: handed_def block_def)
  have hd: "unat (a - 16) \<notin> free_bytes u zs" if "a \<in> live" for a
  proof -
    have "unat (a - 16) \<in> block s (a - 16)" using ha [OF that] fin_gt [of s "a - 16"] by (simp add: handed_def block_def)
    then show ?thesis using out [OF that] by blast
  qed
  have same: "s_size t (a - 16) = s_size s (a - 16)" if "a \<in> live" for a using T hd [OF that] sz [OF that] by simp
  have ft: "free_bytes t ys \<inter> block s (a - 16) = {}" if "a \<in> live" for a using T out [OF that] by blast
  have keep: "handed base t ys a" "block t (a - 16) = block s (a - 16)" if "a \<in> live" for a
    using handed_cong [OF ha [OF that] same [OF that] _ ft [OF that]] T u(2) by auto
  have "unat (r - 16) \<in> block t (r - 16)" using fin_gt [of t "r - 16"] T t(2) by (simp add: block_def)
  then have new: "r \<notin> live" using hd T by blast
  have "x < unat (brk u)" if "x \<in> free_bytes u zs" for x using that ringD(6) [OF u(1)] by (fastforce simp: free_bytes_def block_def)
  then have "x < unat (brk u)" if "x \<in> block t (r - 16)" for x using that T by blast
  moreover have gt: "unat (r - 16) < fin t (r - 16)" using fin_gt [of t "r - 16"] T t(2) by simp
  then have "fin t (r - 16) - 1 \<in> block t (r - 16)" by (auto simp: block_def)
  ultimately have "fin t (r - 16) - 1 < unat (brk t)" using T by auto
  then have "fin t (r - 16) \<le> unat (brk t)" using gt by linarith
  then have "handed base t ys r" using T t(2) by (auto simp: handed_def)
  moreover have "block t (r - 16) \<inter> block t (a - 16) = {}" if "a \<in> live" for a using T out [OF that] keep(2) [OF that] by blast
  moreover have "block t (a - 16) \<inter> block t (b - 16) = {}" if "a \<in> live" "b \<in> live" "a \<noteq> b" for a b
    using h that unfolding heap_ok_def keep(2) [OF that(1)] keep(2) [OF that(2)] by blast
  ultimately have "heap_ok base t ys (insert r live)" using T keep(1) unfolding heap_ok_def by (auto simp: Int_commute)
  then show ?thesis using new same by blast
qed

definition small_grants :: "uint64 \<Rightarrow> int \<Rightarrow> bool" where
  "small_grants b k \<longleftrightarrow> int (unat b) + k \<le> 2 ^ 27"

definition new_process :: umS where
  "new_process = \<lparr>s_ptr = (\<lambda>_. 0), s_size = (\<lambda>_. 0), freep = 0, brk = 0x4000\<rparr>"

lemma new_process_ok: "heap_ok 0x1000 new_process [] {}" "grants_bounded small_grants"
  by (auto simp: heap_ok_def new_process_def grants_bounded_def small_grants_def)

lemma first_malloc: "case um_malloc small_grants 0x1000 100 new_process of None \<Rightarrow> False | Some (r, t) \<Rightarrow> r \<noteq> 0"
  by code_simp

section \<open>Properties\<close>

text \<open>
  C10. \<^verbatim>\<open>malloc\<close> of up to \<open>2 ^ 31 - 32\<close> bytes always returns. It returns 0, with everything in order, or a pointer that was not in use, to a
  block that has room for the bytes and overlaps neither a block in use nor a free block; the sizes of the blocks in use do not
  change, and the free list stays sorted, coalesced and below the break.
\<close>

theorem um_malloc_fresh:
  assumes "heap_ok base s xs live" "grants_bounded grants" "unat nbytes \<le> 2 ^ 31 - 32"
  shows "\<exists>r t ys. um_malloc grants base nbytes s = Some (r, t) \<and> (\<forall>a\<in>live. s_size t (a - 16) = s_size s (a - 16))
    \<and> (if r = 0 then heap_ok base t ys live
       else r \<notin> live \<and> heap_ok base t ys (insert r live) \<and> {unat r..<unat r + unat nbytes} \<subseteq> block t (r - 16))"
proof -
  define s1 where "s1 = (if freep s = 0 then s\<lparr>s_ptr := (s_ptr s)(base := base), freep := base, s_size := (s_size s)(base := 0)\<rparr> else s)"
  note S = heap_start [OF assms(1), folded s1_def]
  let ?n = "nunits nbytes"
  have n: "?n \<noteq> 0" "?n < 2 ^ 27" using unat_nunits [of nbytes] assms(3) by (auto simp: word_less_nat_alt)
  have run: "um_malloc grants base nbytes s = malloc_loop grants ?n (freep s1) (s_ptr s1 (freep s1)) s1"
    by (simp add: um_malloc_def Let_def s1_def)
  show ?thesis using malloc_loop_run [OF S(1) n assms(2)]
  proof (elim disjE exE conjE)
    assume m: "malloc_loop grants ?n (freep s1) (s_ptr s1 (freep s1)) s1 = Some (0, s1)"
    have "handed base s1 xs a \<and> block s1 (a - 16) = block s (a - 16)" if "a \<in> live" for a
    proof -
      have a: "handed base s xs a" using assms(1) that by (simp add: heap_ok_def)
      then have "free_bytes s1 xs \<inter> block s (a - 16) = {}" using S(2) by (auto simp: handed_def)
      then show ?thesis using handed_cong [OF a S(4) [OF that], of xs] S(3) by simp
    qed
    then have "heap_ok base s1 xs live" using assms(1) S(1) by (auto simp: heap_ok_def)
    then show ?thesis using m run S(4) by auto
  next
    fix u zs r t ys
    assume m: "malloc_loop grants ?n (freep s1) (s_ptr s1 (freep s1)) s1 = Some (r, t)" and u: "ring base u zs" "unat (brk s1) \<le> unat (brk u)"
      "free_bytes u zs = free_bytes s1 xs \<union> {unat (brk s1)..<unat (brk u)}" "\<forall>a. unat a \<notin> free_bytes u zs \<longrightarrow> s_size u a = s_size s1 a"
      and t: "taken base ?n u zs r t ys"
    have "r \<notin> live \<and> heap_ok base t ys (insert r live) \<and> (\<forall>a\<in>live. s_size t (a - 16) = s_size s (a - 16))"
      using u S by (intro heap_take [OF assms(1) u(1) _ _ _ t n(1)]) auto
    moreover have "{unat r..<unat r + unat nbytes} \<subseteq> block t (r - 16)" "r \<noteq> 0"
      using t unat_nunits [of nbytes] by (auto simp: taken_def block_def fin_def)
    ultimately show ?thesis using m run by (intro exI [of _ r] exI [of _ t] exI [of _ ys]) simp
  qed
qed

theorem um_malloc_fresh_witness:
  "\<exists>r t ys. um_malloc small_grants 0x1000 100 new_process = Some (r, t) \<and> heap_ok 0x1000 t ys {r} \<and> {unat r..<unat r + 100} \<subseteq> block t (r - 16)"
proof -
  obtain r t where m: "um_malloc small_grants 0x1000 100 new_process = Some (r, t)" "r \<noteq> 0" using first_malloc by (auto split: option.splits)
  then show ?thesis using um_malloc_fresh [OF new_process_ok, of 100] by auto
qed

text \<open>
  C11. \<^verbatim>\<open>free\<close> of a pointer in use always returns; its block becomes free, joined with the free blocks it touches, nothing else becomes
  free or in use, and the sizes of the other blocks do not change.
\<close>

theorem um_free_returns:
  assumes "heap_ok base s xs live" "r \<in> live"
  shows "\<exists>t ys. um_free r s = Some t \<and> heap_ok base t ys (live - {r}) \<and> free_bytes t ys = free_bytes s xs \<union> block s (r - 16)
    \<and> (\<forall>a\<in>live - {r}. s_size t (a - 16) = s_size s (a - 16))"
proof -
  have ha: "handed base s xs a" if "a \<in> live" for a using assms(1) that by (simp add: heap_ok_def)
  have dj: "block s (a - 16) \<inter> block s (b - 16) = {}" if "a \<in> live" "b \<in> live" "a \<noteq> b" for a b using assms(1) that by (auto simp: heap_ok_def)
  have "ring base s xs" using assms by (auto simp: heap_ok_def)
  then obtain t ys where t: "um_free r s = Some t" "ring base t ys" "free_bytes t ys = free_bytes s xs \<union> block s (r - 16)" "brk t = brk s"
    "\<And>a. unat a \<notin> free_bytes t ys \<Longrightarrow> s_size t a = s_size s a"
    using free_run [of base s xs "r - 16"] ha [OF assms(2)] by (auto simp: handed_def)
  have out: "free_bytes t ys \<inter> block s (a - 16) = {}" if "a \<in> live - {r}" for a
    using ha [of a] dj [of a r] assms(2) that t(3) by (auto simp: handed_def)
  have same: "s_size t (a - 16) = s_size s (a - 16)" if "a \<in> live - {r}" for a
  proof -
    have "unat (a - 16) \<in> block s (a - 16)" using ha [of a] that fin_gt [of s "a - 16"] by (simp add: handed_def block_def)
    then show ?thesis using out [OF that] t(5) by blast
  qed
  have keep: "handed base t ys a" "block t (a - 16) = block s (a - 16)" if "a \<in> live - {r}" for a
    using handed_cong [OF ha same [OF that] _ out [OF that]] that t(4) by auto
  have "block t (a - 16) \<inter> block t (b - 16) = {}" if "a \<in> live - {r}" "b \<in> live - {r}" "a \<noteq> b" for a b
    using dj [of a b] that unfolding keep(2) [OF that(1)] keep(2) [OF that(2)] by blast
  then have "heap_ok base t ys (live - {r})" using t(2) keep(1) unfolding heap_ok_def by blast
  then show ?thesis using t(1,3) same by blast
qed

theorem um_free_returns_witness:
  "\<exists>s xs t ys. heap_ok 0x1000 s xs {0x4010} \<and> um_free 0x4010 s = Some t \<and> heap_ok 0x1000 t ys {}"
proof -
  let ?s = "\<lparr>s_ptr = (\<lambda>_. 0x1000), s_size = (\<lambda>a. if a = 0x4000 then 3 else 0), freep = 0x1000, brk = 0x5000\<rparr>"
  have h: "heap_ok 0x1000 ?s [] {0x4010}" by (simp add: heap_ok_def ring_def handed_def fin_def free_bytes_def block_def)
  then show ?thesis using um_free_returns [OF h, of "0x4010"] by auto
qed

end
