(* ===== verification/Utils.thy ===== *)
theory Utils
  imports Ulib
begin

text \<open>
  The programs \<^verbatim>\<open>user/cat.c\<close>, \<^verbatim>\<open>user/echo.c\<close> and \<^verbatim>\<open>user/wc.c\<close> on the state of \<open>Ulib\<close>. The value of a \<^verbatim>\<open>main\<close> is the
  status it exits with; \<^const>\<open>True\<close> as the value of \<open>cat\<close> and \<open>wc\<close> says that they have called \<^verbatim>\<open>exit(1)\<close>.
\<close>

section \<open>cat and echo\<close>

function cat :: "bytes list \<Rightarrow> bool \<Rightarrow> (userS, bool) kmon" where
  "cat cs err =
     (let (bs, cs') = read_piece 512 cs; n = length bs in
      if n > 0 then
        bnd (uwrite 1 bs) (\<lambda>r.
          if r \<noteq> of_nat n then thn (ufprintf 2 (cbytes ''cat: write error'' @ [nl]) []) (ret True)
          else cat cs' err)
      else if cs = [] \<and> err then thn (ufprintf 2 (cbytes ''cat: read error'' @ [nl]) []) (ret True)
      else ret False)"
  by pat_completeness auto
termination
proof (relation "measure (\<lambda>(cs, err). length (concat cs))", goal_cases)
  case (2 cs err x bs cs')
  then have "length (bs @ concat cs') = length (concat cs)" using read_piece_bytes [of _ cs bs cs'] by auto
  then show ?case using 2 by (cases bs) auto
qed simp

declare cat.simps [simp del]

fun cat_args :: "bytes list \<Rightarrow> (userS, cint) kmon" where
  "cat_args [] = ret 0"
| "cat_args (a # as) =
     bnd (gets ufiles) (\<lambda>f. case f a of
         None \<Rightarrow> thn (ufprintf 2 (cbytes ''cat: cannot open %s'' @ [nl]) [UStr (Some a)]) (ret 1)
       | Some (cs, err) \<Rightarrow> bnd (cat cs err) (\<lambda>x. if x then ret 1 else cat_args as))"

definition cat_main :: "bytes list \<Rightarrow> (userS, cint) kmon" where
  "cat_main argv =
     (if length argv \<le> 1 then
        bnd (gets ustdin) (\<lambda>(cs, err). bnd (cat cs err) (\<lambda>x. ret (if x then 1 else 0)))
      else cat_args (tl argv))"

fun echo_args :: "bytes list \<Rightarrow> (userS, unit) kmon" where
  "echo_args [] = ret ()"
| "echo_args (a # as) =
     bnd (uwrite 1 (cstr a)) (\<lambda>_.
     bnd (uwrite 1 (if as \<noteq> [] then cbytes '' '' else [nl])) (\<lambda>_. echo_args as))"

definition echo_main :: "bytes list \<Rightarrow> (userS, cint) kmon" where
  "echo_main argv = thn (echo_args (tl argv)) (ret 0)"

section \<open>wc\<close>

record wcS =
  wc_l :: cint
  wc_w :: cint
  wc_c :: cint
  inword :: bool

text \<open>The string of white space, with its NUL, and the body of the inner loop.\<close>

definition wc_white :: bytes where "wc_white = [32, 13, 9, 10, 11, 0]"

definition wc_byte :: "uint8 \<Rightarrow> wcS \<Rightarrow> wcS" where
  "wc_byte b s =
     (let s1 = s\<lparr>wc_c := wc_c s + 1\<rparr>;
          s2 = (if b = nl then s1\<lparr>wc_l := wc_l s1 + 1\<rparr> else s1) in
      if ustrchr wc_white b \<noteq> Some None then s2\<lparr>inword := False\<rparr>
      else if \<not> inword s2 then s2\<lparr>wc_w := wc_w s2 + 1, inword := True\<rparr>
      else s2)"

text \<open>The loop over the reads returns the counts, and whether the last \<^verbatim>\<open>read\<close> failed.\<close>

function wc_loop :: "bytes list \<Rightarrow> bool \<Rightarrow> wcS \<Rightarrow> wcS \<times> bool" where
  "wc_loop cs err s =
     (let (bs, cs') = read_piece 512 cs; n = length bs in
      if n > 0 then wc_loop cs' err (fold wc_byte bs s) else (s, cs = [] \<and> err))"
  by pat_completeness auto
termination
proof (relation "measure (\<lambda>(cs, err, s). length (concat cs))", goal_cases)
  case (2 cs err s x bs cs')
  then have "length (bs @ concat cs') = length (concat cs)" using read_piece_bytes [of _ cs bs cs'] by auto
  then show ?case using 2 by (cases bs) auto
qed simp

declare wc_loop.simps [simp del]

definition wc :: "bytes list \<Rightarrow> bool \<Rightarrow> bytes \<Rightarrow> (userS, bool) kmon" where
  "wc cs err name =
     (case wc_loop cs err \<lparr>wc_l = 0, wc_w = 0, wc_c = 0, inword = False\<rparr> of (s, failed) \<Rightarrow>
      if failed then thn (uprintf (cbytes ''wc: read error'' @ [nl]) []) (ret True)
      else thn (uprintf (cbytes ''%d %d %d %s'' @ [nl]) [UInt (wc_l s), UInt (wc_w s), UInt (wc_c s), UStr (Some name)]) (ret False))"

fun wc_args :: "bytes list \<Rightarrow> (userS, cint) kmon" where
  "wc_args [] = ret 0"
| "wc_args (a # as) =
     bnd (gets ufiles) (\<lambda>f. case f a of
         None \<Rightarrow> thn (uprintf (cbytes ''wc: cannot open %s'' @ [nl]) [UStr (Some a)]) (ret 1)
       | Some (cs, err) \<Rightarrow> bnd (wc cs err a) (\<lambda>x. if x then ret 1 else wc_args as))"

definition wc_main :: "bytes list \<Rightarrow> (userS, cint) kmon" where
  "wc_main argv =
     (if length argv \<le> 1 then
        bnd (gets ustdin) (\<lambda>(cs, err). bnd (wc cs err []) (\<lambda>x. ret (if x then 1 else 0)))
      else wc_args (tl argv))"

section \<open>Reading to the end\<close>

text \<open>The bytes that a program reads until \<^verbatim>\<open>read\<close> returns no more, and whether the last \<^verbatim>\<open>read\<close> fails.\<close>

fun fdata :: "ufile \<Rightarrow> bytes" where
  "fdata (cs, err) = concat (takeWhile (\<lambda>c. c \<noteq> []) cs)"

fun read_fails :: "ufile \<Rightarrow> bool" where
  "read_fails (cs, err) \<longleftrightarrow> err \<and> (\<forall>c\<in>set cs. c \<noteq> [])"

lemma read_piece_data:
  "0 < k \<Longrightarrow> read_piece k cs = (bs, cs') \<Longrightarrow> bs \<noteq> [] \<Longrightarrow> fdata (cs, err) = bs @ fdata (cs', err) \<and> read_fails (cs', err) = read_fails (cs, err)"
  by (cases cs) (auto simp: not_le split: if_splits)

lemma read_piece_end: "0 < k \<Longrightarrow> read_piece k cs = ([], cs') \<Longrightarrow> fdata (cs, err) = [] \<and> read_fails (cs, err) = (cs = [] \<and> err)"
  by (cases cs) auto

declare fdata.simps [simp del] read_fails.simps [simp del]

section \<open>What cat writes\<close>

definition cat_error :: bytes where "cat_error = cbytes ''cat: read error'' @ [nl]"

lemma msgs:
  "writes_all 2 s \<Longrightarrow> ufprintf 2 (cbytes ''cat: read error'' @ [nl]) [] s = Ok () (written 2 cat_error s)"
  "writes_all 2 s \<Longrightarrow> ufprintf 2 (cbytes ''cat: cannot open %s'' @ [nl]) [UStr (Some a)] s = Ok () (written 2 (cbytes ''cat: cannot open '' @ cstr a @ [nl]) s)"
  "writes_all 1 s \<Longrightarrow> uprintf (cbytes ''wc: read error'' @ [nl]) [] s = Ok () (written 1 (cbytes ''wc: read error'' @ [nl]) s)"
  "writes_all 1 s \<Longrightarrow> uprintf (cbytes ''wc: cannot open %s'' @ [nl]) [UStr (Some a)] s = Ok () (written 1 (cbytes ''wc: cannot open '' @ cstr a @ [nl]) s)"
  by (simp_all add: ufprintf_def uprintf_def vprintf_run cat_error_def cbytes_def chr_def of_char_def)

lemma written_swap: "fd \<noteq> fd' \<Longrightarrow> written fd a (written fd' b s) = written fd' b (written fd a s)"
  by (simp add: written_def fun_upd_twist)

lemma cat_run:
  assumes "writes_all 1 s" "writes_all 2 s"
  shows "cat cs err s = Ok (read_fails (cs, err))
    (written 2 (if read_fails (cs, err) then cat_error else []) (written 1 (fdata (cs, err)) s))"
  using assms
proof (induction cs err arbitrary: s rule: cat.induct)
  case (1 cs err)
  obtain bs cs' where rp: "read_piece 512 cs = (bs, cs')" by force
  show ?case
  proof (cases "bs = []")
    case True
    then show ?thesis using rp read_piece_end [of 512 cs cs' err] "1.prems"
      by (subst cat.simps) (auto simp: thn_Ok [OF msgs(1)])
  next
    case False
    note d = read_piece_data [OF _ rp False, of err]
    have "cat cs err s = cat cs' err (written 1 bs s)"
      using rp False "1.prems" by (subst cat.simps) (simp add: bnd_Ok [OF uwrite_all])
    also have "\<dots> = Ok (read_fails (cs', err)) (written 2 (if read_fails (cs', err) then cat_error else []) (written 1 (fdata (cs', err)) (written 1 bs s)))"
      using "1.IH" [OF rp [symmetric] refl refl] False "1.prems" by simp
    finally show ?thesis using d by simp
  qed
qed

text \<open>What \<^verbatim>\<open>cat\<close> with arguments writes to the standard output and to the error output, and its status.\<close>

fun cat_spec :: "(bytes \<Rightarrow> ufile option) \<Rightarrow> bytes list \<Rightarrow> bytes \<times> bytes \<times> cint" where
  "cat_spec f [] = ([], [], 0)"
| "cat_spec f (a # as) =
     (case f a of
        None \<Rightarrow> ([], cbytes ''cat: cannot open '' @ cstr a @ [nl], 1)
      | Some u \<Rightarrow> if read_fails u then (fdata u, cat_error, 1) else case cat_spec f as of (o1, o2, r) \<Rightarrow> (fdata u @ o1, o2, r))"

lemma cat_args_run:
  "writes_all 1 s \<Longrightarrow> writes_all 2 s \<Longrightarrow>
    cat_args as s = (case cat_spec (ufiles s) as of (o1, o2, r) \<Rightarrow> Ok r (written 2 o2 (written 1 o1 s)))"
proof (induction as arbitrary: s)
  case (Cons a as)
  show ?case
  proof (cases "ufiles s a")
    case None
    then show ?thesis using Cons.prems by (simp add: gets_def bnd_def thn_def msgs)
  next
    case (Some u)
    obtain cs err where u: "u = (cs, err)" by force
    show ?thesis
      using Some Cons.IH [of "written 1 (fdata u) s"] Cons.prems
      by (auto simp: u gets_def bnd_def cat_run [OF Cons.prems] split: prod.splits)
  qed
qed simp

section \<open>What wc counts\<close>

definition white :: "uint8 \<Rightarrow> bool" where "white b \<longleftrightarrow> b \<in> {32, 13, 9, 10, 11}"

text \<open>The words of a text are counted at their first bytes.\<close>

definition word_starts :: "bytes \<Rightarrow> nat set" where
  "word_starts bs = {i. i < length bs \<and> \<not> white (bs ! i) \<and> (i = 0 \<or> white (bs ! (i - 1)))}"

lemma white_ustrchr: "ustrchr wc_white b \<noteq> Some None \<longleftrightarrow> white b"
  by (simp add: wc_white_def white_def)

lemma word_starts_snoc:
  "word_starts (bs @ [b]) = word_starts bs \<union> (if \<not> white b \<and> (bs = [] \<or> white (last bs)) then {length bs} else {})"
  by (cases "bs = []") (auto simp: word_starts_def nth_append last_conv_nth less_Suc_eq split: if_splits)

lemma finite_word_starts [simp]: "finite (word_starts bs)" "length bs \<notin> word_starts bs"
  by (simp_all add: word_starts_def)

lemma card_word_starts: "card (word_starts bs) \<le> length bs"
  using card_mono [of "{..<length bs}" "word_starts bs"] by (auto simp: word_starts_def)

lemma wc_fold:
  "fold wc_byte bs \<lparr>wc_l = 0, wc_w = 0, wc_c = 0, inword = False\<rparr> = \<lparr>wc_l = of_nat (count_list bs nl), wc_w = of_nat (card (word_starts bs)),
     wc_c = of_nat (length bs), inword = (bs \<noteq> [] \<and> \<not> white (last bs))\<rparr>"
proof (induction bs rule: rev_induct)
  case Nil
  then show ?case by (simp add: word_starts_def)
next
  case (snoc b bs)
  then show ?case using white_ustrchr [of b] by (auto simp: wc_byte_def Let_def word_starts_snoc)
qed

lemma wc_loop_run: "wc_loop cs err s = (fold wc_byte (fdata (cs, err)) s, read_fails (cs, err))"
proof (induction cs err s rule: wc_loop.induct)
  case (1 cs err s)
  obtain bs cs' where rp: "read_piece 512 cs = (bs, cs')" by force
  show ?case
  proof (cases "bs = []")
    case True
    then show ?thesis using rp read_piece_end [of 512 cs cs' err] by (subst wc_loop.simps) simp
  next
    case False
    then show ?thesis using rp "1.IH" [OF rp [symmetric] refl refl] read_piece_data [OF _ rp False, of err]
      by (subst wc_loop.simps) simp
  qed
qed

definition wc_line :: "bytes \<Rightarrow> bytes \<Rightarrow> bytes" where
  "wc_line d name = decimal (count_list d nl) @ [32] @ decimal (card (word_starts d)) @ [32] @ decimal (length d) @ [32] @ cstr name @ [nl]"

lemma wc_printf:
  assumes "writes_all 1 s" "l < 2 ^ 31" "w < 2 ^ 31" "c < 2 ^ 31"
  shows "uprintf (cbytes ''%d %d %d %s'' @ [nl]) [UInt (of_nat l), UInt (of_nat w), UInt (of_nat c), UStr (Some name)] s
    = Ok () (written 1 (decimal l @ [32] @ decimal w @ [32] @ decimal c @ [32] @ cstr name @ [nl]) s)"
  using assms by (simp add: uprintf_def vprintf_run cbytes_def chr_def of_char_def)

lemma wc_run:
  assumes "writes_all 1 s" "length (fdata (cs, err)) < 2 ^ 31"
  shows "wc cs err name s = Ok (read_fails (cs, err))
    (written 1 (if read_fails (cs, err) then cbytes ''wc: read error'' @ [nl] else wc_line (fdata (cs, err)) name) s)"
proof -
  let ?d = "fdata (cs, err)"
  have "count_list ?d nl < 2 ^ 31" "card (word_starts ?d) < 2 ^ 31"
    using assms(2) count_le_length [of ?d nl] card_word_starts [of ?d] by linarith+
  then show ?thesis using assms by (simp add: wc_def wc_loop_run wc_fold wc_line_def thn_def bnd_def msgs wc_printf)
qed

fun wc_spec :: "(bytes \<Rightarrow> ufile option) \<Rightarrow> bytes list \<Rightarrow> bytes \<times> cint" where
  "wc_spec f [] = ([], 0)"
| "wc_spec f (a # as) =
     (case f a of
        None \<Rightarrow> (cbytes ''wc: cannot open '' @ cstr a @ [nl], 1)
      | Some u \<Rightarrow> if read_fails u then (cbytes ''wc: read error'' @ [nl], 1)
          else case wc_spec f as of (out, r) \<Rightarrow> (wc_line (fdata u) a @ out, r))"

lemma wc_args_run:
  assumes "writes_all 1 s" "\<And>a u. a \<in> set as \<Longrightarrow> ufiles s a = Some u \<Longrightarrow> length (fdata u) < 2 ^ 31"
  shows "wc_args as s = (case wc_spec (ufiles s) as of (out, r) \<Rightarrow> Ok r (written 1 out s))"
  using assms
proof (induction as arbitrary: s)
  case (Cons a as)
  show ?case
  proof (cases "ufiles s a")
    case None
    then show ?thesis using Cons.prems by (simp add: gets_def bnd_def thn_def msgs)
  next
    case (Some u)
    obtain cs err where u: "u = (cs, err)" by force
    have len: "length (fdata (cs, err)) < 2 ^ 31" using Cons.prems(2) [of a u] Some u by simp
    have "wc_args as (written 1 (wc_line (fdata u) a) s) = (case wc_spec (ufiles s) as of (out, r) \<Rightarrow> Ok r (written 1 (wc_line (fdata u) a @ out) s))"
      by (subst Cons.IH) (use Cons.prems in \<open>auto split: prod.splits\<close>)
    then show ?thesis using Some by (auto simp: u gets_def bnd_def wc_run [OF Cons.prems(1) len] split: prod.splits)
  qed
qed simp

section \<open>Properties\<close>

text \<open>
  \<^verbatim>\<open>cat\<close> with file names copies, when its writes succeed, exactly the bytes of the files in order to the standard output and exits
  with 0; it stops at the first file that cannot be opened or read, with the message on the error output and the status 1.
\<close>

theorem cat_main_copies:
  assumes "writes_all 1 s" "writes_all 2 s" "args \<noteq> []"
  shows "cat_main (prog # args) s = (case cat_spec (ufiles s) args of (o1, o2, r) \<Rightarrow> Ok r (written 2 o2 (written 1 o1 s)))"
  using assms cat_args_run by (simp add: cat_main_def Suc_le_eq)

theorem echo_main_prints:
  assumes "writes_all 1 s"
  shows "echo_main (prog # args) s = Ok 0 (written 1 (concat (map (\<lambda>a. cstr a @ [32]) (butlast args)) @ (if args = [] then [] else cstr (last args) @ [nl])) s)"
  using assms by (induction args arbitrary: s) (auto simp: echo_main_def thn_def bnd_def uwrite_all cbytes_def chr_def of_char_def)

text \<open>
  C27. \<^verbatim>\<open>wc\<close> with file names, none longer than the largest \<^verbatim>\<open>int\<close>: however \<^verbatim>\<open>read\<close> splits a file, the line printed for it has in
  decimal the number of its newlines, of its words, counted at every byte that is not white space and does not follow another
  such byte (a NUL is not white space), and of its bytes, and its name; the program exits with 0. At the first file that cannot be
  opened or read it prints a message, to the standard output, and exits with 1.
\<close>

theorem wc_main_counts:
  assumes "writes_all 1 s" "args \<noteq> []" "\<And>a u. a \<in> set args \<Longrightarrow> ufiles s a = Some u \<Longrightarrow> length (fdata u) < 2 ^ 31"
  shows "wc_main (prog # args) s = (case wc_spec (ufiles s) args of (out, r) \<Rightarrow> Ok r (written 1 out s))"
  using assms wc_args_run [of s args] by (simp add: wc_main_def Suc_le_eq)

definition wit_userS :: userS where
  "wit_userS = \<lparr>uout = \<lambda>_. [], uwr = \<lambda>fd bs. (length bs, of_nat (length bs)),
     ufiles = [cbytes ''f'' \<mapsto> ([cbytes ''a '', cbytes ''b'', [10]], False)], ustdin = ([], False)\<rparr>"

theorem wc_main_counts_witness:
  "\<exists>t. wc_main [cbytes ''wc'', cbytes ''f'', cbytes ''g''] wit_userS = Ok 1 t
    \<and> uout t 1 = cbytes ''1 2 4 f'' @ [10] @ cbytes ''wc: cannot open g'' @ [10]"
proof -
  let ?f = "cbytes ''f''" and ?g = "cbytes ''g''" and ?u = "([cbytes ''a '', cbytes ''b'', [10]], False)"
  have d: "fdata ?u = [97, 32, 98, 10]" by (simp add: fdata.simps cbytes_def chr_def of_char_def)
  have f: "ufiles wit_userS ?f = Some ?u" "ufiles wit_userS ?g = None" by (simp_all add: wit_userS_def cbytes_def chr_def of_char_def)
  have wh: "\<not> white 97" "white 32" "\<not> white 98" "white 10" by (simp_all add: white_def)
  have "word_starts [] = {}" by (simp add: word_starts_def)
  then have ws: "word_starts (fdata ?u) = {0, 2}"
    unfolding d using word_starts_snoc [of "[]" 97] word_starts_snoc [of "[97]" 32] word_starts_snoc [of "[97, 32]" 98] word_starts_snoc [of "[97, 32, 98]" 10]
    by (auto simp: wh numeral_2_eq_2)
  have "wc_line (fdata ?u) ?f = cbytes ''1 2 4 f'' @ [10]"
    unfolding wc_line_def ws unfolding d by (simp add: decimal.simps cbytes_def chr_def of_char_def)
  then have "wc_spec (ufiles wit_userS) [?f, ?g] = (cbytes ''1 2 4 f'' @ [10] @ cbytes ''wc: cannot open g'' @ [10], 1)"
    by (simp add: f read_fails.simps) (simp add: cbytes_def chr_def of_char_def)
  moreover have "wc_main (cbytes ''wc'' # [?f, ?g]) wit_userS = (case wc_spec (ufiles wit_userS) [?f, ?g] of (out, r) \<Rightarrow> Ok r (written 1 out wit_userS))"
    by (rule wc_main_counts) (use f d in \<open>auto simp: writes_all_def wit_userS_def split: if_splits\<close>)
  ultimately show ?thesis by (simp add: written_def wit_userS_def)
qed

end
