(* ===== verification/Spec2Isabelle.thy ===== *)
theory Spec2Isabelle
  imports Spinlock ProcInv Trap ConsoleInv LogInv VirtioInv Grep ShRun CafeInv ParlorInv FsRead UmallocInv Utils
begin

text \<open>
  A verification library for this repository: the xv6 kernel with copy-on-write fork, the priority scheduler and
  \<^verbatim>\<open>waitx\<close> (\<^verbatim>\<open>src/initial-xv6/src/kernel\<close>), parts of its user programs (\<^verbatim>\<open>src/initial-xv6/src/user\<close>), the
  builder of its file system image (\<^verbatim>\<open>src/initial-xv6/src/mkfs\<close>), and the two thread exercises (\<^verbatim>\<open>src/concurrency/1.c\<close> and \<^verbatim>\<open>2.c\<close>).

  \<^bold>\<open>How the program is modelled.\<close> A kernel routine is a function on the kernel state with one of four outcomes (\<open>Prelude\<close>): it
  returns (\<open>Ok\<close>), it calls \<^verbatim>\<open>panic\<close> (\<open>Panic\<close>), it does what C leaves undefined or the hardware would fault on (\<open>Fault\<close>), or it
  gives up the processor (\<open>Sleep\<close>, with the state in which the scheduler takes over; what a routine does after it is woken is
  a definition of its own). Routines are composed in the order of the source with \<open>bnd\<close> and \<open>thn\<close>; \<open>wp\<close> is the weakest
  precondition for returning, \<open>keeps\<close> the frame condition. The kernel state is a record that each component extends:
  \<open>machine\<close> (physical memory and held locks), \<open>kmem\<close> (allocator), \<open>kern\<close> (process table), \<open>consS\<close>, \<open>sleepS\<close>, \<open>bioS\<close>, \<open>logS\<close>,
  \<open>fsS\<close>, \<open>fileS\<close>, \<open>sysS\<close>, \<open>trapS\<close>, and beside them \<open>vdiskS\<close> for the disk driver. Integers keep their width: \<^verbatim>\<open>uint64\<close>, \<^verbatim>\<open>uint\<close>,
  \<^verbatim>\<open>int\<close> and \<^verbatim>\<open>uchar\<close> are words, \<^verbatim>\<open>int\<close> read with \<^const>\<open>sint\<close>. Pages, page tables and trapframes are bytes of the physical memory;
  process, file, inode and buffer pointers are indices of the tables they point into.

  \<^bold>\<open>The theories and the code.\<close>
  \<^item> \<open>Prelude\<close>, \<open>Machine\<close>: \<^verbatim>\<open>types.h\<close>, \<^verbatim>\<open>param.h\<close>, \<^verbatim>\<open>riscv.h\<close>, \<^verbatim>\<open>memlayout.h\<close>; the outcome type and its rules.
  \<^item> \<open>KString\<close>: \<^verbatim>\<open>string.c\<close>. \<open>Kalloc\<close>: \<^verbatim>\<open>kalloc.c\<close> with the reference counts of copy-on-write, and the locale \<open>page_allocator\<close>.
  \<^item> \<open>Spinlock\<close>: \<^verbatim>\<open>spinlock.c\<close> on several harts, as a step relation over every access to the lock word.
  \<^item> \<open>Vm\<close>, \<open>VmFrame\<close>, \<open>VmInv\<close>, \<open>UserMem\<close>, \<open>Cow\<close>: \<^verbatim>\<open>vm.c\<close>, the fault handler \<^verbatim>\<open>cowtest_h\<close> of \<^verbatim>\<open>trap.c\<close>, and their proofs.
  \<^item> \<open>ProcData\<close>, \<open>Proc\<close>, \<open>ProcInv\<close>, \<open>ProcLife\<close>: \<^verbatim>\<open>proc.h\<close> and \<^verbatim>\<open>proc.c\<close>, with one round of each scheduler.
  \<^item> \<open>Console\<close>, \<open>ConsoleInv\<close>, \<open>Ring\<close>, \<open>Queues\<close>: \<^verbatim>\<open>uart.c\<close>, \<^verbatim>\<open>console.c\<close>, \<^verbatim>\<open>printf.c\<close>; the locales of bounded queues and
    their interpretations on the three ring buffers of the kernel.
  \<^item> \<open>Sleeplock\<close>, \<open>SleepInv\<close>, \<open>Bio\<close>, \<open>BlockCache\<close>, \<open>BioInv\<close>: \<^verbatim>\<open>sleeplock.c\<close>, \<^verbatim>\<open>bio.c\<close>; the locale \<open>block_cache\<close> is the
    contract of the cache, interpreted on the model.
  \<^item> \<open>Log\<close>, \<open>LogSpec\<close>, \<open>LogInv\<close>: \<^verbatim>\<open>log.c\<close>, the log on the disk as a specification, and the refinement.
  \<^item> \<open>Virtio\<close>, \<open>VirtioInv\<close>: \<^verbatim>\<open>virtio_disk.c\<close> and the proof that it implements the disk access of \<open>Bio\<close>.
  \<^item> \<open>Fs\<close>, \<open>FsInv\<close>, \<open>File\<close>, \<open>Exec\<close>, \<open>Sysfile\<close>: \<^verbatim>\<open>fs.c\<close>, \<^verbatim>\<open>file.c\<close>, \<^verbatim>\<open>pipe.c\<close>, \<^verbatim>\<open>exec.c\<close>, \<^verbatim>\<open>sysfile.c\<close>.
  \<^item> \<open>Trap\<close>: \<^verbatim>\<open>trap.c\<close>, \<^verbatim>\<open>plic.c\<close>, \<^verbatim>\<open>syscall.c\<close>, \<^verbatim>\<open>sysproc.c\<close>.
  \<^item> \<open>Grep\<close>: \<^verbatim>\<open>user/grep.c\<close>. \<open>Sh\<close>, \<open>ShInv\<close>: the parser of \<^verbatim>\<open>user/sh.c\<close>; \<open>ShRun\<close>: its \<^verbatim>\<open>runcmd\<close> and the loop of \<^verbatim>\<open>main\<close>. \<open>Umalloc\<close>, \<open>UmallocInv\<close>: \<^verbatim>\<open>user/umalloc.c\<close>.
    \<open>Ulib\<close>: \<^verbatim>\<open>user/ulib.c\<close> and \<^verbatim>\<open>user/printf.c\<close>. \<open>Utils\<close>: \<^verbatim>\<open>user/cat.c\<close>, \<^verbatim>\<open>user/echo.c\<close> and \<^verbatim>\<open>user/wc.c\<close>.
  \<^item> \<open>Mkfs\<close>, \<open>MkfsFile\<close>, \<open>MkfsInv\<close>: \<^verbatim>\<open>mkfs/mkfs.c\<close>, on the same layout of superblock, inodes and directory entries as \<open>Fs\<close>.
    \<open>FsRead\<close>: \<^verbatim>\<open>readi\<close> and \<^verbatim>\<open>bmap\<close> through the contract of the cache, and the kernel on an image of \<^verbatim>\<open>mkfs\<close>.
  \<^item> \<open>Cafe\<close>, \<open>CafeInv\<close>: \<^verbatim>\<open>concurrency/1.c\<close>, as a step relation over all interleavings of the customer threads.
  \<^item> \<open>Parlor\<close>, \<open>ParlorInv\<close>: \<^verbatim>\<open>concurrency/2.c\<close>, as a step relation over the machine, customer and ice cream threads.

  \<^bold>\<open>What is shown.\<close>
  \<^item> Memory: \<^verbatim>\<open>kinit\<close> puts every page of RAM on the free list once; page tables stay well formed and \<^verbatim>\<open>mappages\<close> changes one
    translation; \<^verbatim>\<open>uvmcopy\<close> shares pages with exact flags and reference counts, and parent and child can read what the parent could read
    before; a store fault gives a private, mapped and writable copy and nothing else changes; \<^verbatim>\<open>copyin\<close> always returns and delivers the bytes of the process up to
    the first page that is not mapped for it, and \<^verbatim>\<open>fetchstr\<close> of a running process returns exactly the string at the address, if it ends within the limit.
  \<^item> Concurrency: spinlocks exclude in every interleaving of the harts, and the thread view of locks that the kernel model uses is
    refined by them; sleep locks exclude; \<^verbatim>\<open>wakeup\<close> and \<^verbatim>\<open>kill\<close> change exactly the processes they should; pids are unique.
  \<^item> Scheduling: the dynamic priority is bounded, a round of the \<^verbatim>\<open>PBS\<close> scheduler picks a process with the largest value and
    the fewest runs, and a tick charges each process by its state.
  \<^item> Storage: the driver with its interrupt implements the one-step disk access; the cache keeps its invariant and returns the
    current content; \<^verbatim>\<open>commit\<close> is atomic for a stop after any number of disk writes, recovery installs what was committed,
    \<^verbatim>\<open>begin_op\<close>, \<^verbatim>\<open>log_write\<close> and \<^verbatim>\<open>end_op\<close> account for transactions, and the reservations of \<^verbatim>\<open>begin_op\<close> leave room for every operation that keeps to its
    \<^verbatim>\<open>MAXOPBLOCKS\<close> blocks, up to the last block of a log of \<^verbatim>\<open>LOGSIZE\<close> blocks; on-disk inodes round-trip. The image that \<^verbatim>\<open>mkfs\<close> writes has, in the layout of the
    kernel, every file with exactly its bytes, the root directory, and a bitmap of exactly the blocks in use, and \<^verbatim>\<open>readi\<close> of the kernel on that image delivers exactly these bytes.
  \<^item> Queues: pipes, console input and UART output implement bounded queues on lists; \<^verbatim>\<open>pipewrite\<close> appends the bytes of the writer, and
    \<^verbatim>\<open>piperead\<close> stores the front of the pipe in the buffer of the reader and loses one byte exactly when a \<^verbatim>\<open>copyout\<close> fails; \<^verbatim>\<open>printint\<close> prints what reads back.
  \<^item> User programs: the matcher of \<^verbatim>\<open>grep\<close> decides the meaning of its patterns and \<^verbatim>\<open>grep\<close> prints the matching lines; the shell
    parser is total, builds well-formed commands only, and reads back what a printer of commands writes; the programs of a line are
    started with the descriptors that the command says and no stray ends of pipes; \<^verbatim>\<open>malloc\<close> and \<^verbatim>\<open>free\<close> always return, blocks in use never overlap,
    and the free list stays sorted and coalesced; \<^verbatim>\<open>atoi\<close> reads back what \<^verbatim>\<open>printf\<close> prints; \<^verbatim>\<open>cat\<close> copies, and \<^verbatim>\<open>wc\<close> counts lines, words and bytes
    however \<^verbatim>\<open>read\<close> splits the files.
  \<^item> Cafe: customers and baristas are used exclusively, the count of wasted coffees agrees with the messages, and the total waiting time
    is a sum over some of the customers; two faults are shown for all inputs: any two threads about to add to the total can lose one of the two additions, and an invalid order
    blocks the next customer.
  \<^item> Ice cream parlor: the mutex is held exactly by the thread that is in a critical section, each ice cream has one thread, and
    two faults are exhibited: a thread that locks the mutex twice stops the whole simulation, and an ice cream that is given up
    before it is started makes the next one of the customer wait for ever.

  \<^bold>\<open>Bounds and fuel.\<close> Loops of the kernel are recursive functions with a measure or over a list. Where a bound is a parameter, it
  is enough: the descriptor chain is followed \<open>NUM + 1\<close> times, and one more free panics; the loop of the disk interrupt runs at
  most $2^{16}$ times, the range of its counters; the shell parser gets \<open>4 * length + 8\<close> levels, and \<open>parse_parsed\<close> shows that no
  line exhausts them. A hart that spins on a lock and a thread that waits are steps of a relation and need no bound. The loops of \<^verbatim>\<open>malloc\<close>
  and \<^verbatim>\<open>free\<close> over the circular list are partial functions, whose value None stands for a loop without end; the properties show
  that they have a value.

  \<^bold>\<open>Hypotheses on what is outside.\<close> The disk device is a parameter of the driver theorem with the behaviour of the virtio
  specification as the hypothesis \<open>virtio_device\<close>; its witness has a concrete device. The interrupt handler of the disk is a
  parameter of \<open>devintr\<close>. Whether the kernel grants a request for memory is a parameter of \<open>um_malloc\<close>, bounded by
  \<open>grants_bounded\<close>; the files of the host are a parameter of \<open>mkfs_main\<close>; how the kernel answers a \<^verbatim>\<open>write\<close> and the files that \<^verbatim>\<open>open\<close> finds are fields of the state of
  the user programs, and \<open>writes_all\<close> says that writes succeed. Which system calls of the shell the kernel refuses is a parameter of \<open>runcmd\<close>. Symbols set by the linker are constant fields of the state.

  \<^bold>\<open>Simplifications.\<close> A kernel routine runs without interference between the points where it can give up the processor, as its locks
  provide; this holds for a round of a scheduler too. The cache sees the disk as an access in one step, which the driver theorem justifies. The depth \<open>noff\<close> of
  interrupt disabling and the times of the two thread exercises are integers. The negation of the smallest \<^verbatim>\<open>int\<close> in \<^verbatim>\<open>printint\<close> wraps around. A failing \<^verbatim>\<open>malloc\<close> in the constructors
  of the shell and the text printed before its \<^verbatim>\<open>syntax\<close> panic are left out.

  \<^bold>\<open>Not modelled.\<close> Assembly and boot (\<^verbatim>\<open>entry.S\<close>, \<^verbatim>\<open>start.c\<close>, \<^verbatim>\<open>main.c\<close>, \<^verbatim>\<open>swtch.S\<close>, \<^verbatim>\<open>trampoline.S\<close>, \<^verbatim>\<open>kernelvec.S\<close>) and the
  routines that only program device or control registers (\<^verbatim>\<open>uartinit\<close>, \<^verbatim>\<open>plicinit\<close>, \<^verbatim>\<open>trapinit\<close>, \<^verbatim>\<open>kvminithart\<close>,
  \<^verbatim>\<open>virtio_disk_init\<close>): they have no state of the program beyond the registers. The other user programs and tests, which are sequences of system calls, and the reading of the input in the two thread exercises.
\<close>

end
